(* ===== verification/Quicp_Prelude.thy ===== *)
theory Quicp_Prelude
  imports Main "HOL-Library.Word"
begin

unbundle bit_operations_syntax

section \<open>Shared vocabulary of the QUICP development\<close>

text \<open>
  This theory names the machine types of the Rust sources, models the parts of the Rust
  standard library that several components use (checked arithmetic, big-endian byte
  conversions, \<open>Result\<close> chaining) and proves the generic facts the component theories
  rest on.  Conventions:
  \<^item> \<open>u8\<close>, \<open>u16\<close>, \<open>u32\<close>, \<open>u64\<close> are words of that width, so wrap-around is the
    word's own; \<open>usize\<close> is \<open>nat\<close> on a 64-bit target, with every checked addition or
    multiplication of the source written against \<open>usize_max\<close>;
  \<^item> a \<open>Result<T, E>\<close> is the sum \<open>'e + 't\<close> with \<open>Inl\<close> the error; \<open>rbind\<close> is the
    question-mark operator and the collection \<open>result_iff\<close> inverts its success cases.
\<close>

named_theorems result_iff \<open>inversion rules for successful results\<close>
named_theorems cursor_simps \<open>evaluation of cursor reads on a known rest\<close>

type_synonym u8 = "8 word"
type_synonym u16 = "16 word"
type_synonym u32 = "32 word"
type_synonym u64 = "64 word"
type_synonym usize = nat
type_synonym bytes = "u8 list"

subsection \<open>Results\<close>

definition rbind :: "'e + 'a \<Rightarrow> ('a \<Rightarrow> 'e + 'b) \<Rightarrow> 'e + 'b" where
  "rbind m f = (case m of Inl e \<Rightarrow> Inl e | Inr x \<Rightarrow> f x)"

definition map_err :: "('e \<Rightarrow> 'f) \<Rightarrow> 'e + 'a \<Rightarrow> 'f + 'a" where
  "map_err g m = (case m of Inl e \<Rightarrow> Inl (g e) | Inr x \<Rightarrow> Inr x)"

definition ok_or :: "'a option \<Rightarrow> 'e \<Rightarrow> 'e + 'a" where
  "ok_or m e = (case m of None \<Rightarrow> Inl e | Some x \<Rightarrow> Inr x)"

definition ensure :: "bool \<Rightarrow> 'e \<Rightarrow> 'e + unit" where
  "ensure b e = (if b then Inr () else Inl e)"

lemma rbind_simps [simp]:
  "rbind (Inl e) f = Inl e"
  "rbind (Inr x) f = f x"
  by (simp_all add: rbind_def)

lemma map_err_simps [simp]:
  "map_err g (Inl e) = Inl (g e)"
  "map_err g (Inr x) = Inr x"
  by (simp_all add: map_err_def)

lemma ok_or_simps [simp]:
  "ok_or None e = Inl e"
  "ok_or (Some x) e = Inr x"
  by (simp_all add: ok_or_def)

lemma ensure_simps [simp]:
  "ensure True e = Inr ()"
  "ensure False e = Inl e"
  by (simp_all add: ensure_def)

lemma rbind_Inr_iff [result_iff]: "rbind m f = Inr y \<longleftrightarrow> (\<exists>x. m = Inr x \<and> f x = Inr y)"
  by (cases m) auto

lemma map_err_Inr_iff [result_iff]: "map_err g m = Inr y \<longleftrightarrow> m = Inr y"
  by (cases m) auto

lemma ok_or_Inr_iff [result_iff]: "ok_or m e = Inr y \<longleftrightarrow> m = Some y"
  by (cases m) auto

lemma ensure_Inr_iff [result_iff]: "ensure b e = Inr u \<longleftrightarrow> b"
  by (cases b) auto

lemma if_Inl_Inr_iff [result_iff]: "(if b then Inl e else m) = Inr y \<longleftrightarrow> \<not> b \<and> m = Inr y"
  by simp

lemma rbind_split:
  "P (rbind m f) \<longleftrightarrow> (\<forall>e. m = Inl e \<longrightarrow> P (Inl e)) \<and> (\<forall>x. m = Inr x \<longrightarrow> P (f x))"
  by (cases m) auto

lemma rbind_split_asm:
  "P (rbind m f) \<longleftrightarrow> \<not> ((\<exists>e. m = Inl e \<and> \<not> P (Inl e)) \<or> (\<exists>x. m = Inr x \<and> \<not> P (f x)))"
  by (cases m) auto

lemmas rbind_splits = rbind_split rbind_split_asm

subsection \<open>Checked and saturating machine arithmetic\<close>

text \<open>
  \<open>usize\<close> and \<open>u64\<close> share their range on the 64-bit targets the crate builds for, so
  \<open>u64::try_from(usize)\<close> and \<open>usize::try_from(u64)\<close> never fail.
\<close>

definition usize_max :: nat where "usize_max = 2 ^ 64 - 1"

definition checked_add :: "nat \<Rightarrow> nat \<Rightarrow> nat option" where
  "checked_add a b = (if a + b \<le> usize_max then Some (a + b) else None)"

definition checked_mul :: "nat \<Rightarrow> nat \<Rightarrow> nat option" where
  "checked_mul a b = (if a * b \<le> usize_max then Some (a * b) else None)"

definition checked_sub :: "nat \<Rightarrow> nat \<Rightarrow> nat option" where
  "checked_sub a b = (if b \<le> a then Some (a - b) else None)"

definition saturating_add :: "nat \<Rightarrow> nat \<Rightarrow> nat" where
  "saturating_add a b = min (a + b) usize_max"

definition saturating_mul :: "nat \<Rightarrow> nat \<Rightarrow> nat" where
  "saturating_mul a b = min (a * b) usize_max"

definition div_ceil :: "nat \<Rightarrow> nat \<Rightarrow> nat" where
  "div_ceil a b = (if a mod b = 0 then a div b else a div b + 1)"

lemma checked_add_Some [simp]:
  "checked_add a b = Some c \<longleftrightarrow> c = a + b \<and> a + b \<le> usize_max"
  by (auto simp: checked_add_def)

lemma checked_mul_Some [simp]:
  "checked_mul a b = Some c \<longleftrightarrow> c = a * b \<and> a * b \<le> usize_max"
  by (auto simp: checked_mul_def)

lemma checked_sub_Some [simp]:
  "checked_sub a b = Some c \<longleftrightarrow> b \<le> a \<and> c = a - b"
  by (auto simp: checked_sub_def)

subsection \<open>Big-endian byte conversions\<close>

text \<open>
  \<open>be_bytes n w\<close> is \<open>w.to_be_bytes()\<close> for a word of \<open>n\<close> octets and \<open>from_be\<close> is
  \<open>from_be_bytes\<close>; the latter is also the shift-and-or loop of \<open>decode_varint\<close>.
\<close>

definition be_bytes :: "nat \<Rightarrow> 'a::len word \<Rightarrow> bytes" where
  "be_bytes n w = map (\<lambda>i. ucast (drop_bit (8 * i) w)) (rev [0..<n])"

definition be_step :: "'a::len word \<Rightarrow> u8 \<Rightarrow> 'a word" where
  "be_step a b = push_bit 8 a OR ucast b"

definition from_be :: "bytes \<Rightarrow> 'a::len word" where
  "from_be bs = foldl be_step 0 bs"

lemma length_be_bytes [simp]: "length (be_bytes n w) = n"
  by (simp add: be_bytes_def)

lemma from_be_snoc: "from_be (bs @ [b]) = be_step (from_be bs) b"
  by (simp add: from_be_def)

lemma bit_from_be:
  "bit (from_be bs :: 'a::len word) i \<longleftrightarrow>
     i < LENGTH('a) \<and> i div 8 < length bs \<and> bit (rev bs ! (i div 8)) (i mod 8)"
proof (induction bs arbitrary: i rule: rev_induct)
  case Nil
  then show ?case by (simp add: from_be_def)
next
  case (snoc b bs)
  show ?case
  proof (cases "i < 8")
    case True
    then show ?thesis
      by (auto simp: from_be_snoc be_step_def bit_or_iff bit_push_bit_iff bit_ucast_iff
          dest: bit_imp_le_length)
  next
    case False
    then obtain j where j: "i = j + 8" by (metis add.commute le_Suc_ex not_less)
    have "\<not> bit b (j + 8)"
      using bit_imp_le_length [of b "j + 8"] by auto
    moreover have "(j + 8) div 8 = Suc (j div 8)" by simp
    ultimately show ?thesis
      by (auto simp: from_be_snoc be_step_def bit_or_iff bit_push_bit_iff bit_ucast_iff snoc.IH j)
  qed
qed

lemma rev_be_bytes_nth: "k < n \<Longrightarrow> rev (be_bytes n w) ! k = ucast (drop_bit (8 * k) w)"
  by (simp add: be_bytes_def rev_map)

lemma from_be_be_bytes:
  fixes w :: "'a::len word"
  assumes "LENGTH('a) = 8 * n"
  shows "from_be (be_bytes n w) = w"
proof (rule bit_word_eqI)
  fix i assume i: "i < LENGTH('a)"
  then have "i div 8 < n" using assms by auto
  with i show "bit (from_be (be_bytes n w) :: 'a word) i = bit w i"
    by (simp add: bit_from_be rev_be_bytes_nth bit_ucast_iff bit_drop_bit_eq)
qed

lemma be_bytes_from_be:
  assumes "length bs = n" and "8 * n \<le> LENGTH('a)"
  shows "be_bytes n (from_be bs :: 'a::len word) = bs"
proof -
  have "rev (be_bytes n (from_be bs :: 'a word)) = rev bs"
  proof (rule nth_equalityI)
    show "length (rev (be_bytes n (from_be bs :: 'a word))) = length (rev bs)"
      using assms by simp
  next
    fix k assume "k < length (rev (be_bytes n (from_be bs :: 'a word)))"
    then have k: "k < n" by simp
    show "rev (be_bytes n (from_be bs :: 'a word)) ! k = rev bs ! k"
    proof (rule bit_word_eqI)
      fix i assume i: "i < LENGTH(8)"
      then have "(8 * k + i) div 8 = k" and "(8 * k + i) mod 8 = i" by simp_all
      moreover have "8 * k + i < LENGTH('a)" using k i assms by simp
      ultimately show "bit (rev (be_bytes n (from_be bs :: 'a word)) ! k) i = bit (rev bs ! k) i"
        using k i assms
        by (simp add: rev_be_bytes_nth bit_ucast_iff bit_drop_bit_eq bit_from_be)
    qed
  qed
  then show ?thesis by simp
qed

lemmas be_bytes_roundtrip [simp] =
  from_be_be_bytes [where 'a = 16 and n = 2, simplified]
  from_be_be_bytes [where 'a = 32 and n = 4, simplified]
  from_be_be_bytes [where 'a = 64 and n = 8, simplified]

subsection \<open>Lists\<close>

lemma take_append_drop_eq: "take n xs = ys \<Longrightarrow> xs = ys @ drop n xs"
  by auto

lemma prefix_lengthD: "xs = ys @ zs \<Longrightarrow> length ys \<le> length xs"
  by simp

end
