(* ===== verification/Wire_Codec.thy ===== *)
theory Wire_Codec
  imports Quicp_Prelude
begin

section \<open>Canonical variable integers and the bounded cursor (src/wire.rs)\<close>

text \<open>
  \<open>encode_varint\<close> and \<open>decode_varint\<close> are the QUIC variable-length integers of
  \<open>src/wire.rs\<close>, and \<open>cursor\<close> is its bounded reader: a borrowed input and an offset, every
  read checked against the end of the input.  The locale \<open>prefix_codec\<close> is the contract every
  self-delimiting format of the protocol gives its callers.
\<close>

datatype codec_error =
    Truncated | NonCanonical | InvalidField | UnknownType | TrailingBytes | Limit

definition MAX_WIRE_OFFSET :: u64 where
  "MAX_WIRE_OFFSET = 2 ^ 62 - 1"

definition encode_varint :: "u64 \<Rightarrow> bytes" where
  "encode_varint value =
     (if value \<le> 63 then [ucast value]
      else if value \<le> 16383 then be_bytes 2 ((ucast value :: u16) OR 0x4000)
      else if value \<le> 1073741823 then be_bytes 4 ((ucast value :: u32) OR 0x80000000)
      else be_bytes 8 (value OR 0xc000000000000000))"

definition varint_minimum :: "nat \<Rightarrow> u64" where
  "varint_minimum n =
     (if n = 1 then 0 else if n = 2 then 64 else if n = 4 then 16384 else 1073741824)"

definition decode_varint :: "bytes \<Rightarrow> codec_error + u64 \<times> nat" where
  "decode_varint input =
     (case input of
        [] \<Rightarrow> Inl Truncated
      | first # _ \<Rightarrow>
          let n = 2 ^ unat (drop_bit 6 first) in
          if length input < n then Inl Truncated
          else let value = foldl be_step (ucast (first AND 0x3f)) (tl (take n input)) in
            if value < varint_minimum n then Inl NonCanonical else Inr (value, n))"

subsection \<open>The cursor\<close>

record cursor =
  cinput :: bytes
  coffset :: nat

definition cursor_new :: "bytes \<Rightarrow> cursor" where
  "cursor_new input = \<lparr>cinput = input, coffset = 0\<rparr>"

definition cursor_rest :: "cursor \<Rightarrow> bytes" where
  "cursor_rest c = drop (coffset c) (cinput c)"

definition cursor_u8 :: "cursor \<Rightarrow> codec_error + u8 \<times> cursor" where
  "cursor_u8 c =
     (if coffset c < length (cinput c)
      then Inr (cinput c ! coffset c, c\<lparr>coffset := coffset c + 1\<rparr>) else Inl Truncated)"

definition cursor_take :: "nat \<Rightarrow> cursor \<Rightarrow> codec_error + bytes \<times> cursor" where
  "cursor_take n c =
     (case checked_add (coffset c) n of
        None \<Rightarrow> Inl Limit
      | Some end \<Rightarrow>
          if end \<le> length (cinput c)
          then Inr (take n (drop (coffset c) (cinput c)), c\<lparr>coffset := end\<rparr>)
          else Inl Truncated)"

definition cursor_u16 :: "cursor \<Rightarrow> codec_error + u16 \<times> cursor" where
  "cursor_u16 c =
     (if coffset c + 2 \<le> length (cinput c)
      then Inr (from_be (take 2 (drop (coffset c) (cinput c))), c\<lparr>coffset := coffset c + 2\<rparr>)
      else Inl Truncated)"

definition cursor_u32 :: "cursor \<Rightarrow> codec_error + u32 \<times> cursor" where
  "cursor_u32 c = rbind (cursor_take 4 c) (\<lambda>(bs, c'). Inr (from_be bs, c'))"

definition cursor_u64 :: "cursor \<Rightarrow> codec_error + u64 \<times> cursor" where
  "cursor_u64 c = rbind (cursor_take 8 c) (\<lambda>(bs, c'). Inr (from_be bs, c'))"

definition cursor_varint :: "cursor \<Rightarrow> codec_error + u64 \<times> cursor" where
  "cursor_varint c =
     rbind (decode_varint (cursor_rest c)) (\<lambda>(v, n). Inr (v, c\<lparr>coffset := coffset c + n\<rparr>))"

definition cursor_remaining :: "cursor \<Rightarrow> bytes \<times> cursor" where
  "cursor_remaining c = (cursor_rest c, c\<lparr>coffset := length (cinput c)\<rparr>)"

definition cursor_is_empty :: "cursor \<Rightarrow> bool" where
  "cursor_is_empty c \<longleftrightarrow> coffset c = length (cinput c)"

subsection \<open>The contract of a self-delimiting format\<close>

text \<open>
  A client of such a format appends encodings to a stream and later cuts the stream back into
  values.  It needs two laws: a decoder started on an encoding followed by anything returns the
  value and the exact length (\<open>decode_encode\<close>), and a decoder that succeeds consumed precisely
  the encoding of its result (\<open>encode_decode\<close>), which is canonicity.
\<close>

locale prefix_codec =
  fixes valid :: "'v \<Rightarrow> bool"
    and enc :: "'v \<Rightarrow> bytes"
    and dec :: "bytes \<Rightarrow> 'e + 'v \<times> nat"
  assumes decode_encode: "valid v \<Longrightarrow> dec (enc v @ r) = Inr (v, length (enc v))"
    and encode_decode: "dec i = Inr (v, n) \<Longrightarrow> valid v \<and> n \<le> length i \<and> take n i = enc v"
begin

lemma enc_inject: "valid v \<Longrightarrow> valid w \<Longrightarrow> enc v = enc w \<Longrightarrow> v = w"
  using decode_encode [of v "[]"] decode_encode [of w "[]"] by simp

lemma prefix_free:
  assumes "valid v" and "valid w" and "enc v @ r = enc w @ s"
  shows "v = w \<and> r = s"
proof -
  have "dec (enc v @ r) = dec (enc w @ s)" using assms(3) by simp
  then have "v = w" using decode_encode [OF assms(1)] decode_encode [OF assms(2)] by simp
  with assms(3) show ?thesis by simp
qed

lemma consumed_length: "dec i = Inr (v, n) \<Longrightarrow> n = length (enc v)"
  using encode_decode [of i v n] by (metis length_take min.absorb2)

lemma decode_split: "dec i = Inr (v, n) \<Longrightarrow> i = enc v @ drop n i"
  using encode_decode [of i v n] by (metis append_take_drop_id)

lemma decode_extend: "dec i = Inr (v, n) \<Longrightarrow> dec (i @ r) = Inr (v, n)"
  using decode_encode [of v "drop n i @ r"] encode_decode [of i v n] decode_split [of i v n]
    consumed_length [of i v n]
  by (metis append.assoc)

lemma stream_unique:
  assumes "list_all valid vs" and "list_all valid ws" and "\<forall>v. valid v \<longrightarrow> enc v \<noteq> []"
    and "concat (map enc vs) = concat (map enc ws)"
  shows "vs = ws"
  using assms
proof (induction vs arbitrary: ws)
  case Nil
  then show ?case by (cases ws) auto
next
  case (Cons v vs)
  then obtain w ws' where ws: "ws = w # ws'" by (cases ws) auto
  with Cons.prems have "v = w \<and> concat (map enc vs) = concat (map enc ws')"
    using prefix_free [of v w "concat (map enc vs)" "concat (map enc ws')"] by simp
  with Cons ws show ?case by simp
qed

end

subsection \<open>Bit-level facts\<close>

lemma be_bytes_ucast:
  fixes w :: "'a::len word"
  assumes "8 * n \<le> LENGTH('b)"
  shows "be_bytes n (ucast w :: 'b::len word) = be_bytes n w"
proof -
  have "ucast (drop_bit (8 * i) (ucast w :: 'b word)) = (ucast (drop_bit (8 * i) w) :: u8)"
    if "i < n" for i
  proof (rule bit_word_eqI)
    fix k assume "k < LENGTH(8)"
    then have "8 * i + k < LENGTH('b)" using that assms by simp
    then show "bit (ucast (drop_bit (8 * i) (ucast w :: 'b word)) :: u8) k
             = bit (ucast (drop_bit (8 * i) w) :: u8) k"
      by (simp add: bit_ucast_iff bit_drop_bit_eq)
  qed
  then show ?thesis by (simp add: be_bytes_def)
qed

lemma from_be_Cons: "from_be (b # bs) = foldl be_step (ucast b) bs"
  by (simp add: from_be_def be_step_def)

lemma bit_63: "bit (63 :: int) k \<longleftrightarrow> k < 6"
proof -
  have "(63 :: int) = mask 6" by (simp add: mask_eq_exp_minus_1)
  then show ?thesis by (simp only: bit_mask_iff) auto
qed

lemma masked_value:
  assumes n: "0 < n" "n \<le> 8" and bs: "length bs = n"
  shows "foldl be_step (ucast (hd bs AND 0x3f)) (tl bs) = take_bit (8 * n - 2) (from_be bs :: u64)"
proof -
  obtain b cs where b: "bs = b # cs" using n bs by (cases bs) auto
  have "from_be ((b AND 0x3f) # cs) = take_bit (8 * n - 2) (from_be (b # cs) :: u64)"
  proof (rule bit_word_eqI)
    fix i assume "i < LENGTH(64)"
    consider "i div 8 < length cs" | "i div 8 = length cs" | "length cs < i div 8" by linarith
    then show "bit (from_be ((b AND 0x3f) # cs) :: u64) i
             = bit (take_bit (8 * n - 2) (from_be (b # cs) :: u64)) i"
    proof cases
      case 1
      then have "i < 8 * n - 2" using bs b by simp
      with 1 show ?thesis by (simp add: bit_from_be bit_take_bit_iff nth_append)
    next
      case 2
      have "i = 8 * length cs + i mod 8" using 2 by (metis mult_div_mod_eq)
      then have "(i < 8 * n - 2) = (i mod 8 < 6)" using bs b by auto
      with 2 show ?thesis
        by (auto simp: bit_from_be bit_take_bit_iff nth_append bit_and_iff bit_63)
    next
      case 3
      then show ?thesis by (simp add: bit_from_be bit_take_bit_iff)
    qed
  qed
  with b show ?thesis by (simp add: from_be_Cons)
qed

lemma from_be_be_bytes_take:
  fixes w :: u64
  assumes "n \<le> 8"
  shows "from_be (be_bytes n w) = take_bit (8 * n) w"
proof (rule bit_word_eqI)
  fix i assume i: "i < LENGTH(64)"
  have "i div 8 < n \<longleftrightarrow> i < 8 * n" by auto
  with i show "bit (from_be (be_bytes n w) :: u64) i = bit (take_bit (8 * n) w) i"
    by (auto simp: bit_from_be rev_be_bytes_nth bit_ucast_iff bit_drop_bit_eq bit_take_bit_iff)
qed

lemma ucast_or_word: "(ucast (a OR b) :: 'b::len word) = ucast (a :: 'a::len word) OR ucast b"
  by (rule bit_word_eqI) (auto simp: bit_ucast_iff bit_or_iff)

lemma take_bit_word_iff: "take_bit m (w :: 'a::len word) = w \<longleftrightarrow> unat w < 2 ^ m"
  by (simp add: word_unat_eq_iff unsigned_take_bit_eq take_bit_nat_eq_self_iff)

definition varint_word :: "nat \<Rightarrow> u64 \<Rightarrow> u64 \<Rightarrow> u64" where
  "varint_word n t v = v OR push_bit (8 * n - 2) t"

lemma encode_varint_tagged:
  "encode_varint v =
     (if v \<le> 63 then be_bytes 1 (varint_word 1 0 v)
      else if v \<le> 16383 then be_bytes 2 (varint_word 2 1 v)
      else if v \<le> 1073741823 then be_bytes 4 (varint_word 4 2 v)
      else be_bytes 8 (varint_word 8 3 v))"
proof -
  have "be_bytes 2 ((ucast v :: u16) OR 0x4000) = be_bytes 2 (v OR 0x4000)"
    using be_bytes_ucast [where 'b = 16, of 2 "v OR 0x4000"] by (simp add: ucast_or_word)
  moreover have "be_bytes 4 ((ucast v :: u32) OR 0x80000000) = be_bytes 4 (v OR 0x80000000)"
    using be_bytes_ucast [where 'b = 32, of 4 "v OR 0x80000000"] by (simp add: ucast_or_word)
  ultimately show ?thesis
    by (simp add: encode_varint_def varint_word_def be_bytes_def)
qed


lemma varint_word_parts:
  assumes nt: "(n, t) \<in> {(1, 0), (2, 1), (4, 2), (8, 3)}" and v: "unat v < 2 ^ (8 * n - 2)"
  shows "take_bit (8 * n - 2) (varint_word n t v) = v"
    and "drop_bit (8 * n - 2) (varint_word n t v) = t"
    and "take_bit (8 * n) (varint_word n t v) = varint_word n t v"
proof -
  have tv: "take_bit (8 * n - 2) v = v" using v by (simp add: take_bit_word_iff)
  have "drop_bit (8 * n - 2) v = 0"
    by (metis tv drop_bit_take_bit diff_self_eq_0 take_bit_0)
  then show "drop_bit (8 * n - 2) (varint_word n t v) = t"
    unfolding varint_word_def drop_bit_or using nt
    by (auto simp: drop_bit_push_bit) 
  show "take_bit (8 * n - 2) (varint_word n t v) = v"
    unfolding varint_word_def take_bit_or tv using nt by auto
  have "(2::nat) ^ (8 * n - 2) \<le> 2 ^ (8 * n)" by (rule power_increasing) auto
  with v have "unat v < 2 ^ (8 * n)" by (rule less_le_trans)
  then have "take_bit (8 * n) v = v" by (simp add: take_bit_word_iff)
  then show "take_bit (8 * n) (varint_word n t v) = varint_word n t v"
    unfolding varint_word_def take_bit_or using nt by auto
qed

lemma varint_tag_cases:
  fixes b :: u8
  shows "(2 ^ unat (drop_bit 6 b), ucast (drop_bit 6 b))
           \<in> {(1 :: nat, 0 :: u64), (2, 1), (4, 2), (8, 3)}"
proof -
  have "unat b < 256" using unsigned_less [of b, where 'a = nat] by simp
  then have "unat (drop_bit 6 b) < 4"
    unfolding unat_drop_bit_eq by (simp add: drop_bit_eq_div)
  then have "unat (drop_bit 6 b) \<in> {0, 1, 2, 3}" by auto
  then have "drop_bit 6 b \<in> {0, 1, 2, 3}"
    by (auto simp: word_unat_eq_iff)
  then show ?thesis by auto
qed

lemma decode_varint_head:
  assumes len: "length bs = n" and n: "n = 2 ^ unat (drop_bit 6 (hd bs))"
  shows "decode_varint (bs @ r) =
    (let v = take_bit (8 * n - 2) (from_be bs) in
      if v < varint_minimum n then Inl NonCanonical else Inr (v, n))"
proof -
  have n8: "0 < n" "n \<le> 8" using n varint_tag_cases [of "hd bs"] by auto
  obtain f cs where bs: "bs = f # cs" using n8 len by (cases bs) auto
  have v: "foldl be_step (ucast (f AND 0x3f)) cs = take_bit (8 * n - 2) (from_be bs :: u64)"
    using masked_value [of n bs] n8 len bs by simp
  have "take n (bs @ r) = bs" using len by simp
  then show ?thesis
    using bs len n v by (simp add: decode_varint_def Let_def)
qed

lemma hd_be_bytes: "0 < n \<Longrightarrow> hd (be_bytes n w) = ucast (drop_bit (8 * (n - 1)) w)"
  by (cases n) (simp_all add: be_bytes_def)

lemma drop_hd_be_bytes:
  fixes w :: u64
  assumes "0 < n" and "take_bit (8 * n) w = w"
  shows "ucast (drop_bit 6 (hd (be_bytes n w))) = drop_bit (8 * n - 2) w"
proof (rule bit_word_eqI)
  fix i assume i: "i < LENGTH(64)"
  have e: "8 * (n - 1) + (6 + i) = 8 * n - 2 + i" using assms(1) by simp
  have "\<not> bit w (8 * n - 2 + i)" if "2 \<le> i"
  proof -
    have "\<not> 8 * n - 2 + i < 8 * n" using that assms(1) by arith
    then show ?thesis using bit_take_bit_iff [of "8 * n" w "8 * n - 2 + i"] assms(2) by simp
  qed
  then show "bit (ucast (drop_bit 6 (hd (be_bytes n w))) :: u64) i = bit (drop_bit (8 * n - 2) w) i"
    using i assms(1) e
    by (cases "i < 2") (auto simp: hd_be_bytes bit_ucast_iff bit_drop_bit_eq)
qed

lemma decode_varint_word:
  assumes nt: "(n, t) \<in> {(1, 0), (2, 1), (4, 2), (8, 3)}" and v: "unat v < 2 ^ (8 * n - 2)"
  shows "decode_varint (be_bytes n (varint_word n t v) @ r) =
           (if v < varint_minimum n then Inl NonCanonical else Inr (v, n))"
proof -
  let ?X = "varint_word n t v"
  note parts = varint_word_parts [OF nt v]
  have n8: "0 < n" "n \<le> 8" using nt by auto
  have "ucast (drop_bit 6 (hd (be_bytes n ?X))) = t"
    using drop_hd_be_bytes [OF n8(1) parts(3)] parts(2) by simp
  then have "n = 2 ^ unat (drop_bit 6 (hd (be_bytes n ?X)))"
    using nt varint_tag_cases [of "hd (be_bytes n ?X)"] by auto
  then show ?thesis
    using decode_varint_head [of "be_bytes n ?X" n r] parts from_be_be_bytes_take [OF n8(2), of ?X]
    by (simp add: Let_def)
qed

lemma take_or_push_drop: "take_bit m (w :: 'a::len word) OR push_bit m (drop_bit m w) = w"
proof (rule bit_word_eqI)
  fix n assume "n < LENGTH('a)"
  then show "bit (take_bit m w OR push_bit m (drop_bit m w)) n = bit w n"
    by (cases "n < m") (auto simp: bit_or_iff bit_take_bit_iff bit_push_bit_iff bit_drop_bit_eq)
qed

lemma decode_varint_inv:
  assumes "decode_varint i = Inr (v, n)"
  obtains t where "(n, t) \<in> {(1, 0), (2, 1), (4, 2), (8, 3)}" and "n \<le> length i"
    and "take n i = be_bytes n (varint_word n t v)"
    and "unat v < 2 ^ (8 * n - 2)" and "varint_minimum n \<le> v"
proof -
  obtain f cs where i: "i = f # cs" using assms by (cases i) (auto simp: decode_varint_def)
  let ?bs = "take n i" let ?X = "from_be ?bs :: u64" let ?t = "ucast (drop_bit 6 f) :: u64"
  have n: "n = 2 ^ unat (drop_bit 6 f)" and len: "n \<le> length i"
    using assms i by (auto simp: decode_varint_def Let_def split: if_splits)
  have nt: "(n, ?t) \<in> {(1, 0), (2, 1), (4, 2), (8, 3)}" using varint_tag_cases [of f] n by simp
  then have n8: "0 < n" "n \<le> 8" by auto
  have hd: "hd ?bs = f" using i n8 by (cases n) auto
  have dv: "decode_varint (?bs @ drop n i) = (let v = take_bit (8 * n - 2) ?X in
      if v < varint_minimum n then Inl NonCanonical else Inr (v, n))"
    by (rule decode_varint_head) (use len n hd in auto)
  then have v: "v = take_bit (8 * n - 2) ?X" and min: "varint_minimum n \<le> v"
    using assms by (auto simp: Let_def split: if_splits)
  have bX: "be_bytes n ?X = ?bs" by (rule be_bytes_from_be) (use len n8 in auto)
  then have tX: "take_bit (8 * n) ?X = ?X"
    using from_be_be_bytes_take [OF n8(2), of ?X] by simp
  then have "drop_bit (8 * n - 2) ?X = ?t"
    using drop_hd_be_bytes [OF n8(1) tX] bX hd by simp
  then have X: "?X = varint_word n ?t v"
    using take_or_push_drop [of "8 * n - 2" ?X] by (simp add: varint_word_def v)
  have "unat v < 2 ^ (8 * n - 2)"
    unfolding v by (simp add: unsigned_take_bit_eq)
  with that [OF nt len] X bX min show thesis by simp
qed


lemmas word_order_nat = word_le_nat_alt word_less_nat_alt

lemma MAX_WIRE_OFFSET_iff: "v \<le> MAX_WIRE_OFFSET \<longleftrightarrow> unat v < 2 ^ 62"
  by (auto simp: MAX_WIRE_OFFSET_def word_le_nat_alt)

lemma decode_encode_varint:
  assumes "v \<le> MAX_WIRE_OFFSET"
  shows "decode_varint (encode_varint v @ r) = Inr (v, length (encode_varint v))"
proof -
  have v: "unat v < 2 ^ 62" using assms by (simp add: MAX_WIRE_OFFSET_iff)
  consider "unat v \<le> 63" | "63 < unat v" "unat v \<le> 16383"
    | "16383 < unat v" "unat v \<le> 1073741823" | "1073741823 < unat v" by linarith
  then show ?thesis
  proof cases
    case 1
    then show ?thesis using decode_varint_word [of 1 0 v r]
      by (simp add: encode_varint_tagged varint_minimum_def word_order_nat)
  next
    case 2
    then show ?thesis using decode_varint_word [of 2 1 v r]
      by (simp add: encode_varint_tagged varint_minimum_def word_order_nat)
  next
    case 3
    then show ?thesis using decode_varint_word [of 4 2 v r]
      by (simp add: encode_varint_tagged varint_minimum_def word_order_nat)
  next
    case 4
    then show ?thesis using decode_varint_word [of 8 3 v r] v
      by (simp add: encode_varint_tagged varint_minimum_def word_order_nat)
  qed
qed

lemma encode_decode_varint:
  assumes "decode_varint i = Inr (v, n)"
  shows "v \<le> MAX_WIRE_OFFSET \<and> n \<le> length i \<and> take n i = encode_varint v"
proof -
  obtain t where t: "(n, t) \<in> {(1, 0), (2, 1), (4, 2), (8, 3)}" and le: "n \<le> length i"
    and i: "take n i = be_bytes n (varint_word n t v)"
    and v: "unat v < 2 ^ (8 * n - 2)" "varint_minimum n \<le> v"
    using decode_varint_inv [OF assms] by blast
  have "encode_varint v = be_bytes n (varint_word n t v)" using t v
    by (auto simp: encode_varint_tagged varint_minimum_def word_order_nat)
  moreover have "(2::nat) ^ (8 * n - 2) \<le> 2 ^ 62" using t by (auto intro: power_increasing)
  ultimately show ?thesis using i le v(1) by (simp add: MAX_WIRE_OFFSET_iff)
qed

interpretation varint: prefix_codec "\<lambda>v. v \<le> MAX_WIRE_OFFSET" encode_varint decode_varint
  by unfold_locales (fact decode_encode_varint, fact encode_decode_varint)

lemma encode_varint_length: "length (encode_varint v) \<in> {1, 2, 4, 8}"
  by (simp add: encode_varint_def)

lemma encode_varint_le_8: "length (encode_varint v) \<le> 8"
  using encode_varint_length [of v] by auto

lemma encode_varint_nonempty: "encode_varint v \<noteq> []"
  using encode_varint_length [of v] by auto

subsection \<open>Cursor reads\<close>

text \<open>
  \<open>reads c bs d\<close>: the cursor \<open>c\<close> has the octets \<open>bs\<close> in front of it and \<open>d\<close> is the
  cursor behind them.  Every read is characterised by it, so a decoder that succeeds has read the
  concatenation of its fields' encodings.
\<close>

definition cursor_ok :: "cursor \<Rightarrow> bool" where
  "cursor_ok c \<longleftrightarrow> coffset c \<le> length (cinput c) \<and> length (cinput c) \<le> usize_max"

definition advance :: "nat \<Rightarrow> cursor \<Rightarrow> cursor" where
  "advance n c = c\<lparr>coffset := coffset c + n\<rparr>"

definition reads :: "cursor \<Rightarrow> bytes \<Rightarrow> cursor \<Rightarrow> bool" where
  "reads c bs d \<longleftrightarrow> (\<exists>r. cursor_rest c = bs @ r) \<and> d = advance (length bs) c"

lemma advance_simps [simp]:
  "cinput (advance n c) = cinput c"
  "coffset (advance n c) = coffset c + n"
  "advance m (advance n c) = advance (n + m) c"
  "cursor_rest (advance n c) = drop n (cursor_rest c)"
  by (simp_all add: advance_def cursor_rest_def add.commute)

lemma cursor_new_simps [simp]:
  "cinput (cursor_new i) = i" "coffset (cursor_new i) = 0" "cursor_rest (cursor_new i) = i"
  by (simp_all add: cursor_new_def cursor_rest_def)

lemma cursor_ok_new: "length i \<le> usize_max \<Longrightarrow> cursor_ok (cursor_new i)"
  by (simp add: cursor_ok_def)

lemma readsI: "cursor_rest c = bs @ r \<Longrightarrow> reads c bs (advance (length bs) c)"
  by (auto simp: reads_def)

lemma reads_rest: "reads c bs d \<Longrightarrow> cursor_rest c = bs @ cursor_rest d"
  by (auto simp: reads_def)

lemma reads_cinput: "reads c bs d \<Longrightarrow> cinput d = cinput c"
  by (auto simp: reads_def)

lemma reads_coffset: "reads c bs d \<Longrightarrow> coffset d = coffset c + length bs"
  by (auto simp: reads_def)

lemma reads_ok: "reads c bs d \<Longrightarrow> cursor_ok c \<Longrightarrow> cursor_ok d"
proof -
  assume r: "reads c bs d" and ok: "cursor_ok c"
  have "length bs \<le> length (cursor_rest c)" using reads_rest [OF r] by simp
  with ok show "cursor_ok d"
    by (auto simp: cursor_ok_def cursor_rest_def reads_cinput [OF r] reads_coffset [OF r])
qed

lemma reads_Nil [simp]: "reads c [] d \<longleftrightarrow> d = c"
  by (auto simp: reads_def advance_def)

lemma reads_append: "reads c (a @ b) e \<longleftrightarrow> (\<exists>d. reads c a d \<and> reads d b e)"
  by (auto simp: reads_def)

lemma reads_trans [trans]: "reads c a d \<Longrightarrow> reads d b e \<Longrightarrow> reads c (a @ b) e"
  by (auto simp: reads_append)

lemma reads_determ: "reads c a d \<Longrightarrow> reads c b e \<Longrightarrow> length a = length b \<Longrightarrow> a = b \<and> d = e"
  by (metis append_eq_append_conv reads_def)

lemma reads_from_new: "reads (cursor_new i) bs d \<Longrightarrow> i = bs @ drop (coffset d) i"
  by (auto simp: reads_def)

lemma cursor_is_empty_iff: "cursor_ok c \<Longrightarrow> cursor_is_empty c \<longleftrightarrow> cursor_rest c = []"
  by (auto simp: cursor_ok_def cursor_is_empty_def cursor_rest_def)

lemma cursor_u8_Inr [result_iff]: "cursor_u8 c = Inr (b, d) \<longleftrightarrow> reads c [b] d"
  by (auto simp: cursor_u8_def reads_def cursor_rest_def advance_def Cons_nth_drop_Suc [symmetric]
      split: if_splits)

lemma drop_eq_append_length: "drop k xs = bs @ r \<Longrightarrow> bs \<noteq> [] \<or> k \<le> length xs \<Longrightarrow> k + length bs \<le> length xs"
  by (drule arg_cong [where f = length], cases bs) auto

lemma be_bytes_Nil_iff [simp]: "be_bytes n w = [] \<longleftrightarrow> n = 0"
  by (simp add: be_bytes_def)

lemma cursor_take_Inr [result_iff]:
  assumes "cursor_ok c"
  shows "cursor_take n c = Inr (bs, d) \<longleftrightarrow> length bs = n \<and> reads c bs d"
proof
  assume "cursor_take n c = Inr (bs, d)"
  then show "length bs = n \<and> reads c bs d"
    by (auto simp: cursor_take_def reads_def cursor_rest_def advance_def split: option.splits if_splits)
      (metis append_take_drop_id)
next
  assume "length bs = n \<and> reads c bs d"
  then show "cursor_take n c = Inr (bs, d)"
    using assms drop_eq_append_length [of "coffset c" "cinput c" bs]
    by (auto simp: cursor_take_def cursor_ok_def reads_def cursor_rest_def advance_def
        checked_add_def)
qed

lemma from_be_eq_iff:
  assumes "length bs = n" and "LENGTH('a) = 8 * n"
  shows "from_be bs = (w :: 'a::len word) \<longleftrightarrow> bs = be_bytes n w"
  using assms be_bytes_from_be [where 'a = 'a, of bs n] from_be_be_bytes [of n w] by auto

lemma cursor_u16_Inr [result_iff]: "cursor_u16 c = Inr (w, d) \<longleftrightarrow> reads c (be_bytes 2 w) d"
proof
  assume "cursor_u16 c = Inr (w, d)"
  then have "from_be (take 2 (cursor_rest c)) = w" and "2 \<le> length (cursor_rest c)"
    and "d = advance 2 c"
    by (auto simp: cursor_u16_def cursor_rest_def advance_def split: if_splits)
  then show "reads c (be_bytes 2 w) d"
    using from_be_eq_iff [of "take 2 (cursor_rest c)" 2 w]
    by (auto simp: reads_def) (metis append_take_drop_id)
next
  assume "reads c (be_bytes 2 w) d"
  then show "cursor_u16 c = Inr (w, d)"
    using drop_eq_append_length [of "coffset c" "cinput c" "be_bytes 2 w"]
    by (auto simp: cursor_u16_def reads_def advance_def cursor_rest_def)
qed

lemma cursor_u32_Inr [result_iff]:
  assumes "cursor_ok c"
  shows "cursor_u32 c = Inr (w, d) \<longleftrightarrow> reads c (be_bytes 4 w) d"
  using from_be_eq_iff [where 'a = 32, of _ 4]
  by (auto simp: cursor_u32_def rbind_Inr_iff cursor_take_Inr [OF assms])
    (metis length_be_bytes be_bytes_roundtrip(2))+

lemma cursor_u64_Inr [result_iff]:
  assumes "cursor_ok c"
  shows "cursor_u64 c = Inr (w, d) \<longleftrightarrow> reads c (be_bytes 8 w) d"
  using from_be_eq_iff [where 'a = 64, of _ 8]
  by (auto simp: cursor_u64_def rbind_Inr_iff cursor_take_Inr [OF assms])
    (metis length_be_bytes be_bytes_roundtrip(3))+

lemma cursor_varint_Inr [result_iff]:
  "cursor_varint c = Inr (v, d) \<longleftrightarrow> v \<le> MAX_WIRE_OFFSET \<and> reads c (encode_varint v) d"
proof
  assume "cursor_varint c = Inr (v, d)"
  then obtain n where n: "decode_varint (cursor_rest c) = Inr (v, n)" and "d = advance n c"
    by (auto simp: cursor_varint_def advance_def rbind_Inr_iff)
  with varint.decode_split [OF n] varint.consumed_length [OF n] encode_decode_varint [OF n]
  show "v \<le> MAX_WIRE_OFFSET \<and> reads c (encode_varint v) d" by (auto simp: reads_def)
next
  assume "v \<le> MAX_WIRE_OFFSET \<and> reads c (encode_varint v) d"
  then show "cursor_varint c = Inr (v, d)"
    by (auto simp: cursor_varint_def advance_def reads_def decode_encode_varint)
qed

lemma cursor_remaining_reads:
  "cursor_ok c \<Longrightarrow> cursor_remaining c = (cursor_rest c, advance (length (cursor_rest c)) c)"
  by (auto simp: cursor_remaining_def advance_def cursor_rest_def cursor_ok_def)

end
