(* ===== verification/Wire_Frames.thy ===== *)
theory Wire_Frames
  imports Wire_Codec
begin

unbundle bit_operations_syntax

section \<open>Host names, OPEN requests and reliable control frames (src/wire.rs)\<close>

text \<open>
  The reliable control stream of a flow carries frames \<open>type | length | payload\<close>.  This theory
  models \<open>CanonicalHost::parse\<close>, \<open>OpenRequest\<close>, \<open>OpenStatus\<close>, \<open>Capabilities\<close>,
  \<open>encode_control\<close>, \<open>decode_control\<close> and the framing helpers, and shows that the frame codec is a
  \<open>prefix_codec\<close>: decoding inverts encoding and accepts nothing but canonical encodings.
  A panic (\<open>expect\<close>) of the encoder is the value \<open>None\<close>.
\<close>

subsection \<open>Canonical host names\<close>

datatype wire_error =
    WireTruncated | InvalidHostLength | InvalidHost | ZeroPort
  | UnknownStatus u8 | OutputTooSmall usize usize

definition MAX_CANONICAL_HOST_BYTES :: usize where "MAX_CANONICAL_HOST_BYTES = 253"

definition MAX_OPEN_FRAME_BYTES :: usize where
  "MAX_OPEN_FRAME_BYTES = MAX_CANONICAL_HOST_BYTES + 3"

fun split_dot :: "bytes \<Rightarrow> bytes list" where
  "split_dot [] = [[]]"
| "split_dot (b # bs) =
     (if b = 46 then [] # split_dot bs
      else case split_dot bs of [] \<Rightarrow> [[b]] | l # ls \<Rightarrow> (b # l) # ls)"

definition is_digit :: "u8 \<Rightarrow> bool" where
  "is_digit b \<longleftrightarrow> 48 \<le> b \<and> b \<le> 57"

definition host_byte :: "u8 \<Rightarrow> bool" where
  "host_byte b \<longleftrightarrow> (97 \<le> b \<and> b \<le> 122) \<or> is_digit b \<or> b = 45"

definition bad_label :: "bytes \<Rightarrow> bool" where
  "bad_label label \<longleftrightarrow>
     label = [] \<or> 63 < length label \<or> hd label = 45 \<or> last label = 45 \<or> \<not> list_all host_byte label"

text \<open>
  \<open>host.parse::<IpAddr>()\<close> of the standard library succeeds on dotted IPv4 text (four decimal
  octets without leading zeros) and on IPv6 text; the latter always contains a colon, which the
  label check refuses, so only the IPv4 grammar can change the outcome.
\<close>

definition ipv4_octet :: "bytes \<Rightarrow> bool" where
  "ipv4_octet label \<longleftrightarrow>
     label \<noteq> [] \<and> length label \<le> 3 \<and> list_all is_digit label \<and>
     (length label = 1 \<or> hd label \<noteq> 48) \<and>
     foldl (\<lambda>n b. 10 * n + (unat b - 48)) 0 label \<le> 255"

definition parses_as_ip :: "bytes \<Rightarrow> bool" where
  "parses_as_ip host \<longleftrightarrow>
     (let labels = split_dot host in length labels = 4 \<and> list_all ipv4_octet labels)"

definition canonical_host_parse :: "bytes \<Rightarrow> wire_error + bytes" where
  "canonical_host_parse host =
     (if MAX_CANONICAL_HOST_BYTES < length host \<or> 46 \<notin> set host \<or> parses_as_ip host
         \<or> list_ex bad_label (split_dot host)
      then Inl InvalidHost else Inr host)"

subsection \<open>OPEN requests and statuses\<close>

record open_request =
  or_host :: bytes
  or_port :: u16

definition open_encoded_len :: "open_request \<Rightarrow> usize" where
  "open_encoded_len r = length (or_host r) + 3"

definition open_encode_into :: "open_request \<Rightarrow> bytes \<Rightarrow> wire_error + usize \<times> bytes" where
  "open_encode_into r output =
     (let host = or_host r; required = open_encoded_len r in
      if length output < required then Inl (OutputTooSmall required (length output))
      else Inr (required,
        [word_of_nat (length host)] @ host @ be_bytes 2 (or_port r) @ drop required output))"

definition open_encode :: "open_request \<Rightarrow> bytes option" where
  "open_encode r =
     (case open_encode_into r (replicate (open_encoded_len r) 0) of
        Inl _ \<Rightarrow> None | Inr (_, encoded) \<Rightarrow> Some encoded)"

definition open_decode :: "bytes \<Rightarrow> wire_error + open_request \<times> usize" where
  "open_decode input =
     (case input of
        [] \<Rightarrow> Inl WireTruncated
      | host_len # _ \<Rightarrow>
          if host_len = 0 then Inl InvalidHostLength
          else let consumed = unat host_len + 3 in
            if length input < consumed then Inl WireTruncated
            else rbind (canonical_host_parse (take (unat host_len) (drop 1 input))) (\<lambda>host.
              let port = from_be [input ! (consumed - 2), input ! (consumed - 1)] in
              if port = 0 then Inl ZeroPort
              else Inr (\<lparr>or_host = host, or_port = port\<rparr>, consumed)))"

datatype open_status =
    StatusOk | GeneralFailure | PolicyDenied | ResolutionFailure | ConnectionRefused
  | ConnectionTimeout | CapacityExhausted

fun status_encode :: "open_status \<Rightarrow> u8" where
  "status_encode StatusOk = 0x00"
| "status_encode GeneralFailure = 0x01"
| "status_encode PolicyDenied = 0x02"
| "status_encode ResolutionFailure = 0x03"
| "status_encode ConnectionRefused = 0x04"
| "status_encode ConnectionTimeout = 0x05"
| "status_encode CapacityExhausted = 0x06"

definition status_decode :: "u8 \<Rightarrow> wire_error + open_status" where
  "status_decode value =
     (if value = 0x00 then Inr StatusOk
      else if value = 0x01 then Inr GeneralFailure
      else if value = 0x02 then Inr PolicyDenied
      else if value = 0x03 then Inr ResolutionFailure
      else if value = 0x04 then Inr ConnectionRefused
      else if value = 0x05 then Inr ConnectionTimeout
      else if value = 0x06 then Inr CapacityExhausted
      else Inl (UnknownStatus value))"

subsection \<open>Capabilities\<close>

definition CAPABILITY_DATAGRAM :: u8 where "CAPABILITY_DATAGRAM = 0x01"
definition CAPABILITY_RLC :: u8 where "CAPABILITY_RLC = 0x02"
definition CAPABILITY_REPLAY_SAFE :: u8 where "CAPABILITY_REPLAY_SAFE = 0x08"

definition CAPABILITY_MASK :: u8 where
  "CAPABILITY_MASK = CAPABILITY_DATAGRAM OR CAPABILITY_RLC OR CAPABILITY_REPLAY_SAFE"

definition MAX_REPAIR_SPAN :: u16 where "MAX_REPAIR_SPAN = 256"
definition MAX_DECODER_WINDOW :: u16 where "MAX_DECODER_WINDOW = 4096"

record capabilities =
  cap_flags :: u8
  cap_max_symbol :: u16
  cap_max_span :: u16
  cap_decoder_window :: u16
  cap_max_ack_ranges :: u8

definition capabilities_local :: "bool \<Rightarrow> capabilities" where
  "capabilities_local adaptive =
     \<lparr>cap_flags = (if adaptive then CAPABILITY_REPLAY_SAFE OR (CAPABILITY_DATAGRAM OR CAPABILITY_RLC)
                   else CAPABILITY_REPLAY_SAFE),
      cap_max_symbol = 0, cap_max_span = 0, cap_decoder_window = 0, cap_max_ack_ranges = 0\<rparr>"

definition capabilities_intersect :: "capabilities \<Rightarrow> capabilities \<Rightarrow> capabilities" where
  "capabilities_intersect a peer =
     \<lparr>cap_flags = cap_flags a AND cap_flags peer,
      cap_max_symbol = min (cap_max_symbol a) (cap_max_symbol peer),
      cap_max_span = min (cap_max_span a) (cap_max_span peer),
      cap_decoder_window = min (cap_decoder_window a) (cap_decoder_window peer),
      cap_max_ack_ranges = min (cap_max_ack_ranges a) (cap_max_ack_ranges peer)\<rparr>"

definition supports_adaptive :: "capabilities \<Rightarrow> bool" where
  "supports_adaptive c \<longleftrightarrow>
     cap_flags c AND (CAPABILITY_DATAGRAM OR CAPABILITY_RLC) = CAPABILITY_DATAGRAM OR CAPABILITY_RLC"

definition capabilities_rejected :: "capabilities \<Rightarrow> bool" where
  "capabilities_rejected c \<longleftrightarrow>
     cap_max_symbol c < 64 \<or> cap_max_span c = 0 \<or> MAX_REPAIR_SPAN < cap_max_span c
     \<or> \<not> (512 \<le> cap_decoder_window c \<and> cap_decoder_window c \<le> MAX_DECODER_WINDOW)
     \<or> cap_max_ack_ranges c = 0 \<or> 32 < cap_max_ack_ranges c"

subsection \<open>Control frames\<close>

datatype control_frame =
    CfCapabilities capabilities
  | CfOpen open_request
  | CfStatus open_status
  | CfAck u64 "(u64 \<times> u64) list"
  | CfMaxOffset u64
  | CfFin u64
  | CfStreamData u64 bool bytes
  | CfEarlyOpen bytes u64 open_request bytes

fun frame_kind :: "control_frame \<Rightarrow> u8" where
  "frame_kind (CfCapabilities _) = 0x01"
| "frame_kind (CfOpen _) = 0x02"
| "frame_kind (CfStatus _) = 0x03"
| "frame_kind (CfAck _ _) = 0x04"
| "frame_kind (CfMaxOffset _) = 0x05"
| "frame_kind (CfFin _) = 0x06"
| "frame_kind (CfStreamData _ _ _) = 0x08"
| "frame_kind (CfEarlyOpen _ _ _ _) = 0x09"

definition bool_byte :: "bool \<Rightarrow> u8" where
  "bool_byte b = (if b then 1 else 0)"

definition u8_try_from :: "usize \<Rightarrow> u8 option" where
  "u8_try_from n = (if n \<le> 255 then Some (word_of_nat n) else None)"

definition encode_ack_ranges :: "(u64 \<times> u64) list \<Rightarrow> bytes" where
  "encode_ack_ranges ranges = concat (map (\<lambda>(s, e). encode_varint s @ encode_varint e) ranges)"

fun encode_payload :: "control_frame \<Rightarrow> bytes option" where
  "encode_payload (CfCapabilities c) =
     Some (encode_varint (ucast (cap_flags c)) @ be_bytes 2 (cap_max_symbol c)
       @ be_bytes 2 (cap_max_span c) @ be_bytes 2 (cap_decoder_window c) @ [cap_max_ack_ranges c])"
| "encode_payload (CfOpen r) = open_encode r"
| "encode_payload (CfStatus s) = Some [status_encode s]"
| "encode_payload (CfAck contiguous ranges) =
     (case u8_try_from (length ranges) of
        None \<Rightarrow> None
      | Some count \<Rightarrow> Some (encode_varint contiguous @ [count] @ encode_ack_ranges ranges))"
| "encode_payload (CfMaxOffset offset) = Some (encode_varint offset)"
| "encode_payload (CfFin offset) = Some (encode_varint offset)"
| "encode_payload (CfStreamData offset fin data) =
     Some (encode_varint offset @ [bool_byte fin] @ data)"
| "encode_payload (CfEarlyOpen token nonce request initial) =
     (case u8_try_from (length token) of
        None \<Rightarrow> None
      | Some token_len \<Rightarrow>
          (case open_encode request of
             None \<Rightarrow> None
           | Some req \<Rightarrow> Some ([token_len] @ token @ be_bytes 8 nonce @ req @ initial)))"

definition encode_control :: "control_frame \<Rightarrow> bytes \<Rightarrow> bytes option" where
  "encode_control frame output =
     (case encode_payload frame of
        None \<Rightarrow> None
      | Some payload \<Rightarrow>
          Some (output @ [frame_kind frame] @ encode_varint (word_of_nat (length payload)) @ payload))"

definition control_payload_range :: "bytes \<Rightarrow> usize \<Rightarrow> codec_error + usize \<times> usize" where
  "control_payload_range input max_frame_bytes =
     (case input of
        [] \<Rightarrow> Inl Truncated
      | _ # rest \<Rightarrow>
          rbind (decode_varint rest) (\<lambda>(len, length_bytes).
            let header = 1 + length_bytes in
            case checked_add header (unat len) of
              None \<Rightarrow> Inl Limit
            | Some end \<Rightarrow> if end \<le> max_frame_bytes then Inr (header, end) else Inl Limit))"

definition control_frame_read_target :: "bytes \<Rightarrow> usize \<Rightarrow> codec_error + usize" where
  "control_frame_read_target input max_frame_bytes =
     (case control_payload_range input max_frame_bytes of
        Inr (_, end) \<Rightarrow> Inr end
      | Inl Truncated \<Rightarrow>
          let needed = (if 1 < length input then 1 + 2 ^ unat (drop_bit 6 (input ! 1)) else 2) in
          if max_frame_bytes < needed then Inl Limit else Inr needed
      | Inl error \<Rightarrow> Inl error)"

fun decode_ack_ranges ::
  "nat \<Rightarrow> u64 \<Rightarrow> cursor \<Rightarrow> codec_error + (u64 \<times> u64) list \<times> cursor" where
  "decode_ack_ranges 0 previous c = Inr ([], c)"
| "decode_ack_ranges (Suc n) previous c =
     rbind (cursor_varint c) (\<lambda>(start, c1).
       rbind (cursor_varint c1) (\<lambda>(end, c2).
         if start < previous \<or> end \<le> start \<or> MAX_WIRE_OFFSET < end then Inl InvalidField
         else rbind (decode_ack_ranges n end c2) (\<lambda>(ranges, c3). Inr ((start, end) # ranges, c3))))"

definition decode_capabilities :: "cursor \<Rightarrow> codec_error + capabilities \<times> cursor" where
  "decode_capabilities c =
     rbind (cursor_varint c) (\<lambda>(flags, c1).
       if flags AND NOT (ucast CAPABILITY_MASK) \<noteq> 0 then Inl InvalidField
       else if 255 < flags then Inl InvalidField
       else rbind (cursor_u16 c1) (\<lambda>(max_symbol, c2).
         rbind (cursor_u16 c2) (\<lambda>(max_span, c3).
           rbind (cursor_u16 c3) (\<lambda>(window, c4).
             rbind (cursor_u8 c4) (\<lambda>(max_ack, c5).
               let caps = \<lparr>cap_flags = ucast flags, cap_max_symbol = max_symbol,
                           cap_max_span = max_span, cap_decoder_window = window,
                           cap_max_ack_ranges = max_ack\<rparr> in
               if capabilities_rejected caps then Inl InvalidField else Inr (caps, c5))))))"

definition finish_frame :: "usize \<Rightarrow> control_frame \<times> cursor \<Rightarrow> codec_error + control_frame \<times> usize" where
  "finish_frame end fc =
     (if \<not> cursor_is_empty (snd fc) then Inl TrailingBytes else Inr (fst fc, end))"

definition decode_stream_data :: "usize \<Rightarrow> cursor \<Rightarrow> codec_error + control_frame \<times> usize" where
  "decode_stream_data end c =
     rbind (cursor_varint c) (\<lambda>(offset, c1).
       rbind (cursor_u8 c1) (\<lambda>(flags, c2).
         if flags AND NOT 1 \<noteq> 0 then Inl InvalidField
         else Inr (CfStreamData offset (flags = 1) (fst (cursor_remaining c2)), end)))"

definition decode_early_open :: "usize \<Rightarrow> cursor \<Rightarrow> codec_error + control_frame \<times> usize" where
  "decode_early_open end c =
     rbind (cursor_u8 c) (\<lambda>(len, c1).
       let token_len = unat len in
       if token_len = 0 \<or> 128 < token_len then Inl Limit
       else rbind (cursor_take token_len c1) (\<lambda>(token, c2).
         rbind (cursor_u64 c2) (\<lambda>(nonce, c3).
           let remaining = fst (cursor_remaining c3) in
           rbind (map_err (\<lambda>_. InvalidField) (open_decode remaining)) (\<lambda>(request, consumed).
             let initial = drop consumed remaining in
             if initial = [] then Inl InvalidField
             else Inr (CfEarlyOpen token nonce request initial, end)))))"

definition decode_ack :: "usize \<Rightarrow> cursor \<Rightarrow> codec_error + control_frame \<times> cursor" where
  "decode_ack max_ack_ranges c =
     rbind (cursor_varint c) (\<lambda>(contiguous, c1).
       rbind (cursor_u8 c1) (\<lambda>(count, c2).
         if max_ack_ranges < unat count then Inl Limit
         else rbind (decode_ack_ranges (unat count) contiguous c2) (\<lambda>(ranges, c3).
           Inr (CfAck contiguous ranges, c3))))"

definition decode_payload ::
  "u8 \<Rightarrow> bytes \<Rightarrow> usize \<Rightarrow> usize \<Rightarrow> codec_error + control_frame \<times> usize" where
  "decode_payload kind payload max_ack_ranges end =
     (let c = cursor_new payload in
      if kind = 0x01 then
        rbind (decode_capabilities c) (\<lambda>(caps, c'). finish_frame end (CfCapabilities caps, c'))
      else if kind = 0x02 then
        rbind (map_err (\<lambda>_. InvalidField) (open_decode payload)) (\<lambda>(request, consumed).
          if consumed \<noteq> length payload then Inl TrailingBytes else Inr (CfOpen request, end))
      else if kind = 0x03 then
        rbind (cursor_u8 c) (\<lambda>(value, c').
          rbind (map_err (\<lambda>_. InvalidField) (status_decode value)) (\<lambda>status.
            finish_frame end (CfStatus status, c')))
      else if kind = 0x04 then rbind (decode_ack max_ack_ranges c) (finish_frame end)
      else if kind = 0x05 then
        rbind (cursor_varint c) (\<lambda>(offset, c'). finish_frame end (CfMaxOffset offset, c'))
      else if kind = 0x06 then
        rbind (cursor_varint c) (\<lambda>(offset, c'). finish_frame end (CfFin offset, c'))
      else if kind = 0x08 then decode_stream_data end c
      else if kind = 0x09 then decode_early_open end c
      else Inl UnknownType)"

definition decode_control ::
  "bytes \<Rightarrow> usize \<Rightarrow> usize \<Rightarrow> codec_error + control_frame \<times> usize" where
  "decode_control input max_ack_ranges max_frame_bytes =
     rbind (control_payload_range input max_frame_bytes) (\<lambda>(start, end).
       if length input < end then Inl Truncated
       else decode_payload (hd input) (take (end - start) (drop start input)) max_ack_ranges end)"

subsection \<open>OPEN requests round-trip\<close>

text \<open>
  \<open>open_request_ok\<close> is the invariant the Rust types carry: only \<open>CanonicalHost::parse\<close> builds a
  host and the port is a \<open>NonZeroU16\<close>.
\<close>

definition canonical_host :: "bytes \<Rightarrow> bool" where
  "canonical_host h \<longleftrightarrow> canonical_host_parse h = Inr h"

definition open_request_ok :: "open_request \<Rightarrow> bool" where
  "open_request_ok r \<longleftrightarrow> canonical_host (or_host r) \<and> or_port r \<noteq> 0"

definition open_wire :: "open_request \<Rightarrow> bytes" where
  "open_wire r = [word_of_nat (length (or_host r))] @ or_host r @ be_bytes 2 (or_port r)"

lemma canonical_host_parse_Inr [result_iff]:
  "canonical_host_parse h = Inr x \<longleftrightarrow> x = h \<and> canonical_host h"
  by (auto simp: canonical_host_def canonical_host_parse_def)

lemma canonical_host_length:
  assumes "canonical_host h"
  shows "0 < length h" and "length h \<le> 253"
  using assms
  by (auto simp: canonical_host_def canonical_host_parse_def MAX_CANONICAL_HOST_BYTES_def
      split: if_splits)

lemma open_encode_Some [simp]: "open_encode r = Some (open_wire r)"
  by (simp add: open_encode_def open_encode_into_def open_wire_def Let_def open_encoded_len_def)

lemma length_open_wire: "length (open_wire r) = open_encoded_len r"
  by (simp add: open_wire_def open_encoded_len_def)

lemma open_decode_encode:
  assumes "open_request_ok r"
  shows "open_decode (open_wire r @ rest) = Inr (r, length (open_wire r))"
proof -
  let ?h = "or_host r" and ?p = "or_port r"
  have h: "canonical_host ?h" "?p \<noteq> 0" using assms by (auto simp: open_request_ok_def)
  note len = canonical_host_length [OF h(1)]
  have n: "unat (word_of_nat (length ?h) :: u8) = length ?h"
    using len by (simp add: unat_word_ariths unsigned_of_nat take_bit_nat_eq_self)
  have nz: "(word_of_nat (length ?h) :: u8) \<noteq> 0"
    using len n by (auto simp del: of_nat_eq_0_iff)
  obtain a b where ab: "be_bytes 2 ?p = [a, b]"
    by (simp add: be_bytes_def upt_rec)
  have "from_be [a, b] = ?p" using ab by (metis be_bytes_roundtrip(1))
  with h n nz ab show ?thesis
    by (auto simp: open_decode_def open_wire_def nth_append canonical_host_def)
qed

lemma open_decode_inv:
  assumes "open_decode i = Inr (r, n)"
  shows "open_request_ok r \<and> n \<le> length i \<and> take n i = open_wire r"
proof -
  obtain l t where i: "i = l # t" using assms by (cases i) (auto simp: open_decode_def)
  let ?k = "unat l"
  have l: "l \<noteq> 0" and n: "n = ?k + 3" and le: "n \<le> length i"
    and r: "r = \<lparr>or_host = take ?k t, or_port = from_be [i ! (n - 2), i ! (n - 1)]\<rparr>"
    and ok: "open_request_ok r"
    using assms
    by (auto simp: open_decode_def i Let_def rbind_Inr_iff canonical_host_parse_Inr
        open_request_ok_def split: if_splits)
  have two: "take 2 (drop ?k t) = [t ! ?k, t ! (?k + 1)]"
    using le n i by (simp add: numeral_2_eq_2 take_Suc_conv_app_nth)
  have "be_bytes 2 (or_port r) = take 2 (drop ?k t)"
    using r n i two by (simp add: be_bytes_from_be)
  moreover have "word_of_nat (length (take ?k t)) = l"
    using le n i by simp
  ultimately have "open_wire r = l # take ?k t @ take 2 (drop ?k t)"
    using r by (simp add: open_wire_def)
  also have "\<dots> = take n i"
    using n i by (simp add: take_add [symmetric] numeral_3_eq_3 numeral_2_eq_2)
  finally show ?thesis using ok le by simp
qed

interpretation open_codec: prefix_codec open_request_ok open_wire open_decode
  by unfold_locales (fact open_decode_encode, fact open_decode_inv)

lemma status_decode_Inr [result_iff]: "status_decode v = Inr s \<longleftrightarrow> v = status_encode s"
  by (cases s) (auto simp: status_decode_def)

subsection \<open>Control frames round-trip and are canonical\<close>

fun ack_chain :: "u64 \<Rightarrow> (u64 \<times> u64) list \<Rightarrow> bool" where
  "ack_chain previous [] \<longleftrightarrow> True"
| "ack_chain previous ((s, e) # ranges) \<longleftrightarrow>
     previous \<le> s \<and> s < e \<and> e \<le> MAX_WIRE_OFFSET \<and> ack_chain e ranges"

text \<open>The fields a peer may send: the conditions under which the decoder accepts a frame.\<close>

fun frame_fields_ok :: "usize \<Rightarrow> control_frame \<Rightarrow> bool" where
  "frame_fields_ok a (CfCapabilities c) \<longleftrightarrow>
     cap_flags c AND NOT CAPABILITY_MASK = 0 \<and> \<not> capabilities_rejected c"
| "frame_fields_ok a (CfOpen r) \<longleftrightarrow> open_request_ok r"
| "frame_fields_ok a (CfStatus s) \<longleftrightarrow> True"
| "frame_fields_ok a (CfAck contiguous ranges) \<longleftrightarrow>
     contiguous \<le> MAX_WIRE_OFFSET \<and> length ranges \<le> a \<and> length ranges \<le> 255
     \<and> ack_chain contiguous ranges"
| "frame_fields_ok a (CfMaxOffset v) \<longleftrightarrow> v \<le> MAX_WIRE_OFFSET"
| "frame_fields_ok a (CfFin v) \<longleftrightarrow> v \<le> MAX_WIRE_OFFSET"
| "frame_fields_ok a (CfStreamData offset fin data) \<longleftrightarrow> offset \<le> MAX_WIRE_OFFSET"
| "frame_fields_ok a (CfEarlyOpen token nonce request initial) \<longleftrightarrow>
     token \<noteq> [] \<and> length token \<le> 128 \<and> open_request_ok request \<and> initial \<noteq> []"

lemma reads_all:
  assumes "length p \<le> usize_max"
  shows "reads (cursor_new p) bs d \<and> cursor_is_empty d \<longleftrightarrow>
           bs = p \<and> d = advance (length p) (cursor_new p)"
proof
  assume r: "reads (cursor_new p) bs d \<and> cursor_is_empty d"
  then have "coffset d = length bs" and "coffset d = length p"
    using reads_coffset [of "cursor_new p" bs d] reads_cinput [of "cursor_new p" bs d]
    by (auto simp: cursor_is_empty_def)
  with r show "bs = p \<and> d = advance (length p) (cursor_new p)"
    by (auto simp: reads_def)
next
  assume "bs = p \<and> d = advance (length p) (cursor_new p)"
  then show "reads (cursor_new p) bs d \<and> cursor_is_empty d"
    by (auto simp: reads_def cursor_is_empty_def)
qed

lemma finish_frame_Inr [result_iff]:
  "finish_frame e fc = Inr (f, n) \<longleftrightarrow> n = e \<and> f = fst fc \<and> cursor_is_empty (snd fc)"
  by (auto simp: finish_frame_def)

lemma flags_masked:
  fixes flags :: u64
  assumes "flags AND NOT (ucast CAPABILITY_MASK) = 0"
  shows "flags \<le> 255" and "ucast (ucast flags :: u8) = flags"
    and "(ucast flags :: u8) AND NOT CAPABILITY_MASK = 0"
proof -
  have b: "bit flags n \<Longrightarrow> bit CAPABILITY_MASK n" for n
    using arg_cong [OF assms, of "\<lambda>w. bit w n"] bit_imp_le_length [of flags n]
    by (auto simp: bit_and_iff bit_not_iff bit_ucast_iff)
  then have eight: "bit flags n \<Longrightarrow> n < 8" for n
    using bit_imp_le_length [of CAPABILITY_MASK n] by auto
  then have "take_bit 8 flags = flags"
    by (auto intro!: bit_word_eqI simp: bit_take_bit_iff)
  then show "flags \<le> 255"
    by (simp add: take_bit_word_iff word_le_nat_alt)
  show "ucast (ucast flags :: u8) = flags"
    using eight by (auto intro!: bit_word_eqI simp: bit_ucast_iff)
  show "(ucast flags :: u8) AND NOT CAPABILITY_MASK = 0"
    using b by (auto intro!: bit_word_eqI simp: bit_and_iff bit_not_iff bit_ucast_iff)
qed

lemma flags_widened:
  fixes f :: u8
  assumes "f AND NOT CAPABILITY_MASK = 0"
  shows "(ucast f :: u64) AND NOT (ucast CAPABILITY_MASK) = 0"
    and "(ucast f :: u64) \<le> 255" and "(ucast f :: u64) \<le> MAX_WIRE_OFFSET"
proof -
  have "bit f n \<Longrightarrow> bit CAPABILITY_MASK n" for n
    using arg_cong [OF assms, of "\<lambda>w. bit w n"] bit_imp_le_length [of f n]
    by (auto simp: bit_and_iff bit_not_iff)
  then show "(ucast f :: u64) AND NOT (ucast CAPABILITY_MASK) = 0"
    by (auto intro!: bit_word_eqI simp: bit_and_iff bit_not_iff bit_ucast_iff)
  have "unat f < 256" using unsigned_less [of f, where 'a = nat] by simp
  then have "unat (ucast f :: u64) < 256" by (simp add: unsigned_ucast_eq take_bit_nat_eq_self)
  then show "(ucast f :: u64) \<le> 255" and "(ucast f :: u64) \<le> MAX_WIRE_OFFSET"
    unfolding MAX_WIRE_OFFSET_iff by (simp_all add: word_le_nat_alt)
qed

lemma decode_capabilities_Inr:
  "decode_capabilities c = Inr (caps, d) \<longleftrightarrow>
     frame_fields_ok a (CfCapabilities caps) \<and>
     reads c (the (encode_payload (CfCapabilities caps))) d"
proof
  assume "decode_capabilities c = Inr (caps, d)"
  then obtain flags c1 where c1: "reads c (encode_varint flags) c1"
      and f: "flags AND NOT (ucast CAPABILITY_MASK) = 0" "ucast flags = cap_flags caps"
      and ok: "\<not> capabilities_rejected caps"
      and r: "reads c1 (be_bytes 2 (cap_max_symbol caps) @ be_bytes 2 (cap_max_span caps)
        @ be_bytes 2 (cap_decoder_window caps) @ [cap_max_ack_ranges caps]) d"
    by (auto simp: decode_capabilities_def result_iff Let_def reads_append) blast
  have "ucast (cap_flags caps) = flags" and "cap_flags caps AND NOT CAPABILITY_MASK = 0"
    using flags_masked [OF f(1)] f(2) by simp_all
  with ok show "frame_fields_ok a (CfCapabilities caps) \<and>
     reads c (the (encode_payload (CfCapabilities caps))) d"
    using reads_trans [OF c1 r] by simp
next
  assume R: "frame_fields_ok a (CfCapabilities caps) \<and>
     reads c (the (encode_payload (CfCapabilities caps))) d"
  then obtain c1 c2 c3 c4 where
      "cursor_varint c = Inr (ucast (cap_flags caps), c1)"
      "cursor_u16 c1 = Inr (cap_max_symbol caps, c2)" "cursor_u16 c2 = Inr (cap_max_span caps, c3)"
      "cursor_u16 c3 = Inr (cap_decoder_window caps, c4)"
      "cursor_u8 c4 = Inr (cap_max_ack_ranges caps, d)"
    by (auto simp: result_iff reads_append flags_widened)
  moreover have "ucast (ucast (cap_flags caps) :: u64) = cap_flags caps"
    by (rule bit_word_eqI) (simp add: bit_ucast_iff)
  ultimately show "decode_capabilities c = Inr (caps, d)"
    using R flags_widened [of "cap_flags caps"]
    by (cases caps) (simp add: decode_capabilities_def not_less)
qed

lemma decode_ack_ranges_Inr:
  "decode_ack_ranges n p c = Inr (ranges, d) \<longleftrightarrow>
     length ranges = n \<and> ack_chain p ranges \<and> reads c (encode_ack_ranges ranges) d"
proof (induction n arbitrary: p c ranges)
  case 0
  then show ?case by (auto simp: encode_ack_ranges_def)
next
  case (Suc n)
  show ?case
  proof (cases ranges)
    case Nil
    then show ?thesis by (auto simp: result_iff)
  next
    case (Cons r rs)
    obtain s e where r: "r = (s, e)" by (cases r)
    have "decode_ack_ranges (Suc n) p c = Inr (ranges, d) \<longleftrightarrow>
      (\<exists>c1 c2. s \<le> MAX_WIRE_OFFSET \<and> reads c (encode_varint s) c1 \<and> e \<le> MAX_WIRE_OFFSET
        \<and> reads c1 (encode_varint e) c2 \<and> p \<le> s \<and> s < e \<and> length rs = n \<and> ack_chain e rs
        \<and> reads c2 (encode_ack_ranges rs) d)"
      by (auto simp: result_iff Suc.IH Cons r not_less not_le)
    then show ?thesis
      by (auto simp: Cons r encode_ack_ranges_def reads_append)
  qed
qed

lemma u8_try_from_Some [simp]: "u8_try_from n = Some b \<longleftrightarrow> unat b = n"
proof -
  have "unat b \<le> 255" using unsigned_less [of b, where 'a = nat] by simp
  moreover have "unat (word_of_nat n :: u8) = n" if "n \<le> 255"
    using that by (simp add: unsigned_of_nat take_bit_nat_eq_self)
  ultimately show ?thesis by (auto simp: u8_try_from_def)
qed

lemma encode_payload_Ack_Some [simp]:
  "encode_payload (CfAck k ranges) = Some p \<longleftrightarrow>
     (\<exists>b. unat b = length ranges \<and> p = encode_varint k @ [b] @ encode_ack_ranges ranges)"
  unfolding u8_try_from_Some [symmetric]
  by (cases "u8_try_from (length ranges)") (auto simp del: u8_try_from_Some)

lemma encode_payload_EarlyOpen_Some [simp]:
  "encode_payload (CfEarlyOpen token nonce request initial) = Some p \<longleftrightarrow>
     (\<exists>b. unat b = length token \<and>
       p = [b] @ token @ be_bytes 8 nonce @ open_wire request @ initial)"
  unfolding u8_try_from_Some [symmetric]
  by (cases "u8_try_from (length token)") (auto simp del: u8_try_from_Some)

declare encode_payload.simps(4,8) [simp del]

lemma decode_ack_Inr:
  "decode_ack a c = Inr (f, d) \<longleftrightarrow>
     (\<exists>k ranges p. f = CfAck k ranges \<and> frame_fields_ok a f \<and> encode_payload f = Some p \<and> reads c p d)"
proof
  assume "decode_ack a c = Inr (f, d)"
  then obtain k b ranges c1 c2 where "f = CfAck k ranges" "k \<le> MAX_WIRE_OFFSET"
      "length ranges = unat b" "unat b \<le> a" "ack_chain k ranges"
      and r: "reads c (encode_varint k) c1" "reads c1 [b] c2" "reads c2 (encode_ack_ranges ranges) d"
    by (auto simp: decode_ack_def result_iff decode_ack_ranges_Inr not_less)
  moreover have "unat b \<le> 255" using unsigned_less [of b, where 'a = nat] by simp
  moreover have "reads c (encode_varint k @ [b] @ encode_ack_ranges ranges) d"
    by (rule reads_trans [OF r(1) reads_trans [OF r(2,3)]])
  ultimately show "\<exists>k ranges p. f = CfAck k ranges \<and> frame_fields_ok a f
      \<and> encode_payload f = Some p \<and> reads c p d"
    by auto
next
  assume "\<exists>k ranges p. f = CfAck k ranges \<and> frame_fields_ok a f
      \<and> encode_payload f = Some p \<and> reads c p d"
  then obtain k ranges b where f: "f = CfAck k ranges" and ok: "frame_fields_ok a f"
      and b: "unat b = length ranges"
      and r: "reads c (encode_varint k @ [b] @ encode_ack_ranges ranges) d"
    by auto
  from r obtain c1 c2 where "reads c (encode_varint k) c1" "reads c1 [b] c2"
      "reads c2 (encode_ack_ranges ranges) d"
    unfolding reads_append by blast
  then have "cursor_varint c = Inr (k, c1)" "cursor_u8 c1 = Inr (b, c2)"
      "decode_ack_ranges (length ranges) k c2 = Inr (ranges, d)"
    using ok f by (simp_all add: result_iff decode_ack_ranges_Inr)
  then show "decode_ack a c = Inr (f, d)"
    using ok f b by (simp add: decode_ack_def)
qed

lemma bool_byte_1 [simp]: "bool_byte f = 1 \<longleftrightarrow> f"
  by (simp add: bool_byte_def)

lemma bool_flags: "(b :: u8) AND NOT 1 = 0 \<longleftrightarrow> b = 0 \<or> b = 1"
proof
  assume z: "b AND NOT 1 = 0"
  have "b = (b AND 1) OR (b AND NOT 1)"
    by (rule bit_word_eqI) (auto simp: bit_or_iff bit_and_iff bit_not_iff)
  with z have "b = b mod 2" by (simp add: and_one_eq)
  then have "b = of_bool (odd b)" by (simp add: mod_2_eq_odd)
  then show "b = 0 \<or> b = 1" by (cases "odd b") simp_all
next
  assume "b = 0 \<or> b = 1"
  then show "b AND NOT 1 = 0" by auto
qed

lemmas bool_flags_iff = bool_flags bool_flags [simplified]

lemma bool_byte_cases: "bool_byte f = 0 \<or> bool_byte f = 1"
  by (simp add: bool_byte_def)

lemma bool_byte_of_flag: "b = 0 \<or> b = 1 \<Longrightarrow> bool_byte (b = 1) = b"
  by (auto simp: bool_byte_def)

lemma decode_stream_data_Inr:
  assumes "length p \<le> usize_max"
  shows "decode_stream_data e (cursor_new p) = Inr (f, n) \<longleftrightarrow>
     n = e \<and> (\<exists>offset fin data. f = CfStreamData offset fin data \<and> frame_fields_ok a f
       \<and> encode_payload f = Some p)"
proof
  assume "decode_stream_data e (cursor_new p) = Inr (f, n)"
  then obtain offset c1 b c2 where n: "n = e" and o: "offset \<le> MAX_WIRE_OFFSET"
      and r: "reads (cursor_new p) (encode_varint offset) c1" "reads c1 [b] c2"
      and b: "b = 0 \<or> b = 1"
      and f: "f = CfStreamData offset (b = 1) (cursor_rest c2)"
    by (auto simp: decode_stream_data_def result_iff bool_flags_iff cursor_remaining_def)
  have "p = encode_varint offset @ [b] @ cursor_rest c2"
    using reads_rest [OF r(1)] reads_rest [OF r(2)] by simp
  with n o f bool_byte_of_flag [OF b]
  show "n = e \<and> (\<exists>offset fin data. f = CfStreamData offset fin data
       \<and> frame_fields_ok a f \<and> encode_payload f = Some p)"
    by simp
next
  assume "n = e \<and> (\<exists>offset fin data. f = CfStreamData offset fin data
       \<and> frame_fields_ok a f \<and> encode_payload f = Some p)"
  then obtain offset fin data where n: "n = e" and f: "f = CfStreamData offset fin data"
      and o: "offset \<le> MAX_WIRE_OFFSET" and p: "p = encode_varint offset @ [bool_byte fin] @ data"
    by auto
  define c1 where "c1 = advance (length (encode_varint offset)) (cursor_new p)"
  have 1: "reads (cursor_new p) (encode_varint offset) c1" unfolding c1_def by (rule readsI) (simp add: p)
  have 2: "reads c1 [bool_byte fin] (advance 1 c1)"
    using readsI [of c1 "[bool_byte fin]" data] by (simp add: c1_def p)
  have "cursor_varint (cursor_new p) = Inr (offset, c1)" and "cursor_u8 c1 = Inr (bool_byte fin, advance 1 c1)"
    using 1 2 o by (simp_all add: result_iff)
  moreover have "cursor_rest (advance 1 c1) = data" by (simp add: c1_def p)
  ultimately show "decode_stream_data e (cursor_new p) = Inr (f, n)"
    using n f bool_byte_cases [of fin]
    by (auto simp: decode_stream_data_def cursor_remaining_def bool_byte_def split: if_splits)
qed

lemma decode_early_open_Inr:
  assumes len: "length p \<le> usize_max"
  shows "decode_early_open e (cursor_new p) = Inr (f, n) \<longleftrightarrow>
     n = e \<and> (\<exists>token nonce request initial. f = CfEarlyOpen token nonce request initial
       \<and> frame_fields_ok a f \<and> encode_payload f = Some p)"
proof
  note ok0 = cursor_ok_new [OF len]
  assume "decode_early_open e (cursor_new p) = Inr (f, n)"
  then obtain b c1 token c2 nonce c3 request k where n: "n = e"
      and b: "reads (cursor_new p) [b] c1" "unat b \<noteq> 0" "unat b \<le> 128"
      and t: "cursor_take (unat b) c1 = Inr (token, c2)" and u: "cursor_u64 c2 = Inr (nonce, c3)"
      and o: "open_decode (cursor_rest c3) = Inr (request, k)" "drop k (cursor_rest c3) \<noteq> []"
      and f: "f = CfEarlyOpen token nonce request (drop k (cursor_rest c3))"
    by (auto simp: decode_early_open_def rbind_Inr_iff map_err_Inr_iff cursor_u8_Inr Let_def
        cursor_remaining_def not_less split: if_splits)
  have ok1: "cursor_ok c1" by (rule reads_ok [OF b(1) ok0])
  have t': "length token = unat b" "reads c1 token c2"
    using t by (simp_all add: cursor_take_Inr [OF ok1])
  have u': "reads c2 (be_bytes 8 nonce) c3"
    using u by (simp add: cursor_u64_Inr [OF reads_ok [OF t'(2) ok1]])
  have "p = [b] @ token @ be_bytes 8 nonce @ open_wire request @ drop k (cursor_rest c3)"
    using reads_rest [OF b(1)] reads_rest [OF t'(2)] reads_rest [OF u']
      open_codec.decode_split [OF o(1)] by simp
  moreover have "open_request_ok request" using open_decode_inv [OF o(1)] by simp
  ultimately show "n = e \<and> (\<exists>token nonce request initial. f = CfEarlyOpen token nonce request initial
       \<and> frame_fields_ok a f \<and> encode_payload f = Some p)"
    using n f t'(1) b o(2) by auto
next
  assume "n = e \<and> (\<exists>token nonce request initial. f = CfEarlyOpen token nonce request initial
       \<and> frame_fields_ok a f \<and> encode_payload f = Some p)"
  then obtain token nonce request initial b where n: "n = e"
      and f: "f = CfEarlyOpen token nonce request initial"
      and fo: "token \<noteq> []" "length token \<le> 128" "open_request_ok request" "initial \<noteq> []"
      and b: "unat b = length token"
      and p: "p = [b] @ token @ be_bytes 8 nonce @ open_wire request @ initial"
    by auto
  define c1 where "c1 = advance 1 (cursor_new p)"
  define c2 where "c2 = advance (length token) c1"
  define c3 where "c3 = advance 8 c2"
  have rest1: "cursor_rest c1 = token @ be_bytes 8 nonce @ open_wire request @ initial"
    by (simp add: c1_def p)
  then have rest2: "cursor_rest c2 = be_bytes 8 nonce @ open_wire request @ initial"
    by (simp add: c2_def)
  then have rest3: "cursor_rest c3 = open_wire request @ initial"
    by (simp add: c3_def)
  have 1: "reads (cursor_new p) [b] c1"
    using readsI [of "cursor_new p" "[b]"] by (simp add: c1_def p)
  have 2: "reads c1 token c2" unfolding c2_def by (rule readsI [OF rest1])
  have 3: "reads c2 (be_bytes 8 nonce) c3"
    using readsI [OF rest2] by (simp add: c3_def)
  have ok1: "cursor_ok c1" by (rule reads_ok [OF 1 cursor_ok_new [OF len]])
  have "cursor_u8 (cursor_new p) = Inr (b, c1)" and "cursor_take (length token) c1 = Inr (token, c2)"
      and "cursor_u64 c2 = Inr (nonce, c3)"
    using 1 2 3
    by (simp_all add: cursor_u8_Inr cursor_take_Inr [OF ok1] cursor_u64_Inr [OF reads_ok [OF 2 ok1]])
  then show "decode_early_open e (cursor_new p) = Inr (f, n)"
    using n f fo b
    by (simp add: decode_early_open_def cursor_remaining_def rest3 open_codec.decode_encode not_less)
qed

lemma finish_reads:
  assumes "length p \<le> usize_max"
  shows "(\<exists>d. reads (cursor_new p) bs d \<and> cursor_is_empty d) \<longleftrightarrow> bs = p"
  using reads_all [OF assms] by auto

lemma open_decode_exact:
  "open_decode p = Inr (r, length p) \<longleftrightarrow> open_request_ok r \<and> p = open_wire r"
proof
  assume "open_decode p = Inr (r, length p)"
  then show "open_request_ok r \<and> p = open_wire r" using open_decode_inv by fastforce
next
  assume "open_request_ok r \<and> p = open_wire r"
  then show "open_decode p = Inr (r, length p)" using open_decode_encode [of r "[]"] by simp
qed

lemma decode_payload_Inr:
  assumes len: "length p \<le> usize_max"
  shows "decode_payload kind p a e = Inr (f, n) \<longleftrightarrow>
    n = e \<and> frame_kind f = kind \<and> frame_fields_ok a f \<and> encode_payload f = Some p"
proof -
  note fin = finish_reads [OF len]
  consider "kind = 1" | "kind = 2" | "kind = 3" | "kind = 4" | "kind = 5" | "kind = 6"
    | "kind = 8" | "kind = 9" | "kind \<notin> {1, 2, 3, 4, 5, 6, 8, 9}" by auto
  then show ?thesis
  proof cases
    case 1
    then show ?thesis
      by (cases f) (auto simp: decode_payload_def rbind_Inr_iff finish_frame_Inr
          decode_capabilities_Inr [where a = a] fin [symmetric])
  next
    case 2
    then show ?thesis
      by (cases f) (auto simp: decode_payload_def rbind_Inr_iff map_err_Inr_iff open_decode_exact
          if_Inl_Inr_iff)
  next
    case 3
    then show ?thesis
      by (cases f) (auto simp: decode_payload_def result_iff fin [symmetric])
  next
    case 4
    then have "decode_payload kind p a e = Inr (f, n) \<longleftrightarrow>
      n = e \<and> (\<exists>d. decode_ack a (cursor_new p) = Inr (f, d) \<and> cursor_is_empty d)"
      by (auto simp: decode_payload_def rbind_Inr_iff finish_frame_Inr)
    also have "\<dots> \<longleftrightarrow> n = e \<and> (\<exists>k r. f = CfAck k r) \<and> frame_fields_ok a f \<and>
      (\<exists>q. encode_payload f = Some q \<and> (\<exists>d. reads (cursor_new p) q d \<and> cursor_is_empty d))"
      unfolding decode_ack_Inr by blast
    finally show ?thesis unfolding fin using 4 by (cases f) auto
  next
    case 5
    then show ?thesis
      by (cases f) (auto simp: decode_payload_def result_iff fin [symmetric])
  next
    case 6
    then show ?thesis
      by (cases f) (auto simp: decode_payload_def result_iff fin [symmetric])
  next
    case 7
    then show ?thesis
      by (cases f) (auto simp: decode_payload_def decode_stream_data_Inr [OF len, where a = a])
  next
    case 8
    then show ?thesis
      by (cases f) (auto simp: decode_payload_def decode_early_open_Inr [OF len, where a = a])
  next
    case 9
    then show ?thesis by (cases f) (auto simp: decode_payload_def)
  qed
qed

subsection \<open>The framing\<close>

definition control_wire :: "control_frame \<Rightarrow> bytes" where
  "control_wire f = the (encode_control f [])"

definition control_frame_ok :: "usize \<Rightarrow> usize \<Rightarrow> control_frame \<Rightarrow> bool" where
  "control_frame_ok a m f \<longleftrightarrow>
     frame_fields_ok a f \<and> length (control_wire f) \<le> m \<and> length (the (encode_payload f)) < 2 ^ 62"

lemma encode_payload_total:
  assumes "frame_fields_ok a f"
  obtains p where "encode_payload f = Some p"
proof -
  have "\<exists>b :: u8. unat b = n" if "n \<le> 255" for n
    using that u8_try_from_Some [of n "word_of_nat n"] by (auto simp: u8_try_from_def)
  moreover have "length token \<le> 128 \<Longrightarrow> length token \<le> 255" for token :: bytes by simp
  ultimately have "\<exists>p. encode_payload f = Some p"
    using assms by (cases f) (auto simp del: not_None_eq)
  then show ?thesis using that by blast
qed

lemma encode_control_Some:
  "encode_payload f = Some p \<Longrightarrow>
     encode_control f out = Some (out @ frame_kind f # encode_varint (word_of_nat (length p)) @ p)"
  by (simp add: encode_control_def)

lemma control_wire_Some:
  "encode_payload f = Some p \<Longrightarrow>
     control_wire f = frame_kind f # encode_varint (word_of_nat (length p)) @ p"
  by (simp add: control_wire_def encode_control_Some)

lemma control_payload_range_Inr [result_iff]:
  "control_payload_range i m = Inr (s, e) \<longleftrightarrow>
     (\<exists>k rest v n. i = k # rest \<and> decode_varint rest = Inr (v, n) \<and> s = 1 + n
        \<and> e = 1 + n + unat v \<and> e \<le> m \<and> e \<le> usize_max)"
  by (cases i) (auto simp: control_payload_range_def rbind_Inr_iff Let_def checked_add_def)

lemma word_of_payload_length:
  assumes "n < 2 ^ 62"
  shows "unat (word_of_nat n :: u64) = n" and "(word_of_nat n :: u64) \<le> MAX_WIRE_OFFSET"
proof -
  have "n < 2 ^ 64" using assms by simp
  then show "unat (word_of_nat n :: u64) = n" by (simp add: unsigned_of_nat take_bit_nat_eq_self)
  then show "(word_of_nat n :: u64) \<le> MAX_WIRE_OFFSET"
    unfolding MAX_WIRE_OFFSET_iff using assms by simp
qed

lemma decode_control_encode:
  assumes m: "m \<le> usize_max" and ok: "control_frame_ok a m f"
  shows "decode_control (control_wire f @ r) a m = Inr (f, length (control_wire f))"
proof -
  have fo: "frame_fields_ok a f" and lm: "length (control_wire f) \<le> m"
    using ok by (simp_all add: control_frame_ok_def)
  obtain p where p: "encode_payload f = Some p" by (rule encode_payload_total [OF fo])
  have l: "length p < 2 ^ 62" using ok p by (simp add: control_frame_ok_def)
  note w = control_wire_Some [OF p] and n = word_of_payload_length [OF l]
  let ?v = "word_of_nat (length p) :: u64" and ?n = "length (encode_varint (word_of_nat (length p)))"
  have e: "length (control_wire f) = 1 + ?n + length p" by (simp add: w)
  have "decode_varint (encode_varint ?v @ p @ r) = Inr (?v, ?n)"
    by (rule decode_encode_varint [OF n(2)])
  then have range: "control_payload_range (control_wire f @ r) m = Inr (1 + ?n, 1 + ?n + length p)"
    using lm m n(1) by (auto simp: control_payload_range_Inr w)
  have pay: "take (1 + ?n + length p - (1 + ?n)) (drop (1 + ?n) (control_wire f @ r)) = p"
    by (simp add: w)
  have "length p \<le> usize_max" using lm m e by linarith
  then have "decode_payload (frame_kind f) p a (1 + ?n + length p) = Inr (f, 1 + ?n + length p)"
    using fo p by (simp add: decode_payload_Inr)
  moreover have "hd (control_wire f @ r) = frame_kind f" by (simp add: w)
  ultimately show ?thesis
    using range pay e by (simp add: decode_control_def)
qed

lemma decode_control_inv:
  assumes m: "m \<le> usize_max" and d: "decode_control i a m = Inr (f, n)"
  shows "control_frame_ok a m f \<and> n \<le> length i \<and> take n i = control_wire f"
proof -
  obtain k rest v nv where i: "i = k # rest" and v: "decode_varint rest = Inr (v, nv)"
      and e: "1 + nv + unat v \<le> m" "1 + nv + unat v \<le> length i"
      and pd: "decode_payload k (take (unat v) (drop nv rest)) a (1 + nv + unat v) = Inr (f, n)"
    using d by (auto simp: decode_control_def rbind_Inr_iff control_payload_range_Inr not_less split: if_splits)
  let ?p = "take (unat v) (drop nv rest)"
  have lp: "length ?p = unat v" using e i by simp
  then have "length ?p \<le> usize_max" using e m by linarith
  then have f: "n = 1 + nv + unat v" "frame_kind f = k" "frame_fields_ok a f" "encode_payload f = Some ?p"
    using pd by (simp_all add: decode_payload_Inr)
  have vok: "v \<le> MAX_WIRE_OFFSET" "take nv rest = encode_varint v" "nv \<le> length rest"
    using encode_decode_varint [OF v] by simp_all
  have w: "control_wire f = k # encode_varint v @ ?p"
    using control_wire_Some [OF f(4)] f(2) lp by simp
  also have "\<dots> = take n i" using f(1) i vok by (simp add: take_add)
  finally have w': "control_wire f = take n i" .
  have "length ?p < 2 ^ 62" using lp vok(1) unfolding MAX_WIRE_OFFSET_iff by simp
  then show ?thesis
    using f e w' by (simp add: control_frame_ok_def)
qed

lemma control_prefix_codec:
  assumes "m \<le> usize_max"
  shows "prefix_codec (control_frame_ok a m) control_wire (\<lambda>i. decode_control i a m)"
  by unfold_locales (fact decode_control_encode [OF assms], fact decode_control_inv [OF assms])

lemma varint_tag_length:
  assumes "v \<le> MAX_WIRE_OFFSET"
  shows "2 ^ unat (drop_bit 6 (hd (encode_varint v))) = length (encode_varint v)"
proof -
  obtain b bs where b: "encode_varint v = b # bs"
    using encode_varint_nonempty [of v] by (cases "encode_varint v") auto
  have "decode_varint (encode_varint v) = Inr (v, length (encode_varint v))"
    using decode_encode_varint [OF assms, of "[]"] by simp
  then show ?thesis by (auto simp: decode_varint_def b Let_def split: if_splits)
qed

lemma decode_varint_prefix:
  assumes v: "v \<le> MAX_WIRE_OFFSET" and j: "j < length (encode_varint v)"
  shows "decode_varint (take j (encode_varint v)) = Inl Truncated"
proof (cases j)
  case 0
  then show ?thesis by (simp add: decode_varint_def)
next
  case (Suc i)
  obtain b bs where b: "encode_varint v = b # bs"
    using encode_varint_nonempty [of v] by (cases "encode_varint v") auto
  have "2 ^ unat (drop_bit 6 b) = length (encode_varint v)"
    using varint_tag_length [OF v] b by simp
  with j show ?thesis by (simp add: decode_varint_def b Suc Let_def)
qed

text \<open>
  The reader of a control stream asks \<open>control_frame_read_target\<close> how many bytes to buffer next.
  On a proper prefix of a frame the answer is more than it has and never beyond the frame.
\<close>

lemma read_target_prefix:
  assumes m: "m \<le> usize_max" and ok: "control_frame_ok a m f" and k: "k < length (control_wire f)"
  shows "\<exists>t. control_frame_read_target (take k (control_wire f)) m = Inr t \<and>
           k < t \<and> t \<le> length (control_wire f)"
proof -
  have fo: "frame_fields_ok a f" and lm: "length (control_wire f) \<le> m"
    using ok by (simp_all add: control_frame_ok_def)
  obtain p where p: "encode_payload f = Some p" by (rule encode_payload_total [OF fo])
  have l: "length p < 2 ^ 62" using ok p by (simp add: control_frame_ok_def)
  note n = word_of_payload_length [OF l]
  define v where "v = (word_of_nat (length p) :: u64)"
  have v: "v \<le> MAX_WIRE_OFFSET" "unat v = length p" using n by (simp_all add: v_def)
  have w: "control_wire f = frame_kind f # encode_varint v @ p"
    using control_wire_Some [OF p] by (simp add: v_def)
  obtain b bs where b: "encode_varint v = b # bs"
    using encode_varint_nonempty [of v] by (cases "encode_varint v") auto
  consider "k = 0" | j where "k = Suc j" "j < length (encode_varint v)"
    | j where "k = Suc (length (encode_varint v) + j)" "j < length p"
    using k w by (cases k) (auto simp: not_less dest!: le_Suc_ex, metis le_Suc_ex not_less nat_add_left_cancel_less)
  then show ?thesis
  proof cases
    case 1
    then show ?thesis
      using lm w b by (auto simp: control_frame_read_target_def control_payload_range_def)
  next
    case 2
    have t: "take k (control_wire f) = frame_kind f # take j (encode_varint v)"
      using 2 w by simp
    have r: "control_payload_range (take k (control_wire f)) m = Inl Truncated"
      unfolding t using decode_varint_prefix [OF v(1) 2(2)] by (simp add: control_payload_range_def)
    have "2 ^ unat (drop_bit 6 b) = length (encode_varint v)"
      using varint_tag_length [OF v(1)] b by simp
    then show ?thesis
      using 2 lm w b r unfolding t by (cases j) (auto simp: control_frame_read_target_def)
  next
    case 3
    have t: "take k (control_wire f) = frame_kind f # encode_varint v @ take j p"
      using 3 w by simp
    have "control_payload_range (take k (control_wire f)) m =
        Inr (1 + length (encode_varint v), length (control_wire f))"
      unfolding t using decode_encode_varint [OF v(1), of "take j p"] lm m
      by (simp add: control_payload_range_Inr w v(2))
    then show ?thesis using k by (simp add: control_frame_read_target_def)
  qed
qed

lemma read_target_complete:
  assumes m: "m \<le> usize_max" and ok: "control_frame_ok a m f"
  shows "control_frame_read_target (control_wire f @ r) m = Inr (length (control_wire f))"
proof -
  have "decode_control (control_wire f @ r) a m = Inr (f, length (control_wire f))"
    by (rule decode_control_encode [OF m ok])
  then obtain s e where r: "control_payload_range (control_wire f @ r) m = Inr (s, e)"
      and d: "decode_payload (hd (control_wire f @ r)) (take (e - s) (drop s (control_wire f @ r))) a e
                = Inr (f, length (control_wire f))"
    by (auto simp: decode_control_def rbind_Inr_iff split: if_splits)
  have "length (take (e - s) (drop s (control_wire f @ r))) \<le> usize_max"
    using r by (auto simp: control_payload_range_Inr)
  then have "e = length (control_wire f)" using d by (simp add: decode_payload_Inr)
  then show ?thesis using r by (simp add: control_frame_read_target_def)
qed

subsection \<open>Properties\<close>

text \<open>C1: every control frame within the negotiated limits is encoded without a panic, and the
  decoder started on its octets, whatever follows them, returns the frame and its exact length.\<close>

theorem control_roundtrip:
  assumes "m \<le> usize_max" and "control_frame_ok a m f"
  shows "\<exists>w. encode_control f out = Some (out @ w) \<and> decode_control (w @ rest) a m = Inr (f, length w)"
proof -
  obtain p where p: "encode_payload f = Some p"
    using assms(2) encode_payload_total by (auto simp: control_frame_ok_def)
  have "encode_control f out = Some (out @ control_wire f)"
    using p by (simp add: encode_control_Some control_wire_Some)
  then show ?thesis using decode_control_encode [OF assms] by blast
qed

theorem control_roundtrip_witness:
  "\<exists>w. encode_control (CfStreamData 70 True [1, 2]) [7] = Some ([7] @ w)
     \<and> decode_control (w @ [9]) 4 64 = Inr (CfStreamData 70 True [1, 2], length w)"
proof (rule control_roundtrip)
  show "64 \<le> usize_max" by (simp add: usize_max_def)
  show "control_frame_ok 4 64 (CfStreamData 70 True [1, 2])"
    by (simp add: control_frame_ok_def control_wire_def encode_control_def encode_varint_def
        MAX_WIRE_OFFSET_def)
qed

text \<open>C2: the control decoder is canonical.  Whatever it accepts lies within the frame limit and
  is octet for octet the encoding of the frame it returns, so no two inputs of the same length
  decode to the same frame and no frame overruns its input.\<close>

theorem control_canonical:
  assumes "m \<le> usize_max" and "decode_control i a m = Inr (f, n)"
  shows "n \<le> length i \<and> n \<le> m \<and> encode_control f [] = Some (take n i) \<and> frame_fields_ok a f"
proof -
  note d = decode_control_inv [OF assms]
  obtain p where "encode_payload f = Some p"
    using d encode_payload_total by (auto simp: control_frame_ok_def)
  then have "encode_control f [] = Some (control_wire f)"
    by (simp add: encode_control_Some control_wire_Some)
  moreover have "n \<le> m" using d by (metis control_frame_ok_def length_take min.absorb2)
  ultimately show ?thesis using d by (simp add: control_frame_ok_def)
qed

theorem control_canonical_witness:
  "(3::nat) \<le> length [5, 1, 9 :: u8] \<and> (3::nat) \<le> 64
     \<and> encode_control (CfMaxOffset 9) [] = Some (take 3 [5, 1, 9]) \<and> frame_fields_ok 4 (CfMaxOffset 9)"
proof (rule control_canonical)
  show "64 \<le> usize_max" by (simp add: usize_max_def)
  show "decode_control [5, 1, 9] 4 64 = Inr (CfMaxOffset 9, 3)"
    by (simp add: decode_control_def control_payload_range_def decode_varint_def varint_minimum_def
        Let_def checked_add_def usize_max_def decode_payload_def cursor_varint_def cursor_new_def
        cursor_rest_def finish_frame_def cursor_is_empty_def)
qed

end
