(* ===== verification/Wire_Datagrams.thy ===== *)
theory Wire_Datagrams
  imports Wire_Frames
begin

unbundle bit_operations_syntax

section \<open>SOURCE and REPAIR datagrams (src/wire.rs)\<close>

text \<open>
  The unreliable half of the wire syntax: SOURCE datagrams carry up to 255 flow records and are
  the symbols of the erasure code, REPAIR datagrams carry one coded symbol.  A recovered symbol is
  zero padded to the symbol size, hence the second decoder \<open>decode_source_padded\<close>.  The lemmas
  show that both decoders accept exactly the encodings and that the record iterator of an
  accepted datagram never fails.
\<close>

definition SOURCE_DATAGRAM :: u8 where "SOURCE_DATAGRAM = 0x20"
definition REPAIR_DATAGRAM :: u8 where "REPAIR_DATAGRAM = 0x21"
definition REPAIR_DATAGRAM_HEADER_BYTES :: usize where
  "REPAIR_DATAGRAM_HEADER_BYTES = 1 + 4 + 4 + 2 + 2 + 4"
definition SINGLE_SOURCE_MAX_OVERHEAD :: usize where
  "SINGLE_SOURCE_MAX_OVERHEAD = (1 + 4 + 1) + (8 + 8 + 1 + 8)"
definition MAX_SOURCE_RECORDS :: usize where "MAX_SOURCE_RECORDS = 32"

record source_record =
  sr_flow_id :: u64
  sr_offset :: u64
  sr_fin :: bool
  sr_data :: bytes

record source_datagram =
  sd_symbol_id :: u32
  sd_first_record :: source_record
  sd_remaining_records :: bytes
  sd_record_count :: usize

record repair_datagram =
  rp_repair_id :: u32
  rp_first_symbol_id :: u32
  rp_span :: u16
  rp_symbol_size :: u16
  rp_seed :: u32
  rp_coded :: bytes

subsection \<open>SOURCE\<close>

definition validate_wire_range :: "u64 \<Rightarrow> usize \<Rightarrow> codec_error + unit" where
  "validate_wire_range offset len =
     (case checked_add (unat offset) len of
        None \<Rightarrow> Inl InvalidField
      | Some end \<Rightarrow> if end \<le> unat MAX_WIRE_OFFSET then Inr () else Inl InvalidField)"

definition record_wire :: "source_record \<Rightarrow> bytes" where
  "record_wire r =
     encode_varint (sr_flow_id r) @ encode_varint (sr_offset r) @ [bool_byte (sr_fin r)]
       @ encode_varint (word_of_nat (length (sr_data r))) @ sr_data r"

text \<open>An encoder that fails half way leaves the octets already pushed in the output vector.\<close>

fun encode_records :: "source_record list \<Rightarrow> bytes \<Rightarrow> (codec_error + unit) \<times> bytes" where
  "encode_records [] output = (Inr (), output)"
| "encode_records (r # rs) output =
     (if sr_data r = [] then (Inl InvalidField, output)
      else case validate_wire_range (sr_offset r) (length (sr_data r)) of
          Inl e \<Rightarrow> (Inl e, output)
        | Inr _ \<Rightarrow> encode_records rs (output @ record_wire r))"

definition encode_source ::
  "u32 \<Rightarrow> source_record list \<Rightarrow> bytes \<Rightarrow> (codec_error + unit) \<times> bytes" where
  "encode_source symbol_id records output =
     (case u8_try_from (length records) of
        None \<Rightarrow> (Inl Limit, output)
      | Some count \<Rightarrow>
          if count = 0 then (Inl InvalidField, output)
          else encode_records records (output @ [SOURCE_DATAGRAM] @ be_bytes 4 symbol_id @ [count]))"

definition decode_source_record :: "cursor \<Rightarrow> codec_error + source_record \<times> cursor" where
  "decode_source_record c =
     rbind (cursor_varint c) (\<lambda>(flow_id, c1).
       rbind (cursor_varint c1) (\<lambda>(offset, c2).
         rbind (cursor_u8 c2) (\<lambda>(flags, c3).
           if flags AND NOT 1 \<noteq> 0 then Inl InvalidField
           else rbind (cursor_varint c3) (\<lambda>(len, c4).
             if unat len = 0 then Inl InvalidField
             else rbind (validate_wire_range offset (unat len)) (\<lambda>_.
               rbind (cursor_take (unat len) c4) (\<lambda>(data, c5).
                 Inr (\<lparr>sr_flow_id = flow_id, sr_offset = offset, sr_fin = (flags = 1),
                       sr_data = data\<rparr>, c5)))))))"

fun decode_records :: "nat \<Rightarrow> cursor \<Rightarrow> codec_error + source_record list \<times> cursor" where
  "decode_records 0 c = Inr ([], c)"
| "decode_records (Suc n) c =
     rbind (decode_source_record c) (\<lambda>(r, c1).
       rbind (decode_records n c1) (\<lambda>(rs, c2). Inr (r # rs, c2)))"

definition decode_source_inner ::
  "bytes \<Rightarrow> usize \<Rightarrow> usize \<Rightarrow> codec_error + source_datagram \<times> usize" where
  "decode_source_inner input max_records max_symbol_bytes =
     (if max_symbol_bytes < length input then Inl Limit
      else rbind (cursor_u8 (cursor_new input)) (\<lambda>(kind, c1).
        if kind \<noteq> SOURCE_DATAGRAM then Inl UnknownType
        else rbind (cursor_u32 c1) (\<lambda>(symbol_id, c2).
          rbind (cursor_u8 c2) (\<lambda>(count, c3).
            if unat count = 0 \<or> max_records < unat count then Inl Limit
            else rbind (decode_source_record c3) (\<lambda>(first_record, c4).
              rbind (decode_records (unat count - 1) c4) (\<lambda>(_, c5).
                Inr (\<lparr>sd_symbol_id = symbol_id, sd_first_record = first_record,
                      sd_remaining_records = take (coffset c5 - coffset c4) (drop (coffset c4) input),
                      sd_record_count = unat count\<rparr>, coffset c5)))))))"

definition decode_source ::
  "bytes \<Rightarrow> usize \<Rightarrow> usize \<Rightarrow> codec_error + source_datagram" where
  "decode_source input max_records max_symbol_bytes =
     rbind (decode_source_inner input max_records max_symbol_bytes) (\<lambda>(source, consumed).
       if consumed \<noteq> length input then Inl TrailingBytes else Inr source)"

definition decode_source_padded ::
  "bytes \<Rightarrow> usize \<Rightarrow> usize \<Rightarrow> codec_error + source_datagram \<times> usize" where
  "decode_source_padded input max_records max_symbol_bytes =
     rbind (decode_source_inner input max_records max_symbol_bytes) (\<lambda>(source, consumed).
       if list_ex (\<lambda>b. b \<noteq> 0) (drop consumed input) then Inl TrailingBytes
       else Inr (source, consumed))"

definition single_record :: "source_datagram \<Rightarrow> source_record option" where
  "single_record d = (if sd_record_count d = 1 then Some (sd_first_record d) else None)"

text \<open>
  The iterator \<open>records()\<close>, collected: every consumer stops at the first error with the
  question-mark operator.
\<close>

definition source_records :: "source_datagram \<Rightarrow> codec_error + source_record list" where
  "source_records d =
     rbind (decode_records (sd_record_count d - 1) (cursor_new (sd_remaining_records d)))
       (\<lambda>(rs, _). Inr (sd_first_record d # rs))"

subsection \<open>REPAIR\<close>

definition encode_repair :: "repair_datagram \<Rightarrow> bytes \<Rightarrow> (codec_error + unit) \<times> bytes" where
  "encode_repair f output =
     (if rp_span f = 0 \<or> MAX_REPAIR_SPAN < rp_span f \<or> rp_symbol_size f = 0
         \<or> length (rp_coded f) \<noteq> unat (rp_symbol_size f)
      then (Inl InvalidField, output)
      else (Inr (), output @ [REPAIR_DATAGRAM] @ be_bytes 4 (rp_repair_id f)
        @ be_bytes 4 (rp_first_symbol_id f) @ be_bytes 2 (rp_span f) @ be_bytes 2 (rp_symbol_size f)
        @ be_bytes 4 (rp_seed f) @ rp_coded f))"

definition decode_repair :: "bytes \<Rightarrow> usize \<Rightarrow> codec_error + repair_datagram" where
  "decode_repair input max_symbol_bytes =
     rbind (cursor_u8 (cursor_new input)) (\<lambda>(kind, c1).
       if kind \<noteq> REPAIR_DATAGRAM then Inl UnknownType
       else rbind (cursor_u32 c1) (\<lambda>(repair_id, c2).
         rbind (cursor_u32 c2) (\<lambda>(first_symbol_id, c3).
           rbind (cursor_u16 c3) (\<lambda>(span, c4).
             rbind (cursor_u16 c4) (\<lambda>(symbol_size, c5).
               rbind (cursor_u32 c5) (\<lambda>(seed, c6).
                 if span = 0 \<or> MAX_REPAIR_SPAN < span \<or> symbol_size = 0
                    \<or> max_symbol_bytes < unat symbol_size
                 then Inl InvalidField
                 else rbind (cursor_take (unat symbol_size) c6) (\<lambda>(coded, c7).
                   if \<not> cursor_is_empty c7 then Inl TrailingBytes
                   else Inr \<lparr>rp_repair_id = repair_id, rp_first_symbol_id = first_symbol_id,
                             rp_span = span, rp_symbol_size = symbol_size, rp_seed = seed,
                             rp_coded = coded\<rparr>)))))))"

subsection \<open>Records\<close>

definition record_ok :: "source_record \<Rightarrow> bool" where
  "record_ok r \<longleftrightarrow> sr_flow_id r \<le> MAX_WIRE_OFFSET \<and> sr_data r \<noteq> []
     \<and> unat (sr_offset r) + length (sr_data r) < 2 ^ 62"

lemma validate_wire_range_Inr [result_iff]:
  "validate_wire_range offset n = Inr u \<longleftrightarrow> unat offset + n < 2 ^ 62"
  by (auto simp: validate_wire_range_def checked_add_def usize_max_def MAX_WIRE_OFFSET_def)

lemma decode_source_record_sound:
  assumes ok: "cursor_ok c" and d: "decode_source_record c = Inr (r, d)"
  shows "record_ok r \<and> reads c (record_wire r) d"
proof -
  obtain fid off b len c1 c2 c3 c4 where
      1: "fid \<le> MAX_WIRE_OFFSET" "reads c (encode_varint fid) c1"
      and 2: "off \<le> MAX_WIRE_OFFSET" "reads c1 (encode_varint off) c2"
      and 3: "reads c2 [b] c3" "b = 0 \<or> b = 1"
      and 4: "len \<le> MAX_WIRE_OFFSET" "reads c3 (encode_varint len) c4" "unat len \<noteq> 0"
      and v: "unat off + unat len < 2 ^ 62"
      and t: "cursor_take (unat len) c4 = Inr (sr_data r, d)"
      and r: "sr_flow_id r = fid" "sr_offset r = off" "sr_fin r = (b = 1)"
    using d unfolding decode_source_record_def
    by (auto simp: rbind_Inr_iff cursor_varint_Inr cursor_u8_Inr validate_wire_range_Inr
        if_Inl_Inr_iff bool_flags_iff)
  have "cursor_ok c4"
    by (rule reads_ok [OF 4(2) reads_ok [OF 3(1) reads_ok [OF 2(2) reads_ok [OF 1(2) ok]]]])
  then have t': "length (sr_data r) = unat len" "reads c4 (sr_data r) d"
    using t by (simp_all add: cursor_take_Inr)
  have "word_of_nat (length (sr_data r)) = len" using t' by simp
  then have "reads c (record_wire r) d"
    using reads_trans [OF 1(2) reads_trans [OF 2(2) reads_trans [OF 3(1) reads_trans [OF 4(2) t'(2)]]]]
      bool_byte_of_flag [OF 3(2)] r
    by (simp add: record_wire_def)
  moreover have "sr_data r \<noteq> []" using 4(3) t'(1) by auto
  ultimately show ?thesis using 1 v t' r by (simp add: record_ok_def)
qed

lemma decode_source_record_complete:
  assumes ok: "cursor_ok c" and r: "record_ok r" and d: "reads c (record_wire r) d"
  shows "decode_source_record c = Inr (r, d)"
proof -
  let ?len = "word_of_nat (length (sr_data r)) :: u64"
  have o: "unat (sr_offset r) < 2 ^ 62" and l: "length (sr_data r) < 2 ^ 62"
    using r by (auto simp: record_ok_def)
  note len = word_of_payload_length [OF l]
  obtain c1 c2 c3 c4 where
      rd: "reads c (encode_varint (sr_flow_id r)) c1" "reads c1 (encode_varint (sr_offset r)) c2"
        "reads c2 [bool_byte (sr_fin r)] c3" "reads c3 (encode_varint ?len) c4"
        "reads c4 (sr_data r) d"
    using d unfolding record_wire_def reads_append by blast
  have ok4: "cursor_ok c4"
    by (rule reads_ok [OF rd(4) reads_ok [OF rd(3) reads_ok [OF rd(2) reads_ok [OF rd(1) ok]]]])
  have "cursor_varint c = Inr (sr_flow_id r, c1)" "cursor_varint c1 = Inr (sr_offset r, c2)"
      "cursor_u8 c2 = Inr (bool_byte (sr_fin r), c3)" "cursor_varint c3 = Inr (?len, c4)"
      "cursor_take (length (sr_data r)) c4 = Inr (sr_data r, d)"
    using rd r o len ok4
    by (simp_all add: cursor_varint_Inr cursor_u8_Inr cursor_take_Inr MAX_WIRE_OFFSET_iff record_ok_def)
  moreover have "validate_wire_range (sr_offset r) (length (sr_data r)) = Inr ()"
    using r by (simp add: validate_wire_range_Inr record_ok_def)
  moreover have "bool_byte (sr_fin r) AND NOT 1 = 0"
    using bool_byte_cases [of "sr_fin r"] by (simp only: bool_flags)
  ultimately show ?thesis
    using r len by (cases r) (simp add: decode_source_record_def record_ok_def)
qed

definition records_wire :: "source_record list \<Rightarrow> bytes" where
  "records_wire rs = concat (map record_wire rs)"

lemma records_wire_simps [simp]:
  "records_wire [] = []" "records_wire (r # rs) = record_wire r @ records_wire rs"
  by (simp_all add: records_wire_def)

lemma decode_records_Inr:
  "cursor_ok c \<Longrightarrow> decode_records n c = Inr (rs, d) \<longleftrightarrow>
     length rs = n \<and> list_all record_ok rs \<and> reads c (records_wire rs) d"
proof (induction n arbitrary: c rs)
  case 0
  then show ?case by auto
next
  case (Suc n)
  show ?case
  proof
    assume "decode_records (Suc n) c = Inr (rs, d)"
    then obtain r rs' c1 where rs: "rs = r # rs'" and 1: "decode_source_record c = Inr (r, c1)"
        and 2: "decode_records n c1 = Inr (rs', d)"
      by (auto simp: rbind_Inr_iff)
    note s = decode_source_record_sound [OF Suc.prems 1]
    then have "cursor_ok c1" using reads_ok Suc.prems by blast
    with 2 s rs show "length rs = Suc n \<and> list_all record_ok rs \<and> reads c (records_wire rs) d"
      by (auto simp: Suc.IH intro: reads_trans)
  next
    assume "length rs = Suc n \<and> list_all record_ok rs \<and> reads c (records_wire rs) d"
    then obtain r rs' c1 where rs: "rs = r # rs'" "length rs' = n" "record_ok r" "list_all record_ok rs'"
        and 1: "reads c (record_wire r) c1" and 2: "reads c1 (records_wire rs') d"
      by (cases rs) (auto simp: reads_append)
    then have "cursor_ok c1" using reads_ok Suc.prems by blast
    then have "decode_records n c1 = Inr (rs', d)" using rs 2 by (simp add: Suc.IH)
    with decode_source_record_complete [OF Suc.prems rs(3) 1] rs(1)
    show "decode_records (Suc n) c = Inr (rs, d)" by simp
  qed
qed


subsection \<open>SOURCE datagrams are canonical\<close>

definition source_wire :: "u32 \<Rightarrow> source_record list \<Rightarrow> bytes" where
  "source_wire symbol_id rs =
     [SOURCE_DATAGRAM] @ be_bytes 4 symbol_id @ [word_of_nat (length rs)] @ records_wire rs"

definition source_ok :: "usize \<Rightarrow> source_record list \<Rightarrow> bool" where
  "source_ok max_records rs \<longleftrightarrow>
     rs \<noteq> [] \<and> length rs \<le> max_records \<and> length rs \<le> 255 \<and> list_all record_ok rs"

definition mk_source :: "u32 \<Rightarrow> source_record list \<Rightarrow> source_datagram" where
  "mk_source symbol_id rs =
     \<lparr>sd_symbol_id = symbol_id, sd_first_record = hd rs,
      sd_remaining_records = records_wire (tl rs), sd_record_count = length rs\<rparr>"

lemma record_wire_nonempty: "record_ok r \<Longrightarrow> record_wire r \<noteq> []"
  by (simp add: record_wire_def record_ok_def)

lemma unat_u8_le: "unat (b :: u8) \<le> 255"
  using unsigned_less [of b, where 'a = nat] by simp

lemma unat_word_of_nat_u8: "n \<le> 255 \<Longrightarrow> unat (word_of_nat n :: u8) = n"
  by (simp add: unsigned_of_nat take_bit_nat_eq_self)

lemma decode_source_inner_sound:
  assumes m: "ms \<le> usize_max" and d: "decode_source_inner i mr ms = Inr (sd, n)"
  shows "\<exists>sid rs. source_ok mr rs \<and> length i \<le> ms \<and> sd = mk_source sid rs
           \<and> n = length (source_wire sid rs) \<and> i = source_wire sid rs @ drop n i"
proof -
  have len: "length i \<le> ms" using d by (auto simp: decode_source_inner_def split: if_splits)
  have ok: "cursor_ok (cursor_new i)" using len m by (simp add: cursor_ok_new)
  obtain c1 sid c2 b c3 r c4 rs c5 where
      1: "reads (cursor_new i) [SOURCE_DATAGRAM] c1" and 2: "cursor_u32 c1 = Inr (sid, c2)"
      and 3: "reads c2 [b] c3" "unat b \<noteq> 0" "unat b \<le> mr"
      and 4: "decode_source_record c3 = Inr (r, c4)" and 5: "decode_records (unat b - 1) c4 = Inr (rs, c5)"
      and sd: "sd = \<lparr>sd_symbol_id = sid, sd_first_record = r,
        sd_remaining_records = take (coffset c5 - coffset c4) (drop (coffset c4) i),
        sd_record_count = unat b\<rparr>" and n: "n = coffset c5"
    using d len by (auto simp: decode_source_inner_def rbind_Inr_iff cursor_u8_Inr not_less split: if_splits)
  have ok1: "cursor_ok c1" by (rule reads_ok [OF 1 ok])
  have r2: "reads c1 (be_bytes 4 sid) c2" using 2 by (simp add: cursor_u32_Inr [OF ok1])
  have ok3: "cursor_ok c3" by (rule reads_ok [OF 3(1) reads_ok [OF r2 ok1]])
  have r4: "record_ok r" "reads c3 (record_wire r) c4" using decode_source_record_sound [OF ok3 4] by auto
  have r5: "length rs = unat b - 1" "list_all record_ok rs" "reads c4 (records_wire rs) c5"
    using 5 by (simp_all add: decode_records_Inr [OF reads_ok [OF r4(2) ok3]])
  have lb: "unat b = length (r # rs)" using r5(1) 3(2) by simp
  have b: "b = word_of_nat (length (r # rs))" unfolding lb [symmetric] by simp
  have w: "reads (cursor_new i) (source_wire sid (r # rs)) c5"
    using reads_trans [OF 1 reads_trans [OF r2 reads_trans [OF 3(1) reads_trans [OF r4(2) r5(3)]]]]
    by (simp only: source_wire_def records_wire_simps b)
  have "drop (coffset c4) i = records_wire rs @ cursor_rest c5"
    using reads_rest [OF r5(3)] reads_cinput [OF w] reads_cinput [OF r5(3)]
    by (simp add: cursor_rest_def)
  then have "sd = mk_source sid (r # rs)"
    using sd reads_coffset [OF r5(3)] lb by (simp add: mk_source_def)
  moreover have "source_ok mr (r # rs)"
    using 3(3) r4(1) r5(2) lb unat_u8_le [of b] by (simp add: source_ok_def)
  moreover have "n = length (source_wire sid (r # rs))" using reads_coffset [OF w] n by simp
  moreover have "i = source_wire sid (r # rs) @ drop n i" using reads_from_new [OF w] unfolding n .
  ultimately show ?thesis using len by blast
qed

lemma decode_source_inner_complete:
  assumes m: "ms \<le> usize_max" and rs: "source_ok mr rs"
    and i: "i = source_wire sid rs @ x" and len: "length i \<le> ms"
  shows "decode_source_inner i mr ms = Inr (mk_source sid rs, length (source_wire sid rs))"
proof -
  obtain r rs' where r: "rs = r # rs'" using rs by (cases rs) (auto simp: source_ok_def)
  let ?b = "word_of_nat (length rs) :: u8"
  have b: "unat ?b = length rs" using rs by (intro unat_word_of_nat_u8) (simp add: source_ok_def)
  have ok: "cursor_ok (cursor_new i)" using len m by (simp add: cursor_ok_new)
  define c5 where "c5 = advance (length (source_wire sid rs)) (cursor_new i)"
  have "reads (cursor_new i) (source_wire sid rs) c5"
    unfolding c5_def by (rule readsI) (simp add: i)
  then obtain c1 c2 c3 c4 where 1: "reads (cursor_new i) [SOURCE_DATAGRAM] c1"
      and 2: "reads c1 (be_bytes 4 sid) c2" and 3: "reads c2 [?b] c3"
      and 4: "reads c3 (record_wire r) c4" and 5: "reads c4 (records_wire rs') c5"
    unfolding source_wire_def r records_wire_simps reads_append by blast
  have ok1: "cursor_ok c1" by (rule reads_ok [OF 1 ok])
  have ok3: "cursor_ok c3" by (rule reads_ok [OF 3 reads_ok [OF 2 ok1]])
  have "cursor_u8 (cursor_new i) = Inr (SOURCE_DATAGRAM, c1)" "cursor_u32 c1 = Inr (sid, c2)"
      "cursor_u8 c2 = Inr (?b, c3)"
    using 1 2 3 by (simp_all only: cursor_u8_Inr cursor_u32_Inr [OF ok1])
  moreover have "decode_source_record c3 = Inr (r, c4)"
    using rs r by (intro decode_source_record_complete [OF ok3 _ 4]) (simp add: source_ok_def)
  moreover have "decode_records (length rs - 1) c4 = Inr (rs', c5)"
    using rs r 5 by (simp add: decode_records_Inr [OF reads_ok [OF 4 ok3]] source_ok_def)
  moreover have "take (coffset c5 - coffset c4) (drop (coffset c4) i) = records_wire rs'"
    using reads_rest [OF 5] reads_coffset [OF 5] reads_cinput [OF 4] reads_cinput [OF 3]
      reads_cinput [OF 2] reads_cinput [OF 1]
    by (simp add: cursor_rest_def)
  moreover have "coffset c5 = length (source_wire sid rs)" by (simp add: c5_def)
  ultimately show ?thesis
    using rs len b by (simp add: decode_source_inner_def mk_source_def r source_ok_def)
qed

lemma encode_records_ok:
  "list_all record_ok rs \<Longrightarrow> encode_records rs out = (Inr (), out @ records_wire rs)"
proof (induction rs arbitrary: out)
  case Nil
  then show ?case by simp
next
  case (Cons r rs)
  have "validate_wire_range (sr_offset r) (length (sr_data r)) = Inr ()"
    using Cons.prems by (simp add: validate_wire_range_Inr record_ok_def)
  then show ?case using Cons by (simp add: record_ok_def)
qed

lemma encode_source_ok:
  assumes "source_ok mr rs"
  shows "encode_source sid rs out = (Inr (), out @ source_wire sid rs)"
proof -
  have l: "rs \<noteq> []" "length rs \<le> 255" "list_all record_ok rs"
    using assms by (simp_all add: source_ok_def)
  have "(word_of_nat (length rs) :: u8) \<noteq> 0"
    using l unat_word_of_nat_u8 [OF l(2)] by (metis length_0_conv unsigned_0)
  with l show ?thesis
    by (simp add: encode_source_def u8_try_from_def encode_records_ok source_wire_def)
qed

lemma source_records_mk:
  assumes "source_ok mr rs" and "length (records_wire (tl rs)) \<le> usize_max"
  shows "source_records (mk_source sid rs) = Inr rs"
proof -
  let ?c = "cursor_new (records_wire (tl rs))"
  have "cursor_ok ?c" by (rule cursor_ok_new [OF assms(2)])
  moreover have "reads ?c (records_wire (tl rs)) (advance (length (records_wire (tl rs))) ?c)"
    by (rule readsI [where r = "[]"]) simp
  moreover have "list_all record_ok (tl rs)"
    using assms(1) by (cases rs) (auto simp: source_ok_def)
  ultimately have "decode_records (length rs - 1) ?c
      = Inr (tl rs, advance (length (records_wire (tl rs))) ?c)"
    by (simp add: decode_records_Inr)
  then show ?thesis
    using assms(1) by (simp add: source_records_def mk_source_def source_ok_def)
qed

lemma records_wire_tl_le: "length (records_wire (tl rs)) \<le> length (source_wire sid rs)"
  by (cases rs) (simp_all add: source_wire_def)

subsection \<open>REPAIR datagrams are canonical\<close>

definition repair_wire :: "repair_datagram \<Rightarrow> bytes" where
  "repair_wire f = [REPAIR_DATAGRAM] @ be_bytes 4 (rp_repair_id f)
        @ be_bytes 4 (rp_first_symbol_id f) @ be_bytes 2 (rp_span f) @ be_bytes 2 (rp_symbol_size f)
        @ be_bytes 4 (rp_seed f) @ rp_coded f"

definition repair_ok :: "repair_datagram \<Rightarrow> bool" where
  "repair_ok f \<longleftrightarrow> rp_span f \<noteq> 0 \<and> rp_span f \<le> MAX_REPAIR_SPAN \<and> rp_symbol_size f \<noteq> 0
     \<and> length (rp_coded f) = unat (rp_symbol_size f)"

lemma encode_repair_iff:
  "encode_repair f out = (if repair_ok f then (Inr (), out @ repair_wire f) else (Inl InvalidField, out))"
  by (auto simp: encode_repair_def repair_ok_def repair_wire_def not_less)

lemma length_repair_wire:
  "repair_ok f \<Longrightarrow> length (repair_wire f) = REPAIR_DATAGRAM_HEADER_BYTES + unat (rp_symbol_size f)"
  by (simp add: repair_wire_def repair_ok_def REPAIR_DATAGRAM_HEADER_BYTES_def)

lemma decode_repair_sound:
  assumes len: "length i \<le> usize_max" and d: "decode_repair i ms = Inr f"
  shows "repair_ok f \<and> unat (rp_symbol_size f) \<le> ms \<and> i = repair_wire f"
proof -
  have ok: "cursor_ok (cursor_new i)" using len by (simp add: cursor_ok_new)
  obtain c1 c2 c3 c4 c5 c6 c7 where
      1: "reads (cursor_new i) [REPAIR_DATAGRAM] c1" and 2: "cursor_u32 c1 = Inr (rp_repair_id f, c2)"
      and 3: "cursor_u32 c2 = Inr (rp_first_symbol_id f, c3)"
      and 4: "reads c3 (be_bytes 2 (rp_span f)) c4" and 5: "reads c4 (be_bytes 2 (rp_symbol_size f)) c5"
      and 6: "cursor_u32 c5 = Inr (rp_seed f, c6)"
      and v: "rp_span f \<noteq> 0" "rp_span f \<le> MAX_REPAIR_SPAN" "rp_symbol_size f \<noteq> 0"
        "unat (rp_symbol_size f) \<le> ms"
      and 7: "cursor_take (unat (rp_symbol_size f)) c6 = Inr (rp_coded f, c7)"
      and e: "cursor_is_empty c7"
    using d unfolding decode_repair_def
    by (auto simp: rbind_Inr_iff cursor_u8_Inr cursor_u16_Inr if_Inl_Inr_iff not_less)
  have ok1: "cursor_ok c1" by (rule reads_ok [OF 1 ok])
  have r2: "reads c1 (be_bytes 4 (rp_repair_id f)) c2" using 2 by (simp add: cursor_u32_Inr [OF ok1])
  have ok2: "cursor_ok c2" by (rule reads_ok [OF r2 ok1])
  have r3: "reads c2 (be_bytes 4 (rp_first_symbol_id f)) c3" using 3 by (simp add: cursor_u32_Inr [OF ok2])
  have ok5: "cursor_ok c5" by (rule reads_ok [OF 5 reads_ok [OF 4 reads_ok [OF r3 ok2]]])
  have r6: "reads c5 (be_bytes 4 (rp_seed f)) c6" using 6 by (simp add: cursor_u32_Inr [OF ok5])
  have r7: "length (rp_coded f) = unat (rp_symbol_size f)" "reads c6 (rp_coded f) c7"
    using 7 by (simp_all add: cursor_take_Inr [OF reads_ok [OF r6 ok5]])
  have "reads (cursor_new i) (repair_wire f) c7"
    using reads_trans [OF 1 reads_trans [OF r2 reads_trans [OF r3 reads_trans [OF 4 reads_trans
      [OF 5 reads_trans [OF r6 r7(2)]]]]]]
    by (simp only: repair_wire_def)
  then have "i = repair_wire f" using e reads_all [OF len, of "repair_wire f" c7] by metis
  with v r7 show ?thesis by (simp add: repair_ok_def)
qed

lemma decode_repair_complete:
  assumes f: "repair_ok f" and ms: "unat (rp_symbol_size f) \<le> ms"
  shows "decode_repair (repair_wire f) ms = Inr f"
proof -
  let ?i = "repair_wire f"
  have "unat (rp_symbol_size f) < 2 ^ 16" using unsigned_less [of "rp_symbol_size f", where 'a = nat] by simp
  then have len: "length ?i \<le> usize_max"
    using length_repair_wire [OF f] by (simp add: usize_max_def REPAIR_DATAGRAM_HEADER_BYTES_def)
  then have ok0: "cursor_ok (cursor_new ?i)" by (simp add: cursor_ok_new)
  define c0 where "c0 = cursor_new ?i"
  have ok: "cursor_ok c0" using ok0 by (simp add: c0_def)
  define c7 where "c7 = advance (length ?i) c0"
  have "reads c0 ?i c7" and e: "cursor_is_empty c7"
    using reads_all [OF len] by (auto simp: c7_def c0_def)
  then have w: "reads c0 ([REPAIR_DATAGRAM] @ be_bytes 4 (rp_repair_id f)
      @ be_bytes 4 (rp_first_symbol_id f) @ be_bytes 2 (rp_span f) @ be_bytes 2 (rp_symbol_size f)
      @ be_bytes 4 (rp_seed f) @ rp_coded f) c7"
    by (simp only: repair_wire_def)
  obtain c1 c2 c3 c4 c5 c6 where 1: "reads c0 [REPAIR_DATAGRAM] c1"
      and 2: "reads c1 (be_bytes 4 (rp_repair_id f)) c2"
      and 3: "reads c2 (be_bytes 4 (rp_first_symbol_id f)) c3"
      and 4: "reads c3 (be_bytes 2 (rp_span f)) c4" and 5: "reads c4 (be_bytes 2 (rp_symbol_size f)) c5"
      and 6: "reads c5 (be_bytes 4 (rp_seed f)) c6" and 7: "reads c6 (rp_coded f) c7"
    using w unfolding reads_append by blast
  have ok1: "cursor_ok c1" by (rule reads_ok [OF 1 ok])
  have ok2: "cursor_ok c2" by (rule reads_ok [OF 2 ok1])
  have ok5: "cursor_ok c5" by (rule reads_ok [OF 5 reads_ok [OF 4 reads_ok [OF 3 ok2]]])
  have ok6: "cursor_ok c6" by (rule reads_ok [OF 6 ok5])
  have "cursor_u8 c0 = Inr (REPAIR_DATAGRAM, c1)" "cursor_u32 c1 = Inr (rp_repair_id f, c2)"
      "cursor_u32 c2 = Inr (rp_first_symbol_id f, c3)" "cursor_u16 c3 = Inr (rp_span f, c4)"
      "cursor_u16 c4 = Inr (rp_symbol_size f, c5)" "cursor_u32 c5 = Inr (rp_seed f, c6)"
      "cursor_take (unat (rp_symbol_size f)) c6 = Inr (rp_coded f, c7)"
    using 1 2 3 4 5 6 7 f
    by (simp_all only: cursor_u8_Inr cursor_u16_Inr cursor_u32_Inr [OF ok1] cursor_u32_Inr [OF ok2]
        cursor_u32_Inr [OF ok5] cursor_take_Inr [OF ok6] repair_ok_def simp_thms)
  with f ms e show ?thesis
    unfolding c0_def by (cases f) (simp add: decode_repair_def repair_ok_def not_less)
qed

subsection \<open>Properties\<close>

text \<open>C3: a SOURCE datagram built by the encoder and zero padded to the symbol size, as the erasure
  decoder returns it, decodes to the original records and to the unpadded length.\<close>

theorem source_padded_roundtrip:
  assumes "ms \<le> usize_max" and "source_ok mr rs"
    and "encode_source sid rs [] = (Inr (), w)" and "length w + k \<le> ms"
  shows "\<exists>d. decode_source_padded (w @ replicate k 0) mr ms = Inr (d, length w)
           \<and> sd_symbol_id d = sid \<and> source_records d = Inr rs"
proof -
  have w: "w = source_wire sid rs" using assms(2,3) by (simp add: encode_source_ok)
  have "decode_source_inner (w @ replicate k 0) mr ms = Inr (mk_source sid rs, length w)"
    using decode_source_inner_complete [OF assms(1,2) refl, of sid "replicate k 0"] assms(4)
    by (simp add: w)
  moreover have "length (records_wire (tl rs)) \<le> usize_max"
    using records_wire_tl_le [of rs sid] assms(1,4) unfolding w by linarith
  ultimately show ?thesis
    using source_records_mk [OF assms(2)]
    by (auto simp: decode_source_padded_def list_ex_iff mk_source_def)
qed

theorem source_padded_roundtrip_witness:
  "\<exists>d. decode_source_padded ([0x20, 0, 0, 0, 5, 1, 7, 64, 100, 1, 2, 8, 9] @ replicate 3 0) 32 16
         = Inr (d, length [0x20, 0, 0, 0, 5, 1, 7, 64, 100, 1, 2, 8, 9 :: u8])
     \<and> sd_symbol_id d = 5
     \<and> source_records d = Inr [\<lparr>sr_flow_id = 7, sr_offset = 100, sr_fin = True, sr_data = [8, 9]\<rparr>]"
proof (rule source_padded_roundtrip)
  show "16 \<le> usize_max" by (simp add: usize_max_def)
  show "source_ok 32 [\<lparr>sr_flow_id = 7, sr_offset = 100, sr_fin = True, sr_data = [8, 9]\<rparr>]"
    by (simp add: source_ok_def record_ok_def MAX_WIRE_OFFSET_def)
  show "encode_source 5 [\<lparr>sr_flow_id = 7, sr_offset = 100, sr_fin = True, sr_data = [8, 9]\<rparr>] []
      = (Inr (), [0x20, 0, 0, 0, 5, 1, 7, 64, 100, 1, 2, 8, 9])"
    by (simp add: encode_source_def u8_try_from_def validate_wire_range_def checked_add_def
        usize_max_def MAX_WIRE_OFFSET_def record_wire_def encode_varint_def bool_byte_def
        SOURCE_DATAGRAM_def be_bytes_def upt_rec)
qed simp

text \<open>C4: the SOURCE decoder is canonical and its iterator total.  An accepted datagram is octet
  for octet what the encoder writes for the records the iterator yields, and the iterator never
  reports an error on it.\<close>

theorem source_canonical:
  assumes "ms \<le> usize_max" and "decode_source i mr ms = Inr d"
  shows "\<exists>rs. source_records d = Inr rs \<and> length rs = sd_record_count d \<and> source_ok mr rs
           \<and> encode_source (sd_symbol_id d) rs [] = (Inr (), i)"
proof -
  have inner: "decode_source_inner i mr ms = Inr (d, length i)"
    using assms(2) by (auto simp: decode_source_def rbind_Inr_iff if_Inl_Inr_iff)
  obtain sid rs where rs: "source_ok mr rs" "d = mk_source sid rs" and l: "length i \<le> ms"
      and i: "i = source_wire sid rs @ drop (length i) i"
    using decode_source_inner_sound [OF assms(1) inner] by blast
  have i': "i = source_wire sid rs" using i unfolding drop_all [OF order_refl] by simp
  have "length (records_wire (tl rs)) \<le> usize_max"
    using records_wire_tl_le [of rs sid] assms(1) l unfolding i' by linarith
  then have "source_records d = Inr rs" using source_records_mk [OF rs(1)] rs(2) by simp
  moreover have "length rs = sd_record_count d" "sd_symbol_id d = sid"
    using rs(2) by (simp_all add: mk_source_def)
  ultimately show ?thesis using rs(1) encode_source_ok [OF rs(1), of sid "[]"] i' by auto
qed

theorem source_canonical_witness:
  "\<exists>rs. source_records (mk_source 5 [\<lparr>sr_flow_id = 7, sr_offset = 3, sr_fin = False, sr_data = [8]\<rparr>]) = Inr rs
     \<and> length rs = sd_record_count (mk_source 5 [\<lparr>sr_flow_id = 7, sr_offset = 3, sr_fin = False, sr_data = [8]\<rparr>])
     \<and> source_ok 32 rs
     \<and> encode_source (sd_symbol_id (mk_source 5 [\<lparr>sr_flow_id = 7, sr_offset = 3, sr_fin = False, sr_data = [8]\<rparr>])) rs []
         = (Inr (), [0x20, 0, 0, 0, 5, 1, 7, 3, 0, 1, 8])"
proof (rule source_canonical)
  show "64 \<le> usize_max" by (simp add: usize_max_def)
  show "decode_source [0x20, 0, 0, 0, 5, 1, 7, 3, 0, 1, 8] 32 64
      = Inr (mk_source 5 [\<lparr>sr_flow_id = 7, sr_offset = 3, sr_fin = False, sr_data = [8]\<rparr>])"
    by (simp add: decode_source_def decode_source_inner_def decode_source_record_def cursor_u8_def
        cursor_new_def cursor_u32_def cursor_take_def checked_add_def usize_max_def SOURCE_DATAGRAM_def
        from_be_def be_step_def cursor_varint_def cursor_rest_def decode_varint_def varint_minimum_def
        Let_def validate_wire_range_def MAX_WIRE_OFFSET_def mk_source_def)
qed

text \<open>C5: REPAIR datagrams.  The decoder accepts exactly the octets the encoder writes for a frame
  with a span of 1 to 256, a nonzero symbol size within the limit and that many coded octets.\<close>

theorem repair_codec_exact:
  assumes "length i \<le> usize_max"
  shows "decode_repair i ms = Inr f \<longleftrightarrow>
     encode_repair f [] = (Inr (), i) \<and> unat (rp_symbol_size f) \<le> ms"
  using decode_repair_sound [OF assms, of ms f] decode_repair_complete [of f ms]
  by (auto simp: encode_repair_iff split: if_splits)

theorem repair_codec_exact_witness:
  "decode_repair [0x21, 0, 0, 0, 1, 0, 0, 0, 2, 0, 3, 0, 2, 0, 0, 0, 4, 8, 9] 64
     = Inr \<lparr>rp_repair_id = 1, rp_first_symbol_id = 2, rp_span = 3, rp_symbol_size = 2, rp_seed = 4,
            rp_coded = [8, 9]\<rparr>"
proof -
  have len: "length [0x21, 0, 0, 0, 1, 0, 0, 0, 2, 0, 3, 0, 2, 0, 0, 0, 4, 8, 9 :: u8] \<le> usize_max"
    by (simp add: usize_max_def)
  show ?thesis unfolding repair_codec_exact [OF len]
    by (simp add: encode_repair_def MAX_REPAIR_SPAN_def REPAIR_DATAGRAM_def be_bytes_def upt_rec)
qed

end
