(* ===== verification/GF256.thy ===== *)
theory GF256
  imports Quicp_Prelude
begin

unbundle bit_operations_syntax

section \<open>The field of the erasure code (src/fec.rs)\<close>

text \<open>
  Octets are elements of GF(256) modulo \<open>x^8 + x^4 + x^3 + x^2 + 1\<close>; addition is exclusive or.
  \<open>multiply\<close>, \<open>gf_inverse\<close> and \<open>coefficient\<close> are the loops of \<open>src/fec.rs\<close>.  The lemmas show
  that they form a field: multiplication is bilinear, commutative and associative with unit 1,
  and \<open>gf_inverse\<close>, the 254th power by square and multiply, inverts every nonzero octet.  The last
  fact rests on the norm \<open>a * a^2 * a^4 * ... * a^128\<close>, which is idempotent because squaring is
  linear and has order eight.
\<close>

definition REDUCTION :: u8 where "REDUCTION = 0x1d"

definition xtime :: "u8 \<Rightarrow> u8" where
  "xtime left =
     (let carry = left AND 0x80 \<noteq> 0; left' = push_bit 1 left in
      if carry then left' XOR REDUCTION else left')"

function multiply_loop :: "u8 \<Rightarrow> u8 \<Rightarrow> u8 \<Rightarrow> u8" where
  "multiply_loop left right output =
     (if right = 0 then output
      else multiply_loop (xtime left) (drop_bit 1 right)
             (if right AND 1 \<noteq> 0 then output XOR left else output))"
  by pat_completeness auto

lemma unat_drop_bit_1: "unat (drop_bit 1 (r :: 'a::len word)) = unat r div 2"
  using unat_drop_bit_eq [of 1 r] by (simp only: drop_bit_eq_div power_one_right)

termination multiply_loop
proof (relation "measure (\<lambda>(_, right, _). unat right)")
  fix left right out :: u8
  assume "right \<noteq> 0"
  then have "0 < unat right" by (simp add: unat_gt_0)
  then show "((xtime left, drop_bit 1 right, if right AND 1 \<noteq> 0 then out XOR left else out),
      left, right, out) \<in> measure (\<lambda>(_, right, _). unat right)"
    by (simp only: in_measure split unat_drop_bit_1)
qed simp

declare multiply_loop.simps [simp del]

definition multiply :: "u8 \<Rightarrow> u8 \<Rightarrow> u8" where
  "multiply left right = multiply_loop left right 0"

function inverse_loop :: "u8 \<Rightarrow> u8 \<Rightarrow> u8 \<Rightarrow> u8" where
  "inverse_loop base exponent output =
     (if exponent = 0 then output
      else inverse_loop (multiply base base) (drop_bit 1 exponent)
             (if exponent AND 1 \<noteq> 0 then multiply output base else output))"
  by pat_completeness auto

termination inverse_loop
proof (relation "measure (\<lambda>(_, exponent, _). unat exponent)")
  fix base exponent out :: u8
  assume "exponent \<noteq> 0"
  then have "0 < unat exponent" by (simp add: unat_gt_0)
  then show "((multiply base base, drop_bit 1 exponent,
      if exponent AND 1 \<noteq> 0 then multiply out base else out), base, exponent, out)
      \<in> measure (\<lambda>(_, exponent, _). unat exponent)"
    by (simp only: in_measure split unat_drop_bit_1)
qed simp

declare inverse_loop.simps [simp del]

definition gf_inverse :: "u8 \<Rightarrow> u8" where
  "gf_inverse value = inverse_loop value 254 1"

definition coefficient :: "u32 \<Rightarrow> u32 \<Rightarrow> u32 \<Rightarrow> u8" where
  "coefficient seed repair_id symbol_id =
     (let v0 = seed XOR (repair_id * 0x9e3779b9) XOR (symbol_id * 0x85ebca6b);
          v1 = v0 XOR drop_bit 16 v0;
          v2 = v1 * 0x7feb352d;
          v3 = v2 XOR drop_bit 15 v2;
          v4 = v3 * 0x846ca68b;
          v5 = v4 XOR drop_bit 16 v4;
          c = (ucast v5 :: u8) in
      if c = 0 then 1 else c)"

subsection \<open>Bilinearity\<close>

lemma xor_left_cancel [simp]: "(a :: 'a::len word) XOR (a XOR b) = b"
  by (simp add: xor.assoc [symmetric])

lemma multiply_loop_acc: "multiply_loop l r (a XOR out) = a XOR multiply_loop l r out"
proof (induction l r out arbitrary: a rule: multiply_loop.induct)
  case (1 l r out)
  show ?case
  proof (cases "r = 0")
    case True
    then show ?thesis by (simp add: multiply_loop.simps)
  next
    case False
    let ?next = "\<lambda>x. if r AND 1 \<noteq> 0 then x XOR l else x"
    have "?next (a XOR out) = a XOR ?next out" by (simp add: xor.assoc)
    then have "multiply_loop l r (a XOR out) = multiply_loop (xtime l) (drop_bit 1 r) (a XOR ?next out)"
      using False by (simp add: multiply_loop.simps [of l r "a XOR out"])
    also have "\<dots> = a XOR multiply_loop (xtime l) (drop_bit 1 r) (?next out)"
      by (rule 1 [OF False])
    also have "\<dots> = a XOR multiply_loop l r out"
      using False by (simp add: multiply_loop.simps [of l r out])
    finally show ?thesis .
  qed
qed

definition gate :: "bool \<Rightarrow> u8 \<Rightarrow> u8" where
  "gate b a = (if b then a else 0)"

lemma multiply_0_right [simp]: "multiply a 0 = 0"
  by (simp add: multiply_def multiply_loop.simps)

lemma multiply_rec: "multiply a r = gate (odd r) a XOR multiply (xtime a) (drop_bit 1 r)"
proof (cases "r = 0")
  case True
  then show ?thesis by (simp add: gate_def)
next
  case False
  have "multiply a r = multiply_loop (xtime a) (drop_bit 1 r) (gate (odd r) a)"
    using False by (simp add: multiply_def multiply_loop.simps [of a r] gate_def and_one_eq odd_iff_mod_2_eq_one)
  also have "\<dots> = gate (odd r) a XOR multiply (xtime a) (drop_bit 1 r)"
    using multiply_loop_acc [of "xtime a" "drop_bit 1 r" "gate (odd r) a" 0] by (simp add: multiply_def)
  finally show ?thesis .
qed

lemma bit_xtime:
  "bit (xtime a) n \<longleftrightarrow> n < 8 \<and> ((0 < n \<and> bit a (n - 1)) \<noteq> (bit a 7 \<and> bit REDUCTION n))"
proof -
  have carry: "a AND 0x80 \<noteq> 0 \<longleftrightarrow> bit a 7"
  proof -
    have "(0x80 :: u8) = push_bit 7 1" by simp
    then show ?thesis
      by (metis and_exp_eq_0_iff_not_bit push_bit_of_1)
  qed
  define p where "p = push_bit 1 a"
  have p: "bit p n \<longleftrightarrow> n < 8 \<and> 0 < n \<and> bit a (n - 1)"
    unfolding p_def bit_push_bit_iff by (auto dest: bit_imp_le_length)
  have "bit (xtime a) n \<longleftrightarrow> bit p n \<noteq> (bit a 7 \<and> bit REDUCTION n)"
    unfolding xtime_def carry p_def [symmetric] by (simp add: bit_xor_iff)
  moreover have "bit REDUCTION n \<Longrightarrow> n < 8" using bit_imp_le_length [of REDUCTION n] by simp
  ultimately show ?thesis using p by auto
qed

lemma xtime_xor: "xtime (a XOR b) = xtime a XOR xtime b"
  by (rule bit_word_eqI) (auto simp: bit_xtime bit_xor_iff)

lemma xtime_0 [simp]: "xtime 0 = 0"
  by (simp add: xtime_def)

lemma xtime_gate: "xtime (gate b a) = gate b (xtime a)"
  by (simp add: gate_def)

lemma multiply_xor_left: "multiply (a XOR b) r = multiply a r XOR multiply b r"
proof (induction "unat r" arbitrary: a b r rule: less_induct)
  case less
  show ?case
  proof (cases "r = 0")
    case False
    then have "unat (drop_bit 1 r) < unat r"
      unfolding unat_drop_bit_1 by (simp add: unat_gt_0)
    from less [OF this, of "xtime a" "xtime b"] show ?thesis
      unfolding multiply_rec [of _ r] xtime_xor
      by (simp add: gate_def xor.assoc xor.left_commute)
  qed simp
qed

lemma multiply_0_left [simp]: "multiply 0 r = 0"
  using multiply_xor_left [of 0 0 r] by simp

lemma multiply_gate: "multiply (gate b a) r = gate b (multiply a r)"
  by (simp add: gate_def)

lemma multiply_xtime_left: "multiply (xtime a) r = xtime (multiply a r)"
proof (induction "unat r" arbitrary: a r rule: less_induct)
  case less
  show ?case
  proof (cases "r = 0")
    case False
    then have "unat (drop_bit 1 r) < unat r"
      unfolding unat_drop_bit_1 by (simp add: unat_gt_0)
    from less [OF this, of "xtime a"] show ?thesis
      unfolding multiply_rec [of _ r] xtime_xor xtime_gate by simp
  qed simp
qed

lemma word_split_low: "(b :: u8) = gate (odd b) 1 XOR xtime (drop_bit 1 b)"
proof (rule bit_word_eqI)
  fix n assume n: "n < LENGTH(8)"
  have top: "\<not> bit (drop_bit 1 b) 7"
    using bit_imp_le_length [of b 8] by (auto simp: bit_drop_bit_eq)
  have g: "bit (gate (odd b) 1) n \<longleftrightarrow> n = 0 \<and> bit b 0"
    by (auto simp: gate_def bit_0 bit_1_iff)
  have x: "bit (xtime (drop_bit 1 b)) n \<longleftrightarrow> 0 < n \<and> bit b n"
    using n top unfolding bit_xtime bit_drop_bit_eq by auto
  show "bit b n = bit (gate (odd b) 1 XOR xtime (drop_bit 1 b)) n"
    unfolding bit_xor_iff g x by (cases n) auto
qed

lemma multiply_1_left [simp]: "multiply 1 r = r"
proof (induction "unat r" arbitrary: r rule: less_induct)
  case less
  show ?case
  proof (cases "r = 0")
    case False
    then have "unat (drop_bit 1 r) < unat r"
      unfolding unat_drop_bit_1 by (simp add: unat_gt_0)
    from less [OF this] have "multiply 1 r = gate (odd r) 1 XOR xtime (drop_bit 1 r)"
      unfolding multiply_rec [of 1 r] multiply_xtime_left by simp
    then show ?thesis by (simp only: word_split_low [symmetric])
  qed simp
qed

lemma multiply_commute: "multiply a b = multiply b a"
proof (induction "unat b" arbitrary: b rule: less_induct)
  case less
  show ?case
  proof (cases "b = 0")
    case False
    then have lt: "unat (drop_bit 1 b) < unat b"
      unfolding unat_drop_bit_1 by (simp add: unat_gt_0)
    have "multiply b a = multiply (gate (odd b) 1 XOR xtime (drop_bit 1 b)) a"
      by (simp only: word_split_low [symmetric])
    also have "\<dots> = gate (odd b) a XOR xtime (multiply (drop_bit 1 b) a)"
      by (simp only: multiply_xor_left multiply_gate multiply_1_left multiply_xtime_left)
    also have "\<dots> = gate (odd b) a XOR xtime (multiply a (drop_bit 1 b))"
      using less [OF lt] by simp
    also have "\<dots> = multiply a b"
      unfolding multiply_rec [of a b] multiply_xtime_left ..
    finally show ?thesis by simp
  qed simp
qed

lemma multiply_1_right [simp]: "multiply a 1 = a"
  by (subst multiply_commute) simp

lemma multiply_xor_right: "multiply a (r XOR s) = multiply a r XOR multiply a s"
  by (simp only: multiply_commute [of a] multiply_xor_left)

lemma multiply_assoc: "multiply (multiply a b) c = multiply a (multiply b c)"
proof (induction "unat c" arbitrary: c rule: less_induct)
  case less
  show ?case
  proof (cases "c = 0")
    case False
    then have lt: "unat (drop_bit 1 c) < unat c"
      unfolding unat_drop_bit_1 by (simp add: unat_gt_0)
    have g: "multiply a (gate x y) = gate x (multiply a y)" for x y by (simp add: gate_def)
    have r: "multiply a (xtime y) = xtime (multiply a y)" for y
      by (simp only: multiply_commute [of a] multiply_xtime_left)
    show ?thesis
      unfolding multiply_rec [of "multiply a b" c] multiply_rec [of b c] multiply_xtime_left
        multiply_xor_right g r less [OF lt] ..
  qed simp
qed

lemma multiply_left_commute: "multiply a (multiply b c) = multiply b (multiply a c)"
  by (metis multiply_assoc multiply_commute)

lemmas multiply_ac = multiply_assoc multiply_commute multiply_left_commute

subsection \<open>Inverses\<close>

definition square :: "u8 \<Rightarrow> u8" where
  "square a = multiply a a"

lemma square_xor: "square (a XOR b) = square a XOR square b"
  by (simp add: square_def multiply_xor_left multiply_xor_right multiply_commute [of b a] xor.assoc)

lemma square_multiply: "square (multiply a b) = multiply (square a) (square b)"
  by (simp add: square_def multiply_ac)

lemma xtime_multiply: "xtime a = multiply 2 a"
proof -
  have "xtime 1 = 2" by (simp add: xtime_def)
  then show ?thesis using multiply_xtime_left [of 1 a] by simp
qed

lemma square_pow_xor: "(square ^^ n) (a XOR b) = (square ^^ n) a XOR (square ^^ n) b"
  by (induction n) (simp_all add: square_xor)

lemma square_pow_multiply: "(square ^^ n) (multiply a b) = multiply ((square ^^ n) a) ((square ^^ n) b)"
  by (induction n) (simp_all add: square_multiply)

lemma square_pow_1 [simp]: "(square ^^ n) 1 = 1"
  by (induction n) (simp_all add: square_def)

lemma square_pow_0 [simp]: "(square ^^ n) 0 = 0"
  by (induction n) (simp_all add: square_def)

lemma square_chain:
  "square 2 = 4"
  "square 4 = 16"
  "square 16 = 29"
  "square 29 = 76"
  "square 76 = 157"
  "square 157 = 95"
  "square 95 = 133"
  "square 133 = 2"
  by (simp_all add: square_def multiply_def multiply_loop.simps xtime_def REDUCTION_def)

lemma square_pow_8_two: "(square ^^ 8) 2 = 2"
  by (simp add: eval_nat_numeral square_chain)

lemma square_pow_8: "(square ^^ 8) a = a"
proof (induction "unat a" arbitrary: a rule: less_induct)
  case less
  show ?case
  proof (cases "a = 0")
    case False
    then have lt: "unat (drop_bit 1 a) < unat a"
      unfolding unat_drop_bit_1 by (simp add: unat_gt_0)
    have "(square ^^ 8) a = (square ^^ 8) (gate (odd a) 1 XOR xtime (drop_bit 1 a))"
      by (simp only: word_split_low [symmetric])
    also have "\<dots> = (square ^^ 8) (gate (odd a) 1) XOR multiply 2 (drop_bit 1 a)"
      unfolding square_pow_xor xtime_multiply square_pow_multiply square_pow_8_two less [OF lt] ..
    also have "(square ^^ 8) (gate (odd a) 1) = gate (odd a) 1"
      by (simp only: gate_def split: if_split) simp
    also have "gate (odd a) 1 XOR multiply 2 (drop_bit 1 a) = a"
      by (simp only: xtime_multiply [symmetric] word_split_low [symmetric])
    finally show ?thesis .
  qed (simp only: square_pow_0)
qed

lemma square_basis:
  "square 1 = 1"
  "square 2 = 4"
  "square 4 = 16"
  "square 8 = 64"
  "square 16 = 29"
  "square 32 = 116"
  "square 64 = 205"
  "square 128 = 19"
  by (simp_all add: square_def multiply_def multiply_loop.simps xtime_def REDUCTION_def)

lemma less_8_cases:
  assumes "n < (8 :: nat)"
  obtains "n = 0" | "n = 1" | "n = 2" | "n = 3" | "n = 4" | "n = 5" | "n = 6" | "n = 7"
  using assms by linarith

lemma bit_gate: "bit (gate b a) n \<longleftrightarrow> b \<and> bit a n"
  by (simp add: gate_def)

lemma octet_expand:
  "(e :: u8) = gate (bit e 0) 1 XOR (gate (bit e 1) 2 XOR (gate (bit e 2) 4 XOR (gate (bit e 3) 8 XOR
     (gate (bit e 4) 16 XOR (gate (bit e 5) 32 XOR (gate (bit e 6) 64 XOR gate (bit e 7) 128))))))"
proof (rule bit_word_eqI)
  fix n assume "n < LENGTH(8)"
  then have "n < 8" by simp
  then show "bit e n = bit (gate (bit e 0) 1 XOR (gate (bit e 1) 2 XOR (gate (bit e 2) 4 XOR
      (gate (bit e 3) 8 XOR (gate (bit e 4) 16 XOR (gate (bit e 5) 32 XOR (gate (bit e 6) 64 XOR
      gate (bit e 7) 128))))))) n"
    by (rule less_8_cases) (simp_all add: bit_xor_iff bit_gate bit_1_iff)
qed

lemma square_gate: "square (gate b a) = gate b (square a)"
  by (simp add: gate_def square_def)

lemma idempotent_0_1:
  assumes "square e = e"
  shows "e = 0 \<or> e = 1"
proof -
  have sq: "square e = gate (bit e 0) 1 XOR (gate (bit e 1) 4 XOR (gate (bit e 2) 16 XOR
      (gate (bit e 3) 64 XOR (gate (bit e 4) 29 XOR (gate (bit e 5) 116 XOR (gate (bit e 6) 205 XOR
      gate (bit e 7) 19))))))"
    by (subst octet_expand [of e]) (simp only: square_xor square_gate square_basis)
  have b: "bit e n \<longleftrightarrow> bit (gate (bit e 0) 1 XOR (gate (bit e 1) 4 XOR (gate (bit e 2) 16 XOR
      (gate (bit e 3) 64 XOR (gate (bit e 4) 29 XOR (gate (bit e 5) 116 XOR (gate (bit e 6) 205 XOR
      gate (bit e 7) 19))))))) n" for n
    using assms sq by simp
  note bits = b [of 0] b [of 1] b [of 2] b [of 3] b [of 4] b [of 6] b [of 7]
  have "\<not> bit e 1 \<and> \<not> bit e 2 \<and> \<not> bit e 3 \<and> \<not> bit e 4 \<and> \<not> bit e 5 \<and> \<not> bit e 6 \<and> \<not> bit e 7"
    using bits by (simp only: bit_xor_iff bit_gate) (simp add: bit_1_iff, argo)
  then have "e = gate (bit e 0) 1"
    using octet_expand [of e] by (simp only: gate_def if_False xor.right_neutral simp_thms)
  then show ?thesis by (simp add: gate_def split: if_splits)
qed

text \<open>The norm of an octet: the product of its eight conjugates.\<close>

definition norm8 :: "u8 \<Rightarrow> u8" where
  "norm8 a = multiply a (gf_inverse a)"

lemma gf_inverse_product:
  assumes "square a = s1" "square s1 = s2" "square s2 = s3" "square s3 = s4" "square s4 = s5"
    "square s5 = s6" "square s6 = s7"
  shows "gf_inverse a = multiply (multiply (multiply (multiply (multiply (multiply s1 s2) s3) s4) s5) s6) s7"
proof -
  note sq = assms [unfolded square_def]
  show ?thesis by (simp add: gf_inverse_def inverse_loop.simps sq)
qed

lemma norm8_laws:
  shows square_norm8: "square (norm8 a) = norm8 a" and multiply_norm8: "multiply a (norm8 a) = a"
proof -
  obtain s1 s2 s3 s4 s5 s6 s7 where s: "square a = s1" "square s1 = s2" "square s2 = s3"
      "square s3 = s4" "square s4 = s5" "square s5 = s6" "square s6 = s7" by blast
  have s8: "square s7 = a" using square_pow_8 [of a] s by (simp add: eval_nat_numeral)
  note n = norm8_def gf_inverse_product [OF s]
  show "square (norm8 a) = norm8 a"
    unfolding n square_multiply s s8 by (simp only: multiply_ac)
  show "multiply a (norm8 a) = a"
    unfolding n multiply_assoc [symmetric]
    by (simp only: s [unfolded square_def] s8 [unfolded square_def])
qed

lemma multiply_inverse:
  assumes "a \<noteq> 0"
  shows "multiply a (gf_inverse a) = 1"
  using idempotent_0_1 [OF square_norm8 [of a]] multiply_norm8 [of a] assms
  by (auto simp: norm8_def)

lemma multiply_eq_0_iff: "multiply a b = 0 \<longleftrightarrow> a = 0 \<or> b = 0"
proof
  assume z: "multiply a b = 0"
  show "a = 0 \<or> b = 0"
  proof (rule ccontr)
    assume "\<not> (a = 0 \<or> b = 0)"
    then have "multiply (multiply (gf_inverse a) a) b = b"
      by (simp add: multiply_commute [of _ a] multiply_inverse)
    then show False using z \<open>\<not> (a = 0 \<or> b = 0)\<close> by (simp add: multiply_assoc)
  qed
qed auto

lemma gf_inverse_nonzero: "a \<noteq> 0 \<Longrightarrow> gf_inverse a \<noteq> 0"
  using multiply_inverse [of a] by auto

lemma coefficient_nonzero: "coefficient seed repair_id symbol_id \<noteq> 0"
  by (simp add: coefficient_def Let_def)

subsection \<open>The field as an interface\<close>

text \<open>
  The elimination of the decoder needs of the octets only the laws of \<open>octet_field\<close>.  A linear
  form \<open>lin mul S cs\<close> is the sum of \<open>c * S id\<close> over its coefficient list.
\<close>

fun lin :: "(u8 \<Rightarrow> u8 \<Rightarrow> u8) \<Rightarrow> (u32 \<Rightarrow> u8) \<Rightarrow> (u32 \<times> u8) list \<Rightarrow> u8" where
  "lin mul S [] = 0"
| "lin mul S ((k, c) # cs) = mul (S k) c XOR lin mul S cs"

lemma lin_append: "lin mul S (xs @ ys) = lin mul S xs XOR lin mul S ys"
  by (induction mul S xs rule: lin.induct) (simp_all add: xor.assoc)

locale octet_field =
  fixes mul :: "u8 \<Rightarrow> u8 \<Rightarrow> u8" and inv :: "u8 \<Rightarrow> u8"
  assumes mul_xor: "mul (a XOR b) c = mul a c XOR mul b c"
    and mul_commute: "mul a b = mul b a"
    and mul_assoc: "mul (mul a b) c = mul a (mul b c)"
    and mul_one: "mul a 1 = a"
    and mul_inv: "a \<noteq> 0 \<Longrightarrow> mul a (inv a) = 1"
begin

lemma mul_xor_right: "mul c (a XOR b) = mul c a XOR mul c b"
  by (simp only: mul_commute [of c] mul_xor)

lemma mul_zero: "mul 0 a = 0" "mul a 0 = 0"
proof -
  show "mul 0 a = 0" using mul_xor [of 0 0 a] by simp
  then show "mul a 0 = 0" by (simp only: mul_commute [of a])
qed

lemma mul_zero_iff: "mul a b = 0 \<longleftrightarrow> a = 0 \<or> b = 0"
proof
  assume z: "mul a b = 0"
  have "a = 0 \<or> mul (mul (inv a) a) b = b"
    using mul_inv [of a] mul_one [of b] by (metis mul_commute)
  then show "a = 0 \<or> b = 0" using z by (auto simp: mul_assoc mul_zero)
qed (auto simp: mul_zero)

lemma lin_scale: "lin mul S (map (\<lambda>(k, c). (k, mul c f)) cs) = mul (lin mul S cs) f"
  by (induction cs) (auto simp: mul_zero mul_xor mul_assoc)

lemma lin_remove:
  "i < length cs \<Longrightarrow>
     lin mul S cs = mul (S (fst (cs ! i))) (snd (cs ! i)) XOR lin mul S (take i cs @ drop (Suc i) cs)"
proof (induction cs arbitrary: i)
  case Nil
  then show ?case by simp
next
  case (Cons p cs)
  obtain k c where p: "p = (k, c)" by (cases p)
  show ?case
  proof (cases i)
    case 0
    then show ?thesis by (simp add: p)
  next
    case (Suc j)
    then have "lin mul S cs = mul (S (fst (cs ! j))) (snd (cs ! j)) XOR lin mul S (take j cs @ drop (Suc j) cs)"
      using Cons by simp
    then show ?thesis by (simp add: p Suc xor.left_commute)
  qed
qed

lemma lin_insert:
  "lin mul S (take i cs @ (k, c) # drop i cs) = mul (S k) c XOR lin mul S cs"
proof -
  have "lin mul S (take i cs @ drop i cs) = lin mul S (take i cs) XOR lin mul S (drop i cs)"
    by (rule lin_append)
  then show ?thesis by (simp add: lin_append xor.left_commute)
qed

lemma lin_update:
  assumes i: "i < length cs" and k: "fst (cs ! i) = k"
  shows "lin mul S (cs[i := (k, snd (cs ! i) XOR d)]) = mul (S k) d XOR lin mul S cs"
proof -
  have u: "cs[i := (k, snd (cs ! i) XOR d)] = take i cs @ (k, snd (cs ! i) XOR d) # drop (Suc i) cs"
    by (rule upd_conv_take_nth_drop [OF i])
  have c: "lin mul S cs = mul (S k) (snd (cs ! i)) XOR lin mul S (take i cs @ drop (Suc i) cs)"
    using lin_remove [OF i, of S] by (simp only: k)
  show ?thesis
    unfolding u c by (simp add: lin_append mul_xor_right xor.assoc xor.left_commute)
qed

lemma lin_single_solve:
  assumes "c \<noteq> 0"
  shows "mul (lin mul S [(k, c)]) (inv c) = S k"
  using mul_inv [OF assms] mul_one by (simp add: mul_assoc)

end

interpretation gf: octet_field multiply gf_inverse
  by unfold_locales (fact multiply_xor_left, fact multiply_commute, fact multiply_assoc,
    fact multiply_1_right, fact multiply_inverse)

text \<open>C7: the octet operations of the erasure code are a field: multiplication is commutative,
  associative and distributes over exclusive or, 1 is its unit, and the square-and-multiply loop
  of \<open>inverse\<close> returns the inverse of every nonzero octet.\<close>

theorem gf256_field:
  "multiply a b = multiply b a \<and> multiply (multiply a b) c = multiply a (multiply b c)
   \<and> multiply (a XOR b) c = multiply a c XOR multiply b c \<and> multiply a 1 = a
   \<and> multiply a (gf_inverse a) = (if a = 0 then 0 else 1)
   \<and> (multiply a b = 0 \<longleftrightarrow> a = 0 \<or> b = 0)"
  by (simp add: multiply_commute [of b a] multiply_assoc multiply_xor_left multiply_inverse
      multiply_eq_0_iff)

end
