(* ===== verification/Fec_Matrix.thy ===== *)
theory Fec_Matrix
  imports GF256 Wire_Datagrams
begin

unbundle bit_operations_syntax

section \<open>Repair symbols and the elimination of the decoder (src/fec.rs)\<close>

text \<open>
  A repair symbol is a random linear combination over GF(256) of a window of source symbols.  A
  \<open>row\<close> of the decoder is such an equation over symbols it has not seen; \<open>reduce\<close> brings a set
  of rows into reduced echelon form under a work budget and reads off the symbols that became
  determined.  Capacities of vectors are explicit where the code accounts for them:
  \<open>Vec::with_capacity\<close> allocates exactly what is asked for, and no vector of a row outgrows its
  initial capacity (\<open>Fec_Decoder\<close>).  \<open>size_of\<close> values are those of a 64-bit target.
\<close>

datatype fec_error =
    InvalidSpan | InvalidSymbolSize | RowCapacity | MemoryCapacity | WorkBudget | ContradictoryRepair

record row =
  r_coefficients :: "(u32 \<times> u8) list"
  r_coefficients_cap :: usize
  r_data :: bytes
  r_data_cap :: usize

definition size_of_row :: usize where "size_of_row = 48"
definition size_of_coefficient :: usize where "size_of_coefficient = 8"
definition size_of_recovered_source :: usize where "size_of_recovered_source = 48"
definition size_of_recovered_pair :: usize where "size_of_recovered_pair = 40"

definition spend :: "usize \<Rightarrow> usize \<Rightarrow> fec_error + usize" where
  "spend work budget =
     (let work' = saturating_add work 1 in if budget < work' then Inl WorkBudget else Inr work')"

fun xor_loop :: "bytes \<Rightarrow> bytes \<Rightarrow> u8 \<Rightarrow> usize \<Rightarrow> usize \<Rightarrow> fec_error + bytes \<times> usize" where
  "xor_loop (t # ts) (s # ss) factor work budget =
     rbind (spend work budget) (\<lambda>work1.
       rbind (xor_loop ts ss factor work1 budget) (\<lambda>(out, work2).
         Inr ((t XOR multiply s factor) # out, work2)))"
| "xor_loop ts ss factor work budget = Inr (ts, work)"

definition xor_scaled :: "bytes \<Rightarrow> bytes \<Rightarrow> u8 \<Rightarrow> usize \<Rightarrow> usize \<Rightarrow> fec_error + bytes \<times> usize" where
  "xor_scaled target source factor work budget =
     (if length target < length source then Inl InvalidSymbolSize
      else xor_loop target source factor work budget)"

definition repair_id_at :: "u32 \<Rightarrow> nat \<Rightarrow> u32" where
  "repair_id_at first ordinal = first + word_of_nat ordinal"

fun repair_accumulate :: "u32 \<Rightarrow> u32 \<Rightarrow> u32 \<Rightarrow> nat \<Rightarrow> bytes list \<Rightarrow> bytes \<Rightarrow> bytes" where
  "repair_accumulate first repair_id seed ordinal [] out = out"
| "repair_accumulate first repair_id seed ordinal (s # ss) out =
     (let c = coefficient seed repair_id (repair_id_at first ordinal) in
      repair_accumulate first repair_id seed (Suc ordinal) ss
        (map2 (\<lambda>target byte. target XOR multiply byte c) (take (length s) out) (take (length out) s)
           @ drop (length s) out))"

definition repair_symbol :: "u32 \<Rightarrow> u32 \<Rightarrow> u32 \<Rightarrow> bytes list \<Rightarrow> fec_error + bytes" where
  "repair_symbol first repair_id seed sources =
     (if sources = [] \<or> unat MAX_REPAIR_SPAN < length sources then Inl InvalidSpan
      else let symbol_size = Max (set (map length sources)) in
        if symbol_size = 0 \<or> 65535 < symbol_size then Inl InvalidSymbolSize
        else Inr (repair_accumulate first repair_id seed 0 sources (replicate symbol_size 0)))"

subsection \<open>Row operations\<close>

text \<open>
  \<open>binary_search_by_key\<close> of the standard library on the ascending coefficient lists: \<open>Inr\<close> the
  position of the key, or \<open>Inl\<close> the position where it would be inserted.
\<close>

definition coefficient_search :: "u32 \<Rightarrow> (u32 \<times> u8) list \<Rightarrow> nat + nat" where
  "coefficient_search key cs =
     (let i = length (takeWhile (\<lambda>(k, _). k < key) cs) in
      if i < length cs \<and> fst (cs ! i) = key then Inr i else Inl i)"

fun scale_coefficients ::
  "(u32 \<times> u8) list \<Rightarrow> u8 \<Rightarrow> usize \<Rightarrow> usize \<Rightarrow> fec_error + (u32 \<times> u8) list \<times> usize" where
  "scale_coefficients [] factor work budget = Inr ([], work)"
| "scale_coefficients ((k, v) # cs) factor work budget =
     rbind (spend work budget) (\<lambda>work1.
       rbind (scale_coefficients cs factor work1 budget) (\<lambda>(out, work2).
         Inr ((k, multiply v factor) # out, work2)))"

fun scale_bytes :: "bytes \<Rightarrow> u8 \<Rightarrow> usize \<Rightarrow> usize \<Rightarrow> fec_error + bytes \<times> usize" where
  "scale_bytes [] factor work budget = Inr ([], work)"
| "scale_bytes (b # bs) factor work budget =
     rbind (spend work budget) (\<lambda>work1.
       rbind (scale_bytes bs factor work1 budget) (\<lambda>(out, work2).
         Inr (multiply b factor # out, work2)))"

definition scale_row :: "row \<Rightarrow> u8 \<Rightarrow> usize \<Rightarrow> usize \<Rightarrow> fec_error + row \<times> usize" where
  "scale_row r factor work budget =
     rbind (scale_coefficients (r_coefficients r) factor work budget) (\<lambda>(cs, work1).
       rbind (scale_bytes (r_data r) factor work1 budget) (\<lambda>(data, work2).
         Inr (r\<lparr>r_coefficients := cs, r_data := data\<rparr>, work2)))"

definition add_coefficient :: "(u32 \<times> u8) list \<Rightarrow> u32 \<Rightarrow> u8 \<Rightarrow> (u32 \<times> u8) list" where
  "add_coefficient cs k scaled =
     (case coefficient_search k cs of
        Inr i \<Rightarrow>
          (let v = snd (cs ! i) XOR scaled in
           if v = 0 then take i cs @ drop (Suc i) cs else cs[i := (fst (cs ! i), v)])
      | Inl i \<Rightarrow> take i cs @ (k, scaled) # drop i cs)"

fun subtract_coefficients ::
  "(u32 \<times> u8) list \<Rightarrow> (u32 \<times> u8) list \<Rightarrow> u8 \<Rightarrow> usize \<Rightarrow> usize \<Rightarrow> fec_error + (u32 \<times> u8) list \<times> usize" where
  "subtract_coefficients target [] factor work budget = Inr (target, work)"
| "subtract_coefficients target ((k, c) # source) factor work budget =
     rbind (spend work budget) (\<lambda>work1.
       subtract_coefficients (add_coefficient target k (multiply c factor)) source factor work1 budget)"

definition resize :: "bytes \<Rightarrow> usize \<Rightarrow> bytes" where
  "resize bs n = take n bs @ replicate (n - length bs) 0"

definition subtract_row :: "row \<Rightarrow> row \<Rightarrow> u8 \<Rightarrow> usize \<Rightarrow> usize \<Rightarrow> fec_error + row \<times> usize" where
  "subtract_row target source factor work budget =
     (let data = (if length (r_data target) < length (r_data source)
                  then resize (r_data target) (length (r_data source)) else r_data target) in
      rbind (subtract_coefficients (r_coefficients target) (r_coefficients source) factor work budget)
        (\<lambda>(cs, work1).
          rbind (xor_loop data (r_data source) factor work1 budget) (\<lambda>(data', work2).
            Inr (target\<lparr>r_coefficients := cs, r_data := data'\<rparr>, work2))))"

subsection \<open>Bounded copies\<close>

definition vec_with_capacity :: "usize \<Rightarrow> usize" where
  "vec_with_capacity capacity = capacity"

definition bounded_vec :: "usize \<Rightarrow> usize \<Rightarrow> fec_error + usize" where
  "bounded_vec size_of_t capacity =
     (if size_of_t = 0 then Inl MemoryCapacity
      else if vec_with_capacity capacity \<noteq> capacity then Inl MemoryCapacity else Inr capacity)"

definition matrix_coefficient_count :: "row list \<Rightarrow> usize \<Rightarrow> fec_error + usize" where
  "matrix_coefficient_count rows additional =
     fold (\<lambda>r acc. rbind acc (\<lambda>count.
       ok_or (checked_add count (length (r_coefficients r))) MemoryCapacity)) rows (Inr additional)"

definition matrix_clone_work :: "row list \<Rightarrow> fec_error + usize" where
  "matrix_clone_work rows =
     fold (\<lambda>r acc. rbind acc (\<lambda>work.
       rbind (ok_or (checked_add work (length (r_coefficients r))) WorkBudget) (\<lambda>work'.
         ok_or (checked_add work' (length (r_data r))) WorkBudget))) rows (Inr 0)"

fun clone_rows :: "row list \<Rightarrow> usize \<Rightarrow> usize \<Rightarrow> fec_error + row list" where
  "clone_rows [] coefficient_capacity max_symbol_bytes = Inr []"
| "clone_rows (r # rows) coefficient_capacity max_symbol_bytes =
     rbind (bounded_vec size_of_coefficient coefficient_capacity) (\<lambda>ccap.
       rbind (bounded_vec 1 max_symbol_bytes) (\<lambda>dcap.
         rbind (clone_rows rows coefficient_capacity max_symbol_bytes) (\<lambda>cloned.
           Inr (r\<lparr>r_coefficients_cap := ccap, r_data_cap := dcap\<rparr> # cloned))))"

text \<open>The second component is the capacity of the vector of rows.\<close>

definition clone_rows_bounded ::
  "row list \<Rightarrow> usize \<Rightarrow> usize \<Rightarrow> usize \<Rightarrow> fec_error + row list \<times> usize" where
  "clone_rows_bounded rows additional_rows additional_coefficients max_symbol_bytes =
     rbind (matrix_coefficient_count rows additional_coefficients) (\<lambda>coefficient_capacity.
       rbind (ok_or (checked_add (length rows) additional_rows) MemoryCapacity) (\<lambda>n.
         rbind (bounded_vec size_of_row n) (\<lambda>cap.
           rbind (clone_rows rows coefficient_capacity max_symbol_bytes) (\<lambda>cloned.
             Inr (cloned, cap)))))"

definition row_storage_bytes :: "row list \<Rightarrow> usize \<Rightarrow> fec_error + usize" where
  "row_storage_bytes rows rows_cap =
     rbind (ok_or (checked_mul rows_cap size_of_row) MemoryCapacity) (\<lambda>start.
       fold (\<lambda>r acc. rbind acc (\<lambda>bytes.
         rbind (ok_or (checked_add bytes (r_data_cap r)) MemoryCapacity) (\<lambda>bytes1.
           rbind (ok_or (checked_mul (r_coefficients_cap r) size_of_coefficient) MemoryCapacity) (\<lambda>cs.
             ok_or (checked_add bytes1 cs) MemoryCapacity)))) rows (Inr start))"

subsection \<open>Elimination\<close>

text \<open>\<open>min_by_key\<close> over the rows from \<open>pivot\<close> on that still have coefficients: the first minimum.\<close>

fun pivot_candidate :: "row list \<Rightarrow> nat \<Rightarrow> (u32 \<times> nat) option \<Rightarrow> nat option" where
  "pivot_candidate [] index best = map_option snd best"
| "pivot_candidate (r # rows) index best =
     pivot_candidate rows (Suc index)
       (case r_coefficients r of
          [] \<Rightarrow> best
        | (k, _) # _ \<Rightarrow>
            (case best of None \<Rightarrow> Some (k, index)
             | Some (m, _) \<Rightarrow> if k < m then Some (k, index) else best))"

definition swap_rows :: "row list \<Rightarrow> nat \<Rightarrow> nat \<Rightarrow> row list" where
  "swap_rows rows i j = rows[i := rows ! j, j := rows ! i]"

definition find_coefficient :: "(u32 \<times> u8) list \<Rightarrow> u32 \<Rightarrow> u8 option" where
  "find_coefficient cs k = map_option snd (List.find (\<lambda>(k', _). k' = k) cs)"

fun eliminate ::
  "row list \<Rightarrow> nat \<Rightarrow> nat \<Rightarrow> u32 \<Rightarrow> row \<Rightarrow> usize \<Rightarrow> usize \<Rightarrow> fec_error + row list \<times> usize" where
  "eliminate [] index pivot pivot_id source work budget = Inr ([], work)"
| "eliminate (r # rows) index pivot pivot_id source work budget =
     rbind (if index = pivot then Inr (r, work)
            else case find_coefficient (r_coefficients r) pivot_id of
                None \<Rightarrow> Inr (r, work)
              | Some factor \<Rightarrow> subtract_row r source factor work budget) (\<lambda>(r', work1).
       rbind (eliminate rows (Suc index) pivot pivot_id source work1 budget) (\<lambda>(rows', work2).
         Inr (r' # rows', work2)))"

lemma eliminate_length:
  "eliminate rows i p k s w b = Inr (rows', w') \<Longrightarrow> length rows' = length rows"
  by (induction rows i p k s w b arbitrary: rows' w' rule: eliminate.induct)
    (auto simp: rbind_Inr_iff)

text \<open>One round of the \<open>while\<close> loop: \<open>Inr None\<close> is the \<open>break\<close>.\<close>

definition reduce_round ::
  "row list \<Rightarrow> nat \<Rightarrow> usize \<Rightarrow> usize \<Rightarrow> usize \<Rightarrow> fec_error + (row list \<times> usize) option" where
  "reduce_round rows pivot max_symbol_bytes work budget =
     (case pivot_candidate (drop pivot rows) pivot None of
        None \<Rightarrow> Inr None
      | Some candidate \<Rightarrow>
          let swapped = swap_rows rows pivot candidate;
              (pivot_id, lead) = hd (r_coefficients (swapped ! pivot)) in
          rbind (scale_row (swapped ! pivot) (gf_inverse lead) work budget) (\<lambda>(scaled, work1).
            rbind (clone_rows_bounded [scaled] 0 0 max_symbol_bytes) (\<lambda>(cloned, _).
              rbind (eliminate (swapped[pivot := scaled]) 0 pivot pivot_id (last cloned) work1 budget)
                (\<lambda>res. Inr (Some res)))))"

function reduce_loop ::
  "row list \<Rightarrow> nat \<Rightarrow> usize \<Rightarrow> usize \<Rightarrow> usize \<Rightarrow> fec_error + row list" where
  "reduce_loop rows pivot max_symbol_bytes work budget =
     (if length rows \<le> pivot then Inr rows
      else case reduce_round rows pivot max_symbol_bytes work budget of
          Inl e \<Rightarrow> Inl e
        | Inr None \<Rightarrow> Inr rows
        | Inr (Some (rows', work')) \<Rightarrow> reduce_loop rows' (Suc pivot) max_symbol_bytes work' budget)"
  by pat_completeness auto

lemma reduce_round_length:
  "reduce_round rows p m w b = Inr (Some (rows', w')) \<Longrightarrow> length rows' = length rows"
  by (auto simp: reduce_round_def rbind_Inr_iff swap_rows_def Let_def split: option.splits prod.splits
      dest: eliminate_length)

termination reduce_loop
  by (relation "measure (\<lambda>(rows, pivot, _). length rows - pivot)") (auto dest: reduce_round_length)

declare reduce_loop.simps [simp del]

fun collect_recovered :: "row list \<Rightarrow> usize \<Rightarrow> fec_error + (u32 \<times> bytes) list" where
  "collect_recovered [] max_symbol_bytes = Inr []"
| "collect_recovered (r # rows) max_symbol_bytes =
     (case r_coefficients r of
        [] \<Rightarrow> if list_ex (\<lambda>b. b \<noteq> 0) (r_data r) then Inl ContradictoryRepair
              else collect_recovered rows max_symbol_bytes
      | [(k, c)] \<Rightarrow>
          rbind (bounded_vec 1 max_symbol_bytes) (\<lambda>_.
            rbind (collect_recovered rows max_symbol_bytes) (\<lambda>out.
              Inr ((k, if c \<noteq> 1 then map (\<lambda>b. multiply b (gf_inverse c)) (r_data r) else r_data r) # out)))
      | _ \<Rightarrow> collect_recovered rows max_symbol_bytes)"

fun adjacent_contradiction :: "(u32 \<times> bytes) list \<Rightarrow> bool" where
  "adjacent_contradiction (a # b # rest) \<longleftrightarrow>
     (fst a = fst b \<and> snd a \<noteq> snd b) \<or> adjacent_contradiction (b # rest)"
| "adjacent_contradiction _ \<longleftrightarrow> False"

fun dedup_ids :: "(u32 \<times> bytes) list \<Rightarrow> (u32 \<times> bytes) list" where
  "dedup_ids (a # b # rest) =
     (if fst a = fst b then dedup_ids (a # rest) else a # dedup_ids (b # rest))"
| "dedup_ids xs = xs"

definition reduce ::
  "row list \<Rightarrow> usize \<Rightarrow> usize \<Rightarrow> fec_error + row list \<times> (u32 \<times> bytes) list" where
  "reduce rows max_symbol_bytes work_budget =
     rbind (reduce_loop rows 0 max_symbol_bytes 0 work_budget) (\<lambda>rows'.
       rbind (bounded_vec size_of_recovered_pair (length rows')) (\<lambda>_.
         rbind (collect_recovered rows' max_symbol_bytes) (\<lambda>found.
           let recovered = sort_key fst found in
           if adjacent_contradiction recovered then Inl ContradictoryRepair
           else Inr (rows', dedup_ids recovered))))"

end
