(* ===== verification/Fec_Elimination.thy ===== *)
theory Fec_Elimination
  imports Fec_Matrix
begin

unbundle bit_operations_syntax

section \<open>Correctness of the elimination (src/fec.rs)\<close>

text \<open>
  The algebra behind \<open>reduce\<close>: every row operation keeps the set of valuations that satisfy the
  rows, the loop ends with one unit pivot per nonempty row, and therefore the symbols read off at
  the end are exactly the ones the equations determine.
\<close>

subsection \<open>What a row means\<close>

text \<open>
  A valuation \<open>S\<close> gives every symbol its octets, zero beyond its end.  \<open>row_holds S r\<close>: the row is
  a true equation under \<open>S\<close>.
\<close>

definition pad :: "bytes \<Rightarrow> nat \<Rightarrow> u8" where
  "pad bs k = (if k < length bs then bs ! k else 0)"

definition at :: "(u32 \<Rightarrow> nat \<Rightarrow> u8) \<Rightarrow> nat \<Rightarrow> u32 \<Rightarrow> u8" where
  "at S k = (\<lambda>i. S i k)"

definition row_holds :: "(u32 \<Rightarrow> nat \<Rightarrow> u8) \<Rightarrow> row \<Rightarrow> bool" where
  "row_holds S r \<longleftrightarrow> (\<forall>k. lin multiply (at S k) (r_coefficients r) = pad (r_data r) k)"

definition row_ids :: "row \<Rightarrow> u32 set" where
  "row_ids r = fst ` set (r_coefficients r)"

definition wf_coefficients :: "(u32 \<times> u8) list \<Rightarrow> bool" where
  "wf_coefficients cs \<longleftrightarrow> sorted_wrt (<) (map fst cs) \<and> (\<forall>c \<in> snd ` set cs. c \<noteq> 0)"

lemma pad_Nil [simp]: "pad [] k = 0"
  by (simp add: pad_def)

lemma pad_Cons: "pad (b # bs) k = (case k of 0 \<Rightarrow> b | Suc j \<Rightarrow> pad bs j)"
  by (simp add: pad_def split: nat.split)

lemma pad_map: "f 0 = 0 \<Longrightarrow> pad (map f bs) k = f (pad bs k)"
  by (simp add: pad_def)

lemma pad_append_zeros: "pad (bs @ replicate n 0) k = pad bs k"
  by (simp add: pad_def nth_append)

lemma pad_replicate_zero [simp]: "pad (replicate n 0) k = 0"
  by (simp add: pad_def)

lemma pad_eqI: "length a = length b \<Longrightarrow> (\<And>k. pad a k = pad b k) \<Longrightarrow> a = b"
  by (rule nth_equalityI) (auto simp: pad_def split: if_splits, metis)

lemma pad_prefix:
  assumes "\<And>k. pad a k = pad b k" and "length a \<le> length b"
  shows "b = a @ replicate (length b - length a) 0"
  by (rule pad_eqI) (use assms in \<open>auto simp: pad_append_zeros\<close>)

lemma pad_eq_zero_iff: "list_ex (\<lambda>b. b \<noteq> 0) bs \<longleftrightarrow> (\<exists>k. pad bs k \<noteq> 0)"
proof -
  have "(\<exists>b\<in>set bs. b \<noteq> 0) \<longleftrightarrow> (\<exists>k<length bs. bs ! k \<noteq> 0)" by (metis in_set_conv_nth)
  also have "\<dots> \<longleftrightarrow> (\<exists>k. pad bs k \<noteq> 0)" by (simp add: pad_def) blast
  finally show ?thesis by (simp only: list_ex_iff)
qed

lemma resize_longer: "length bs \<le> n \<Longrightarrow> resize bs n = bs @ replicate (n - length bs) 0"
  by (simp add: resize_def)

subsection \<open>The row operations as linear algebra\<close>

lemma xor_loop_Inr:
  "xor_loop ts ss f w b = Inr (out, w') \<Longrightarrow> length ss \<le> length ts \<Longrightarrow>
     length out = length ts \<and> (\<forall>k. pad out k = pad ts k XOR multiply (pad ss k) f)"
proof (induction ts ss f w b arbitrary: out w' rule: xor_loop.induct)
  case (1 t ts s ss f w b)
  then obtain w1 out1 where s: "spend w b = Inr w1" and x: "xor_loop ts ss f w1 b = Inr (out1, w')"
      and out: "out = (t XOR multiply s f) # out1"
    by (auto simp: rbind_Inr_iff)
  have "length ss \<le> length ts" using 1 by simp
  from 1(1) [OF x this] show ?case
    unfolding out by (auto simp: pad_Cons split: nat.split)
qed auto

lemma scale_coefficients_Inr:
  "scale_coefficients cs f w b = Inr (out, w') \<Longrightarrow> out = map (\<lambda>(k, c). (k, multiply c f)) cs"
  by (induction cs f w b arbitrary: out w' rule: scale_coefficients.induct) (auto simp: rbind_Inr_iff)

lemma scale_bytes_Inr:
  "scale_bytes bs f w b = Inr (out, w') \<Longrightarrow> out = map (\<lambda>x. multiply x f) bs"
  by (induction bs f w b arbitrary: out w' rule: scale_bytes.induct) (auto simp: rbind_Inr_iff)

lemma scale_row_Inr:
  assumes "scale_row r f w b = Inr (r', w')"
  shows "r' = r\<lparr>r_coefficients := map (\<lambda>(k, c). (k, multiply c f)) (r_coefficients r),
                r_data := map (\<lambda>x. multiply x f) (r_data r)\<rparr>"
  using assms scale_coefficients_Inr scale_bytes_Inr by (fastforce simp: scale_row_def rbind_Inr_iff)

lemma multiply_cancel: "f \<noteq> 0 \<Longrightarrow> multiply x f = multiply y f \<longleftrightarrow> x = y"
  by (metis gf.mul_inv gf.mul_one gf.mul_assoc)

lemma scale_row_holds:
  assumes "scale_row r f w b = Inr (r', w')" and "f \<noteq> 0"
  shows "row_holds S r' \<longleftrightarrow> row_holds S r"
  unfolding row_holds_def scale_row_Inr [OF assms(1)]
  by (simp add: gf.lin_scale pad_map multiply_cancel [OF assms(2)])

lemma coefficient_search_Inr:
  "coefficient_search k cs = Inr i \<Longrightarrow> i < length cs \<and> fst (cs ! i) = k"
  by (auto simp: coefficient_search_def Let_def split: if_splits)

lemma lin_add_coefficient:
  "lin multiply S (add_coefficient cs k s) = multiply (S k) s XOR lin multiply S cs"
proof (cases "coefficient_search k cs")
  case (Inl i)
  then show ?thesis by (simp add: add_coefficient_def gf.lin_insert)
next
  case (Inr i)
  note i = coefficient_search_Inr [OF Inr]
  show ?thesis
  proof (cases "snd (cs ! i) XOR s = 0")
    case True
    then have "snd (cs ! i) = s" by (metis xor_left_cancel xor.right_neutral)
    then show ?thesis
      using gf.lin_remove [of i cs S] i Inr True by (simp add: add_coefficient_def)
  next
    case False
    then show ?thesis
      using gf.lin_update [of i cs k S s] i Inr by (simp add: add_coefficient_def)
  qed
qed

lemma subtract_coefficients_lin:
  "subtract_coefficients t s f w b = Inr (out, w') \<Longrightarrow>
     lin multiply S out = lin multiply S t XOR multiply (lin multiply S s) f"
proof (induction t s f w b arbitrary: out w' rule: subtract_coefficients.induct)
  case (1 t f w b)
  then show ?case by simp
next
  case (2 t k c s f w b)
  then obtain w1 where
      "subtract_coefficients (add_coefficient t k (multiply c f)) s f w1 b = Inr (out, w')"
    by (auto simp: rbind_Inr_iff)
  from 2(1) [OF this] show ?case
    by (simp add: lin_add_coefficient multiply_xor_left multiply_assoc xor.left_commute xor.assoc)
qed

lemma subtract_row_Inr:
  assumes "subtract_row t s f w b = Inr (r', w')"
  shows "lin multiply S (r_coefficients r') =
           lin multiply S (r_coefficients t) XOR multiply (lin multiply S (r_coefficients s)) f"
    and "pad (r_data r') k = pad (r_data t) k XOR multiply (pad (r_data s) k) f"
    and "length (r_data r') = max (length (r_data t)) (length (r_data s))"
proof -
  let ?d = "if length (r_data t) < length (r_data s) then resize (r_data t) (length (r_data s)) else r_data t"
  obtain cs w1 d where cs: "subtract_coefficients (r_coefficients t) (r_coefficients s) f w b = Inr (cs, w1)"
      and d: "xor_loop ?d (r_data s) f w1 b = Inr (d, w')"
      and r': "r' = t\<lparr>r_coefficients := cs, r_data := d\<rparr>"
    using assms by (auto simp: subtract_row_def rbind_Inr_iff Let_def)
  show "lin multiply S (r_coefficients r') =
           lin multiply S (r_coefficients t) XOR multiply (lin multiply S (r_coefficients s)) f"
    using subtract_coefficients_lin [OF cs] by (simp add: r')
  have l: "length (r_data s) \<le> length ?d" "length ?d = max (length (r_data t)) (length (r_data s))"
    by (auto simp: resize_longer)
  have p: "pad ?d k = pad (r_data t) k" by (simp add: resize_longer pad_append_zeros)
  show "pad (r_data r') k = pad (r_data t) k XOR multiply (pad (r_data s) k) f"
    using xor_loop_Inr [OF d l(1)] p by (simp add: r')
  show "length (r_data r') = max (length (r_data t)) (length (r_data s))"
    using xor_loop_Inr [OF d l(1)] l(2) by (simp add: r')
qed

lemma xor_cancel_right: "(a :: 'a::len word) XOR c = b XOR c \<longleftrightarrow> a = b"
  by (metis xor.assoc xor.commute xor_left_cancel)

lemma subtract_row_holds:
  assumes "subtract_row t s f w b = Inr (r', w')" and "row_holds S s"
  shows "row_holds S r' \<longleftrightarrow> row_holds S t"
  using assms(2) unfolding row_holds_def subtract_row_Inr [OF assms(1)]
  by (simp add: xor_cancel_right)
subsection \<open>Coefficient lists as sparse vectors\<close>

definition coef :: "(u32 \<times> u8) list \<Rightarrow> u32 \<Rightarrow> u8" where
  "coef cs k = (case map_of cs k of None \<Rightarrow> 0 | Some c \<Rightarrow> c)"

text \<open>The reference for the binary search and update: insertion into an ascending list.\<close>

fun add_sorted :: "(u32 \<times> u8) list \<Rightarrow> u32 \<Rightarrow> u8 \<Rightarrow> (u32 \<times> u8) list" where
  "add_sorted [] k s = [(k, s)]"
| "add_sorted ((j, c) # cs) k s =
     (if j < k then (j, c) # add_sorted cs k s
      else if j = k then (if c XOR s = 0 then cs else (k, c XOR s) # cs)
      else (k, s) # (j, c) # cs)"

lemma add_coefficient_sorted: "add_coefficient cs k s = add_sorted cs k s"
proof (induction cs)
  case Nil
  then show ?case by (simp add: add_coefficient_def coefficient_search_def)
next
  case (Cons p cs)
  obtain j c where p: "p = (j, c)" by (cases p)
  consider "j < k" | "j = k" | "k < j" by (rule linorder_cases)
  then show ?case
  proof cases
    case 1
    then have "coefficient_search k (p # cs) = map_sum Suc Suc (coefficient_search k cs)"
      by (simp add: coefficient_search_def p Let_def)
    then have "add_coefficient (p # cs) k s = p # add_coefficient cs k s"
      by (cases "coefficient_search k cs") (simp_all add: add_coefficient_def Let_def)
    then show ?thesis using 1 Cons by (simp add: p)
  next
    case 2
    then show ?thesis by (simp add: add_coefficient_def coefficient_search_def p)
  next
    case 3
    then have "\<not> j < k" "j \<noteq> k" by auto
    then show ?thesis by (simp add: add_coefficient_def coefficient_search_def p)
  qed
qed

lemma coef_simps [simp]:
  "coef [] k = 0" "coef ((j, c) # cs) k = (if k = j then c else coef cs k)"
  by (simp_all add: coef_def)

lemma wf_Nil [simp]: "wf_coefficients []"
  by (simp add: wf_coefficients_def)

lemma wf_Cons:
  "wf_coefficients ((j, c) # cs) \<longleftrightarrow> c \<noteq> 0 \<and> (\<forall>k \<in> fst ` set cs. j < k) \<and> wf_coefficients cs"
  by (auto simp: wf_coefficients_def)

lemma coef_notin: "k \<notin> fst ` set cs \<Longrightarrow> coef cs k = 0"
  by (induction cs) auto

lemma coef_nonzero_iff: "wf_coefficients cs \<Longrightarrow> coef cs k \<noteq> 0 \<longleftrightarrow> k \<in> fst ` set cs"
proof (induction cs)
  case (Cons p cs)
  then show ?case by (cases p) (auto simp: wf_Cons)
qed simp

lemma add_sorted_keys: "fst ` set (add_sorted cs k s) \<subseteq> insert k (fst ` set cs)"
  by (induction cs k s rule: add_sorted.induct) (auto simp: image_iff)

lemma wf_add_sorted:
  "wf_coefficients cs \<Longrightarrow> s \<noteq> 0 \<Longrightarrow>
     wf_coefficients (add_sorted cs k s) \<and> (\<forall>i. coef (add_sorted cs k s) i = (if i = k then coef cs k XOR s else coef cs i))"
proof (induction cs k s rule: add_sorted.induct)
  case (1 k s)
  then show ?case by (simp add: wf_Cons)
next
  case (2 j c cs k s)
  then have w: "c \<noteq> 0" "\<forall>i \<in> fst ` set cs. j < i" "wf_coefficients cs" by (simp_all add: wf_Cons)
  consider "j < k" | "j = k" | "k < j" by (rule linorder_cases)
  then show ?case
  proof cases
    case 1
    then have "wf_coefficients (add_sorted cs k s)"
      and "\<forall>i. coef (add_sorted cs k s) i = (if i = k then coef cs k XOR s else coef cs i)"
      using 2 w by auto
    moreover have "\<forall>i \<in> fst ` set (add_sorted cs k s). j < i"
      using add_sorted_keys [of cs k s] 1 w(2) by blast
    ultimately show ?thesis using 1 w by (auto simp: wf_Cons)
  next
    case 2
    then have "k \<notin> fst ` set cs" using w(2) by auto
    then have "coef cs k = 0" by (rule coef_notin)
    then show ?thesis using 2 w by (auto simp: wf_Cons)
  next
    case 3
    then have "k \<notin> fst ` set cs" using w(2) by auto
    then have "coef cs k = 0" by (rule coef_notin)
    then show ?thesis using 3 w \<open>s \<noteq> 0\<close> by (auto simp: wf_Cons)
  qed
qed

lemma subtract_coefficients_coef:
  "subtract_coefficients t s f w b = Inr (out, w') \<Longrightarrow> wf_coefficients t \<Longrightarrow> wf_coefficients s \<Longrightarrow> f \<noteq> 0 \<Longrightarrow>
     wf_coefficients out \<and> (\<forall>i. coef out i = coef t i XOR multiply (coef s i) f)"
proof (induction t s f w b arbitrary: out w' rule: subtract_coefficients.induct)
  case (1 t f w b)
  then show ?case by simp
next
  case (2 t k c s f w b)
  then obtain w1 where
      x: "subtract_coefficients (add_coefficient t k (multiply c f)) s f w1 b = Inr (out, w')"
    by (auto simp: rbind_Inr_iff)
  have cf: "multiply c f \<noteq> 0" and s: "wf_coefficients s" and k: "k \<notin> fst ` set s"
    using 2 by (auto simp: wf_Cons multiply_eq_0_iff)
  note a = wf_add_sorted [OF 2(3) cf, of k, folded add_coefficient_sorted]
  have "coef s k = 0" using k by (rule coef_notin)
  with 2(1) [OF x conjunct1 [OF a] s 2(5)] conjunct2 [OF a] show ?case by (simp add: xor.assoc)
qed

lemma lin_coef_cong:
  assumes "wf_coefficients cs" and "\<And>k. k \<in> fst ` set cs \<Longrightarrow> S k = T k"
  shows "lin multiply S cs = lin multiply T cs"
  using assms(2) by (induction multiply S cs rule: lin.induct) auto
subsection \<open>Elimination keeps the solutions and produces pivots\<close>

text \<open>
  \<open>row_inv L M U r\<close>: the coefficients are ascending and nonzero, they name symbols of \<open>U\<close>, and the
  data is at least as long as every symbol it mentions (\<open>L\<close>) and at most \<open>M\<close> octets.
\<close>

definition row_inv :: "(u32 \<Rightarrow> nat) \<Rightarrow> nat \<Rightarrow> u32 set \<Rightarrow> row \<Rightarrow> bool" where
  "row_inv L M U r \<longleftrightarrow> wf_coefficients (r_coefficients r) \<and> row_ids r \<subseteq> U
     \<and> (\<forall>k \<in> row_ids r. L k \<le> length (r_data r)) \<and> length (r_data r) \<le> M"

abbreviation rcoef :: "row \<Rightarrow> u32 \<Rightarrow> u8" where
  "rcoef r k \<equiv> coef (r_coefficients r) k"

definition solves :: "(u32 \<Rightarrow> nat \<Rightarrow> u8) \<Rightarrow> row list \<Rightarrow> bool" where
  "solves S rows \<longleftrightarrow> (\<forall>r \<in> set rows. row_holds S r)"

lemma row_ids_iff: "wf_coefficients (r_coefficients r) \<Longrightarrow> k \<in> row_ids r \<longleftrightarrow> rcoef r k \<noteq> 0"
  by (simp add: coef_nonzero_iff row_ids_def)

lemma subtract_row_fields:
  assumes "subtract_row t s f w b = Inr (r', w')"
  shows "\<exists>w1. subtract_coefficients (r_coefficients t) (r_coefficients s) f w b = Inr (r_coefficients r', w1)"
    and "r_coefficients_cap r' = r_coefficients_cap t" and "r_data_cap r' = r_data_cap t"
  using assms by (auto simp: subtract_row_def rbind_Inr_iff Let_def)

lemma subtract_row_inv:
  assumes "subtract_row t s f w b = Inr (r', w')" and t: "row_inv L M U t" and s: "row_inv L M U s"
    and f: "f \<noteq> 0"
  shows "row_inv L M U r' \<and> (\<forall>k. rcoef r' k = rcoef t k XOR multiply (rcoef s k) f)"
proof -
  obtain w1 where "subtract_coefficients (r_coefficients t) (r_coefficients s) f w b = Inr (r_coefficients r', w1)"
    using subtract_row_fields(1) [OF assms(1)] by blast
  then have c: "wf_coefficients (r_coefficients r')" "\<And>k. rcoef r' k = rcoef t k XOR multiply (rcoef s k) f"
    using subtract_coefficients_coef t s f by (auto simp: row_inv_def)
  have ids: "row_ids r' \<subseteq> row_ids t \<union> row_ids s"
  proof
    fix k assume "k \<in> row_ids r'"
    then have "rcoef t k \<noteq> 0 \<or> rcoef s k \<noteq> 0" using c by (auto simp: row_ids_iff)
    then show "k \<in> row_ids t \<union> row_ids s" using t s by (auto simp: row_ids_iff row_inv_def)
  qed
  have len: "length (r_data r') = max (length (r_data t)) (length (r_data s))"
    by (rule subtract_row_Inr(3) [OF assms(1)])
  have "L k \<le> length (r_data r')" if "k \<in> row_ids r'" for k
    using that ids t s len by (auto simp: row_inv_def le_max_iff_disj)
  then have "row_inv L M U r'" using c(1) t s ids len by (auto simp: row_inv_def)
  then show ?thesis using c(2) by blast
qed

lemma map_of_scale: "map_of (map (\<lambda>(k, c). (k, g c)) cs) k = map_option g (map_of cs k)"
  by (induction cs) auto

lemma scale_row_inv:
  assumes "scale_row r f w b = Inr (r', w')" and r: "row_inv L M U r" and f: "f \<noteq> 0"
  shows "row_inv L M U r' \<and> (\<forall>k. rcoef r' k = multiply (rcoef r k) f)"
proof -
  note r' = scale_row_Inr [OF assms(1)]
  have keys: "map fst (r_coefficients r') = map fst (r_coefficients r)"
    by (simp add: r' comp_def split_def)
  then have ids: "row_ids r' = row_ids r" unfolding row_ids_def by (metis list.set_map)
  have "sorted_wrt (<) (map fst (r_coefficients r'))"
    unfolding keys using r by (simp add: row_inv_def wf_coefficients_def)
  moreover have "\<forall>c \<in> snd ` set (r_coefficients r'). c \<noteq> 0"
    using r f by (auto simp: row_inv_def wf_coefficients_def r' multiply_eq_0_iff)
  ultimately have "wf_coefficients (r_coefficients r')" by (simp add: wf_coefficients_def)
  moreover have "rcoef r' k = multiply (rcoef r k) f" for k
    by (simp add: r' coef_def map_of_scale split: option.split)
  ultimately show ?thesis using r ids by (simp add: row_inv_def r')
qed

lemma find_coefficient_coef:
  assumes "wf_coefficients cs"
  shows "find_coefficient cs k = (if coef cs k = 0 then None else Some (coef cs k))"
  using assms
proof (induction cs)
  case (Cons p cs)
  then show ?case
    by (cases p) (auto simp: wf_Cons find_coefficient_def)
qed (simp add: find_coefficient_def)

lemma eliminate_nth:
  assumes "eliminate rows i p k s w b = Inr (rows', w')" and "\<forall>r \<in> set rows. wf_coefficients (r_coefficients r)"
    and "j < length rows"
  shows "if i + j = p \<or> rcoef (rows ! j) k = 0 then rows' ! j = rows ! j
         else \<exists>w1 w2. subtract_row (rows ! j) s (rcoef (rows ! j) k) w1 b = Inr (rows' ! j, w2)"
  using assms
proof (induction rows i p k s w b arbitrary: rows' w' j rule: eliminate.induct)
  case (1 i p k s w b)
  then show ?case by simp
next
  case (2 r rows i p k s w b)
  let ?m = "if i = p then Inr (r, w) else case find_coefficient (r_coefficients r) k of
              None \<Rightarrow> Inr (r, w) | Some factor \<Rightarrow> subtract_row r s factor w b"
  obtain r1 w1 rs where m: "?m = Inr (r1, w1)" and e: "eliminate rows (Suc i) p k s w1 b = Inr (rs, w')"
      and rows': "rows' = r1 # rs"
    using 2(2) by (auto simp: rbind_Inr_iff)
  have wf: "\<forall>r \<in> set rows. wf_coefficients (r_coefficients r)" "wf_coefficients (r_coefficients r)"
    using 2(3) by simp_all
  show ?case
  proof (cases j)
    case 0
    then show ?thesis
      using m by (auto simp: rows' find_coefficient_coef [OF wf(2)] split: if_splits)
  next
    case (Suc n)
    then have "n < length rows" using 2(4) by simp
    from 2(1) [OF e wf(1) this] show ?thesis by (simp add: rows' Suc)
  qed
qed

lemma pivot_candidate_Some:
  "pivot_candidate rows i best = Some c \<Longrightarrow>
     (i \<le> c \<and> c < i + length rows \<and> r_coefficients (rows ! (c - i)) \<noteq> []) \<or> map_option snd best = Some c"
proof (induction rows i best arbitrary: c rule: pivot_candidate.induct)
  case (1 i best)
  then show ?case by simp
next
  case (2 r rows i best)
  let ?best = "case r_coefficients r of [] \<Rightarrow> best
        | (k, _) # _ \<Rightarrow> (case best of None \<Rightarrow> Some (k, i) | Some (m, _) \<Rightarrow> if k < m then Some (k, i) else best)"
  have "pivot_candidate rows (Suc i) ?best = Some c" using 2(2) by simp
  from 2(1) [OF this] show ?case
  proof
    assume "Suc i \<le> c \<and> c < Suc i + length rows \<and> r_coefficients (rows ! (c - Suc i)) \<noteq> []"
    then show ?thesis by (auto simp: nth_Cons' Suc_diff_le [symmetric] Suc_le_eq)
  next
    assume "map_option snd ?best = Some c"
    then show ?thesis by (auto split: list.splits option.splits if_splits)
  qed
qed

lemma pivot_candidate_None:
  "pivot_candidate rows i best = None \<Longrightarrow> best = None \<and> (\<forall>r \<in> set rows. r_coefficients r = [])"
proof (induction rows i best rule: pivot_candidate.induct)
  case (2 r rows i best)
  let ?best = "case r_coefficients r of [] \<Rightarrow> best
        | (k, _) # _ \<Rightarrow> (case best of None \<Rightarrow> Some (k, i) | Some (m, _) \<Rightarrow> if k < m then Some (k, i) else best)"
  have "?best = None \<and> (\<forall>r \<in> set rows. r_coefficients r = [])" using 2 by simp
  then show ?case by (auto split: list.splits option.splits if_splits)
qed simp
lemma matrix_coefficient_count_single:
  "matrix_coefficient_count [r] 0 = (if length (r_coefficients r) \<le> usize_max
     then Inr (length (r_coefficients r)) else Inl MemoryCapacity)"
  by (simp add: matrix_coefficient_count_def checked_add_def)

lemma clone_rows_Inr:
  "clone_rows rows cc m = Inr out \<longleftrightarrow>
     out = map (\<lambda>r. r\<lparr>r_coefficients_cap := cc, r_data_cap := m\<rparr>) rows"
  by (induction rows cc m arbitrary: out rule: clone_rows.induct)
    (auto simp: rbind_Inr_iff bounded_vec_def vec_with_capacity_def size_of_coefficient_def)

lemma clone_rows_bounded_Inr:
  "clone_rows_bounded rows ar ac m = Inr (out, cap) \<longleftrightarrow>
     (\<exists>cc. matrix_coefficient_count rows ac = Inr cc \<and> length rows + ar \<le> usize_max \<and> cap = length rows + ar
        \<and> out = map (\<lambda>r. r\<lparr>r_coefficients_cap := cc, r_data_cap := m\<rparr>) rows)"
  by (auto simp: clone_rows_bounded_def rbind_Inr_iff ok_or_Inr_iff clone_rows_Inr bounded_vec_def
      vec_with_capacity_def size_of_row_def)

text \<open>A row up to its capacities: what the invariants speak about.\<close>

definition same_row :: "row \<Rightarrow> row \<Rightarrow> bool" where
  "same_row a b \<longleftrightarrow> r_coefficients a = r_coefficients b \<and> r_data a = r_data b"

lemma same_row_cap [simp]: "same_row (r\<lparr>r_coefficients_cap := a, r_data_cap := b\<rparr>) r"
  by (simp add: same_row_def)

lemma same_row_facts:
  assumes "same_row a b"
  shows "row_holds S a = row_holds S b" "row_inv L M U a = row_inv L M U b" "rcoef a k = rcoef b k"
    "row_ids a = row_ids b"
  using assms by (simp_all add: same_row_def row_holds_def row_inv_def row_ids_def)

text \<open>One round, as a relation: rows are permuted, row \<open>p\<close> gets a unit coefficient for the pivot
  symbol \<open>q\<close>, and \<open>q\<close> is eliminated everywhere else.\<close>

lemma reduce_round_spec:
  assumes d: "reduce_round rows p m w b = Inr (Some (rows', w'))" and p: "p < length rows"
    and inv: "\<forall>r \<in> set rows. row_inv L M U r"
  obtains q where "\<forall>r \<in> set rows'. row_inv L M U r"
    and "\<forall>S. solves S rows' \<longleftrightarrow> solves S rows"
    and "rcoef (rows' ! p) q = 1" and "\<forall>j < length rows. j \<noteq> p \<longrightarrow> rcoef (rows' ! j) q = 0"
    and "\<forall>x. (\<forall>j < length rows. p \<le> j \<longrightarrow> rcoef (rows ! j) x = 0) \<longrightarrow>
           (\<forall>j < length rows. rcoef (rows' ! j) x = rcoef (rows ! j) x)"
proof -
  obtain c where c: "pivot_candidate (drop p rows) p None = Some c"
    using d by (auto simp: reduce_round_def split: option.splits)
  have cb: "p \<le> c" "c < length rows" "r_coefficients (rows ! c) \<noteq> []"
    using pivot_candidate_Some [OF c] p by auto
  define sw where "sw = swap_rows rows p c"
  have swl: "length sw = length rows" by (simp add: sw_def swap_rows_def)
  have sws: "set sw = set rows" using cb p by (simp add: sw_def swap_rows_def set_swap)
  have swn: "sw ! p = rows ! c" "\<And>j. j < length rows \<Longrightarrow> j < p \<Longrightarrow> sw ! j = rows ! j"
      "\<And>j. p \<le> j \<Longrightarrow> j < length rows \<Longrightarrow> \<exists>i. p \<le> i \<and> i < length rows \<and> sw ! j = rows ! i"
    using cb p by (auto simp: sw_def swap_rows_def nth_list_update)
  obtain q lead rest where hd: "r_coefficients (sw ! p) = (q, lead) # rest"
    using cb swn by (cases "r_coefficients (rows ! c)") auto
  obtain sc w1 where s: "scale_row (sw ! p) (gf_inverse lead) w b = Inr (sc, w1)"
      and k: "\<exists>cl cap. clone_rows_bounded [sc] 0 0 m = Inr (cl, cap) \<and>
        eliminate (sw[p := sc]) 0 p q (last cl) w1 b = Inr (rows', w')"
    using d c hd by (auto simp: reduce_round_def rbind_Inr_iff sw_def [symmetric])
  obtain cc where e0: "eliminate (sw[p := sc]) 0 p q (sc\<lparr>r_coefficients_cap := cc, r_data_cap := m\<rparr>) w1 b
      = Inr (rows', w')"
    using k by (auto simp: clone_rows_bounded_Inr)
  define src where "src = sc\<lparr>r_coefficients_cap := cc, r_data_cap := m\<rparr>"
  have same: "same_row src sc" by (simp add: src_def)
  note e = e0 [folded src_def]
  have invsw: "row_inv L M U (sw ! p)" using inv sws p swl by (metis nth_mem)
  have lead: "lead \<noteq> 0" using invsw hd by (simp add: row_inv_def wf_Cons)
  note il = gf_inverse_nonzero [OF lead]
  have sci: "row_inv L M U sc" "\<And>k. rcoef sc k = multiply (rcoef (sw ! p) k) (gf_inverse lead)"
    using scale_row_inv [OF s invsw il] by auto
  have scq: "rcoef sc q = 1" using sci(2) [of q] hd multiply_inverse [OF lead] by simp
  have schold: "row_holds S sc \<longleftrightarrow> row_holds S (sw ! p)" for S by (rule scale_row_holds [OF s il])
  have srci: "row_inv L M U src" "\<And>k. rcoef src k = rcoef sc k" "\<And>S. row_holds S src = row_holds S sc"
    using same_row_facts [OF same] sci(1) by auto
  have nth: "(sw[p := sc]) ! j = (if j = p then sc else sw ! j)" if "j < length rows" for j
    using that swl by (simp add: nth_list_update)
  have wfs: "\<forall>r \<in> set (sw[p := sc]). row_inv L M U r"
    using inv sws sci(1) set_update_subset_insert [of sw p sc] by blast
  then have wfs': "\<forall>r \<in> set (sw[p := sc]). wf_coefficients (r_coefficients r)"
    by (simp add: row_inv_def)
  have len': "length rows' = length rows" using eliminate_length [OF e] swl by simp
  have en: "if j = p \<or> rcoef ((sw[p := sc]) ! j) q = 0 then rows' ! j = (sw[p := sc]) ! j
      else \<exists>w1 w2. subtract_row ((sw[p := sc]) ! j) src (rcoef ((sw[p := sc]) ! j) q) w1 b = Inr (rows' ! j, w2)"
    if "j < length rows" for j
    using eliminate_nth [OF e wfs', of j] that swl by simp
  have row: "rows' ! p = sc" using en [OF p] nth [OF p] by simp
  have other: "(rcoef (sw ! j) q = 0 \<and> rows' ! j = sw ! j) \<or>
      (rcoef (sw ! j) q \<noteq> 0 \<and> (\<exists>w1 w2. subtract_row (sw ! j) src (rcoef (sw ! j) q) w1 b = Inr (rows' ! j, w2)))"
    if "j < length rows" "j \<noteq> p" for j
    using en [OF that(1)] that(2) unfolding nth [OF that(1)] by (cases "rcoef (sw ! j) q = 0") simp_all
  have oi: "row_inv L M U (rows' ! j) \<and> (\<forall>k. rcoef (rows' ! j) k
        = rcoef (sw ! j) k XOR multiply (rcoef sc k) (rcoef (sw ! j) q))
      \<and> (\<forall>S. row_holds S sc \<longrightarrow> row_holds S (rows' ! j) = row_holds S (sw ! j))"
    if j: "j < length rows" "j \<noteq> p" for j
  proof -
    have ij: "row_inv L M U (sw ! j)" using inv sws j swl by (metis nth_mem)
    from other [OF j] show ?thesis
    proof
      assume "rcoef (sw ! j) q = 0 \<and> rows' ! j = sw ! j"
      then show ?thesis using ij by simp
    next
      assume "rcoef (sw ! j) q \<noteq> 0 \<and>
        (\<exists>w1 w2. subtract_row (sw ! j) src (rcoef (sw ! j) q) w1 b = Inr (rows' ! j, w2))"
      then obtain v1 v2 where nz: "rcoef (sw ! j) q \<noteq> 0"
          and sb: "subtract_row (sw ! j) src (rcoef (sw ! j) q) v1 b = Inr (rows' ! j, v2)" by blast
      show ?thesis
        using subtract_row_inv [OF sb ij srci(1) nz] subtract_row_holds [OF sb] srci by simp
    qed
  qed
  show ?thesis
  proof (rule that)
    show "\<forall>r \<in> set rows'. row_inv L M U r"
    proof
      fix r assume "r \<in> set rows'"
      then obtain j where "j < length rows" "r = rows' ! j" using len' by (auto simp: in_set_conv_nth)
      then show "row_inv L M U r" using oi [of j] row sci(1) by (cases "j = p") auto
    qed
    show "rcoef (rows' ! p) q = 1" using row scq by simp
    show "\<forall>j < length rows. j \<noteq> p \<longrightarrow> rcoef (rows' ! j) q = 0"
      using oi scq by simp
    show "\<forall>S. solves S rows' \<longleftrightarrow> solves S rows"
    proof
      fix S
      have "solves S rows \<longleftrightarrow> (\<forall>j < length rows. row_holds S (sw ! j))"
        unfolding solves_def sws [symmetric] using swl by (metis in_set_conv_nth)
      also have "\<dots> \<longleftrightarrow> (\<forall>j < length rows. row_holds S (rows' ! j))"
      proof (cases "row_holds S sc")
        case True
        then have "row_holds S (sw ! j) = row_holds S (rows' ! j)" if "j < length rows" for j
          using oi [of j] that row schold [of S] by (cases "j = p") auto
        then show ?thesis by simp
      next
        case False
        then show ?thesis using row schold [of S] p by auto
      qed
      also have "\<dots> \<longleftrightarrow> solves S rows'"
        unfolding solves_def using len' by (metis in_set_conv_nth)
      finally show "solves S rows' \<longleftrightarrow> solves S rows" by simp
    qed
    show "\<forall>x. (\<forall>j < length rows. p \<le> j \<longrightarrow> rcoef (rows ! j) x = 0) \<longrightarrow>
           (\<forall>j < length rows. rcoef (rows' ! j) x = rcoef (rows ! j) x)"
    proof (intro allI impI)
      fix x j assume z: "\<forall>j < length rows. p \<le> j \<longrightarrow> rcoef (rows ! j) x = 0" and j: "j < length rows"
      have swx: "rcoef (sw ! i) x = rcoef (rows ! i) x" if "i < length rows" for i
        using that swn(2,3) [of i] z by (cases "i < p") (auto simp: not_less)
      then have "rcoef sc x = 0" using sci(2) [of x] z p by simp
      then show "rcoef (rows' ! j) x = rcoef (rows ! j) x"
        using oi [of j] j row swx [OF j] z p by (cases "j = p") auto
    qed
  qed
qed

definition echelon :: "u32 list \<Rightarrow> row list \<Rightarrow> bool" where
  "echelon qs rows \<longleftrightarrow> length qs \<le> length rows \<and>
     (\<forall>j < length qs. rcoef (rows ! j) (qs ! j) = 1 \<and>
        (\<forall>i < length rows. i \<noteq> j \<longrightarrow> rcoef (rows ! i) (qs ! j) = 0))"

lemma echelon_step:
  assumes e: "echelon qs rows" and p: "length qs = p" "p < length rows" and l: "length rows' = length rows"
    and new: "rcoef (rows' ! p) q = 1" "\<forall>j < length rows. j \<noteq> p \<longrightarrow> rcoef (rows' ! j) q = 0"
    and old: "\<forall>x. (\<forall>j < length rows. p \<le> j \<longrightarrow> rcoef (rows ! j) x = 0) \<longrightarrow>
           (\<forall>j < length rows. rcoef (rows' ! j) x = rcoef (rows ! j) x)"
  shows "echelon (qs @ [q]) rows'"
  unfolding echelon_def
proof (intro conjI allI impI)
  show "length (qs @ [q]) \<le> length rows'" using p l by simp
next
  fix j assume j: "j < length (qs @ [q])"
  show "rcoef (rows' ! j) ((qs @ [q]) ! j) = 1"
  proof (cases "j = p")
    case True
    then show ?thesis using new(1) p by (simp add: nth_append)
  next
    case False
    then have jp: "j < p" using j p by simp
    have "\<forall>i < length rows. rcoef (rows' ! i) (qs ! j) = rcoef (rows ! i) (qs ! j)"
      using e p jp by (intro old [THEN spec, THEN mp]) (auto simp: echelon_def)
    then show ?thesis using e p jp by (auto simp: echelon_def nth_append)
  qed
next
  fix j i assume j: "j < length (qs @ [q])" and i: "i < length rows'" "i \<noteq> j"
  show "rcoef (rows' ! i) ((qs @ [q]) ! j) = 0"
  proof (cases "j = p")
    case True
    then show ?thesis using new(2) p i l by (simp add: nth_append)
  next
    case False
    then have jp: "j < p" using j p by simp
    have "\<forall>i < length rows. rcoef (rows' ! i) (qs ! j) = rcoef (rows ! i) (qs ! j)"
      using e p jp by (intro old [THEN spec, THEN mp]) (auto simp: echelon_def)
    then show ?thesis using e p jp i l by (auto simp: echelon_def nth_append)
  qed
qed

lemma reduce_loop_spec:
  assumes "reduce_loop rows p m w b = Inr rows'" and "\<forall>r \<in> set rows. row_inv L M U r"
    and "echelon qs rows" and "length qs = p"
  shows "(\<forall>r \<in> set rows'. row_inv L M U r) \<and> (\<forall>S. solves S rows' \<longleftrightarrow> solves S rows)
     \<and> length rows' = length rows
     \<and> (\<exists>qs'. echelon qs' rows' \<and> (\<forall>r \<in> set (drop (length qs') rows'). r_coefficients r = []))"
  using assms
proof (induction rows p m w b arbitrary: rows' qs rule: reduce_loop.induct)
  case (1 rows p m w b)
  note red = 1(2) and inv = 1(3) and ech = 1(4) and len = 1(5)
  show ?case
  proof (cases "length rows \<le> p")
    case True
    then have r': "rows' = rows" using red by (simp add: reduce_loop.simps [of rows])
    have "drop (length qs) rows = []" using True len by simp
    then show ?thesis using r' inv ech by (auto intro!: exI [of _ qs])
  next
    case False
    then consider (brk) "reduce_round rows p m w b = Inr None" "rows' = rows"
      | (step) rs w' where "reduce_round rows p m w b = Inr (Some (rs, w'))"
          "reduce_loop rs (Suc p) m w' b = Inr rows'"
      using red by (auto simp: reduce_loop.simps [of rows] split: sum.splits option.splits)
    then show ?thesis
    proof cases
      case brk
      have "pivot_candidate (drop p rows) p None = None"
        using brk(1)
        by (auto simp: reduce_round_def rbind_Inr_iff Let_def split: option.splits prod.splits)
      then have "\<forall>r \<in> set (drop p rows). r_coefficients r = []" using pivot_candidate_None by blast
      then show ?thesis using brk inv ech len by (auto intro!: exI [of _ qs])
    next
      case (step rs w')
      have p: "p < length rows" using False by simp
      note l = reduce_round_length [OF step(1)]
      obtain q where ri: "\<forall>r \<in> set rs. row_inv L M U r" and sol: "\<forall>S. solves S rs \<longleftrightarrow> solves S rows"
          and n1: "rcoef (rs ! p) q = 1" and n2: "\<forall>j < length rows. j \<noteq> p \<longrightarrow> rcoef (rs ! j) q = 0"
          and n3: "\<forall>x. (\<forall>j < length rows. p \<le> j \<longrightarrow> rcoef (rows ! j) x = 0) \<longrightarrow>
           (\<forall>j < length rows. rcoef (rs ! j) x = rcoef (rows ! j) x)"
        by (rule reduce_round_spec [OF step(1) p inv])
      have e': "echelon (qs @ [q]) rs" by (rule echelon_step [OF ech len p l n1 n2 n3])
      have "length (qs @ [q]) = Suc p" using len by simp
      from 1(1) [OF False step(1) refl refl step(2) ri e' this] show ?thesis using sol l by simp
    qed
  qed
qed

subsection \<open>Reading off the determined symbols\<close>

definition row_symbol :: "row \<Rightarrow> (u32 \<times> bytes) list" where
  "row_symbol r =
     (case r_coefficients r of
        [(k, c)] \<Rightarrow> [(k, if c \<noteq> 1 then map (\<lambda>b. multiply b (gf_inverse c)) (r_data r) else r_data r)]
      | _ \<Rightarrow> [])"

definition false_row :: "row \<Rightarrow> bool" where
  "false_row r \<longleftrightarrow> r_coefficients r = [] \<and> list_ex (\<lambda>b. b \<noteq> 0) (r_data r)"

lemma collect_recovered_eq:
  "collect_recovered rows m =
     (if list_ex false_row rows then Inl ContradictoryRepair else Inr (concat (map row_symbol rows)))"
proof (induction rows)
  case (Cons r rows)
  have b: "bounded_vec (Suc 0) m = Inr m" by (simp add: bounded_vec_def vec_with_capacity_def)
  consider "r_coefficients r = []" | k c where "r_coefficients r = [(k, c)]"
    | p q cs where "r_coefficients r = p # q # cs"
    by (metis list.exhaust surj_pair)
  then show ?case
    by cases (use Cons in \<open>simp_all add: false_row_def [of r] row_symbol_def [of r] b split: prod.split\<close>)
qed simp

lemma row_symbol_iff:
  "(k, d) \<in> set (row_symbol r) \<longleftrightarrow> (\<exists>c. r_coefficients r = [(k, c)] \<and>
     d = (if c \<noteq> 1 then map (\<lambda>b. multiply b (gf_inverse c)) (r_data r) else r_data r))"
proof -
  consider "r_coefficients r = []" | k c where "r_coefficients r = [(k, c)]"
    | p q cs where "r_coefficients r = p # q # cs"
    by (metis list.exhaust surj_pair)
  then show ?thesis
    by cases (simp_all add: row_symbol_def split: prod.split, blast)
qed

lemma row_symbol_sound:
  assumes "(k, d) \<in> set (row_symbol r)" and "row_holds S r" and "row_inv L M U r"
  shows "pad d j = S k j" and "length d = length (r_data r)" and "row_ids r = {k}"
proof -
  obtain c where r: "r_coefficients r = [(k, c)]"
      and d: "d = (if c \<noteq> 1 then map (\<lambda>b. multiply b (gf_inverse c)) (r_data r) else r_data r)"
    using assms(1) by (auto simp: row_symbol_iff)
  have c: "c \<noteq> 0" using assms(3) r by (simp add: row_inv_def wf_Cons)
  have h: "multiply (S k j) c = pad (r_data r) j"
    using assms(2) r by (simp add: row_holds_def at_def)
  show "pad d j = S k j"
    using h gf.mul_inv [OF c] gf.mul_one by (auto simp: d pad_map h [symmetric] multiply_assoc)
  show "length d = length (r_data r)" by (simp add: d)
  show "row_ids r = {k}" by (simp add: row_ids_def r)
qed

lemma false_row_unsolvable: "false_row r \<Longrightarrow> \<not> row_holds S r"
  by (auto simp: false_row_def row_holds_def pad_eq_zero_iff)

lemma dedup_distinct: "distinct (map fst xs) \<Longrightarrow> dedup_ids xs = xs \<and> \<not> adjacent_contradiction xs"
  by (induction xs rule: dedup_ids.induct) auto

lemma concat_row_symbol_distinct:
  assumes e: "echelon qs rows" and z: "\<forall>r \<in> set (drop (length qs) rows). r_coefficients r = []"
  shows "distinct (map fst (concat (map row_symbol rows)))"
    and "(k, d) \<in> set (concat (map row_symbol rows)) \<longleftrightarrow>
           (\<exists>j < length qs. k = qs ! j \<and> (k, d) \<in> set (row_symbol (rows ! j)))"
proof -
  have sym: "row_symbol (rows ! j) = [] \<or> (j < length qs \<and> (\<exists>d. row_symbol (rows ! j) = [(qs ! j, d)]))"
    if j: "j < length rows" for j
  proof (cases "j < length qs")
    case True
    then have "rcoef (rows ! j) (qs ! j) = 1" using e by (simp add: echelon_def)
    then show ?thesis using True
      by (auto simp: row_symbol_def split: list.splits prod.splits if_splits)
  next
    case False
    have "drop (length qs) rows ! (j - length qs) = rows ! j" using j False by simp
    moreover have "j - length qs < length (drop (length qs) rows)" using j False by simp
    ultimately have "rows ! j \<in> set (drop (length qs) rows)" by (metis nth_mem)
    then have "r_coefficients (rows ! j) = []" using z False by simp
    then show ?thesis by (simp add: row_symbol_def)
  qed
  have qd: "qs ! i \<noteq> qs ! j" if "i < length qs" "j < length qs" "i \<noteq> j" for i j
    using e that unfolding echelon_def by (metis order_less_le_trans zero_neq_one)
  show "distinct (map fst (concat (map row_symbol rows)))"
  proof -
    have "distinct (map fst (concat (map (\<lambda>j. row_symbol (rows ! j)) xs)))"
      if "distinct xs" "set xs \<subseteq> {..<length rows}" for xs
      using that
    proof (induction xs)
      case (Cons j xs)
      then have d: "distinct (map fst (concat (map (\<lambda>j. row_symbol (rows ! j)) xs)))" and j: "j < length rows"
        by auto
      from sym [OF j] show ?case
      proof
        assume "row_symbol (rows ! j) = []"
        then show ?thesis using d by simp
      next
        assume a: "j < length qs \<and> (\<exists>d. row_symbol (rows ! j) = [(qs ! j, d)])"
        then obtain v where v: "row_symbol (rows ! j) = [(qs ! j, v)]" by blast
        have "qs ! j \<noteq> k" if "i \<in> set xs" "(k, w) \<in> set (row_symbol (rows ! i))" for i k w
        proof -
          have i: "i < length rows" "i \<noteq> j" using that Cons.prems by auto
          from sym [OF i(1)] that(2) have "i < length qs" "k = qs ! i" by auto
          then show ?thesis using qd [of j i] a i by auto
        qed
        then show ?thesis using d v by fastforce
      qed
    qed simp
    from this [of "[0..<length rows]"] have "distinct (map fst (concat (map (\<lambda>j. row_symbol (rows ! j)) [0..<length rows])))"
      by (simp add: lessThan_atLeast0)
    moreover have "map (\<lambda>j. row_symbol (rows ! j)) [0..<length rows] = map row_symbol rows"
      by (rule nth_equalityI) simp_all
    ultimately show ?thesis by (simp only:)
  qed
  show "(k, d) \<in> set (concat (map row_symbol rows)) \<longleftrightarrow>
           (\<exists>j < length qs. k = qs ! j \<and> (k, d) \<in> set (row_symbol (rows ! j)))"
  proof
    assume "(k, d) \<in> set (concat (map row_symbol rows))"
    then obtain r where "r \<in> set rows" "(k, d) \<in> set (row_symbol r)" by auto
    then obtain j where "j < length rows" "(k, d) \<in> set (row_symbol (rows ! j))"
      by (metis in_set_conv_nth)
    then show "\<exists>j < length qs. k = qs ! j \<and> (k, d) \<in> set (row_symbol (rows ! j))"
      using sym [of j] by auto
  next
    assume "\<exists>j < length qs. k = qs ! j \<and> (k, d) \<in> set (row_symbol (rows ! j))"
    then show "(k, d) \<in> set (concat (map row_symbol rows))"
      using e by (auto simp: echelon_def)
  qed
qed
subsection \<open>The elimination finds exactly the determined symbols\<close>

lemma lin_xor: "lin multiply (\<lambda>i. S i XOR T i) cs = lin multiply S cs XOR lin multiply T cs"
  by (induction cs) (auto simp: multiply_xor_left xor.assoc xor.left_commute)

lemma lin_single: "wf_coefficients cs \<Longrightarrow> lin multiply (\<lambda>i. if i = k then a else 0) cs = multiply a (coef cs k)"
proof (induction cs)
  case (Cons p cs)
  obtain j c where p: "p = (j, c)" by (cases p)
  have "j \<notin> fst ` set cs" using Cons.prems by (auto simp: p wf_Cons)
  then have "coef cs j = 0" by (rule coef_notin)
  then show ?case using Cons by (auto simp: p wf_Cons)
qed simp

lemma echelon_distinct: "echelon qs rows \<Longrightarrow> distinct qs"
  unfolding echelon_def distinct_conv_nth by (metis order_less_le_trans zero_neq_one)

text \<open>Changing a free symbol and adjusting the pivots gives another solution.\<close>

lemma free_symbol_solution:
  assumes inv: "\<forall>r \<in> set rows. row_inv L M U r" and e: "echelon qs rows"
    and z: "\<forall>r \<in> set (drop (length qs) rows). r_coefficients r = []"
    and sol: "solves S rows" and f: "f \<notin> set qs"
  defines "D \<equiv> \<lambda>x. if x = f then 1 else
      (case map_of (zip qs (take (length qs) rows)) x of None \<Rightarrow> 0 | Some r \<Rightarrow> rcoef r f)"
  shows "solves (\<lambda>x k. if k = 0 then S x 0 XOR D x else S x k) rows"
  unfolding solves_def
proof
  fix r assume "r \<in> set rows"
  then obtain j where j: "j < length rows" "r = rows ! j" by (auto simp: in_set_conv_nth)
  let ?S = "\<lambda>x k. if k = 0 then S x 0 XOR D x else S x k"
  have hr: "row_holds S r" using sol \<open>r \<in> set rows\<close> by (simp add: solves_def)
  have wf: "wf_coefficients (r_coefficients r)" using inv \<open>r \<in> set rows\<close> by (simp add: row_inv_def)
  have D0: "lin multiply D (r_coefficients r) = 0"
  proof (cases "j < length qs")
    case True
    let ?q = "qs ! j"
    have fq: "f \<noteq> ?q" using f True by auto
    have "D x = (if x = f then 1 else 0) XOR (if x = ?q then rcoef r f else 0)" if x: "x \<in> row_ids r" for x
    proof -
      have len: "length qs = length (take (length qs) rows)" using e by (simp add: echelon_def)
      have "map_of (zip qs (take (length qs) rows)) ?q = Some r"
        using map_of_zip_nth [OF len echelon_distinct [OF e], of j] True j len by simp
      moreover have "x \<notin> set qs" if "x \<noteq> ?q"
      proof
        assume "x \<in> set qs"
        then obtain i where i: "i < length qs" "x = qs ! i" by (auto simp: in_set_conv_nth)
        then have "i \<noteq> j" using that by auto
        then have "rcoef r x = 0" using e i True j by (simp add: echelon_def)
        then show False using x wf by (simp add: row_ids_iff)
      qed
      moreover have "map_of (zip qs (take (length qs) rows)) x = None" if "x \<notin> set qs" for x
        using that by (auto simp: map_of_eq_None_iff dest: set_zip_leftD)
      ultimately show ?thesis using fq by (auto simp: D_def)
    qed
    then have "lin multiply D (r_coefficients r) = lin multiply
        (\<lambda>x. (if x = f then 1 else 0) XOR (if x = ?q then rcoef r f else 0)) (r_coefficients r)"
      by (intro lin_coef_cong [OF wf]) (simp add: row_ids_def)
    also have "\<dots> = multiply 1 (rcoef r f) XOR multiply (rcoef r f) (rcoef r ?q)"
      by (simp only: lin_xor lin_single [OF wf])
    also have "rcoef r ?q = 1" using e True j by (simp add: echelon_def)
    finally show ?thesis by simp
  next
    case False
    have "drop (length qs) rows ! (j - length qs) = rows ! j" using j False by simp
    moreover have "j - length qs < length (drop (length qs) rows)" using j False by simp
    ultimately have "rows ! j \<in> set (drop (length qs) rows)" by (metis nth_mem)
    then show ?thesis using z j by simp
  qed
  show "row_holds ?S r"
    unfolding row_holds_def
  proof
    fix k
    show "lin multiply (at ?S k) (r_coefficients r) = pad (r_data r) k"
    proof (cases "k = 0")
      case True
      have "at ?S k = (\<lambda>x. at S 0 x XOR D x)" using True by (simp add: at_def)
      then show ?thesis using hr True D0 by (simp add: lin_xor row_holds_def)
    next
      case False
      then have "at ?S k = at S k" by (simp add: at_def)
      then show ?thesis using hr by (simp add: row_holds_def)
    qed
  qed
qed

lemma reduce_loop_error:
  assumes "reduce_loop rows p m w b = Inl e"
  shows "e = WorkBudget \<or> e = MemoryCapacity"
proof -
  have sp: "spend w b = Inl e \<Longrightarrow> e = WorkBudget" for w b e
    by (auto simp: spend_def Let_def split: if_splits)
  have rb: "rbind x f = Inl e \<longleftrightarrow> x = Inl e \<or> (\<exists>y. x = Inr y \<and> f y = Inl e)" for x :: "'x + 'y" and f e
    by (cases x) auto
  have xl: "xor_loop ts ss f w b = Inl e \<Longrightarrow> e = WorkBudget" for ts ss f w b e
    by (induction ts ss f w b arbitrary: e rule: xor_loop.induct) (auto simp: rb dest: sp)
  have sc: "scale_coefficients cs f w b = Inl e \<Longrightarrow> e = WorkBudget" for cs f w b e
    by (induction cs f w b arbitrary: e rule: scale_coefficients.induct) (auto simp: rb dest: sp)
  have sb: "scale_bytes cs f w b = Inl e \<Longrightarrow> e = WorkBudget" for cs f w b e
    by (induction cs f w b arbitrary: e rule: scale_bytes.induct) (auto simp: rb dest: sp)
  have sr: "scale_row r f w b = Inl e \<Longrightarrow> e = WorkBudget" for r f w b e
    by (auto simp: scale_row_def rb dest: sc sb)
  have tc: "subtract_coefficients t s f w b = Inl e \<Longrightarrow> e = WorkBudget" for t s f w b e
    by (induction t s f w b arbitrary: e rule: subtract_coefficients.induct) (auto simp: rb dest: sp)
  have tr: "subtract_row t s f w b = Inl e \<Longrightarrow> e = WorkBudget" for t s f w b e
    by (auto simp: subtract_row_def rb Let_def dest: tc xl)
  have el: "eliminate rows i p k s w b = Inl e \<Longrightarrow> e = WorkBudget" for rows i p k s w b e
    by (induction rows i p k s w b arbitrary: e rule: eliminate.induct)
      (auto simp: rb dest: tr split: if_splits option.splits)
  have cl: "clone_rows rows cc m = Inl e \<Longrightarrow> e = MemoryCapacity" for rows cc m e
    by (induction rows cc m arbitrary: e rule: clone_rows.induct)
      (auto simp: rb bounded_vec_def split: if_splits)
  have cb: "clone_rows_bounded [r] 0 0 m = Inl e \<Longrightarrow> e = MemoryCapacity" for r m e
    by (auto simp: clone_rows_bounded_def rb matrix_coefficient_count_single ok_or_def bounded_vec_def
        dest: cl split: if_splits option.splits)
  have rr: "reduce_round rows p m w b = Inl e \<Longrightarrow> e = WorkBudget \<or> e = MemoryCapacity" for rows p m w b e
    by (auto simp: reduce_round_def rb Let_def dest: sr cb el split: option.splits prod.splits)
  from assms show ?thesis
  proof (induction rows p m w b rule: reduce_loop.induct)
    case (1 rows p m w b)
    have ne: "\<not> length rows \<le> p" using 1(2) by (auto simp: reduce_loop.simps [of rows])
    then consider "reduce_round rows p m w b = Inl e"
      | rs w' where "reduce_round rows p m w b = Inr (Some (rs, w'))" "reduce_loop rs (Suc p) m w' b = Inl e"
      using 1(2) by (auto simp: reduce_loop.simps [of rows] split: sum.splits option.splits)
    then show ?case
    proof cases
      case 1
      then show ?thesis by (rule rr)
    next
      case (2 rs w')
      from 1(1) [OF ne 2(1) refl refl 2(2)] show ?thesis .
    qed
  qed
qed
lemma reduce_Inr:
  assumes r: "reduce rows m b = Inr (rows', found)" and inv: "\<forall>r \<in> set rows. row_inv L M U r"
  obtains qs where "echelon qs rows'" and "\<forall>r \<in> set (drop (length qs) rows'). r_coefficients r = []"
    and "\<forall>r \<in> set rows'. row_inv L M U r" and "\<forall>S. solves S rows' \<longleftrightarrow> solves S rows"
    and "length rows' = length rows"
    and "set found = set (concat (map row_symbol rows'))" and "distinct (map fst found)"
    and "sorted (map fst found)"
proof -
  have loop: "reduce_loop rows 0 m 0 b = Inr rows'" and nf: "\<not> list_ex false_row rows'"
    and found: "found = dedup_ids (sort_key fst (concat (map row_symbol rows')))"
    using r by (auto simp: reduce_def rbind_Inr_iff collect_recovered_eq Let_def split: if_splits)
  have "echelon [] rows" by (simp add: echelon_def)
  from reduce_loop_spec [OF loop inv this] obtain qs where
      qs: "echelon qs rows'" "\<forall>r \<in> set (drop (length qs) rows'). r_coefficients r = []"
      and i: "\<forall>r \<in> set rows'. row_inv L M U r" "\<forall>S. solves S rows' \<longleftrightarrow> solves S rows"
        "length rows' = length rows"
    by auto
  have "distinct (map fst (sort_key fst (concat (map row_symbol rows'))))"
    using concat_row_symbol_distinct(1) [OF qs] by (metis distinct_map set_sort distinct_sort)
  then have f: "found = sort_key fst (concat (map row_symbol rows'))"
    using found dedup_distinct by auto
  have "set found = set (concat (map row_symbol rows'))" using f by (simp only: set_sort)
  moreover have "distinct (map fst found)"
    using f \<open>distinct (map fst (sort_key fst (concat (map row_symbol rows'))))\<close> by simp
  moreover have "sorted (map fst found)" using f by (simp only: sorted_sort_key)
  ultimately show ?thesis using that [OF qs i] by blast
qed

lemma reduce_sound:
  assumes r: "reduce rows m b = Inr (rows', found)" and inv: "\<forall>r \<in> set rows. row_inv L M U r"
    and sol: "solves S rows" and kd: "(k, d) \<in> set found"
  shows "pad d j = S k j" and "L k \<le> length d" and "length d \<le> M" and "k \<in> U"
proof -
  obtain qs where i: "\<forall>r \<in> set rows'. row_inv L M U r" and s: "\<forall>S. solves S rows' \<longleftrightarrow> solves S rows"
      and f: "set found = set (concat (map row_symbol rows'))"
    by (rule reduce_Inr [OF r inv]) blast
  obtain q where q: "q \<in> set rows'" "(k, d) \<in> set (row_symbol q)" using kd f by auto
  have "solves S rows'" using s sol by simp
  then have "row_holds S q" using q(1) by (simp add: solves_def)
  moreover have qi: "row_inv L M U q" using i q(1) by blast
  ultimately have "pad d j = S k j" and l: "length d = length (r_data q)" and ids: "row_ids q = {k}"
    using row_symbol_sound [OF q(2)] by blast+
  then show "pad d j = S k j" by simp
  show "L k \<le> length d" "length d \<le> M" "k \<in> U"
    using qi ids l by (auto simp: row_inv_def)
qed

lemma reduce_complete:
  assumes r: "reduce rows m b = Inr (rows', found)" and inv: "\<forall>r \<in> set rows. row_inv L M U r"
    and sol: "solves S rows" and uniq: "\<forall>T. solves T rows \<longrightarrow> T k = S k"
  shows "k \<in> fst ` set found"
proof (rule ccontr)
  assume no: "k \<notin> fst ` set found"
  obtain qs where e: "echelon qs rows'" and z: "\<forall>r \<in> set (drop (length qs) rows'). r_coefficients r = []"
      and i: "\<forall>r \<in> set rows'. row_inv L M U r" and s: "\<forall>S. solves S rows' \<longleftrightarrow> solves S rows"
      and f: "set found = set (concat (map row_symbol rows'))"
    by (rule reduce_Inr [OF r inv]) blast
  have sol': "solves S rows'" using s sol by simp
  have same: "D k = 0" if "solves (\<lambda>x j. if j = 0 then S x 0 XOR D x else S x j) rows'" for D
  proof -
    have "(\<lambda>x j. if j = 0 then S x 0 XOR D x else S x j) k = S k" using uniq s that by blast
    from fun_cong [OF this, of 0] show ?thesis by (simp, metis xor_left_cancel xor.right_neutral)
  qed
  show False
  proof (cases "k \<in> set qs")
    case False
    from same [OF free_symbol_solution [OF i e z sol' False]] show False by simp
  next
    case True
    then obtain j where j: "j < length qs" "k = qs ! j" by (auto simp: in_set_conv_nth)
    have jl: "j < length rows'" using e j by (simp add: echelon_def)
    let ?r = "rows' ! j"
    have ri: "row_inv L M U ?r" using i jl by simp
    then have wf: "wf_coefficients (r_coefficients ?r)" by (simp add: row_inv_def)
    have kr: "rcoef ?r k = 1" using e j by (simp add: echelon_def)
    have "\<exists>g. g \<noteq> k \<and> g \<in> row_ids ?r"
    proof (rule ccontr)
      assume "\<not> (\<exists>g. g \<noteq> k \<and> g \<in> row_ids ?r)"
      then have "row_ids ?r \<subseteq> {k}" by blast
      moreover have "k \<in> row_ids ?r" using kr wf by (simp add: row_ids_iff)
      moreover have "distinct (map fst (r_coefficients ?r))"
        using wf by (simp add: wf_coefficients_def strict_sorted_iff)
      ultimately obtain c where "r_coefficients ?r = [(k, c)]"
        unfolding row_ids_def by (cases "r_coefficients ?r"; cases "tl (r_coefficients ?r)") auto
      then have "k \<in> fst ` set (row_symbol ?r)" by (simp add: row_symbol_def)
      then have "k \<in> fst ` set (concat (map row_symbol rows'))"
        using jl by (auto simp: image_iff)
      then show False using no f by simp
    qed
    then obtain g where g: "g \<noteq> k" "rcoef ?r g \<noteq> 0" using wf by (auto simp: row_ids_iff)
    have gq: "g \<notin> set qs"
    proof
      assume "g \<in> set qs"
      then obtain i where i: "i < length qs" "g = qs ! i" by (auto simp: in_set_conv_nth)
      then have "i \<noteq> j" using g j by auto
      then show False using e i jl g(2) by (simp add: echelon_def)
    qed
    have len: "length qs = length (take (length qs) rows')" using e by (simp add: echelon_def)
    have "map_of (zip qs (take (length qs) rows')) k = Some ?r"
      using map_of_zip_nth [OF len echelon_distinct [OF e], of j] j len by simp
    with same [OF free_symbol_solution [OF i e z sol' gq]] g show False by simp
  qed
qed

lemma reduce_consistent:
  assumes inv: "\<forall>r \<in> set rows. row_inv L M U r" and sol: "solves S rows" and r: "reduce rows m b = Inl e"
  shows "e = WorkBudget \<or> e = MemoryCapacity"
proof (cases "reduce_loop rows 0 m 0 b")
  case (Inl e')
  then show ?thesis using r reduce_loop_error [OF Inl] by (simp add: reduce_def)
next
  case (Inr rows')
  have "echelon [] rows" by (simp add: echelon_def)
  from reduce_loop_spec [OF Inr inv this] obtain qs where
      qs: "echelon qs rows'" "\<forall>r \<in> set (drop (length qs) rows'). r_coefficients r = []"
      and s: "solves S rows'" using sol by auto
  have "\<not> list_ex false_row rows'"
    using s false_row_unsolvable by (auto simp: list_ex_iff solves_def)
  moreover have "distinct (map fst (sort_key fst (concat (map row_symbol rows'))))"
    using concat_row_symbol_distinct(1) [OF qs] by (metis distinct_map set_sort distinct_sort)
  ultimately show ?thesis
    using r Inr dedup_distinct
    by (auto simp: reduce_def collect_recovered_eq bounded_vec_def vec_with_capacity_def
        size_of_recovered_pair_def Let_def)
qed

subsection \<open>Property\<close>

text \<open>C6: the elimination is exact.  For well-formed rows that some assignment of source symbols
  satisfies, \<open>reduce\<close> returns a symbol if and only if the rows determine it, that is, all
  assignments satisfying them agree on it, and the returned octets are its octets.\<close>

theorem reduce_exact:
  assumes "\<forall>r \<in> set rows. row_inv L M U r" and "solves S rows"
    and "reduce rows m b = Inr (rows', found)"
  shows "((\<forall>T. solves T rows \<longrightarrow> T k = S k) \<longleftrightarrow> k \<in> fst ` set found)
     \<and> ((k, d) \<in> set found \<longrightarrow> S k = pad d)"
proof -
  have agree: "T k = S k" if "(k, e) \<in> set found" "solves T rows" for T e
    using reduce_sound(1) [OF assms(3,1,2) that(1)] reduce_sound(1) [OF assms(3,1) that(2,1)] by auto
  have "S k = pad d" if "(k, d) \<in> set found"
    using reduce_sound(1) [OF assms(3,1,2) that] by auto
  then show ?thesis
    using agree reduce_complete [OF assms(3,1,2), of k] by fastforce
qed

definition demo_row :: "(u32 \<times> u8) list \<Rightarrow> bytes \<Rightarrow> row" where
  "demo_row cs d = \<lparr>r_coefficients = cs, r_coefficients_cap = 4, r_data = d, r_data_cap = 1\<rparr>"

definition demo_symbols :: "u32 \<Rightarrow> nat \<Rightarrow> u8" where
  "demo_symbols i = pad (if i = 1 then [5] else if i = 2 then [6] else [])"

theorem reduce_exact_witness:
  "(\<lambda>T. T 2) ` {T. solves T [demo_row [(1, 1), (2, 1)] [3], demo_row [(1, 1), (2, 2)] [9]]} \<subseteq> {demo_symbols 2}
   \<and> demo_symbols 2 = pad [6]"
proof -
  let ?rows = "[demo_row [(1, 1), (2, 1)] [3], demo_row [(1, 1), (2, 2)] [9]]"
  have ok: "\<forall>r \<in> set ?rows. row_inv (\<lambda>_. 1) 1 {1, 2} r"
    by (simp add: row_inv_def demo_row_def wf_coefficients_def row_ids_def)
  have sol: "solves demo_symbols ?rows"
    by (simp add: solves_def row_holds_def demo_row_def demo_symbols_def at_def pad_def
        multiply_def multiply_loop.simps xtime_def)
  let ?mid = "[demo_row [(1, 1), (2, 1)] [3], demo_row [(2, 3)] [10]]"
  let ?fin = "[demo_row [(1, 1)] [5], demo_row [(2, 1)] [6]]"
  have inv: "gf_inverse 1 = 1" "gf_inverse 3 = 244"
    by (simp_all add: gf_inverse_def inverse_loop.simps multiply_def multiply_loop.simps xtime_def REDUCTION_def)
  have mul: "multiply 3 244 = 1" "multiply 10 244 = 6"
    by (simp_all add: multiply_def multiply_loop.simps xtime_def REDUCTION_def)
  note eval = reduce_round_def demo_row_def swap_rows_def scale_row_def spend_def saturating_add_def
    usize_max_def clone_rows_bounded_def matrix_coefficient_count_def checked_add_def bounded_vec_def
    vec_with_capacity_def size_of_row_def size_of_coefficient_def find_coefficient_def subtract_row_def
    add_coefficient_def coefficient_search_def Let_def
  have "reduce_round ?rows 0 1 0 100 = Inr (Some (?mid, 6))" by (simp add: eval inv)
  moreover have "reduce_round ?mid 1 1 6 100 = Inr (Some (?fin, 10))" by (simp add: eval inv mul)
  ultimately have "reduce_loop ?rows 0 1 0 100 = Inr ?fin"
    by (simp add: reduce_loop.simps [of ?rows] reduce_loop.simps [of ?mid] reduce_loop.simps [of ?fin])
  then have red: "reduce ?rows 1 100 = Inr (?fin, [(1, [5]), (2, [6])])"
    by (simp add: reduce_def demo_row_def bounded_vec_def vec_with_capacity_def size_of_recovered_pair_def)
  show ?thesis
    using reduce_exact [OF ok sol red, of 2 "[6]"] by auto
qed

end
