(* ===== verification/Memory_Budget.thy ===== *)
theory Memory_Budget
  imports Quicp_Prelude
begin

section \<open>The shared recovery memory budget (src/recovery.rs)\<close>

text \<open>
  \<open>RecoveryMemoryBudget\<close> is one counter shared by every connection of an endpoint, and a
  \<open>RecoveryCharge\<close> is an owned share of it that is given back when dropped.  The counter is
  threaded through the operations explicitly; a compare-and-swap loop is one atomic step, so an
  operation of the model is the linearization of its Rust counterpart.  \<open>release\<close> is a wrapping
  subtraction on 64 bits.  An assertion that fails is the value \<open>None\<close>.

  \<open>holds b n\<close> is what a component relies on: the counter is the sum \<open>n\<close> of the shares handed out,
  so a release never wraps and the limit is never exceeded.  The last section justifies the atomic
  reading: under every interleaving of the loads, compare-and-swaps and subtractions of any number
  of threads the counter stays the sum of the shares and below the limit.
\<close>

datatype recovery_error =
    OffsetOverflow | InvalidRange | RangeCapacity | FlowControl | Capacity
  | ContradictoryOverlap | FinalOffset

record mem_budget =
  mb_id :: nat
  mb_used :: nat
  mb_limit :: nat

definition budget_new :: "nat \<Rightarrow> u32 \<Rightarrow> mem_budget" where
  "budget_new ident limit = \<lparr>mb_id = ident, mb_used = 0, mb_limit = unat limit\<rparr>"

definition try_reserve :: "mem_budget \<Rightarrow> usize \<Rightarrow> mem_budget option" where
  "try_reserve b n =
     (case checked_add (mb_used b) n of
        None \<Rightarrow> None
      | Some next \<Rightarrow> if next \<le> mb_limit b then Some (b\<lparr>mb_used := next\<rparr>) else None)"

definition release :: "mem_budget \<Rightarrow> usize \<Rightarrow> mem_budget" where
  "release b n = b\<lparr>mb_used := (if n \<le> mb_used b then mb_used b - n else mb_used b + 2 ^ 64 - n)\<rparr>"

record recovery_charge =
  ch_budget :: nat
  ch_bytes :: usize

definition charge_reserve :: "mem_budget \<Rightarrow> usize \<Rightarrow> recovery_error + recovery_charge \<times> mem_budget" where
  "charge_reserve b n =
     (case try_reserve b n of
        None \<Rightarrow> Inl Capacity
      | Some b' \<Rightarrow> Inr (\<lparr>ch_budget = mb_id b, ch_bytes = n\<rparr>, b'))"

definition belongs_to :: "recovery_charge \<Rightarrow> mem_budget \<Rightarrow> bool" where
  "belongs_to c b \<longleftrightarrow> ch_budget c = mb_id b"

definition charge_grow ::
  "recovery_charge \<Rightarrow> usize \<Rightarrow> mem_budget \<Rightarrow> recovery_error + recovery_charge \<times> mem_budget" where
  "charge_grow c n b =
     (if n \<le> ch_bytes c then Inr (c, b)
      else case try_reserve b (n - ch_bytes c) of
          None \<Rightarrow> Inl Capacity
        | Some b' \<Rightarrow> Inr (c\<lparr>ch_bytes := n\<rparr>, b'))"

definition charge_shrink ::
  "recovery_charge \<Rightarrow> usize \<Rightarrow> mem_budget \<Rightarrow> (recovery_charge \<times> mem_budget) option" where
  "charge_shrink c n b =
     (if n \<le> ch_bytes c then Some (c\<lparr>ch_bytes := n\<rparr>, release b (ch_bytes c - n)) else None)"

definition charge_split ::
  "recovery_charge \<Rightarrow> usize \<Rightarrow> recovery_error + recovery_charge \<times> recovery_charge" where
  "charge_split c n =
     (if ch_bytes c < n then Inl Capacity
      else Inr (c\<lparr>ch_bytes := ch_bytes c - n\<rparr>, \<lparr>ch_budget = ch_budget c, ch_bytes = n\<rparr>))"

definition charge_transfer :: "recovery_charge \<Rightarrow> usize \<Rightarrow> recovery_error + recovery_charge" where
  "charge_transfer c n =
     (if ch_bytes c < n then Inl Capacity else Inr (c\<lparr>ch_bytes := ch_bytes c - n\<rparr>))"

definition charge_drop :: "recovery_charge \<Rightarrow> mem_budget \<Rightarrow> mem_budget" where
  "charge_drop c b = release b (ch_bytes c)"

text \<open>A charge against another budget is released there; this budget does not see it.\<close>

definition drop_foreign :: "recovery_charge \<Rightarrow> mem_budget \<Rightarrow> mem_budget" where
  "drop_foreign c b = (if belongs_to c b then charge_drop c b else b)"

subsection \<open>Accounting\<close>

text \<open>\<open>holds b n\<close>: the shares handed out add up to \<open>n\<close> and stay within the limit.\<close>

definition holds :: "mem_budget \<Rightarrow> nat \<Rightarrow> bool" where
  "holds b n \<longleftrightarrow> mb_used b = n \<and> n \<le> mb_limit b \<and> mb_limit b < 2 ^ 32"

lemma holds_new: "holds (budget_new i limit) 0"
  using unsigned_less [of limit, where 'a = nat] by (simp add: holds_def budget_new_def)

lemma try_reserve_Some:
  assumes "holds b n"
  shows "try_reserve b k = Some b' \<longleftrightarrow> n + k \<le> mb_limit b \<and> b' = b\<lparr>mb_used := n + k\<rparr>"
  using assms by (auto simp: try_reserve_def holds_def checked_add_def usize_max_def)

lemma holds_reserve: "holds b n \<Longrightarrow> try_reserve b k = Some b' \<Longrightarrow> holds b' (n + k)"
  by (auto simp: try_reserve_Some holds_def)

lemma reserve_zero: "holds b n \<Longrightarrow> try_reserve b 0 = Some b"
  by (auto simp: try_reserve_def holds_def checked_add_def usize_max_def)

lemma holds_release: "holds b n \<Longrightarrow> k \<le> n \<Longrightarrow> holds (release b k) (n - k)"
  by (auto simp: release_def holds_def)

lemma release_zero [simp]: "release b 0 = b"
  by (simp add: release_def)

lemma release_reserve: "holds b n \<Longrightarrow> try_reserve b k = Some b' \<Longrightarrow> release b' k = b"
  by (auto simp: try_reserve_Some release_def holds_def)

lemma release_release:
  "holds b n \<Longrightarrow> j + k \<le> n \<Longrightarrow> release (release b j) k = release b (j + k)"
  by (auto simp: release_def holds_def)

lemma release_fields [simp]: "mb_id (release b k) = mb_id b" "mb_limit (release b k) = mb_limit b"
  by (simp_all add: release_def)

lemma charge_reserve_Inr:
  "charge_reserve b n = Inr (c, b') \<longleftrightarrow>
     try_reserve b n = Some b' \<and> c = \<lparr>ch_budget = mb_id b, ch_bytes = n\<rparr>"
  by (auto simp: charge_reserve_def split: option.splits)

lemma charge_grow_Inr:
  "charge_grow c n b = Inr (c', b') \<longleftrightarrow>
     c' = c\<lparr>ch_bytes := max n (ch_bytes c)\<rparr> \<and> try_reserve b (n - ch_bytes c) = Some b' \<and> ch_bytes c < n
     \<or> n \<le> ch_bytes c \<and> c' = c \<and> b' = b"
  by (auto simp: charge_grow_def max_def split: option.splits)

text \<open>
  \<open>acc b0 b n\<close>: \<open>b\<close> is the budget \<open>b0\<close> after some operations and hands out \<open>n\<close> bytes.  Every
  operation is described by how it moves this number, so the accounting of a whole operation is
  a chain of additions.
\<close>

definition acc :: "mem_budget \<Rightarrow> mem_budget \<Rightarrow> nat \<Rightarrow> bool" where
  "acc b0 b n \<longleftrightarrow> holds b n \<and> mb_id b = mb_id b0 \<and> mb_limit b = mb_limit b0"

lemma acc_refl: "holds b n \<Longrightarrow> acc b b n"
  by (simp add: acc_def)

lemma acc_back: "holds b0 n \<Longrightarrow> acc b0 b n \<Longrightarrow> b = b0"
  by (auto simp: acc_def holds_def)

lemma acc_holds: "acc b0 b n \<Longrightarrow> holds b n"
  by (simp add: acc_def)

lemma acc_release: "acc b0 b (n + k) \<Longrightarrow> acc b0 (release b k) n"
  using holds_release [of b "n + k" k] by (simp add: acc_def)

lemma acc_release_eq: "acc b0 b m \<Longrightarrow> m = n + k \<Longrightarrow> acc b0 (release b k) n"
  by (simp add: acc_release)

lemma acc_reserve: "acc b0 b n \<Longrightarrow> try_reserve b k = Some b' \<Longrightarrow> acc b0 b' (n + k)"
  by (auto simp: acc_def try_reserve_Some holds_def)

lemma acc_grow:
  assumes "acc b0 b (n + ch_bytes c)" and "charge_grow c k b = Inr (c', b')"
  shows "acc b0 b' (n + ch_bytes c') \<and> ch_bytes c' = max k (ch_bytes c) \<and> ch_budget c' = ch_budget c"
proof (cases "ch_bytes c < k")
  case True
  then have "try_reserve b (k - ch_bytes c) = Some b'" and "c' = c\<lparr>ch_bytes := k\<rparr>"
    using assms(2) by (auto simp: charge_grow_def split: option.splits)
  then show ?thesis using acc_reserve [OF assms(1)] True by fastforce
next
  case False
  then show ?thesis using assms by (auto simp: charge_grow_def)
qed

lemma charge_transfer_Inr:
  "charge_transfer c k = Inr c' \<longleftrightarrow> k \<le> ch_bytes c \<and> c' = c\<lparr>ch_bytes := ch_bytes c - k\<rparr>"
  by (auto simp: charge_transfer_def)

subsection \<open>Interleavings of the compare-and-swap loop\<close>

text \<open>
  A thread is idle, or inside \<open>try_reserve\<close> with the byte count it asks for and the counter value
  it last observed.  The weak compare-and-swap may fail spuriously.
\<close>

datatype reserve_pc = Idle | Trying usize nat

record thread_state =
  th_pc :: reserve_pc
  th_held :: nat

record shared_state =
  sh_used :: nat
  sh_limit :: nat
  sh_threads :: "thread_state list"

inductive budget_step :: "shared_state \<Rightarrow> shared_state \<Rightarrow> bool" where
  load: "\<lbrakk>i < length (sh_threads s); th_pc (sh_threads s ! i) = Idle\<rbrakk> \<Longrightarrow>
     budget_step s (s\<lparr>sh_threads := (sh_threads s)[i := (sh_threads s ! i)\<lparr>th_pc := Trying n (sh_used s)\<rparr>]\<rparr>)"
| refuse: "\<lbrakk>i < length (sh_threads s); th_pc (sh_threads s ! i) = Trying n seen;
     usize_max < seen + n \<or> sh_limit s < seen + n\<rbrakk> \<Longrightarrow>
     budget_step s (s\<lparr>sh_threads := (sh_threads s)[i := (sh_threads s ! i)\<lparr>th_pc := Idle\<rparr>]\<rparr>)"
| swap: "\<lbrakk>i < length (sh_threads s); th_pc (sh_threads s ! i) = Trying n seen; seen + n \<le> usize_max;
     seen + n \<le> sh_limit s; sh_used s = seen\<rbrakk> \<Longrightarrow>
     budget_step s (s\<lparr>sh_used := seen + n, sh_threads := (sh_threads s)[i := (sh_threads s ! i)
       \<lparr>th_pc := Idle, th_held := th_held (sh_threads s ! i) + n\<rparr>]\<rparr>)"
| retry: "\<lbrakk>i < length (sh_threads s); th_pc (sh_threads s ! i) = Trying n seen; seen + n \<le> usize_max;
     seen + n \<le> sh_limit s\<rbrakk> \<Longrightarrow>
     budget_step s (s\<lparr>sh_threads := (sh_threads s)[i := (sh_threads s ! i)\<lparr>th_pc := Trying n (sh_used s)\<rparr>]\<rparr>)"
| release: "\<lbrakk>i < length (sh_threads s); th_pc (sh_threads s ! i) = Idle; n \<le> th_held (sh_threads s ! i)\<rbrakk> \<Longrightarrow>
     budget_step s (s\<lparr>sh_used := (if n \<le> sh_used s then sh_used s - n else sh_used s + 2 ^ 64 - n),
       sh_threads := (sh_threads s)[i := (sh_threads s ! i)
         \<lparr>th_held := th_held (sh_threads s ! i) - n\<rparr>]\<rparr>)"

definition shared_start :: "nat \<Rightarrow> nat \<Rightarrow> shared_state" where
  "shared_start limit n =
     \<lparr>sh_used = 0, sh_limit = limit, sh_threads = replicate n \<lparr>th_pc = Idle, th_held = 0\<rparr>\<rparr>"

definition total_held :: "shared_state \<Rightarrow> nat" where
  "total_held s = sum_list (map th_held (sh_threads s))"

definition shared_inv :: "shared_state \<Rightarrow> bool" where
  "shared_inv s \<longleftrightarrow> sh_used s = total_held s \<and> sh_used s \<le> sh_limit s"

lemma sum_list_held_update:
  "i < length xs \<Longrightarrow>
     sum_list (map th_held (xs[i := t])) + th_held (xs ! i) = sum_list (map th_held xs) + th_held t"
  by (induction xs arbitrary: i) (auto split: nat.splits)

lemma held_le_total: "i < length xs \<Longrightarrow> th_held (xs ! i) \<le> sum_list (map th_held xs)"
  by (rule member_le_sum_list) simp_all

lemma shared_inv_step:
  assumes "budget_step s t" and "shared_inv s"
  shows "shared_inv t \<and> sh_limit t = sh_limit s"
  using assms
proof (induction rule: budget_step.induct)
  case (release i s n)
  have "th_held (sh_threads s ! i) \<le> total_held s"
    using held_le_total [OF release(1)] by (simp add: total_held_def)
  then have "n \<le> sh_used s" using release by (simp add: shared_inv_def)
  with release show ?case
    using sum_list_held_update [OF release(1), of "(sh_threads s ! i)\<lparr>th_held := th_held (sh_threads s ! i) - n\<rparr>"]
    by (auto simp: shared_inv_def total_held_def)
next
  case (swap i s n seen)
  then show ?case
    using sum_list_held_update [OF swap(1), of "(sh_threads s ! i)
       \<lparr>th_pc := Idle, th_held := th_held (sh_threads s ! i) + n\<rparr>"]
    by (auto simp: shared_inv_def total_held_def)
next
  case (load i s n)
  then show ?case
    using sum_list_held_update [OF load(1), of "(sh_threads s ! i)\<lparr>th_pc := Trying n (sh_used s)\<rparr>"]
    by (auto simp: shared_inv_def total_held_def)
next
  case (refuse i s n seen)
  then show ?case
    using sum_list_held_update [OF refuse(1), of "(sh_threads s ! i)\<lparr>th_pc := Idle\<rparr>"]
    by (auto simp: shared_inv_def total_held_def)
next
  case (retry i s n seen)
  then show ?case
    using sum_list_held_update [OF retry(1), of "(sh_threads s ! i)\<lparr>th_pc := Trying n (sh_used s)\<rparr>"]
    by (auto simp: shared_inv_def total_held_def)
qed

lemma shared_start_inv: "shared_inv (shared_start limit n)"
  by (simp add: shared_inv_def shared_start_def total_held_def map_replicate_const sum_list_replicate)

lemma shared_inv_steps:
  "budget_step\<^sup>*\<^sup>* s t \<Longrightarrow> shared_inv s \<Longrightarrow> shared_inv t \<and> sh_limit t = sh_limit s"
  by (induction rule: rtranclp_induct) (auto dest: shared_inv_step)

text \<open>C8: the recovery budget under concurrency.  However the loads, compare-and-swaps, spurious
  failures and releases of any number of threads interleave, the shared counter is the sum of the
  shares the threads hold and never exceeds the limit, so no release wraps around.\<close>

theorem budget_interleaving_safe:
  assumes "budget_step\<^sup>*\<^sup>* (shared_start limit n) s"
  shows "sh_used s = total_held s \<and> sh_used s \<le> limit"
  using shared_inv_steps [OF assms shared_start_inv] by (simp add: shared_inv_def shared_start_def)

theorem budget_interleaving_safe_witness:
  "\<exists>s. budget_step\<^sup>*\<^sup>* (shared_start 10 2) s \<and> sh_used s = 7 \<and> total_held s = 7 \<and> sh_used s \<le> 10"
proof -
  let ?s0 = "shared_start 10 2"
  let ?s1 = "\<lparr>sh_used = 0, sh_limit = 10,
    sh_threads = [\<lparr>th_pc = Trying 7 0, th_held = 0\<rparr>, \<lparr>th_pc = Idle, th_held = 0\<rparr>]\<rparr>"
  let ?s2 = "\<lparr>sh_used = 7, sh_limit = 10,
    sh_threads = [\<lparr>th_pc = Idle, th_held = 7\<rparr>, \<lparr>th_pc = Idle, th_held = 0\<rparr>]\<rparr>"
  have "budget_step ?s0 ?s1"
    using budget_step.load [of 0 ?s0 7] by (simp add: shared_start_def numeral_2_eq_2)
  moreover have "budget_step ?s1 ?s2"
    using budget_step.swap [of 0 ?s1 7 0] by (simp add: usize_max_def)
  ultimately have r: "budget_step\<^sup>*\<^sup>* ?s0 ?s2" by (meson converse_rtranclp_into_rtranclp rtranclp.rtrancl_refl)
  then show ?thesis using budget_interleaving_safe [OF r] by (intro exI [of _ ?s2]) simp
qed

end
