(* ===== verification/Fec_Decoder.thy ===== *)
theory Fec_Decoder
  imports Fec_Elimination Memory_Budget
begin

unbundle bit_operations_syntax

section \<open>The bounded erasure decoder (src/fec.rs)\<close>

text \<open>
  The state of the decoder is the window of known source symbols, oldest first, the set of their
  identifiers, the rows still under-determined and the bytes accounted for them.  The shared memory budget is
  an argument and a result of every operation that reserves or releases.

  A \<open>Bytes\<close> handle of the external crate is seen through what the code asks of it: its octets,
  whether \<open>is_unique\<close> / \<open>try_into_mut\<close> succeed, and the capacity of its storage.  The named
  hypothesis \<open>handle_ok\<close> is the documented fact that the storage holds the octets.
\<close>

record bytes_handle =
  bh_data :: bytes
  bh_unique :: bool
  bh_capacity :: usize

definition handle_ok :: "bytes_handle \<Rightarrow> bool" where
  "handle_ok h \<longleftrightarrow> length (bh_data h) \<le> bh_capacity h"

record known_source =
  ks_symbol_id :: u32
  ks_bytes :: bytes_handle
  ks_retained_bytes :: usize

record recovered_source =
  rs_symbol_id :: u32
  rs_bytes :: bytes
  rs_retained_bytes :: usize

record recovered_batch =
  rb_items :: "recovered_source list"
  rb_retained_bytes :: usize
  rb_scratch :: recovery_charge

record decoder =
  d_known :: "known_source list"
  d_known_ids :: "u32 set"
  d_rows :: "row list"
  d_max_symbols :: usize
  d_max_rows :: usize
  d_max_symbol_bytes :: usize
  d_row_bytes :: usize

datatype source_status_result = New | Duplicate

subsection \<open>Scratch reservations and batches\<close>

definition scratch_new :: "mem_budget \<Rightarrow> usize \<Rightarrow> fec_error + recovery_charge \<times> mem_budget" where
  "scratch_new b bytes = map_err (\<lambda>_. MemoryCapacity) (charge_reserve b bytes)"

definition scratch_ensure ::
  "recovery_charge \<Rightarrow> usize \<Rightarrow> mem_budget \<Rightarrow> fec_error + recovery_charge \<times> mem_budget" where
  "scratch_ensure c bytes b = map_err (\<lambda>_. MemoryCapacity) (charge_grow c bytes b)"

definition scratch_take :: "recovery_charge \<Rightarrow> usize \<Rightarrow> fec_error + recovery_charge \<times> recovery_charge" where
  "scratch_take c bytes = map_err (\<lambda>_. MemoryCapacity) (charge_split c bytes)"

text \<open>The \<open>expect\<close> of a zero-byte reservation cannot fail while the budget is within its limit
  (\<open>reserve_zero\<close>), so the empty batch leaves the budget as it is.\<close>

definition batch_empty :: "mem_budget \<Rightarrow> recovered_batch" where
  "batch_empty b =
     \<lparr>rb_items = [], rb_retained_bytes = 0, rb_scratch = \<lparr>ch_budget = mb_id b, ch_bytes = 0\<rparr>\<rparr>"

definition batch_retained :: "recovered_source list \<Rightarrow> fec_error + usize" where
  "batch_retained items =
     rbind (ok_or (checked_mul (length items) size_of_recovered_source) MemoryCapacity) (\<lambda>start.
       fold (\<lambda>s acc. rbind acc (\<lambda>bytes.
         ok_or (checked_add bytes (rs_retained_bytes s)) MemoryCapacity)) items (Inr start))"

text \<open>\<open>RecoveredBatch::new\<close> owns the scratch reservation: an error drops it.  A failing \<open>transfer\<close>
  would panic; it cannot, the reservation covers the committed bytes by then.\<close>

definition batch_new ::
  "recovered_source list \<Rightarrow> recovery_charge \<Rightarrow> usize \<Rightarrow> mem_budget
     \<Rightarrow> (fec_error + recovered_batch) \<times> mem_budget" where
  "batch_new items scratch committed b =
     (case rbind (batch_retained items) (\<lambda>retained.
        rbind (ok_or (checked_add retained committed) MemoryCapacity) (\<lambda>required.
          rbind (scratch_ensure scratch required b) (\<lambda>(scratch1, b1).
            rbind (map_err (\<lambda>_. MemoryCapacity) (charge_transfer scratch1 committed)) (\<lambda>scratch2.
              Inr (\<lparr>rb_items = items, rb_retained_bytes = retained, rb_scratch = scratch2\<rparr>, b1))))) of
        Inl e \<Rightarrow> (Inl e, charge_drop scratch b)
      | Inr (batch, b1) \<Rightarrow> (Inr batch, b1))"

definition reserve_dispatch ::
  "recovered_batch \<Rightarrow> usize \<Rightarrow> mem_budget \<Rightarrow> (fec_error + recovered_batch \<times> mem_budget)" where
  "reserve_dispatch batch bytes b =
     rbind (ok_or (checked_add (rb_retained_bytes batch) bytes) MemoryCapacity) (\<lambda>required.
       rbind (scratch_ensure (rb_scratch batch) required b) (\<lambda>(scratch, b1).
         Inr (batch\<lparr>rb_scratch := scratch\<rparr>, b1)))"

definition shrink_after_state_transition ::
  "recovered_batch \<Rightarrow> mem_budget \<Rightarrow> (recovered_batch \<times> mem_budget) option" where
  "shrink_after_state_transition batch b =
     map_option (\<lambda>(c, b'). (batch\<lparr>rb_scratch := c\<rparr>, b'))
       (charge_shrink (rb_scratch batch) (rb_retained_bytes batch) b)"

definition batch_pop :: "recovered_batch \<Rightarrow> recovered_source option \<times> recovered_batch" where
  "batch_pop batch =
     (if rb_items batch = [] then (None, batch)
      else (Some (last (rb_items batch)), batch\<lparr>rb_items := butlast (rb_items batch)\<rparr>))"

definition take_retained_charge ::
  "recovered_batch \<Rightarrow> usize \<Rightarrow> fec_error + recovery_charge \<times> recovered_batch" where
  "take_retained_charge batch bytes =
     rbind (ok_or (checked_sub (rb_retained_bytes batch) bytes) MemoryCapacity) (\<lambda>retained.
       rbind (scratch_take (rb_scratch batch) bytes) (\<lambda>(scratch, charge).
         Inr (charge, batch\<lparr>rb_scratch := scratch, rb_retained_bytes := retained\<rparr>)))"

definition take_dispatch_charge ::
  "recovered_batch \<Rightarrow> usize \<Rightarrow> fec_error + recovery_charge \<times> recovered_batch" where
  "take_dispatch_charge batch bytes =
     rbind (scratch_take (rb_scratch batch) bytes) (\<lambda>(scratch, charge).
       Inr (charge, batch\<lparr>rb_scratch := scratch\<rparr>))"

subsection \<open>The window of known symbols\<close>

definition decoder_with_budget :: "usize \<Rightarrow> usize \<Rightarrow> usize \<Rightarrow> decoder" where
  "decoder_with_budget max_symbols max_rows max_symbol_bytes =
     \<lparr>d_known = [], d_known_ids = {}, d_rows = [], d_max_symbols = max_symbols, d_max_rows = max_rows,
      d_max_symbol_bytes = max_symbol_bytes, d_row_bytes = 0\<rparr>"

definition normalize_source_storage :: "u32 \<Rightarrow> bytes_handle \<Rightarrow> known_source" where
  "normalize_source_storage symbol_id source =
     (if bh_unique source
      then \<lparr>ks_symbol_id = symbol_id, ks_bytes = source, ks_retained_bytes = bh_capacity source\<rparr>
      else \<lparr>ks_symbol_id = symbol_id,
            ks_bytes = \<lparr>bh_data = bh_data source, bh_unique = True, bh_capacity = length (bh_data source)\<rparr>,
            ks_retained_bytes = length (bh_data source)\<rparr>)"

definition known_lookup :: "decoder \<Rightarrow> u32 \<Rightarrow> known_source option" where
  "known_lookup d symbol_id = List.find (\<lambda>s. ks_symbol_id s = symbol_id) (d_known d)"

text \<open>\<open>None\<close> is the \<open>unreachable!\<close> of an index that lost its entry.\<close>

definition source_status :: "decoder \<Rightarrow> u32 \<Rightarrow> bytes \<Rightarrow> (fec_error + source_status_result) option" where
  "source_status d symbol_id source =
     (if symbol_id \<notin> d_known_ids d then Some (Inr New)
      else case known_lookup d symbol_id of
          None \<Rightarrow> None
        | Some existing \<Rightarrow>
            Some (if bh_data (ks_bytes existing) = source then Inr Duplicate else Inl ContradictoryRepair))"

definition evicted_known_bytes :: "decoder \<Rightarrow> usize" where
  "evicted_known_bytes d =
     (if d_max_symbols d \<le> length (d_known d)
      then (case d_known d of [] \<Rightarrow> 0 | s # _ \<Rightarrow> ks_retained_bytes s) else 0)"

definition known_memory_delta :: "decoder \<Rightarrow> usize \<Rightarrow> usize \<times> usize" where
  "known_memory_delta d source_bytes =
     (let evicted = evicted_known_bytes d in (source_bytes - evicted, evicted - source_bytes))"

function evict_front :: "usize \<Rightarrow> known_source list \<Rightarrow> u32 set \<Rightarrow> known_source list \<times> u32 set" where
  "evict_front max_symbols known ids =
     (if max_symbols < length known
      then evict_front max_symbols (tl known) (ids - {ks_symbol_id (hd known)})
      else (known, ids))"
  by pat_completeness auto
termination by (relation "measure (\<lambda>(_, known, _). length known)") auto

declare evict_front.simps [simp del]

definition insert_known :: "decoder \<Rightarrow> u32 \<Rightarrow> known_source \<Rightarrow> usize \<Rightarrow> mem_budget \<Rightarrow> decoder \<times> mem_budget" where
  "insert_known d symbol_id source released b =
     (let (known, ids) = evict_front (d_max_symbols d) (d_known d @ [source]) (insert symbol_id (d_known_ids d)) in
      (d\<lparr>d_known := known, d_known_ids := ids\<rparr>, release b released))"

definition try_reuse_oldest_source :: "decoder \<Rightarrow> u32 \<Rightarrow> bytes \<Rightarrow> mem_budget \<Rightarrow> (decoder \<times> mem_budget) option" where
  "try_reuse_oldest_source d symbol_id source b =
     (if length (d_known d) < d_max_symbols d then None
      else case d_known d of
          [] \<Rightarrow> None
        | oldest # rest \<Rightarrow>
            if ks_retained_bytes oldest < length source then None
            else if \<not> bh_unique (ks_bytes oldest) then None
            else let retained = bh_capacity (ks_bytes oldest) in
              Some (d\<lparr>d_known := rest @ [\<lparr>ks_symbol_id = symbol_id,
                        ks_bytes = \<lparr>bh_data = source, bh_unique = True, bh_capacity = retained\<rparr>,
                        ks_retained_bytes = retained\<rparr>],
                      d_known_ids := insert symbol_id (d_known_ids d - {ks_symbol_id oldest})\<rparr>,
                    release b (ks_retained_bytes oldest - retained)))"

definition scratch_memory_bytes :: "decoder \<Rightarrow> usize \<Rightarrow> usize \<Rightarrow> usize \<Rightarrow> fec_error + usize" where
  "scratch_memory_bytes d additional_rows additional_coefficients source_bytes =
     rbind (ok_or (checked_add (length (d_rows d)) additional_rows) MemoryCapacity) (\<lambda>rows.
     rbind (matrix_coefficient_count (d_rows d) additional_coefficients) (\<lambda>columns.
     rbind (ok_or (checked_mul columns size_of_coefficient) MemoryCapacity) (\<lambda>coefficient_bytes.
     rbind (ok_or (checked_add size_of_row (d_max_symbol_bytes d)) MemoryCapacity) (\<lambda>r1.
     rbind (ok_or (checked_add r1 coefficient_bytes) MemoryCapacity) (\<lambda>row_total.
     rbind (ok_or (checked_mul rows row_total) MemoryCapacity) (\<lambda>matrix_bytes.
     rbind (ok_or (checked_mul (d_max_symbol_bytes d) 2) MemoryCapacity) (\<lambda>s1.
     rbind (ok_or (checked_add s1 size_of_recovered_pair) MemoryCapacity) (\<lambda>s2.
     rbind (ok_or (checked_add s2 size_of_recovered_source) MemoryCapacity) (\<lambda>s3.
     rbind (ok_or (checked_mul rows s3) MemoryCapacity) (\<lambda>recovered_bytes.
     rbind (ok_or (checked_add matrix_bytes row_total) MemoryCapacity) (\<lambda>t1.
     rbind (ok_or (checked_add t1 recovered_bytes) MemoryCapacity) (\<lambda>t2.
     ok_or (checked_add t2 source_bytes) MemoryCapacity))))))))))))"

subsection \<open>Recovered symbols\<close>

fun canonical_recovered :: "(u32 \<times> bytes) list \<Rightarrow> usize \<Rightarrow> fec_error + recovered_source list" where
  "canonical_recovered [] max_symbol_bytes = Inr []"
| "canonical_recovered ((symbol_id, source) # rest) max_symbol_bytes =
     rbind (map_err (\<lambda>_. ContradictoryRepair)
             (decode_source_padded source MAX_SOURCE_RECORDS max_symbol_bytes)) (\<lambda>(decoded, consumed).
       if sd_symbol_id decoded \<noteq> symbol_id then Inl ContradictoryRepair
       else rbind (bounded_vec 1 consumed) (\<lambda>cap.
         rbind (canonical_recovered rest max_symbol_bytes) (\<lambda>items.
           Inr (\<lparr>rs_symbol_id = symbol_id, rs_bytes = take consumed source, rs_retained_bytes = cap\<rparr> # items))))"

definition validate_recovered :: "known_source list \<Rightarrow> recovered_source list \<Rightarrow> fec_error + unit" where
  "validate_recovered known recovered =
     (if list_ex (\<lambda>s. case List.find (\<lambda>k. ks_symbol_id k = rs_symbol_id s) known of
          None \<Rightarrow> False | Some k \<Rightarrow> bh_data (ks_bytes k) \<noteq> rs_bytes s) recovered
      then Inl ContradictoryRepair else Inr ())"

definition reduce_and_recover ::
  "decoder \<Rightarrow> row list \<Rightarrow> usize \<Rightarrow> usize \<Rightarrow> fec_error + row list \<times> recovered_source list \<times> usize" where
  "reduce_and_recover d rows rows_cap work_budget =
     rbind (reduce rows (d_max_symbol_bytes d) work_budget) (\<lambda>(reduced, found).
       rbind (canonical_recovered found (d_max_symbol_bytes d)) (\<lambda>recovered.
         rbind (validate_recovered (d_known d) recovered) (\<lambda>_.
           let kept = filter (\<lambda>r. 1 < length (r_coefficients r)) reduced in
           rbind (row_storage_bytes kept rows_cap) (\<lambda>next_row_bytes.
             Inr (kept, recovered, next_row_bytes)))))"

subsection \<open>Operations\<close>

fun substitute_source :: "row list \<Rightarrow> u32 \<Rightarrow> bytes \<Rightarrow> usize \<Rightarrow> usize \<Rightarrow> fec_error + row list \<times> usize" where
  "substitute_source [] symbol_id source work budget = Inr ([], work)"
| "substitute_source (r # rows) symbol_id source work budget =
     rbind (case coefficient_search symbol_id (r_coefficients r) of
              Inl _ \<Rightarrow> Inr (r, work)
            | Inr i \<Rightarrow>
                rbind (xor_scaled (r_data r) source (snd (r_coefficients r ! i)) work budget) (\<lambda>(data, work1).
                  Inr (r\<lparr>r_coefficients := take i (r_coefficients r) @ drop (Suc i) (r_coefficients r),
                         r_data := data\<rparr>, work1))) (\<lambda>(r', work1).
       rbind (substitute_source rows symbol_id source work1 budget) (\<lambda>(rows', work2).
         Inr (r' # rows', work2)))"

text \<open>What \<open>add_source\<close> computes between its reservation and its first state change.\<close>

definition add_source_matrix ::
  "decoder \<Rightarrow> u32 \<Rightarrow> bytes \<Rightarrow> usize \<Rightarrow> usize \<Rightarrow> fec_error + row list \<times> recovered_source list \<times> usize" where
  "add_source_matrix d symbol_id source work work_budget =
     rbind (clone_rows_bounded (d_rows d) 0 0 (d_max_symbol_bytes d)) (\<lambda>(rows, cap).
       rbind (substitute_source rows symbol_id source work work_budget) (\<lambda>(rows1, work1).
         reduce_and_recover d rows1 cap (work_budget - work1)))"

definition add_source_without_rows ::
  "decoder \<Rightarrow> mem_budget \<Rightarrow> u32 \<Rightarrow> bytes_handle
     \<Rightarrow> ((fec_error + recovered_batch) \<times> decoder \<times> mem_budget) option" where
  "add_source_without_rows d b symbol_id source =
     (case (if \<not> bh_unique source then try_reuse_oldest_source d symbol_id (bh_data source) b else None) of
        Some (d', b') \<Rightarrow> Some (Inr (batch_empty b'), d', b')
      | None \<Rightarrow>
          (case scratch_new b (length (bh_data source)) of
             Inl e \<Rightarrow> Some (Inl e, d, b)
           | Inr (scratch, b1) \<Rightarrow>
               let known = normalize_source_storage symbol_id source;
                   (reserved, released) = known_memory_delta d (ks_retained_bytes known) in
               case scratch_ensure scratch reserved b1 of
                 Inl e \<Rightarrow> Some (Inl e, d, charge_drop scratch b1)
               | Inr (scratch1, b2) \<Rightarrow>
                   (case charge_transfer scratch1 reserved of
                      Inl _ \<Rightarrow> None
                    | Inr scratch2 \<Rightarrow>
                        let (d', b3) = insert_known d symbol_id known released b2 in
                        Some (Inr (batch_empty b3), d', charge_drop scratch2 b3))))"

text \<open>The commit that both operations share: new rows, their accounted bytes, the batch.\<close>

definition install_rows :: "decoder \<Rightarrow> row list \<Rightarrow> usize \<Rightarrow> mem_budget \<Rightarrow> decoder \<times> mem_budget" where
  "install_rows d rows next_row_bytes b =
     (d\<lparr>d_rows := rows, d_row_bytes := next_row_bytes\<rparr>, release b (d_row_bytes d - next_row_bytes))"

definition add_source_with_rows ::
  "decoder \<Rightarrow> mem_budget \<Rightarrow> u32 \<Rightarrow> bytes_handle \<Rightarrow> usize
     \<Rightarrow> ((fec_error + recovered_batch) \<times> decoder \<times> mem_budget) option" where
  "add_source_with_rows d b symbol_id source work_budget =
     (case rbind (matrix_clone_work (d_rows d)) (\<lambda>work.
        rbind (ensure (work \<le> work_budget) WorkBudget) (\<lambda>_.
          rbind (scratch_memory_bytes d 0 0 (length (bh_data source))) (\<lambda>bytes.
            rbind (scratch_new b bytes) (\<lambda>(scratch, b1). Inr (work, scratch, b1))))) of
        Inl e \<Rightarrow> Some (Inl e, d, b)
      | Inr (work, scratch, b1) \<Rightarrow>
          (case add_source_matrix d symbol_id (bh_data source) work work_budget of
             Inl e \<Rightarrow> Some (Inl e, d, charge_drop scratch b1)
           | Inr (rows, recovered, next_row_bytes) \<Rightarrow>
               let row_growth = next_row_bytes - d_row_bytes d;
                   known = normalize_source_storage symbol_id source;
                   (source_growth, source_release) = known_memory_delta d (ks_retained_bytes known) in
               case checked_add source_growth row_growth of
                 None \<Rightarrow> Some (Inl MemoryCapacity, d, charge_drop scratch b1)
               | Some reservation \<Rightarrow>
                   (case batch_new recovered scratch reservation b1 of
                      (Inl e, b2) \<Rightarrow> Some (Inl e, d, b2)
                    | (Inr batch, b2) \<Rightarrow>
                        let (d1, b3) = install_rows d rows next_row_bytes b2;
                            (d2, b4) = insert_known d1 symbol_id known source_release b3 in
                        map_option (\<lambda>(batch', b5). (Inr batch', d2, b5))
                          (shrink_after_state_transition batch b4))))"

definition add_source ::
  "decoder \<Rightarrow> mem_budget \<Rightarrow> u32 \<Rightarrow> bytes_handle \<Rightarrow> usize
     \<Rightarrow> ((fec_error + recovered_batch) \<times> decoder \<times> mem_budget) option" where
  "add_source d b symbol_id source work_budget =
     (if bh_data source = [] \<or> d_max_symbol_bytes d < length (bh_data source)
      then Some (Inl InvalidSymbolSize, d, b)
      else case source_status d symbol_id (bh_data source) of
          None \<Rightarrow> None
        | Some (Inl e) \<Rightarrow> Some (Inl e, d, b)
        | Some (Inr Duplicate) \<Rightarrow> Some (Inr (batch_empty b), d, b)
        | Some (Inr New) \<Rightarrow>
            if d_rows d = [] then add_source_without_rows d b symbol_id source
            else add_source_with_rows d b symbol_id source work_budget)"

fun repair_equation ::
  "decoder \<Rightarrow> u32 \<Rightarrow> u32 \<Rightarrow> u32 \<Rightarrow> nat list \<Rightarrow> (u32 \<times> u8) list \<Rightarrow> bytes \<Rightarrow> usize \<Rightarrow> usize
     \<Rightarrow> fec_error + (u32 \<times> u8) list \<times> bytes \<times> usize" where
  "repair_equation d first repair_id seed [] cs data work budget = Inr (cs, data, work)"
| "repair_equation d first repair_id seed (ordinal # ordinals) cs data work budget =
     (let k = repair_id_at first ordinal; value = coefficient seed repair_id k in
      case known_lookup d k of
        Some source \<Rightarrow>
          rbind (xor_scaled data (bh_data (ks_bytes source)) value work budget) (\<lambda>(data1, work1).
            repair_equation d first repair_id seed ordinals cs data1 work1 budget)
      | None \<Rightarrow> repair_equation d first repair_id seed ordinals (cs @ [(k, value)]) data work budget)"

text \<open>\<open>Inr None\<close>: the repair adds no unknown symbol and agrees with the known ones.\<close>

definition add_repair_matrix ::
  "decoder \<Rightarrow> u32 \<Rightarrow> u16 \<Rightarrow> u32 \<Rightarrow> u32 \<Rightarrow> bytes \<Rightarrow> usize \<Rightarrow> usize
     \<Rightarrow> fec_error + (row list \<times> recovered_source list \<times> usize) option" where
  "add_repair_matrix d first span repair_id seed coded work work_budget =
     rbind (matrix_coefficient_count (d_rows d) (unat span)) (\<lambda>coefficient_capacity.
     rbind (bounded_vec size_of_coefficient coefficient_capacity) (\<lambda>ccap.
     rbind (bounded_vec 1 (d_max_symbol_bytes d)) (\<lambda>dcap.
     rbind (repair_equation d first repair_id seed [0..<unat span] [] coded work work_budget)
       (\<lambda>(cs, data, work1).
         let row = \<lparr>r_coefficients = sort_key fst cs, r_coefficients_cap = ccap, r_data = data,
                    r_data_cap = dcap\<rparr> in
         if r_coefficients row = []
         then (if list_all (\<lambda>b. b = 0) (r_data row) then Inr None else Inl ContradictoryRepair)
         else rbind (clone_rows_bounded (d_rows d) 1 (unat span) (d_max_symbol_bytes d)) (\<lambda>(rows, cap).
           rbind (reduce_and_recover d (rows @ [row]) cap (work_budget - work1)) (\<lambda>res.
             Inr (Some res)))))))"

definition add_repair ::
  "decoder \<Rightarrow> mem_budget \<Rightarrow> u32 \<Rightarrow> u16 \<Rightarrow> u32 \<Rightarrow> u32 \<Rightarrow> bytes \<Rightarrow> usize
     \<Rightarrow> ((fec_error + recovered_batch) \<times> decoder \<times> mem_budget) option" where
  "add_repair d b first span repair_id seed coded work_budget =
     (if span = 0 \<or> MAX_REPAIR_SPAN < span then Some (Inl InvalidSpan, d, b)
      else if coded = [] \<or> d_max_symbol_bytes d < length coded then Some (Inl InvalidSymbolSize, d, b)
      else if length (d_rows d) = d_max_rows d then Some (Inl RowCapacity, d, b)
      else case rbind (matrix_clone_work (d_rows d)) (\<lambda>work0.
          rbind (ok_or (checked_add work0 (length coded)) WorkBudget) (\<lambda>work1.
            rbind (ok_or (checked_add work1 (unat span)) WorkBudget) (\<lambda>work.
              rbind (ensure (work \<le> work_budget) WorkBudget) (\<lambda>_.
                rbind (scratch_memory_bytes d 1 (unat span) 0) (\<lambda>bytes.
                  rbind (scratch_new b bytes) (\<lambda>(scratch, b1). Inr (work, scratch, b1))))))) of
          Inl e \<Rightarrow> Some (Inl e, d, b)
        | Inr (work, scratch, b1) \<Rightarrow>
            (case add_repair_matrix d first span repair_id seed coded work work_budget of
               Inl e \<Rightarrow> Some (Inl e, d, charge_drop scratch b1)
             | Inr None \<Rightarrow> Some (Inr (batch_empty b1), d, charge_drop scratch b1)
             | Inr (Some (rows, recovered, next_row_bytes)) \<Rightarrow>
                 (case batch_new recovered scratch (next_row_bytes - d_row_bytes d) b1 of
                    (Inl e, b2) \<Rightarrow> Some (Inl e, d, b2)
                  | (Inr batch, b2) \<Rightarrow>
                      let (d1, b3) = install_rows d rows next_row_bytes b2 in
                      map_option (\<lambda>(batch', b4). (Inr batch', d1, b4))
                        (shrink_after_state_transition batch b3))))"

definition commit_recovered_precharged ::
  "decoder \<Rightarrow> mem_budget \<Rightarrow> u32 \<Rightarrow> bytes_handle \<Rightarrow> recovery_charge
     \<Rightarrow> (fec_error + unit) \<times> decoder \<times> mem_budget" where
  "commit_recovered_precharged d b symbol_id source charge =
     (if bh_data source = [] \<or> d_max_symbol_bytes d < length (bh_data source)
      then (Inl InvalidSymbolSize, d, drop_foreign charge b)
      else if \<not> belongs_to charge b \<or> ch_bytes charge < length (bh_data source)
      then (Inl MemoryCapacity, d, drop_foreign charge b)
      else case known_lookup d symbol_id of
          Some existing \<Rightarrow>
            (if bh_data (ks_bytes existing) = bh_data source then Inr () else Inl ContradictoryRepair,
             d, charge_drop charge b)
        | None \<Rightarrow>
            let known = normalize_source_storage symbol_id source in
            case charge_grow charge (ks_retained_bytes known) b of
              Inl _ \<Rightarrow> (Inl MemoryCapacity, d, charge_drop charge b)
            | Inr (charge1, b1) \<Rightarrow>
                (case charge_transfer charge1 (ks_retained_bytes known) of
                   Inl _ \<Rightarrow> (Inl MemoryCapacity, d, charge_drop charge1 b1)
                 | Inr charge2 \<Rightarrow>
                     let (d', b2) = insert_known d symbol_id known (evicted_known_bytes d) b1 in
                     (Inr (), d', charge_drop charge2 b2)))"

definition decoder_drop :: "decoder \<Rightarrow> mem_budget \<Rightarrow> mem_budget" where
  "decoder_drop d b = release b (sum_list (map ks_retained_bytes (d_known d)) + d_row_bytes d)"

end
