(* ===== verification/Fec_Accounting.thy ===== *)
theory Fec_Accounting
  imports Fec_Decoder
begin

section \<open>The memory and error discipline of the decoder\<close>

text \<open>
  The decoder reserves from the shared budget before it works and commits only after every check
  has passed.  This theory proves both halves: its memory plus the charge of the returned batch is
  what it took from the budget, and an operation that fails leaves no trace.
\<close>

subsection \<open>Memory accounting\<close>

lemma acc_scratch_new:
  "acc b0 b n \<Longrightarrow> scratch_new b k = Inr (c, b') \<Longrightarrow> acc b0 b' (n + k) \<and> ch_bytes c = k \<and> ch_budget c = mb_id b0"
  by (auto simp: scratch_new_def map_err_Inr_iff charge_reserve_Inr acc_def try_reserve_Some holds_def)

lemma acc_ensure:
  assumes "acc b0 b (n + ch_bytes c)" and "scratch_ensure c k b = Inr (c', b')"
  shows "acc b0 b' (n + ch_bytes c') \<and> ch_bytes c' = max k (ch_bytes c) \<and> ch_budget c' = ch_budget c"
proof -
  have "charge_grow c k b = Inr (c', b')" using assms(2) by (simp add: scratch_ensure_def map_err_Inr_iff)
  then show ?thesis by (rule acc_grow [OF assms(1)])
qed

lemma acc_batch_new:
  assumes a: "acc b0 b (n + ch_bytes scratch)" and r: "batch_new items scratch committed b = (res, b')"
  shows "case res of
      Inl _ \<Rightarrow> acc b0 b' n
    | Inr batch \<Rightarrow> acc b0 b' (n + committed + ch_bytes (rb_scratch batch))
        \<and> rb_retained_bytes batch \<le> ch_bytes (rb_scratch batch) \<and> rb_items batch = items"
proof (cases res)
  case (Inl e)
  then have "b' = charge_drop scratch b" using r by (auto simp: batch_new_def split: sum.splits)
  then show ?thesis using Inl acc_release [OF a] by (simp add: charge_drop_def)
next
  case (Inr batch)
  then obtain retained s1 s2 where e: "scratch_ensure scratch (retained + committed) b = Inr (s1, b')"
      and t: "charge_transfer s1 committed = Inr s2"
      and batch: "batch = \<lparr>rb_items = items, rb_retained_bytes = retained, rb_scratch = s2\<rparr>"
    using r by (auto simp: batch_new_def rbind_Inr_iff ok_or_Inr_iff map_err_Inr_iff split: sum.splits)
  have s1: "acc b0 b' (n + ch_bytes s1)" "ch_bytes s1 = max (retained + committed) (ch_bytes scratch)"
    using acc_ensure [OF a e] by auto
  have s2: "committed \<le> ch_bytes s1" "s2 = s1\<lparr>ch_bytes := ch_bytes s1 - committed\<rparr>"
    using t by (simp_all add: charge_transfer_Inr)
  have "n + ch_bytes s1 = n + committed + ch_bytes s2" using s2 by simp
  with s1 s2 show ?thesis using Inr batch by auto
qed

lemma shrink_total:
  assumes "rb_retained_bytes batch \<le> ch_bytes (rb_scratch batch)" and "acc b0 b (n + ch_bytes (rb_scratch batch))"
  obtains batch' b' where "shrink_after_state_transition batch b = Some (batch', b')"
    and "acc b0 b' (n + ch_bytes (rb_scratch batch'))" and "rb_items batch' = rb_items batch"
    and "ch_bytes (rb_scratch batch') = rb_retained_bytes batch'"
proof -
  let ?c = "rb_scratch batch" and ?k = "rb_retained_bytes batch"
  have "acc b0 b (n + ?k + (ch_bytes ?c - ?k))" using assms by simp
  from acc_release [OF this] show ?thesis
    using assms(1) that
    by (simp add: shrink_after_state_transition_def charge_shrink_def)
qed

definition dec_mem :: "decoder \<Rightarrow> nat" where
  "dec_mem d = sum_list (map ks_retained_bytes (d_known d)) + d_row_bytes d"

definition known_ok :: "known_source \<Rightarrow> bool" where
  "known_ok s \<longleftrightarrow> bh_unique (ks_bytes s) \<and> handle_ok (ks_bytes s) \<and> ks_retained_bytes s = bh_capacity (ks_bytes s)"

definition dec_inv :: "decoder \<Rightarrow> bool" where
  "dec_inv d \<longleftrightarrow> 0 < d_max_symbols d \<and> length (d_known d) \<le> d_max_symbols d
     \<and> d_known_ids d = ks_symbol_id ` set (d_known d) \<and> distinct (map ks_symbol_id (d_known d))
     \<and> list_all known_ok (d_known d)
     \<and> list_all (\<lambda>s. length (bh_data (ks_bytes s)) \<le> d_max_symbol_bytes d) (d_known d)
     \<and> length (d_rows d) \<le> d_max_rows d"

lemma known_ok_normalize: "handle_ok source \<Longrightarrow> known_ok (normalize_source_storage k source)"
  by (simp add: known_ok_def normalize_source_storage_def handle_ok_def)

lemma normalize_fields [simp]:
  "ks_symbol_id (normalize_source_storage k source) = k"
  "bh_data (ks_bytes (normalize_source_storage k source)) = bh_data source"
  by (simp_all add: normalize_source_storage_def)

lemma evict_front_le: "length known \<le> n \<Longrightarrow> evict_front n known ids = (known, ids)"
  by (simp add: evict_front.simps)

lemma evict_front_Suc:
  "length known = Suc n \<Longrightarrow> evict_front n known ids = (tl known, ids - {ks_symbol_id (hd known)})"
  by (subst evict_front.simps) (simp add: evict_front_le)

lemma insert_known_spec:
  assumes inv: "dec_inv d" and fresh: "k \<notin> d_known_ids d" and ks: "ks_symbol_id s = k" "known_ok s"
    and len: "length (bh_data (ks_bytes s)) \<le> d_max_symbol_bytes d"
    and r: "insert_known d k s released b = (d', b')"
  shows "dec_inv d'" and "b' = release b released"
    and "dec_mem d' + evicted_known_bytes d = dec_mem d + ks_retained_bytes s"
    and "d_known d' = (if length (d_known d) < d_max_symbols d then d_known d else tl (d_known d)) @ [s]"
    and "d_rows d' = d_rows d" "d_row_bytes d' = d_row_bytes d" "d_max_symbol_bytes d' = d_max_symbol_bytes d"
    "d_max_rows d' = d_max_rows d"
proof -
  have known: "d_known d' = (if length (d_known d) < d_max_symbols d then d_known d else tl (d_known d)) @ [s]
      \<and> d_known_ids d' = ks_symbol_id ` set (d_known d')"
  proof (cases "length (d_known d) < d_max_symbols d")
    case True
    then show ?thesis
      using r inv ks by (auto simp: insert_known_def evict_front_le dec_inv_def)
  next
    case False
    then have l: "length (d_known d @ [s]) = Suc (d_max_symbols d)" using inv by (simp add: dec_inv_def)
    obtain o' rest where o: "d_known d = o' # rest"
      using False inv by (cases "d_known d") (auto simp: dec_inv_def)
    have "ks_symbol_id o' \<notin> ks_symbol_id ` set rest" "ks_symbol_id o' \<noteq> k"
      using inv o fresh by (auto simp: dec_inv_def)
    then show ?thesis
      using r inv ks False o unfolding insert_known_def evict_front_Suc [OF l]
      by (auto simp: dec_inv_def) (metis image_eqI)
  qed
  show "d_known d' = (if length (d_known d) < d_max_symbols d then d_known d else tl (d_known d)) @ [s]"
    using known by blast
  show b: "b' = release b released" and "d_rows d' = d_rows d" and rb: "d_row_bytes d' = d_row_bytes d"
    "d_max_symbol_bytes d' = d_max_symbol_bytes d" "d_max_rows d' = d_max_rows d"
    using r by (auto simp: insert_known_def split: prod.splits)
  have ms: "d_max_symbols d' = d_max_symbols d" using r by (auto simp: insert_known_def split: prod.splits)
  have kf: "k \<notin> ks_symbol_id ` set (d_known d)" using inv fresh by (simp add: dec_inv_def)
  show "dec_inv d'"
    using inv known ks len kf ms \<open>d_rows d' = d_rows d\<close> \<open>d_max_rows d' = d_max_rows d\<close>
      \<open>d_max_symbol_bytes d' = d_max_symbol_bytes d\<close>
    by (cases "d_known d") (auto simp: dec_inv_def)
  show "dec_mem d' + evicted_known_bytes d = dec_mem d + ks_retained_bytes s"
    using known rb inv by (cases "d_known d") (auto simp: dec_mem_def evicted_known_bytes_def dec_inv_def)
qed

lemma try_reuse_spec:
  assumes inv: "dec_inv d" and fresh: "k \<notin> d_known_ids d" and len: "length src \<le> d_max_symbol_bytes d"
    and r: "try_reuse_oldest_source d k src b = Some (d', b')"
  shows "dec_inv d'" and "b' = b" and "dec_mem d' = dec_mem d" and "d_rows d' = d_rows d"
    and "\<exists>s. ks_symbol_id s = k \<and> bh_data (ks_bytes s) = src \<and> d_known d' = tl (d_known d) @ [s]"
    and "d_max_symbol_bytes d' = d_max_symbol_bytes d"
proof -
  obtain o' rest where o: "d_known d = o' # rest" and big: "length src \<le> ks_retained_bytes o'"
      and full: "d_max_symbols d \<le> length (d_known d)"
      and d': "d' = d\<lparr>d_known := rest @ [\<lparr>ks_symbol_id = k, ks_bytes = \<lparr>bh_data = src, bh_unique = True,
            bh_capacity = bh_capacity (ks_bytes o')\<rparr>, ks_retained_bytes = bh_capacity (ks_bytes o')\<rparr>],
          d_known_ids := insert k (d_known_ids d - {ks_symbol_id o'})\<rparr>"
      and b': "b' = release b (ks_retained_bytes o' - bh_capacity (ks_bytes o'))"
    using r by (auto simp: try_reuse_oldest_source_def Let_def not_less split: if_splits list.splits)
  have ok: "ks_retained_bytes o' = bh_capacity (ks_bytes o')" using inv o by (simp add: dec_inv_def known_ok_def)
  show "b' = b" using b' ok by simp
  have kf: "k \<notin> ks_symbol_id ` set (d_known d)" using inv fresh by (simp add: dec_inv_def)
  show "dec_inv d'"
    using inv o d' big ok kf len by (auto simp: dec_inv_def known_ok_def handle_ok_def)
  show "dec_mem d' = dec_mem d" using d' o ok by (simp add: dec_mem_def)
  show "d_rows d' = d_rows d" "d_max_symbol_bytes d' = d_max_symbol_bytes d" using d' by simp_all
  show "\<exists>s. ks_symbol_id s = k \<and> bh_data (ks_bytes s) = src \<and> d_known d' = tl (d_known d) @ [s]"
    using d' o by (auto intro!: exI)
qed
subsection \<open>Errors change nothing and every byte is accounted for\<close>

definition op_safe ::
  "decoder \<Rightarrow> mem_budget \<Rightarrow> nat \<Rightarrow> ((fec_error + recovered_batch) \<times> decoder \<times> mem_budget) option \<Rightarrow> bool" where
  "op_safe d b n r \<longleftrightarrow> (\<exists>res d' b'. r = Some (res, d', b') \<and> dec_inv d' \<and>
     (case res of Inl _ \<Rightarrow> d' = d \<and> b' = b
      | Inr batch \<Rightarrow> acc b b' (n + dec_mem d' + ch_bytes (rb_scratch batch))))"

lemma op_safe_error: "dec_inv d \<Longrightarrow> op_safe d b n (Some (Inl e, d, b))"
  by (simp add: op_safe_def)

lemma op_safe_dropped:
  assumes "dec_inv d" and "holds b m" and "acc b b1 (m + ch_bytes c)"
  shows "op_safe d b n (Some (Inl e, d, charge_drop c b1))"
  using assms acc_back [OF assms(2) acc_release [OF assms(3)]] by (simp add: op_safe_def charge_drop_def)

lemma source_status_New:
  "dec_inv d \<Longrightarrow> source_status d k src = Some (Inr New) \<longleftrightarrow> k \<notin> d_known_ids d"
  by (auto simp: source_status_def split: option.splits if_splits)

lemma known_lookup_iff:
  "dec_inv d \<Longrightarrow> known_lookup d k = None \<longleftrightarrow> k \<notin> d_known_ids d"
  by (auto simp: known_lookup_def find_None_iff dec_inv_def)

lemma source_status_total: "dec_inv d \<Longrightarrow> source_status d k src \<noteq> None"
  using known_lookup_iff by (auto simp: source_status_def split: option.splits)

lemma reduce_loop_length: "reduce_loop rows p m w b = Inr rows' \<Longrightarrow> length rows' = length rows"
proof (induction rows p m w b rule: reduce_loop.induct)
  case (1 rows p m w b)
  show ?case
  proof (cases "length rows \<le> p")
    case True
    then show ?thesis using 1(2) by (simp add: reduce_loop.simps [of rows])
  next
    case False
    then consider "rows' = rows"
      | rs w' where "reduce_round rows p m w b = Inr (Some (rs, w'))" "reduce_loop rs (Suc p) m w' b = Inr rows'"
      using 1(2) by (auto simp: reduce_loop.simps [of rows] split: sum.splits option.splits)
    then show ?thesis
    proof cases
      case (2 rs w')
      then show ?thesis using 1(1) [OF False 2(1) refl refl 2(2)] reduce_round_length by fastforce
    qed simp
  qed
qed

lemma reduce_and_recover_length:
  assumes "reduce_and_recover d rows cap w = Inr (kept, recovered, next)"
  shows "length kept \<le> length rows"
proof -
  obtain reduced found where "reduce rows (d_max_symbol_bytes d) w = Inr (reduced, found)"
      and k: "kept = filter (\<lambda>r. 1 < length (r_coefficients r)) reduced"
    using assms by (auto simp: reduce_and_recover_def rbind_Inr_iff Let_def)
  then have "length reduced = length rows"
    by (auto simp: reduce_def rbind_Inr_iff Let_def split: if_splits dest: reduce_loop_length)
  then show ?thesis using k by (metis length_filter_le)
qed

lemma substitute_source_length:
  "substitute_source rows k src w b = Inr (rows', w') \<Longrightarrow> length rows' = length rows"
  by (induction rows k src w b arbitrary: rows' w' rule: substitute_source.induct) (auto simp: rbind_Inr_iff)

lemma known_delta_balance:
  "known_memory_delta d s = (grow, rel) \<Longrightarrow> s + rel = evicted_known_bytes d + grow"
  by (auto simp: known_memory_delta_def Let_def)

lemma add_source_without_rows_safe:
  assumes inv: "dec_inv d" and h: "holds b (n + dec_mem d)" and ok: "handle_ok source"
    and fresh: "k \<notin> d_known_ids d" and len: "length (bh_data source) \<le> d_max_symbol_bytes d"
  shows "op_safe d b n (add_source_without_rows d b k source)"
proof (cases "if \<not> bh_unique source then try_reuse_oldest_source d k (bh_data source) b else None")
  case (Some p)
  obtain d' b' where p: "p = (d', b')" by (cases p)
  have "try_reuse_oldest_source d k (bh_data source) b = Some (d', b')"
    using Some p by (auto split: if_splits)
  note t = try_reuse_spec [OF inv fresh len this]
  show ?thesis
    unfolding add_source_without_rows_def Some
    using t h by (simp add: p op_safe_def batch_empty_def acc_refl)
next
  case None
  show ?thesis
  proof (cases "scratch_new b (length (bh_data source))")
    case (Inl e)
    then show ?thesis unfolding add_source_without_rows_def None using inv by (simp add: op_safe_error)
  next
    case (Inr p)
    obtain c b1 where c: "scratch_new b (length (bh_data source)) = Inr (c, b1)" using Inr by (cases p) auto
    have a1: "acc b b1 (n + dec_mem d + ch_bytes c)"
      using acc_scratch_new [OF acc_refl [OF h] c] by simp
    define ks where "ks = normalize_source_storage k source"
    obtain grow rel where g: "known_memory_delta d (ks_retained_bytes ks) = (grow, rel)" by fastforce
    show ?thesis
    proof (cases "scratch_ensure c grow b1")
      case (Inl e)
      then show ?thesis
        unfolding add_source_without_rows_def None
        using op_safe_dropped [OF inv h a1] by (simp add: c ks_def [symmetric] g)
    next
      case (Inr q)
      then obtain c2 b2 where e: "scratch_ensure c grow b1 = Inr (c2, b2)" by (cases q) auto
      have a2: "acc b b2 (n + dec_mem d + ch_bytes c2)" "ch_bytes c2 = max grow (ch_bytes c)"
        using acc_ensure [OF a1 e] by auto
      obtain d' b3 where i: "insert_known d k ks rel b2 = (d', b3)" by fastforce
      have kk: "ks_symbol_id ks = k" "known_ok ks" "length (bh_data (ks_bytes ks)) \<le> d_max_symbol_bytes d"
        using ok len by (simp_all add: ks_def known_ok_normalize)
      note s = insert_known_spec [OF inv fresh kk i]
      have "n + dec_mem d + ch_bytes c2 = n + dec_mem d' + (ch_bytes c2 - grow) + rel"
        using s(3) known_delta_balance [OF g] a2(2) by simp
      then have "acc b b3 (n + dec_mem d' + (ch_bytes c2 - grow))"
        unfolding s(2) by (rule acc_release_eq [OF a2(1)])
      then have "acc b (release b3 (ch_bytes c2 - grow)) (n + dec_mem d')" by (rule acc_release)
      then show ?thesis
        unfolding add_source_without_rows_def None
        using a2(2) s(1)
        by (simp add: c ks_def [symmetric] g e charge_transfer_def i op_safe_def batch_empty_def charge_drop_def)
    qed
  qed
qed

lemma commit_rows_safe:
  assumes a: "acc b b1 (n + dec_mem d + ch_bytes c)" and bn: "batch_new items c committed b1 = (Inr batch, b2)"
    and mem: "dec_mem d' + rel1 + rel2 = dec_mem d + committed"
  shows "\<exists>batch' b'. shrink_after_state_transition batch (release (release b2 rel1) rel2) = Some (batch', b')
    \<and> acc b b' (n + dec_mem d' + ch_bytes (rb_scratch batch')) \<and> rb_items batch' = items"
proof -
  have n: "acc b b2 (n + dec_mem d + committed + ch_bytes (rb_scratch batch))"
      "rb_retained_bytes batch \<le> ch_bytes (rb_scratch batch)" "rb_items batch = items"
    using acc_batch_new [OF a bn] by simp_all
  have "acc b (release b2 rel1) (n + dec_mem d' + ch_bytes (rb_scratch batch) + rel2)"
    by (rule acc_release_eq [OF n(1)]) (use mem in simp)
  then have "acc b (release (release b2 rel1) rel2) (n + dec_mem d' + ch_bytes (rb_scratch batch))"
    by (rule acc_release)
  from shrink_total [OF n(2) this] n(3) show ?thesis by metis
qed

lemma row_growth_balance: "(nxt :: nat) + (old - nxt) = old + (nxt - old)"
  by simp

lemma add_source_with_rows_safe:
  assumes inv: "dec_inv d" and h: "holds b (n + dec_mem d)" and ok: "handle_ok source"
    and fresh: "k \<notin> d_known_ids d" and len: "length (bh_data source) \<le> d_max_symbol_bytes d"
  shows "op_safe d b n (add_source_with_rows d b k source wb)"
proof (cases "rbind (matrix_clone_work (d_rows d)) (\<lambda>work. rbind (ensure (work \<le> wb) WorkBudget) (\<lambda>_.
          rbind (scratch_memory_bytes d 0 0 (length (bh_data source))) (\<lambda>bytes.
            rbind (scratch_new b bytes) (\<lambda>(scratch, b1). Inr (work, scratch, b1)))))")
  case (Inl e)
  then show ?thesis unfolding add_source_with_rows_def using inv by (simp add: op_safe_error)
next
  case (Inr p)
  then obtain work c b1 bytes where p: "p = (work, c, b1)" and c: "scratch_new b bytes = Inr (c, b1)"
    by (auto simp: rbind_Inr_iff)
  have a1: "acc b b1 (n + dec_mem d + ch_bytes c)" using acc_scratch_new [OF acc_refl [OF h] c] by simp
  show ?thesis
  proof (cases "add_source_matrix d k (bh_data source) work wb")
    case (Inl e)
    then show ?thesis
      unfolding add_source_with_rows_def Inr using op_safe_dropped [OF inv h a1] by (simp add: p)
  next
    case m: (Inr q)
    obtain rows recovered nxt where q: "q = (rows, recovered, nxt)" by (cases q)
    have rl: "length rows \<le> length (d_rows d)"
      using m unfolding q
      by (auto simp: add_source_matrix_def rbind_Inr_iff clone_rows_bounded_Inr
          dest!: reduce_and_recover_length substitute_source_length)
    define ks where "ks = normalize_source_storage k source"
    obtain grow rel where g: "known_memory_delta d (ks_retained_bytes ks) = (grow, rel)" by fastforce
    show ?thesis
    proof (cases "checked_add grow (nxt - d_row_bytes d)")
      case None
      then show ?thesis
        unfolding add_source_with_rows_def Inr
        using op_safe_dropped [OF inv h a1] by (simp add: p m q ks_def [symmetric] g)
    next
      case (Some reservation)
      then have res: "reservation = grow + (nxt - d_row_bytes d)" by simp
      obtain r b2 where bn: "batch_new recovered c reservation b1 = (r, b2)" by fastforce
      show ?thesis
      proof (cases r)
        case (Inl e)
        have "b2 = b" using acc_back [OF h] acc_batch_new [OF a1 bn] Inl by simp
        then show ?thesis
          unfolding add_source_with_rows_def Inr
          using inv Inl by (simp add: p m q ks_def [symmetric] g Some bn op_safe_error)
      next
        case batch: (Inr batch)
        define d1 where "d1 = d\<lparr>d_rows := rows, d_row_bytes := nxt\<rparr>"
        have inv1: "dec_inv d1" using inv rl by (simp add: d1_def dec_inv_def)
        have mem1: "dec_mem d1 + d_row_bytes d = dec_mem d + nxt" by (simp add: d1_def dec_mem_def)
        have fresh1: "k \<notin> d_known_ids d1" using fresh by (simp add: d1_def)
        have kk: "ks_symbol_id ks = k" "known_ok ks" "length (bh_data (ks_bytes ks)) \<le> d_max_symbol_bytes d1"
          using ok len by (simp_all add: ks_def known_ok_normalize d1_def)
        have ev: "evicted_known_bytes d1 = evicted_known_bytes d" by (simp add: d1_def evicted_known_bytes_def)
        obtain d2 b4 where i: "insert_known d1 k ks rel (release b2 (d_row_bytes d - nxt)) = (d2, b4)" by fastforce
        note s = insert_known_spec [OF inv1 fresh1 kk i]
        have "dec_mem d2 + (d_row_bytes d - nxt) + rel = dec_mem d + reservation"
          using s(3) mem1 ev known_delta_balance [OF g] res row_growth_balance [of nxt "d_row_bytes d"] by simp
        from commit_rows_safe [OF a1 bn [unfolded batch] this] obtain batch' b' where
            sh: "shrink_after_state_transition batch b4 = Some (batch', b')"
              "acc b b' (n + dec_mem d2 + ch_bytes (rb_scratch batch'))"
          unfolding s(2) by blast
        then show ?thesis
          unfolding add_source_with_rows_def Inr
          using s(1) by (simp add: p m q ks_def [symmetric] g Some bn batch install_rows_def d1_def [symmetric] i op_safe_def)
      qed
    qed
  qed
qed

lemma add_source_safe:
  assumes inv: "dec_inv d" and h: "holds b (n + dec_mem d)" and ok: "handle_ok source"
  shows "op_safe d b n (add_source d b k source wb)"
proof (cases "bh_data source = [] \<or> d_max_symbol_bytes d < length (bh_data source)")
  case True
  then show ?thesis using inv by (simp add: add_source_def op_safe_error)
next
  case False
  then have len: "length (bh_data source) \<le> d_max_symbol_bytes d" by simp
  obtain st where st: "source_status d k (bh_data source) = Some st"
    using source_status_total [OF inv] by blast
  consider e where "st = Inl e" | "st = Inr Duplicate" | "st = Inr New"
    by (metis source_status_result.exhaust sum.exhaust)
  then show ?thesis
  proof cases
    case 1
    then show ?thesis using False inv by (simp add: add_source_def st op_safe_error)
  next
    case 2
    then show ?thesis
      using False inv h by (simp add: add_source_def st op_safe_def batch_empty_def acc_refl)
  next
    case 3
    then have "k \<notin> d_known_ids d" using st source_status_New [OF inv] by auto
    then show ?thesis
      using False 3 add_source_without_rows_safe [OF inv h ok _ len] add_source_with_rows_safe [OF inv h ok _ len]
      by (simp add: add_source_def st)
  qed
qed

lemma add_repair_safe:
  assumes inv: "dec_inv d" and h: "holds b (n + dec_mem d)"
  shows "op_safe d b n (add_repair d b first span repair_id seed coded wb)"
proof (cases "span = 0 \<or> MAX_REPAIR_SPAN < span \<or> coded = [] \<or> d_max_symbol_bytes d < length coded
    \<or> length (d_rows d) = d_max_rows d")
  case True
  then show ?thesis using inv by (auto simp: add_repair_def op_safe_error)
next
  case False
  show ?thesis
  proof (cases "rbind (matrix_clone_work (d_rows d)) (\<lambda>work0.
          rbind (ok_or (checked_add work0 (length coded)) WorkBudget) (\<lambda>work1.
            rbind (ok_or (checked_add work1 (unat span)) WorkBudget) (\<lambda>work.
              rbind (ensure (work \<le> wb) WorkBudget) (\<lambda>_.
                rbind (scratch_memory_bytes d 1 (unat span) 0) (\<lambda>bytes.
                  rbind (scratch_new b bytes) (\<lambda>(scratch, b1). Inr (work, scratch, b1)))))))")
    case (Inl e)
    then show ?thesis using False inv by (simp add: add_repair_def op_safe_error)
  next
    case (Inr p)
    then obtain work c b1 bytes where p: "p = (work, c, b1)" and c: "scratch_new b bytes = Inr (c, b1)"
      by (auto simp: rbind_Inr_iff)
    have a1: "acc b b1 (n + dec_mem d + ch_bytes c)" using acc_scratch_new [OF acc_refl [OF h] c] by simp
    have eq: "add_repair d b first span repair_id seed coded wb =
        (case add_repair_matrix d first span repair_id seed coded work wb of
               Inl e \<Rightarrow> Some (Inl e, d, charge_drop c b1)
             | Inr None \<Rightarrow> Some (Inr (batch_empty b1), d, charge_drop c b1)
             | Inr (Some (rows, recovered, nxt)) \<Rightarrow>
                 (case batch_new recovered c (nxt - d_row_bytes d) b1 of
                    (Inl e, b2) \<Rightarrow> Some (Inl e, d, b2)
                  | (Inr batch, b2) \<Rightarrow>
                      let (d1, b3) = install_rows d rows nxt b2 in
                      map_option (\<lambda>(batch', b4). (Inr batch', d1, b4))
                        (shrink_after_state_transition batch b3)))"
      using False unfolding add_repair_def Inr p by simp
    consider e where "add_repair_matrix d first span repair_id seed coded work wb = Inl e"
      | "add_repair_matrix d first span repair_id seed coded work wb = Inr None"
      | rows recovered nxt where
          "add_repair_matrix d first span repair_id seed coded work wb = Inr (Some (rows, recovered, nxt))"
      by (metis option.exhaust prod.exhaust sum.exhaust)
    then show ?thesis
    proof cases
      case 1
      then show ?thesis unfolding eq using op_safe_dropped [OF inv h a1] by simp
    next
      case 2
      have "charge_drop c b1 = b" using acc_back [OF h acc_release [OF a1]] by (simp add: charge_drop_def)
      then show ?thesis unfolding eq using 2 inv h by (simp add: op_safe_def batch_empty_def acc_refl)
    next
      case (3 rows recovered nxt)
      have "length rows \<le> Suc (length (d_rows d))"
        using 3 by (auto simp: add_repair_matrix_def rbind_Inr_iff Let_def clone_rows_bounded_Inr
            split: if_splits dest!: reduce_and_recover_length)
      moreover have "length (d_rows d) \<noteq> d_max_rows d" "length (d_rows d) \<le> d_max_rows d"
        using False inv by (auto simp: dec_inv_def)
      ultimately have rl: "length rows \<le> d_max_rows d" by simp
      obtain r b2 where bn: "batch_new recovered c (nxt - d_row_bytes d) b1 = (r, b2)" by fastforce
      show ?thesis
      proof (cases r)
        case (Inl e)
        have "b2 = b" using acc_back [OF h] acc_batch_new [OF a1 bn] Inl by simp
        then show ?thesis unfolding eq using inv Inl by (simp add: 3 bn op_safe_error)
      next
        case batch: (Inr batch)
        define d1 where "d1 = d\<lparr>d_rows := rows, d_row_bytes := nxt\<rparr>"
        have inv1: "dec_inv d1" using inv rl by (simp add: d1_def dec_inv_def)
        have "dec_mem d1 + (d_row_bytes d - nxt) + 0 = dec_mem d + (nxt - d_row_bytes d)"
          by (simp add: d1_def dec_mem_def)
        from commit_rows_safe [OF a1 bn [unfolded batch] this] obtain batch' b' where
            "shrink_after_state_transition batch (release b2 (d_row_bytes d - nxt)) = Some (batch', b')"
              "acc b b' (n + dec_mem d1 + ch_bytes (rb_scratch batch'))"
          by auto
        then show ?thesis
          unfolding eq using inv1 by (simp add: 3 bn batch install_rows_def d1_def [symmetric] op_safe_def)
      qed
    qed
  qed
qed
lemma commit_recovered_safe:
  assumes inv: "dec_inv d" and h: "holds b (n + dec_mem d + ch_bytes charge)" and ok: "handle_ok source"
    and own: "belongs_to charge b"
    and r: "commit_recovered_precharged d b k source charge = (res, d', b')"
  shows "dec_inv d' \<and> acc b b' (n + dec_mem d') \<and> (case res of Inl _ \<Rightarrow> d' = d | Inr _ \<Rightarrow> True)"
proof -
  have dropped: "acc b (charge_drop charge b) (n + dec_mem d)"
    using acc_release [OF acc_refl [OF h]] by (simp add: charge_drop_def)
  show ?thesis
  proof (cases "bh_data source = [] \<or> d_max_symbol_bytes d < length (bh_data source)
      \<or> ch_bytes charge < length (bh_data source)")
    case True
    then show ?thesis
      using r own inv dropped by (auto simp: commit_recovered_precharged_def drop_foreign_def split: if_splits)
  next
    case F: False
    show ?thesis
    proof (cases "known_lookup d k")
      case (Some s)
      then show ?thesis
        using r F own inv dropped by (auto simp: commit_recovered_precharged_def split: if_splits)
    next
      case None
      then have fresh: "k \<notin> d_known_ids d" using known_lookup_iff [OF inv] by simp
      define ks where "ks = normalize_source_storage k source"
      show ?thesis
      proof (cases "charge_grow charge (ks_retained_bytes ks) b")
        case (Inl e)
        then show ?thesis
          using r F own inv dropped None by (auto simp: commit_recovered_precharged_def ks_def [symmetric])
      next
        case (Inr p)
        then obtain c1 b1 where g: "charge_grow charge (ks_retained_bytes ks) b = Inr (c1, b1)" by (cases p) auto
        have a1: "acc b b1 (n + dec_mem d + ch_bytes c1)" "ch_bytes c1 = max (ks_retained_bytes ks) (ch_bytes charge)"
          using acc_grow [OF acc_refl [OF h] g] by auto
        obtain d2 b2 where i: "insert_known d k ks (evicted_known_bytes d) b1 = (d2, b2)" by fastforce
        have kk: "ks_symbol_id ks = k" "known_ok ks" "length (bh_data (ks_bytes ks)) \<le> d_max_symbol_bytes d"
          using ok F by (simp_all add: ks_def known_ok_normalize)
        note s = insert_known_spec [OF inv fresh kk i]
        have "acc b b2 (n + dec_mem d2 + (ch_bytes c1 - ks_retained_bytes ks))"
          unfolding s(2) by (rule acc_release_eq [OF a1(1)]) (use s(3) a1(2) in simp)
        then have "acc b (release b2 (ch_bytes c1 - ks_retained_bytes ks)) (n + dec_mem d2)"
          by (rule acc_release)
        then show ?thesis
          using r F own s(1) None a1(2)
          by (auto simp: commit_recovered_precharged_def ks_def [symmetric] g charge_transfer_def i charge_drop_def)
      qed
    qed
  qed
qed

subsection \<open>Properties\<close>

text \<open>C9: the decoder accounts for every byte and its errors change nothing.  Starting from a
  decoder whose memory and the rest \<open>n\<close> make up the shared budget, adding a source or a repair
  never panics and keeps the invariant; an error leaves the decoder and the budget exactly as they were, and a
  success leaves the budget equal to the rest, the decoder's new memory and the charge of the
  returned batch, within the limit.\<close>

theorem decoder_accounting:
  assumes "dec_inv d" and "holds b (n + dec_mem d)" and "handle_ok source"
    and "r = add_source d b k source wb \<or> r = add_repair d b first span repair_id seed coded wb"
  shows "\<exists>res d' b'. r = Some (res, d', b') \<and> dec_inv d' \<and>
     (case res of
        Inl _ \<Rightarrow> d' = d \<and> b' = b
      | Inr batch \<Rightarrow> mb_used b' = n + dec_mem d' + ch_bytes (rb_scratch batch) \<and> mb_used b' \<le> mb_limit b)"
proof -
  have "op_safe d b n r"
    using add_source_safe [OF assms(1-3)] add_repair_safe [OF assms(1,2)] assms(4) by auto
  then show ?thesis
    unfolding op_safe_def by (elim exE conjE, intro exI conjI) (auto simp: acc_def holds_def split: sum.splits)
qed

theorem decoder_accounting_witness:
  "\<exists>res d' b'. add_source (decoder_with_budget 2 2 16) (budget_new 0 100) 7
        \<lparr>bh_data = [1, 2], bh_unique = True, bh_capacity = 4\<rparr> 50 = Some (res, d', b') \<and> dec_inv d' \<and>
     (case res of
        Inl _ \<Rightarrow> d' = decoder_with_budget 2 2 16 \<and> b' = budget_new 0 100
      | Inr batch \<Rightarrow> mb_used b' = 0 + dec_mem d' + ch_bytes (rb_scratch batch) \<and> mb_used b' \<le> mb_limit (budget_new 0 100))"
proof (rule decoder_accounting [where n = 0])
  show "dec_inv (decoder_with_budget 2 2 16)" by (simp add: dec_inv_def decoder_with_budget_def)
  show "holds (budget_new 0 100) (0 + dec_mem (decoder_with_budget 2 2 16))"
    by (simp add: holds_def budget_new_def dec_mem_def decoder_with_budget_def)
  show "handle_ok \<lparr>bh_data = [1, 2], bh_unique = True, bh_capacity = 4\<rparr>" by (simp add: handle_ok_def)
qed (rule disjI1 [OF refl])

subsection \<open>The life of a decoder\<close>

text \<open>
  The owner of a decoder calls its operations in any order and keeps the charges of the batches it
  got; it splits them, hands one in with a recovered symbol, or drops them.
\<close>

record decoder_life =
  dl_decoder :: decoder
  dl_budget :: mem_budget
  dl_charges :: "recovery_charge list"

inductive life_step :: "decoder_life \<Rightarrow> decoder_life \<Rightarrow> bool" where
  life_source: "handle_ok source \<Longrightarrow> add_source d b k source wb = Some (res, d', b') \<Longrightarrow>
    life_step \<lparr>dl_decoder = d, dl_budget = b, dl_charges = cs\<rparr>
      \<lparr>dl_decoder = d', dl_budget = b',
       dl_charges = (case res of Inl _ \<Rightarrow> cs | Inr batch \<Rightarrow> rb_scratch batch # cs)\<rparr>"
| life_repair: "add_repair d b first span repair_id seed coded wb = Some (res, d', b') \<Longrightarrow>
    life_step \<lparr>dl_decoder = d, dl_budget = b, dl_charges = cs\<rparr>
      \<lparr>dl_decoder = d', dl_budget = b',
       dl_charges = (case res of Inl _ \<Rightarrow> cs | Inr batch \<Rightarrow> rb_scratch batch # cs)\<rparr>"
| life_split: "charge_split c n = Inr (c1, c2) \<Longrightarrow>
    life_step \<lparr>dl_decoder = d, dl_budget = b, dl_charges = cs @ c # cs'\<rparr>
      \<lparr>dl_decoder = d, dl_budget = b, dl_charges = cs @ c1 # c2 # cs'\<rparr>"
| life_commit: "handle_ok source \<Longrightarrow> commit_recovered_precharged d b k source c = (res, d', b') \<Longrightarrow>
    life_step \<lparr>dl_decoder = d, dl_budget = b, dl_charges = cs @ c # cs'\<rparr>
      \<lparr>dl_decoder = d', dl_budget = b', dl_charges = cs @ cs'\<rparr>"
| life_release: "life_step \<lparr>dl_decoder = d, dl_budget = b, dl_charges = cs @ c # cs'\<rparr>
      \<lparr>dl_decoder = d, dl_budget = charge_drop c b, dl_charges = cs @ cs'\<rparr>"

definition life_inv :: "nat \<Rightarrow> decoder_life \<Rightarrow> bool" where
  "life_inv limit s \<longleftrightarrow> dec_inv (dl_decoder s)
     \<and> holds (dl_budget s) (dec_mem (dl_decoder s) + sum_list (map ch_bytes (dl_charges s)))
     \<and> list_all (\<lambda>c. belongs_to c (dl_budget s)) (dl_charges s) \<and> mb_limit (dl_budget s) = limit"

lemma batch_owned:
  "batch_new items c n b = (Inr batch, b') \<Longrightarrow> ch_budget (rb_scratch batch) = ch_budget c"
  by (auto simp: batch_new_def scratch_ensure_def charge_grow_def charge_transfer_def rbind_Inr_iff
      map_err_Inr_iff split: sum.splits prod.splits option.splits if_splits)

lemma shrink_owned:
  "shrink_after_state_transition batch b = Some (batch', b') \<Longrightarrow>
     ch_budget (rb_scratch batch') = ch_budget (rb_scratch batch)"
  by (auto simp: shrink_after_state_transition_def charge_shrink_def split: if_splits)

lemma kept_id [simp]: "mb_id (release b n) = mb_id b" "mb_id (charge_drop c b) = mb_id b"
  "ch_budget (rb_scratch (batch_empty b)) = mb_id b"
  by (simp_all add: release_def charge_drop_def batch_empty_def)

lemma ensure_id: "scratch_ensure c n b = Inr (c', b') \<Longrightarrow> mb_id b' = mb_id b"
  by (auto simp: scratch_ensure_def charge_grow_def try_reserve_def map_err_Inr_iff
      split: if_splits option.splits)

lemma scratch_owned: "scratch_new b n = Inr (c, b') \<Longrightarrow> mb_id b' = mb_id b \<and> ch_budget c = mb_id b"
  by (auto simp: scratch_new_def charge_reserve_def try_reserve_def map_err_Inr_iff
      split: option.splits if_splits)

lemma insert_known_id: "insert_known d k s n b = (d', b') \<Longrightarrow> mb_id b' = mb_id b"
  by (auto simp: insert_known_def Let_def split: prod.splits)

lemma try_reuse_id: "try_reuse_oldest_source d k src b = Some (d', b') \<Longrightarrow> mb_id b' = mb_id b"
  by (auto simp: try_reuse_oldest_source_def Let_def try_reserve_def split: option.splits if_splits list.splits)

lemma add_source_owned:
  "add_source d b k source wb = Some (Inr batch, d', b') \<Longrightarrow> ch_budget (rb_scratch batch) = mb_id b"
  by (auto simp: add_source_def add_source_without_rows_def add_source_with_rows_def Let_def rbind_Inr_iff
      dest!: batch_owned shrink_owned scratch_owned ensure_id insert_known_id try_reuse_id
      split: if_splits option.splits sum.splits source_status_result.splits prod.splits)

lemma add_repair_owned:
  "add_repair d b first span repair_id seed coded wb = Some (Inr batch, d', b') \<Longrightarrow>
     ch_budget (rb_scratch batch) = mb_id b"
  by (auto simp: add_repair_def Let_def rbind_Inr_iff
      dest!: batch_owned shrink_owned scratch_owned
      split: if_splits option.splits sum.splits prod.splits)

lemma op_safe_life:
  assumes "op_safe d b (sum_list (map ch_bytes cs)) (Some (res, d', b'))"
    and "life_inv limit \<lparr>dl_decoder = d, dl_budget = b, dl_charges = cs\<rparr>"
    and "\<And>batch. res = Inr batch \<Longrightarrow> ch_budget (rb_scratch batch) = mb_id b"
  shows "life_inv limit \<lparr>dl_decoder = d', dl_budget = b',
    dl_charges = (case res of Inl _ \<Rightarrow> cs | Inr batch \<Rightarrow> rb_scratch batch # cs)\<rparr>"
  using assms by (cases res) (auto simp: op_safe_def life_inv_def acc_def belongs_to_def algebra_simps)

lemma life_inv_step: "life_step s t \<Longrightarrow> life_inv limit s \<Longrightarrow> life_inv limit t"
proof (induction rule: life_step.induct)
  case (life_source source d b k wb res d' b' cs)
  then have "op_safe d b (sum_list (map ch_bytes cs)) (Some (res, d', b'))"
    using add_source_safe [of d b "sum_list (map ch_bytes cs)" source k wb]
    by (simp add: life_inv_def add.commute)
  then show ?case using life_source add_source_owned by (intro op_safe_life [where d = d and b = b]) auto
next
  case (life_repair d b first span repair_id seed coded wb res d' b' cs)
  then have "op_safe d b (sum_list (map ch_bytes cs)) (Some (res, d', b'))"
    using add_repair_safe [of d b "sum_list (map ch_bytes cs)" first span repair_id seed coded wb]
    by (simp add: life_inv_def add.commute)
  then show ?case using life_repair add_repair_owned by (intro op_safe_life [where d = d and b = b]) auto
next
  case (life_split c n c1 c2 d b cs cs')
  then show ?case by (auto simp: life_inv_def charge_split_def belongs_to_def split: if_splits)
next
  case (life_commit source d b k c res d' b' cs cs')
  let ?n = "sum_list (map ch_bytes cs) + sum_list (map ch_bytes cs')"
  have "dec_inv d' \<and> acc b b' (?n + dec_mem d') \<and> (case res of Inl _ \<Rightarrow> d' = d | Inr _ \<Rightarrow> True)"
    using life_commit by (intro commit_recovered_safe) (auto simp: life_inv_def algebra_simps)
  then show ?case using life_commit.prems by (auto simp: life_inv_def acc_def belongs_to_def algebra_simps)
next
  case (life_release d b cs c cs')
  let ?n = "dec_mem d + (sum_list (map ch_bytes cs) + sum_list (map ch_bytes cs'))"
  have "acc b b (?n + ch_bytes c)" using life_release by (auto simp: life_inv_def acc_def algebra_simps)
  then have "acc b (charge_drop c b) ?n" unfolding charge_drop_def by (rule acc_release)
  then show ?case using life_release by (auto simp: life_inv_def acc_def belongs_to_def algebra_simps)
qed

definition drop_everything :: "decoder_life \<Rightarrow> mem_budget" where
  "drop_everything s = fold charge_drop (dl_charges s) (decoder_drop (dl_decoder s) (dl_budget s))"

lemma drop_charges: "holds b (sum_list (map ch_bytes cs)) \<Longrightarrow> mb_used (fold charge_drop cs b) = 0"
proof (induction cs arbitrary: b)
  case (Cons c cs)
  have "holds (charge_drop c b) (sum_list (map ch_bytes cs))"
    using holds_release [of b "sum_list (map ch_bytes cs) + ch_bytes c" "ch_bytes c"] Cons.prems
    by (simp add: charge_drop_def add.commute)
  then show ?case using Cons.IH by simp
qed (simp add: holds_def)

lemma life_inv_start: "0 < max_symbols \<Longrightarrow> life_inv (unat limit)
    \<lparr>dl_decoder = decoder_with_budget max_symbols max_rows max_bytes, dl_budget = budget_new ident limit, dl_charges = []\<rparr>"
  using holds_new [of ident limit]
  by (simp add: life_inv_def dec_inv_def decoder_with_budget_def dec_mem_def budget_new_def)

lemma life_inv_steps: "life_step\<^sup>*\<^sup>* s t \<Longrightarrow> life_inv limit s \<Longrightarrow> life_inv limit t"
  by (induction rule: rtranclp_induct) (auto intro: life_inv_step)

text \<open>C10: the decoder never leaks memory.  After any sequence of sources, repairs, splits, commits
  and releases, from a fresh decoder over a fresh budget, the counter is what the decoder and
  the outstanding charges hold, within the limit; and dropping the decoder and the outstanding charges
  brings it back to zero.\<close>

theorem decoder_leak_free:
  assumes "0 < max_symbols"
    and "life_step\<^sup>*\<^sup>* \<lparr>dl_decoder = decoder_with_budget max_symbols max_rows max_bytes,
        dl_budget = budget_new ident limit, dl_charges = []\<rparr> s"
  shows "mb_used (dl_budget s) = dec_mem (dl_decoder s) + sum_list (map ch_bytes (dl_charges s))
    \<and> mb_used (dl_budget s) \<le> unat limit \<and> mb_used (drop_everything s) = 0"
proof -
  have inv: "life_inv (unat limit) s" using life_inv_steps [OF assms(2) life_inv_start [OF assms(1)]] .
  let ?c = "sum_list (map ch_bytes (dl_charges s))"
  have "holds (release (dl_budget s) (dec_mem (dl_decoder s))) ?c"
    using inv holds_release [of "dl_budget s" "dec_mem (dl_decoder s) + ?c" "dec_mem (dl_decoder s)"]
    by (simp add: life_inv_def add.commute)
  then have "mb_used (drop_everything s) = 0"
    by (simp add: drop_everything_def decoder_drop_def dec_mem_def drop_charges)
  then show ?thesis using inv by (auto simp: life_inv_def holds_def)
qed

theorem decoder_leak_free_witness:
  "\<exists>s. d_known_ids (dl_decoder s) = {7} \<and> mb_used (dl_budget s) = 4 \<and> mb_used (drop_everything s) = 0"
proof -
  let ?src = "\<lparr>bh_data = [1, 2], bh_unique = True, bh_capacity = 4\<rparr>"
  let ?d = "(decoder_with_budget 2 2 16)\<lparr>d_known_ids := {7},
    d_known := [\<lparr>ks_symbol_id = 7, ks_bytes = ?src, ks_retained_bytes = 4\<rparr>]\<rparr>"
  let ?b = "(budget_new 0 100)\<lparr>mb_used := 4\<rparr>"
  let ?s = "\<lparr>dl_decoder = ?d, dl_budget = ?b, dl_charges = [rb_scratch (batch_empty ?b)]\<rparr>"
  have "add_source (decoder_with_budget 2 2 16) (budget_new 0 100) 7 ?src 50 = Some (Inr (batch_empty ?b), ?d, ?b)"
    by (simp add: add_source_def add_source_without_rows_def decoder_with_budget_def source_status_def known_lookup_def
        scratch_new_def scratch_ensure_def charge_reserve_def charge_grow_def charge_transfer_def charge_drop_def
        try_reserve_def release_def budget_new_def checked_add_def usize_max_def normalize_source_storage_def
        known_memory_delta_def evicted_known_bytes_def insert_known_def batch_empty_def evict_front.simps Let_def)
  from life_source [OF _ this, of "[]"] have "life_step\<^sup>*\<^sup>* \<lparr>dl_decoder = decoder_with_budget 2 2 16,
      dl_budget = budget_new 0 100, dl_charges = []\<rparr> ?s"
    by (intro r_into_rtranclp) (simp add: handle_ok_def)
  from decoder_leak_free [OF _ this] show ?thesis
    by (intro exI [where x = ?s]) simp
qed

end
