(* ===== verification/Fec_Soundness.thy ===== *)
theory Fec_Soundness
  imports Fec_Accounting "HOL-Library.Multiset"
begin

unbundle bit_operations_syntax

section \<open>What the decoder recovers is what was sent (src/fec.rs, src/wire.rs)\<close>

text \<open>
  A repair is a linear form over the padded symbols of its window.  Fed by an honest sender, the rows of the
  decoder stay true of the sent datagrams, so whatever elimination determines, once its padding is cut by the SOURCE
  decoder, is the sent datagram: over all runs with loss, duplication and reordering.  The last part proves progress for a
  single loss, with the work and the memory it needs.
\<close>

subsection \<open>Repair symbols are linear forms\<close>

definition window_form :: "u32 \<Rightarrow> u32 \<Rightarrow> u32 \<Rightarrow> nat list \<Rightarrow> (u32 \<times> u8) list" where
  "window_form first repair_id seed ordinals =
     map (\<lambda>i. (repair_id_at first i, coefficient seed repair_id (repair_id_at first i))) ordinals"

definition value_of :: "(u32 \<Rightarrow> bytes) \<Rightarrow> u32 \<Rightarrow> nat \<Rightarrow> u8" where
  "value_of G k = pad (G k)"

lemma pad_map2_xor:
  assumes "length s \<le> length out"
  shows "pad (map2 (\<lambda>t b. t XOR multiply b c) (take (length s) out) (take (length out) s) @ drop (length s) out) j
    = pad out j XOR multiply (pad s j) c"
  using assms by (auto simp: pad_def nth_append min_def)

lemma repair_accumulate_pad:
  assumes "\<forall>s \<in> set ss. length s \<le> length out"
    and "\<And>i. i < length ss \<Longrightarrow> ss ! i = G (repair_id_at first (i0 + i))"
  shows "pad (repair_accumulate first repair_id seed i0 ss out) j =
      pad out j XOR lin multiply (at (value_of G) j) (window_form first repair_id seed [i0..<i0 + length ss])
    \<and> length (repair_accumulate first repair_id seed i0 ss out) = length out"
  using assms
proof (induction ss arbitrary: i0 out)
  case Nil
  then show ?case by (simp add: window_form_def)
next
  case (Cons s ss)
  let ?k = "repair_id_at first i0"
  let ?c = "coefficient seed repair_id ?k"
  let ?out = "map2 (\<lambda>t b. t XOR multiply b ?c) (take (length s) out) (take (length out) s) @ drop (length s) out"
  have l: "length s \<le> length out" using Cons.prems(1) by simp
  then have len: "length ?out = length out" by simp
  have s: "s = G ?k" using Cons.prems(2) [of 0] by simp
  have nth: "ss ! i = G (repair_id_at first (Suc i0 + i))" if "i < length ss" for i
    using Cons.prems(2) [of "Suc i"] that by simp
  have IH: "pad (repair_accumulate first repair_id seed (Suc i0) ss ?out) j =
      pad ?out j XOR lin multiply (at (value_of G) j) (window_form first repair_id seed [Suc i0..<Suc i0 + length ss])
    \<and> length (repair_accumulate first repair_id seed (Suc i0) ss ?out) = length ?out"
    using Cons.prems(1) nth len by (intro Cons.IH) auto
  have up: "[i0..<i0 + length (s # ss)] = i0 # [Suc i0..<Suc i0 + length ss]"
    by (simp add: upt_conv_Cons del: upt_Suc)
  have w: "window_form first repair_id seed [i0..<i0 + length (s # ss)] =
      (?k, ?c) # window_form first repair_id seed [Suc i0..<Suc i0 + length ss]"
    unfolding up by (simp add: window_form_def)
  have v: "at (value_of G) j ?k = pad s j" using s by (simp add: at_def value_of_def)
  show ?case
    using IH unfolding w len by (simp add: Let_def pad_map2_xor [OF l] v xor.assoc)
qed

lemma repair_symbol_Inr:
  assumes "repair_symbol first repair_id seed (map (\<lambda>i. G (repair_id_at first i)) [0..<n]) = Inr coded"
  shows "0 < n" "n \<le> 256" "coded \<noteq> []"
    and "pad coded j = lin multiply (at (value_of G) j) (window_form first repair_id seed [0..<n])"
    and "\<And>i. i < n \<Longrightarrow> length (G (repair_id_at first i)) \<le> length coded"
    and "\<exists>i < n. length coded = length (G (repair_id_at first i))"
proof -
  let ?ss = "map (\<lambda>i. G (repair_id_at first i)) [0..<n]"
  let ?m = "Max (set (map length ?ss))"
  have c: "coded = repair_accumulate first repair_id seed 0 ?ss (replicate ?m 0)"
    and n: "0 < n" "n \<le> 256" and m: "?m \<noteq> 0"
    using assms by (auto simp: repair_symbol_def Let_def MAX_REPAIR_SPAN_def split: if_splits)
  have le: "length (G (repair_id_at first i)) \<le> ?m" if "i < n" for i
    by (rule Max_ge) (use that in auto)
  have "\<forall>s \<in> set ?ss. length s \<le> length (replicate ?m (0 :: u8))" using le by auto
  then have a: "pad coded j = pad (replicate ?m 0) j XOR lin multiply (at (value_of G) j)
        (window_form first repair_id seed [0..<0 + length ?ss]) \<and> length coded = length (replicate ?m (0 :: u8))" for j
    unfolding c by (rule repair_accumulate_pad) simp
  then have len: "length coded = ?m" by simp
  show "0 < n" "n \<le> 256" by (fact n)+
  show "coded \<noteq> []" using len m by auto
  show "pad coded j = lin multiply (at (value_of G) j) (window_form first repair_id seed [0..<n])" using a by simp
  show "length (G (repair_id_at first i)) \<le> length coded" if "i < n" for i using le [OF that] len by simp
  have "?m \<in> set (map length ?ss)" using n(1) by (intro Max_in) auto
  then show "\<exists>i < n. length coded = length (G (repair_id_at first i))" using len by auto
qed

lemma repair_id_at_inj: "i < 256 \<Longrightarrow> j < 256 \<Longrightarrow> repair_id_at first i = repair_id_at first j \<longleftrightarrow> i = j"
proof -
  assume i: "i < 256" and j: "j < 256"
  have "unat (word_of_nat i :: u32) = i" "unat (word_of_nat j :: u32) = j"
    using i j by (simp_all add: unsigned_of_nat take_bit_nat_eq_self)
  then show ?thesis unfolding repair_id_at_def by (metis add_left_imp_eq)
qed

lemma lin_perm: "mset xs = mset ys \<Longrightarrow> lin multiply S xs = lin multiply S ys"
proof (induction xs arbitrary: ys)
  case (Cons p xs)
  obtain k c where p: "p = (k, c)" by (cases p)
  have "p \<in> set ys" using Cons.prems by (metis list.set_intros(1) mset_eq_setD)
  then obtain us vs where ys: "ys = us @ p # vs" by (metis split_list)
  then have "mset xs = mset (us @ vs)" using Cons.prems by simp
  then have "lin multiply S xs = lin multiply S (us @ vs)" by (rule Cons.IH)
  then show ?case by (simp add: ys p lin_append xor.left_commute)
qed simp

subsection \<open>Genuine decoders\<close>

text \<open>
  \<open>G\<close> gives every symbol identifier the SOURCE datagram its sender encoded.  A decoder is genuine
  for \<open>G\<close> when all it stores is true of \<open>G\<close>.
\<close>

definition genuine_symbol :: "nat \<Rightarrow> (u32 \<Rightarrow> bytes) \<Rightarrow> u32 \<Rightarrow> bool" where
  "genuine_symbol M G k \<longleftrightarrow>
     (\<exists>rs. source_ok MAX_SOURCE_RECORDS rs \<and> G k = source_wire k rs) \<and> length (G k) \<le> M"

abbreviation genuine_row :: "nat \<Rightarrow> (u32 \<Rightarrow> bytes) \<Rightarrow> row \<Rightarrow> bool" where
  "genuine_row M G \<equiv> row_inv (\<lambda>k. length (G k)) M {k. genuine_symbol M G k}"

definition genuine :: "(u32 \<Rightarrow> bytes) \<Rightarrow> decoder \<Rightarrow> bool" where
  "genuine G d \<longleftrightarrow> d_max_symbol_bytes d \<le> usize_max
     \<and> (\<forall>s \<in> set (d_known d). bh_data (ks_bytes s) = G (ks_symbol_id s))
     \<and> (\<forall>r \<in> set (d_rows d). genuine_row (d_max_symbol_bytes d) G r) \<and> solves (value_of G) (d_rows d)"

lemma canonical_recovered_genuine:
  assumes "M \<le> usize_max"
    and "\<forall>(k, x) \<in> set found. (\<forall>j. pad x j = pad (G k) j) \<and> length (G k) \<le> length x \<and> length x \<le> M
       \<and> genuine_symbol M G k"
  shows "canonical_recovered found M =
    Inr (map (\<lambda>(k, _). \<lparr>rs_symbol_id = k, rs_bytes = G k, rs_retained_bytes = length (G k)\<rparr>) found)"
  using assms(2)
proof (induction found)
  case Nil
  then show ?case by simp
next
  case (Cons p found)
  obtain k x where p: "p = (k, x)" by (cases p)
  have x: "\<And>j. pad x j = pad (G k) j" "length (G k) \<le> length x" "length x \<le> M" "genuine_symbol M G k"
    using Cons.prems by (auto simp: p)
  obtain rs where rs: "source_ok MAX_SOURCE_RECORDS rs" "G k = source_wire k rs"
    using x(4) by (auto simp: genuine_symbol_def)
  let ?z = "replicate (length x - length (G k)) (0 :: u8)"
  have xe: "x = source_wire k rs @ ?z" using pad_prefix [of "G k" x] x rs by simp
  have "decode_source_inner x MAX_SOURCE_RECORDS M = Inr (mk_source k rs, length (source_wire k rs))"
    by (rule decode_source_inner_complete [OF assms(1) rs(1) xe x(3)])
  moreover have "drop (length (source_wire k rs)) x = ?z" using arg_cong [OF xe, of "drop (length (source_wire k rs))"] by simp
  ultimately have "decode_source_padded x MAX_SOURCE_RECORDS M = Inr (mk_source k rs, length (source_wire k rs))"
    by (simp add: decode_source_padded_def list_ex_iff)
  moreover have "take (length (source_wire k rs)) x = G k"
    using arg_cong [OF xe, of "take (length (source_wire k rs))"] rs by simp
  ultimately show ?case
    using Cons by (simp add: p rs(2) mk_source_def bounded_vec_def vec_with_capacity_def)
qed

lemma fold_rbind_error:
  assumes "fold (\<lambda>r acc. rbind acc (f r)) rows z = Inl e"
  shows "z = Inl e \<or> (\<exists>r n. f r n = Inl e)"
  using assms
proof (induction rows arbitrary: z)
  case (Cons r rows)
  then show ?case by (cases z) (auto dest!: Cons.IH)
qed simp

lemma row_storage_bytes_error: "row_storage_bytes rows cap = Inl e \<Longrightarrow> e = MemoryCapacity"
  by (auto simp: row_storage_bytes_def ok_or_def dest!: fold_rbind_error
      split: rbind_split_asm option.splits)

lemma reduce_and_recover_genuine:
  assumes g: "genuine G d" and inv: "\<forall>r \<in> set rows. genuine_row (d_max_symbol_bytes d) G r"
    and sol: "solves (value_of G) rows"
  shows "case reduce_and_recover d rows cap w of
      Inl e \<Rightarrow> e = WorkBudget \<or> e = MemoryCapacity
    | Inr (kept, recovered, nxt) \<Rightarrow>
        (\<forall>r \<in> set kept. genuine_row (d_max_symbol_bytes d) G r) \<and> solves (value_of G) kept
        \<and> (\<forall>s \<in> set recovered. rs_bytes s = G (rs_symbol_id s) \<and> genuine_symbol (d_max_symbol_bytes d) G (rs_symbol_id s))"
proof (cases "reduce rows (d_max_symbol_bytes d) w")
  case (Inl e)
  then show ?thesis using reduce_consistent [OF inv sol Inl] by (simp add: reduce_and_recover_def)
next
  case (Inr p)
  let ?M = "d_max_symbol_bytes d"
  obtain reduced found where red: "reduce rows ?M w = Inr (reduced, found)" using Inr by (cases p) auto
  obtain qs where ri: "\<forall>r \<in> set reduced. genuine_row ?M G r" and rs: "\<forall>S. solves S reduced \<longleftrightarrow> solves S rows"
    by (rule reduce_Inr [OF red inv]) blast
  have f: "(\<forall>j. pad x j = pad (G k) j) \<and> length (G k) \<le> length x \<and> length x \<le> ?M \<and> genuine_symbol ?M G k"
    if "(k, x) \<in> set found" for k x
    using reduce_sound [OF red inv sol that] by (simp add: value_of_def)
  let ?items = "map (\<lambda>(k, _). \<lparr>rs_symbol_id = k, rs_bytes = G k, rs_retained_bytes = length (G k)\<rparr>) found"
  have can: "canonical_recovered found ?M = Inr ?items"
    using g f by (intro canonical_recovered_genuine) (auto simp: genuine_def)
  have "validate_recovered (d_known d) ?items = Inr ()"
    using g by (auto simp: validate_recovered_def list_ex_iff genuine_def split: option.splits dest!: find_Some_iff [THEN iffD1])
  then show ?thesis
    using red can ri rs sol f
    by (cases "row_storage_bytes (filter (\<lambda>r. 1 < length (r_coefficients r)) reduced) cap")
      (auto simp: reduce_and_recover_def Let_def solves_def dest: row_storage_bytes_error)
qed

subsection \<open>Substitution and new equations keep the rows true\<close>

lemma xor_loop_error: "xor_loop ts ss f w b = Inl e \<Longrightarrow> e = WorkBudget"
  by (induction ts ss f w b rule: xor_loop.induct) (auto simp: spend_def Let_def split: rbind_split_asm if_splits)

lemma xor_scaled_cases:
  assumes "length source \<le> length target"
  obtains "xor_scaled target source f w b = Inl WorkBudget"
  | out w' where "xor_scaled target source f w b = Inr (out, w')" and "length out = length target"
      and "\<forall>j. pad out j = pad target j XOR multiply (pad source j) f"
  using assms xor_loop_error xor_loop_Inr
  by (cases "xor_scaled target source f w b") (fastforce simp: xor_scaled_def)+

lemma wf_remove: "wf_coefficients cs \<Longrightarrow> wf_coefficients (take i cs @ drop (Suc i) cs)"
proof -
  assume wf: "wf_coefficients cs"
  have s: "set (take i cs @ drop (Suc i) cs) \<subseteq> set cs" using set_take_subset set_drop_subset by fastforce
  have "sorted_wrt (<) (map fst (take i cs @ drop (Suc i) cs))"
  proof (cases "i < length cs")
    case True
    have "sorted_wrt (<) (map fst (take i cs @ cs ! i # drop (Suc i) cs))"
      using wf True by (simp add: wf_coefficients_def id_take_nth_drop [symmetric])
    then show ?thesis by (auto simp: sorted_wrt_append)
  qed (use wf in \<open>simp add: wf_coefficients_def\<close>)
  then show ?thesis using wf s unfolding wf_coefficients_def by blast
qed

lemma substitute_row:
  assumes r: "genuine_row M G r" "row_holds (value_of G) r" and s: "coefficient_search k (r_coefficients r) = Inr i"
  obtains "xor_scaled (r_data r) (G k) (snd (r_coefficients r ! i)) w b = Inl WorkBudget"
  | out w' where "xor_scaled (r_data r) (G k) (snd (r_coefficients r ! i)) w b = Inr (out, w')"
      and "genuine_row M G (r\<lparr>r_coefficients := take i (r_coefficients r) @ drop (Suc i) (r_coefficients r), r_data := out\<rparr>)"
      and "row_holds (value_of G) (r\<lparr>r_coefficients := take i (r_coefficients r) @ drop (Suc i) (r_coefficients r), r_data := out\<rparr>)"
proof -
  let ?cs = "r_coefficients r"
  have i: "i < length ?cs" "fst (?cs ! i) = k" using coefficient_search_Inr [OF s] by auto
  then have "k \<in> row_ids r" by (auto simp: row_ids_def intro!: image_eqI [where x = "?cs ! i"])
  then have len: "length (G k) \<le> length (r_data r)" using r(1) by (simp add: row_inv_def)
  have sub: "set (take i ?cs @ drop (Suc i) ?cs) \<subseteq> set ?cs" using set_take_subset set_drop_subset by fastforce
  consider "xor_scaled (r_data r) (G k) (snd (?cs ! i)) w b = Inl WorkBudget"
    | out w' where "xor_scaled (r_data r) (G k) (snd (?cs ! i)) w b = Inr (out, w')" "length out = length (r_data r)"
        "\<forall>j. pad out j = pad (r_data r) j XOR multiply (pad (G k) j) (snd (?cs ! i))"
    by (rule xor_scaled_cases [OF len])
  then show ?thesis
  proof cases
    case 1
    then show ?thesis by (rule that(1))
  next
    case (2 out w')
    have "lin multiply (at (value_of G) j) (take i ?cs @ drop (Suc i) ?cs) = pad out j" for j
    proof -
      have "pad (r_data r) j = lin multiply (at (value_of G) j) ?cs" using r(2) by (simp add: row_holds_def)
      also have "\<dots> = multiply (pad (G k) j) (snd (?cs ! i)) XOR lin multiply (at (value_of G) j) (take i ?cs @ drop (Suc i) ?cs)"
        using gf.lin_remove [OF i(1), of "at (value_of G) j"] i(2) by (simp only: at_def value_of_def)
      finally show ?thesis using 2(3) by (simp add: xor.assoc xor.left_commute xor.commute)
    qed
    then have "row_holds (value_of G) (r\<lparr>r_coefficients := take i ?cs @ drop (Suc i) ?cs, r_data := out\<rparr>)"
      by (simp add: row_holds_def)
    moreover have "genuine_row M G (r\<lparr>r_coefficients := take i ?cs @ drop (Suc i) ?cs, r_data := out\<rparr>)"
      using r(1) sub 2(2) wf_remove [of ?cs i] by (auto simp: row_inv_def row_ids_def)
    ultimately show ?thesis using 2(1) that(2) by blast
  qed
qed

lemma substitute_source_genuine:
  assumes "\<forall>r \<in> set rows. genuine_row M G r" and "solves (value_of G) rows"
  shows "case substitute_source rows k (G k) w b of
      Inl e \<Rightarrow> e = WorkBudget
    | Inr (rows', w') \<Rightarrow> (\<forall>r \<in> set rows'. genuine_row M G r) \<and> solves (value_of G) rows'"
  using assms
proof (induction rows arbitrary: w)
  case Nil
  then show ?case by simp
next
  case (Cons r rows)
  have r: "genuine_row M G r" "row_holds (value_of G) r" using Cons.prems by (auto simp: solves_def)
  have tail: "case substitute_source rows k (G k) w1 b of Inl e \<Rightarrow> e = WorkBudget
      | Inr (rows', w') \<Rightarrow> (\<forall>r \<in> set rows'. genuine_row M G r) \<and> solves (value_of G) rows'" for w1
    using Cons.prems by (intro Cons.IH) (auto simp: solves_def)
  show ?case
  proof (cases "coefficient_search k (r_coefficients r)")
    case (Inl i)
    then show ?thesis using tail [of w] r
      by (cases "substitute_source rows k (G k) w b") (auto simp: solves_def)
  next
    case (Inr i)
    show ?thesis
    proof (rule substitute_row [OF r Inr, where w = w and b = b])
      assume "xor_scaled (r_data r) (G k) (snd (r_coefficients r ! i)) w b = Inl WorkBudget"
      then show ?thesis using Inr by simp
    next
      fix out w'
      assume "xor_scaled (r_data r) (G k) (snd (r_coefficients r ! i)) w b = Inr (out, w')"
        "genuine_row M G (r\<lparr>r_coefficients := take i (r_coefficients r) @ drop (Suc i) (r_coefficients r), r_data := out\<rparr>)"
        "row_holds (value_of G) (r\<lparr>r_coefficients := take i (r_coefficients r) @ drop (Suc i) (r_coefficients r), r_data := out\<rparr>)"
      then show ?thesis using Inr tail [of w']
        by (cases "substitute_source rows k (G k) w' b") (auto simp: solves_def)
    qed
  qed
qed

lemma repair_equation_genuine:
  assumes "\<forall>s \<in> set (d_known d). bh_data (ks_bytes s) = G (ks_symbol_id s)"
    and "\<forall>i \<in> set is. length (G (repair_id_at first i)) \<le> length data"
  shows "case repair_equation d first repair_id seed is cs data w b of
      Inl e \<Rightarrow> e = WorkBudget
    | Inr (cs', data', w') \<Rightarrow> length data' = length data
        \<and> cs' = cs @ filter (\<lambda>(k, _). known_lookup d k = None) (window_form first repair_id seed is)
        \<and> (\<forall>j. pad data' j XOR lin multiply (at (value_of G) j) cs'
              = pad data j XOR (lin multiply (at (value_of G) j) cs
                  XOR lin multiply (at (value_of G) j) (window_form first repair_id seed is)))"
  using assms(2)
proof (induction "is" arbitrary: cs data w)
  case Nil
  then show ?case by (simp add: window_form_def)
next
  case (Cons i "is")
  let ?k = "repair_id_at first i"
  let ?c = "coefficient seed repair_id ?k"
  have w: "window_form first repair_id seed (i # is) = (?k, ?c) # window_form first repair_id seed is"
    by (simp add: window_form_def)
  have v: "at (value_of G) j ?k = pad (G ?k) j" for j by (simp add: at_def value_of_def)
  show ?case
  proof (cases "known_lookup d ?k")
    case None
    have "\<forall>i \<in> set is. length (G (repair_id_at first i)) \<le> length data" using Cons.prems by simp
    from Cons.IH [OF this, of "cs @ [(?k, ?c)]" w] show ?thesis
      by (auto simp: Let_def None w lin_append xor.assoc split: sum.splits prod.splits)
  next
    case (Some s)
    then have s: "bh_data (ks_bytes s) = G ?k"
      using assms(1) by (auto simp: known_lookup_def find_Some_iff)
    have len: "length (G ?k) \<le> length data" using Cons.prems by simp
    show ?thesis
    proof (rule xor_scaled_cases [OF len, where f = ?c and w = w and b = b])
      assume "xor_scaled data (G ?k) ?c w b = Inl WorkBudget"
      then show ?thesis by (simp add: Let_def Some s)
    next
      fix out w'
      assume out: "xor_scaled data (G ?k) ?c w b = Inr (out, w')" "length out = length data"
        "\<forall>j. pad out j = pad data j XOR multiply (pad (G ?k) j) ?c"
      have "\<forall>i \<in> set is. length (G (repair_id_at first i)) \<le> length out" using Cons.prems out(2) by simp
      from Cons.IH [OF this, of cs w'] show ?thesis
        using out by (auto simp: Let_def Some s w v xor.assoc xor.left_commute split: sum.splits prod.splits)
    qed
  qed
qed

lemma xor_zero_eq: "a XOR b = 0 \<Longrightarrow> a = (b :: u8)"
  by (metis xor_left_cancel xor.right_neutral)

lemma window_form_distinct: "n \<le> 256 \<Longrightarrow> distinct (map fst (window_form first repair_id seed [0..<n]))"
  by (auto simp: window_form_def comp_def distinct_map repair_id_at_inj intro!: inj_onI)

lemma repair_row_genuine:
  assumes eq: "repair_equation d first repair_id seed [0..<n] [] coded w b = Inr (cs, data, w')"
    and known: "\<forall>s \<in> set (d_known d). bh_data (ks_bytes s) = G (ks_symbol_id s)"
    and coded: "repair_symbol first repair_id seed (map (\<lambda>i. G (repair_id_at first i)) [0..<n]) = Inr coded"
    and window: "\<forall>i < n. genuine_symbol M G (repair_id_at first i)" and M: "length coded \<le> M"
  shows "genuine_row M G \<lparr>r_coefficients = sort_key fst cs, r_coefficients_cap = cc, r_data = data, r_data_cap = dc\<rparr>"
    and "row_holds (value_of G) \<lparr>r_coefficients = sort_key fst cs, r_coefficients_cap = cc, r_data = data, r_data_cap = dc\<rparr>"
proof -
  note rs = repair_symbol_Inr [OF coded]
  have len: "\<forall>i \<in> set [0..<n]. length (G (repair_id_at first i)) \<le> length coded" using rs(5) by simp
  let ?w = "window_form first repair_id seed [0..<n]"
  have data: "length data = length coded" and cs: "cs = filter (\<lambda>(k, _). known_lookup d k = None) ?w"
    and bal: "\<And>j. pad data j XOR lin multiply (at (value_of G) j) cs = pad coded j XOR lin multiply (at (value_of G) j) ?w"
    using repair_equation_genuine [OF known len, where repair_id = repair_id and seed = seed and cs = "[]" and w = w and b = b] eq
    by auto
  have "pad data j = lin multiply (at (value_of G) j) cs" for j
    using bal [of j] rs(4) [of j] by (simp add: xor_zero_eq)
  then show "row_holds (value_of G) \<lparr>r_coefficients = sort_key fst cs, r_coefficients_cap = cc, r_data = data, r_data_cap = dc\<rparr>"
    using lin_perm [of "sort_key fst cs" cs] by (simp add: row_holds_def)
  have "distinct (map fst ?w)" using rs(2) by (rule window_form_distinct)
  then have "distinct (map fst cs)" unfolding cs by (simp add: distinct_map_filter)
  then have "sorted_wrt (<) (map fst (sort_key fst cs))"
    by (simp add: strict_sorted_iff distinct_map)
  moreover have "snd p \<noteq> 0" if "p \<in> set cs" for p
    using that coefficient_nonzero by (auto simp: cs window_form_def)
  moreover have "\<exists>i < n. fst p = repair_id_at first i" if "p \<in> set cs" for p
    using that by (auto simp: cs window_form_def)
  ultimately show "genuine_row M G \<lparr>r_coefficients = sort_key fst cs, r_coefficients_cap = cc, r_data = data, r_data_cap = dc\<rparr>"
    using window rs(5) data M by (fastforce simp: row_inv_def wf_coefficients_def row_ids_def)
qed

subsection \<open>The operations on genuine input\<close>

definition limits :: "fec_error \<Rightarrow> bool" where
  "limits e \<longleftrightarrow> e = WorkBudget \<or> e = MemoryCapacity \<or> e = RowCapacity"

definition genuine_items :: "(u32 \<Rightarrow> bytes) \<Rightarrow> nat \<Rightarrow> recovered_source list \<Rightarrow> bool" where
  "genuine_items G M items \<longleftrightarrow>
     (\<forall>s \<in> set items. rs_bytes s = G (rs_symbol_id s) \<and> genuine_symbol M G (rs_symbol_id s))"

definition genuine_result ::
  "(u32 \<Rightarrow> bytes) \<Rightarrow> decoder \<Rightarrow> ((fec_error + recovered_batch) \<times> decoder \<times> mem_budget) option \<Rightarrow> bool" where
  "genuine_result G d r \<longleftrightarrow> (case r of None \<Rightarrow> True | Some (res, d', b') \<Rightarrow>
     genuine G d' \<and> d_max_symbol_bytes d' = d_max_symbol_bytes d \<and>
     (case res of Inl e \<Rightarrow> limits e | Inr batch \<Rightarrow> genuine_items G (d_max_symbol_bytes d) (rb_items batch)))"

lemma genuine_result_error: "genuine G d \<Longrightarrow> limits e \<Longrightarrow> genuine_result G d (Some (Inl e, d, b))"
  by (simp add: genuine_result_def)

lemma limits_simps [simp]: "limits WorkBudget" "limits MemoryCapacity" "limits RowCapacity"
  by (simp_all add: limits_def)

lemma batch_empty_items [simp]: "rb_items (batch_empty b) = []"
  by (simp add: batch_empty_def)

lemma genuine_items_Nil [simp]: "genuine_items G M []"
  by (simp add: genuine_items_def)

lemma batch_new_items: "batch_new items c n b = (Inr batch, b') \<Longrightarrow> rb_items batch = items"
  by (auto simp: batch_new_def rbind_Inr_iff split: sum.splits prod.splits)

lemma fec_ok_or_error: "ok_or x y = Inl e \<longleftrightarrow> x = None \<and> e = y"
  by (auto simp: ok_or_def split: option.splits)

lemma batch_retained_error: "batch_retained items = Inl e \<Longrightarrow> e = MemoryCapacity"
  by (auto simp: batch_retained_def fec_ok_or_error dest!: fold_rbind_error split: rbind_split_asm)

lemma map_err_const: "map_err (\<lambda>_. x) m = Inl e \<Longrightarrow> e = x"
  by (cases m) auto

lemma batch_new_error: "batch_new items c n b = (Inl e, b') \<Longrightarrow> e = MemoryCapacity"
  by (auto simp: batch_new_def scratch_ensure_def ok_or_def dest!: map_err_const batch_retained_error
      split: sum.splits rbind_split_asm option.splits prod.splits)

lemma shrink_items: "shrink_after_state_transition batch b = Some (batch', b') \<Longrightarrow> rb_items batch' = rb_items batch"
  by (auto simp: shrink_after_state_transition_def)

lemma scratch_error: "scratch_new b n = Inl e \<Longrightarrow> e = MemoryCapacity" "scratch_ensure c n b = Inl e \<Longrightarrow> e = MemoryCapacity"
  by (simp_all add: scratch_new_def scratch_ensure_def map_err_const)

lemma count_errors:
  "matrix_clone_work rows = Inl e \<Longrightarrow> limits e" "matrix_coefficient_count rows n = Inl e \<Longrightarrow> limits e"
  "bounded_vec s n = Inl e \<Longrightarrow> limits e" "clone_rows rows n m = Inl e \<Longrightarrow> limits e"
  "clone_rows_bounded rows a n m = Inl e \<Longrightarrow> limits e"
  "scratch_memory_bytes d x y z = Inl e \<Longrightarrow> limits e"
proof -
  show mc: "matrix_coefficient_count rows n = Inl e \<Longrightarrow> limits e" for rows n e
    by (auto simp: matrix_coefficient_count_def ok_or_def dest!: fold_rbind_error split: option.splits)
  show bv: "bounded_vec s n = Inl e \<Longrightarrow> limits e" for s n e
    by (auto simp: bounded_vec_def split: if_splits)
  show cr: "clone_rows rows n m = Inl e \<Longrightarrow> limits e" for rows n m e
    by (induction rows arbitrary: e) (auto dest!: bv split: rbind_split_asm)
  show "matrix_clone_work rows = Inl e \<Longrightarrow> limits e"
    by (auto simp: matrix_clone_work_def ok_or_def dest!: fold_rbind_error split: option.splits rbind_split_asm)
  show "clone_rows_bounded rows a n m = Inl e \<Longrightarrow> limits e"
    by (auto simp: clone_rows_bounded_def fec_ok_or_error dest!: mc bv cr split: rbind_split_asm)
  show "scratch_memory_bytes d x y z = Inl e \<Longrightarrow> limits e"
    by (auto simp: scratch_memory_bytes_def fec_ok_or_error dest!: mc split: rbind_split_asm)
qed

lemma genuine_insert_known:
  assumes "genuine G d" and "bh_data (ks_bytes s) = G (ks_symbol_id s)"
    and "dec_inv d" "ks_symbol_id s \<notin> d_known_ids d" "known_ok s"
      "length (bh_data (ks_bytes s)) \<le> d_max_symbol_bytes d"
    and "insert_known d (ks_symbol_id s) s n b = (d', b')"
  shows "genuine G d' \<and> d_max_symbol_bytes d' = d_max_symbol_bytes d"
proof -
  note i = insert_known_spec [OF assms(3,4) refl assms(5,6,7)]
  have "set (d_known d') \<subseteq> insert s (set (d_known d))"
    unfolding i(4) by (cases "d_known d") auto
  then show ?thesis using assms(1,2) i by (auto simp: genuine_def)
qed

lemma source_wire_nonempty [simp]: "source_wire k rs \<noteq> []" "[] \<noteq> source_wire k rs"
  by (simp_all add: source_wire_def)

lemma genuine_symbolD:
  assumes "genuine_symbol M G k"
  shows "G k \<noteq> []" "length (G k) \<le> M"
  using assms by (auto simp: genuine_symbol_def)

lemma add_source_without_rows_genuine:
  assumes g: "genuine G d" "dec_inv d" "genuine_symbol (d_max_symbol_bytes d) G k" "k \<notin> d_known_ids d"
    and s: "bh_data source = G k" "handle_ok source"
  shows "genuine_result G d (add_source_without_rows d b k source)"
proof -
  have len: "length (G k) \<le> d_max_symbol_bytes d" using g(3) by (simp add: genuine_symbolD)
  have ins: "genuine G d' \<and> d_max_symbol_bytes d' = d_max_symbol_bytes d"
    if "insert_known d k (normalize_source_storage k source) n b1 = (d', b')" for n b1 d' b'
    using genuine_insert_known [of G d "normalize_source_storage k source" n b1 d' b'] g s len that
    by (simp add: known_ok_normalize)
  have re: "genuine G d' \<and> d_max_symbol_bytes d' = d_max_symbol_bytes d"
    if "try_reuse_oldest_source d k (G k) b = Some (d', b')" for d' b'
  proof -
    note t = try_reuse_spec [OF g(2,4) len that]
    have "set (tl (d_known d)) \<subseteq> set (d_known d)" by (cases "d_known d") auto
    then show ?thesis using t g(1) by (auto simp: genuine_def)
  qed
  show ?thesis
    using g(1) s
    by (auto simp: add_source_without_rows_def genuine_result_def Let_def scratch_error
        dest!: ins re scratch_error split: option.splits sum.splits prod.splits if_splits)
qed

lemma genuine_install:
  assumes "genuine G d" "\<forall>r \<in> set rows. genuine_row (d_max_symbol_bytes d) G r" "solves (value_of G) rows"
    and "install_rows d rows n b = (d', b')"
  shows "genuine G d'" "d_max_symbol_bytes d' = d_max_symbol_bytes d" "d_known d' = d_known d"
    "d_known_ids d' = d_known_ids d"
  using assms by (auto simp: install_rows_def genuine_def)

lemma genuine_clone:
  assumes "genuine G d" "clone_rows_bounded (d_rows d) a c m = Inr (rows, cap)"
  shows "\<forall>r \<in> set rows. genuine_row (d_max_symbol_bytes d) G r" "solves (value_of G) rows"
  using assms same_row_facts [OF same_row_cap]
  by (auto simp: clone_rows_bounded_Inr genuine_def solves_def)

lemma add_source_matrix_genuine:
  assumes g: "genuine G d"
  shows "case add_source_matrix d k (G k) w wb of
      Inl e \<Rightarrow> limits e
    | Inr (kept, recovered, nxt) \<Rightarrow>
        (\<forall>r \<in> set kept. genuine_row (d_max_symbol_bytes d) G r) \<and> solves (value_of G) kept
        \<and> genuine_items G (d_max_symbol_bytes d) recovered"
proof (cases "clone_rows_bounded (d_rows d) 0 0 (d_max_symbol_bytes d)")
  case (Inl e)
  then show ?thesis by (simp add: add_source_matrix_def count_errors)
next
  case (Inr p)
  obtain rows cap where c: "clone_rows_bounded (d_rows d) 0 0 (d_max_symbol_bytes d) = Inr (rows, cap)"
    using Inr by (cases p) auto
  note s = substitute_source_genuine [OF genuine_clone [OF g c], of k w wb]
  show ?thesis
  proof (cases "substitute_source rows k (G k) w wb")
    case (Inl e)
    then show ?thesis using s c by (simp add: add_source_matrix_def)
  next
    case (Inr q)
    obtain rows1 w1 where q: "q = (rows1, w1)" by (cases q)
    have "\<forall>r \<in> set rows1. genuine_row (d_max_symbol_bytes d) G r" "solves (value_of G) rows1"
      using s Inr q by auto
    from reduce_and_recover_genuine [OF g this, of cap "wb - w1"] show ?thesis
      using c Inr q by (auto simp: add_source_matrix_def genuine_items_def limits_def split: sum.splits)
  qed
qed

lemma add_source_with_rows_genuine:
  assumes g: "genuine G d" "dec_inv d" "genuine_symbol (d_max_symbol_bytes d) G k" "k \<notin> d_known_ids d"
    and s: "bh_data source = G k" "handle_ok source"
  shows "genuine_result G d (add_source_with_rows d b k source wb)"
proof (cases "rbind (matrix_clone_work (d_rows d)) (\<lambda>work.
        rbind (ensure (work \<le> wb) WorkBudget) (\<lambda>_.
          rbind (scratch_memory_bytes d 0 0 (length (bh_data source))) (\<lambda>bytes.
            rbind (scratch_new b bytes) (\<lambda>(scratch, b1). Inr (work, scratch, b1)))))")
  case (Inl e)
  then have "limits e"
    by (auto simp: ensure_def dest!: count_errors scratch_error split: rbind_split_asm if_splits)
  then show ?thesis using Inl g(1) by (simp add: add_source_with_rows_def genuine_result_error)
next
  case (Inr p)
  obtain work scratch b1 where p: "p = (work, scratch, b1)" by (cases p)
  note m = add_source_matrix_genuine [OF g(1), of k work wb]
  show ?thesis
  proof (cases "add_source_matrix d k (G k) work wb")
    case (Inl e)
    then show ?thesis using m s g(1) Inr p
      by (simp add: add_source_with_rows_def genuine_result_def)
  next
    case (Inr q)
    obtain rows recovered nxt where q: "q = (rows, recovered, nxt)" by (cases q)
    have r: "\<forall>r \<in> set rows. genuine_row (d_max_symbol_bytes d) G r" "solves (value_of G) rows"
      "genuine_items G (d_max_symbol_bytes d) recovered"
      using m Inr q by auto
    have len: "length (G k) \<le> d_max_symbol_bytes d" using g(3) by (simp add: genuine_symbolD)
    have ins: "genuine G d2 \<and> d_max_symbol_bytes d2 = d_max_symbol_bytes d"
      if "install_rows d rows nxt b2 = (d1, b3)"
        "insert_known d1 k (normalize_source_storage k source) n b3 = (d2, b4)"
        "length rows \<le> d_max_rows d" for b2 d1 b3 n d2 b4
    proof -
      note i = genuine_install [OF g(1) r(1,2) that(1)]
      have "dec_inv d1" using g(2) that(1,3) by (auto simp: install_rows_def dec_inv_def)
      then show ?thesis
        using genuine_insert_known [of G d1 "normalize_source_storage k source" n b3 d2 b4] i s g(4) len that(2)
        by (simp add: known_ok_normalize)
    qed
    have "length rows \<le> d_max_rows d"
      using Inr q g(2) substitute_source_length reduce_and_recover_length
      by (fastforce simp: add_source_matrix_def rbind_Inr_iff clone_rows_bounded_Inr dec_inv_def)
    then show ?thesis
      using \<open>rbind (matrix_clone_work (d_rows d)) _ = Inr p\<close> p Inr q s r g(1) ins
      by (auto simp: add_source_with_rows_def genuine_result_def Let_def shrink_items batch_new_items
          dest!: batch_new_error shrink_items batch_new_items
          split: option.splits sum.splits prod.splits)
  qed
qed

lemma add_source_genuine:
  assumes g: "genuine G d" "dec_inv d" "genuine_symbol (d_max_symbol_bytes d) G k"
    and s: "bh_data source = G k" "handle_ok source"
  shows "genuine_result G d (add_source d b k source wb)"
proof (cases "k \<in> d_known_ids d")
  case True
  then show ?thesis
    using g s genuine_symbolD [OF g(3)]
    by (auto simp: add_source_def source_status_def genuine_result_def genuine_def known_lookup_def find_Some_iff
        split: option.splits)
next
  case False
  then show ?thesis
    using g s genuine_symbolD [OF g(3)] add_source_with_rows_genuine add_source_without_rows_genuine
    by (auto simp: add_source_def source_status_def)
qed


lemma add_repair_matrix_genuine:
  assumes g: "genuine G d"
    and coded: "repair_symbol first repair_id seed (map (\<lambda>i. G (repair_id_at first i)) [0..<unat span]) = Inr coded"
    and window: "\<forall>i < unat span. genuine_symbol (d_max_symbol_bytes d) G (repair_id_at first i)"
    and M: "length coded \<le> d_max_symbol_bytes d"
  shows "case add_repair_matrix d first span repair_id seed coded w wb of
      Inl e \<Rightarrow> limits e
    | Inr None \<Rightarrow> True
    | Inr (Some (kept, recovered, nxt)) \<Rightarrow>
        (\<forall>r \<in> set kept. genuine_row (d_max_symbol_bytes d) G r) \<and> solves (value_of G) kept
        \<and> genuine_items G (d_max_symbol_bytes d) recovered"
proof (cases "add_repair_matrix d first span repair_id seed coded w wb")
  have known: "\<forall>s \<in> set (d_known d). bh_data (ks_bytes s) = G (ks_symbol_id s)" using g by (simp add: genuine_def)
  have len: "\<forall>i \<in> set [0..<unat span]. length (G (repair_id_at first i)) \<le> length coded"
    using repair_symbol_Inr(5) [OF coded] by simp
  have eqe: "e = WorkBudget" if "repair_equation d first repair_id seed [0..<unat span] [] coded w wb = Inl e" for e
    using repair_equation_genuine [OF known len, where repair_id = repair_id and seed = seed and cs = "[]" and w = w and b = wb]
      that by simp
  have rec: "case reduce_and_recover d (rows @ [\<lparr>r_coefficients = sort_key fst cs, r_coefficients_cap = cc, r_data = data, r_data_cap = dc\<rparr>]) cap x of
      Inl e \<Rightarrow> e = WorkBudget \<or> e = MemoryCapacity
    | Inr (kept, recovered, nxt) \<Rightarrow>
        (\<forall>r \<in> set kept. genuine_row (d_max_symbol_bytes d) G r) \<and> solves (value_of G) kept
        \<and> (\<forall>s \<in> set recovered. rs_bytes s = G (rs_symbol_id s) \<and> genuine_symbol (d_max_symbol_bytes d) G (rs_symbol_id s))"
    if "clone_rows_bounded (d_rows d) 1 n m = Inr (rows, cap)"
      "repair_equation d first repair_id seed [0..<unat span] [] coded w wb = Inr (cs, data, w1)" for cc dc rows cap x n m cs data w1
    by (rule reduce_and_recover_genuine [OF g])
      (use genuine_clone [OF g that(1)] repair_row_genuine [OF that(2) known coded window M] in \<open>auto simp: solves_def\<close>)
  {
    case (Inl e)
    consider "matrix_coefficient_count (d_rows d) (unat span) = Inl e"
      | n where "bounded_vec size_of_coefficient n = Inl e" | n where "bounded_vec 1 n = Inl e"
      | "repair_equation d first repair_id seed [0..<unat span] [] coded w wb = Inl e"
      | cs data w1 where "repair_equation d first repair_id seed [0..<unat span] [] coded w wb = Inr (cs, data, w1)"
          "sort_key fst cs = []" "\<not> list_all (\<lambda>b. b = 0) data"
      | n m where "clone_rows_bounded (d_rows d) 1 n m = Inl e"
      | cc dc rows cap x n m cs data w1 where "clone_rows_bounded (d_rows d) 1 n m = Inr (rows, cap)"
          "repair_equation d first repair_id seed [0..<unat span] [] coded w wb = Inr (cs, data, w1)"
          "reduce_and_recover d (rows @ [\<lparr>r_coefficients = sort_key fst cs, r_coefficients_cap = cc, r_data = data, r_data_cap = dc\<rparr>]) cap x = Inl e"
      using Inl unfolding add_repair_matrix_def Let_def
      by (auto split: rbind_split_asm if_splits)
    then have "limits e"
    proof cases
      case (5 cs data w1)
      have "list_ex (\<lambda>b. b \<noteq> 0) data" using 5(3) by (simp add: list_all_iff list_ex_iff)
      moreover have "\<forall>j. pad data j = 0"
        using repair_row_genuine(2) [OF 5(1) known coded window M, of 0 0] 5(2) by (simp add: row_holds_def)
      ultimately show ?thesis by (simp add: pad_eq_zero_iff)
    next
      case (7 cc dc rows cap x n m cs data w1)
      then show ?thesis using rec [OF 7(1,2), of cc dc x] by (auto simp: limits_def)
    qed (auto dest: count_errors eqe)
    then show ?thesis using Inl by simp
  next
    case (Inr q)
    show ?thesis
    proof (cases q)
      case (Some p)
      obtain kept recovered nxt where p: "p = (kept, recovered, nxt)" by (cases p)
      obtain cc dc rows cap x n m cs data w1 where c: "clone_rows_bounded (d_rows d) 1 n m = Inr (rows, cap)"
          and q: "repair_equation d first repair_id seed [0..<unat span] [] coded w wb = Inr (cs, data, w1)"
          and r: "reduce_and_recover d (rows @ [\<lparr>r_coefficients = sort_key fst cs, r_coefficients_cap = cc, r_data = data, r_data_cap = dc\<rparr>]) cap x = Inr (kept, recovered, nxt)"
        using Inr Some p unfolding add_repair_matrix_def Let_def
        by (auto simp: rbind_Inr_iff split: if_splits)
      show ?thesis using rec [OF c q, of cc dc x] r Inr Some p by (simp add: genuine_items_def)
    qed (use Inr in simp)
  }
qed

lemma commit_rows_genuine:
  assumes g: "genuine G d" and r: "\<forall>r \<in> set rows. genuine_row (d_max_symbol_bytes d) G r" "solves (value_of G) rows"
    and items: "genuine_items G (d_max_symbol_bytes d) recovered"
  shows "genuine_result G d (case batch_new recovered scratch n b1 of
      (Inl e, b2) \<Rightarrow> Some (Inl e, d, b2)
    | (Inr batch, b2) \<Rightarrow>
        let (d1, b3) = install_rows d rows nxt b2 in
        map_option (\<lambda>(batch', b4). (Inr batch', d1, b4)) (shrink_after_state_transition batch b3))"
  using g items
  by (auto simp: genuine_result_def Let_def dest!: batch_new_error shrink_items batch_new_items
      dest: genuine_install(1,2) [OF g r] split: option.splits sum.splits prod.splits)

lemma add_repair_genuine:
  assumes g: "genuine G d"
    and coded: "repair_symbol first repair_id seed (map (\<lambda>i. G (repair_id_at first i)) [0..<unat span]) = Inr coded"
    and window: "\<forall>i < unat span. genuine_symbol (d_max_symbol_bytes d) G (repair_id_at first i)"
    and M: "length coded \<le> d_max_symbol_bytes d"
  shows "genuine_result G d (add_repair d b first span repair_id seed coded wb)"
proof -
  note rs = repair_symbol_Inr [OF coded]
  have span: "span \<noteq> 0" "\<not> MAX_REPAIR_SPAN < span"
    using rs(1,2) by (auto simp: MAX_REPAIR_SPAN_def word_less_nat_alt)
  note m = add_repair_matrix_genuine [OF g coded window M]
  show ?thesis
  proof (cases "length (d_rows d) = d_max_rows d")
    case True
    then show ?thesis using span rs(3) M g by (auto simp: add_repair_def genuine_result_error)
  next
    case False
    let ?pre = "rbind (matrix_clone_work (d_rows d)) (\<lambda>work0.
          rbind (ok_or (checked_add work0 (length coded)) WorkBudget) (\<lambda>work1.
            rbind (ok_or (checked_add work1 (unat span)) WorkBudget) (\<lambda>work.
              rbind (ensure (work \<le> wb) WorkBudget) (\<lambda>_.
                rbind (scratch_memory_bytes d 1 (unat span) 0) (\<lambda>bytes.
                  rbind (scratch_new b bytes) (\<lambda>(scratch, b1). Inr (work, scratch, b1)))))))"
    show ?thesis
    proof (cases ?pre)
      case (Inl e)
      then have "limits e"
        by (auto simp: ensure_def fec_ok_or_error dest!: count_errors scratch_error split: rbind_split_asm if_splits)
      then show ?thesis using Inl False span rs(3) M g by (simp add: add_repair_def genuine_result_error)
    next
      case (Inr p)
      obtain work scratch b1 where p: "p = (work, scratch, b1)" by (cases p)
      have "add_repair d b first span repair_id seed coded wb =
        (case add_repair_matrix d first span repair_id seed coded work wb of
               Inl e \<Rightarrow> Some (Inl e, d, charge_drop scratch b1)
             | Inr None \<Rightarrow> Some (Inr (batch_empty b1), d, charge_drop scratch b1)
             | Inr (Some (rows, recovered, next_row_bytes)) \<Rightarrow>
                 (case batch_new recovered scratch (next_row_bytes - d_row_bytes d) b1 of
                    (Inl e, b2) \<Rightarrow> Some (Inl e, d, b2)
                  | (Inr batch, b2) \<Rightarrow>
                      let (d1, b3) = install_rows d rows next_row_bytes b2 in
                      map_option (\<lambda>(batch', b4). (Inr batch', d1, b4))
                        (shrink_after_state_transition batch b3)))"
        using Inr p False span rs(3) M by (simp add: add_repair_def)
      then show ?thesis
        using m [of work wb] g
        by (auto simp: genuine_result_error commit_rows_genuine [OF g] split: option.splits sum.splits)
          (simp_all add: genuine_result_def)
    qed
  qed
qed

lemma commit_recovered_genuine:
  assumes g: "genuine G d" "dec_inv d" "genuine_symbol (d_max_symbol_bytes d) G k"
    and s: "bh_data source = G k" "handle_ok source"
    and r: "commit_recovered_precharged d b k source c = (res, d', b')"
  shows "genuine G d' \<and> d_max_symbol_bytes d' = d_max_symbol_bytes d \<and> (case res of Inl e \<Rightarrow> limits e | Inr _ \<Rightarrow> True)"
proof (cases "known_lookup d k")
  case None
  have len: "length (G k) \<le> d_max_symbol_bytes d" using g(3) by (simp add: genuine_symbolD)
  have "k \<notin> d_known_ids d" using None g(2) by (auto simp: known_lookup_def find_None_iff dec_inv_def)
  then have ins: "genuine G d2 \<and> d_max_symbol_bytes d2 = d_max_symbol_bytes d"
    if "insert_known d k (normalize_source_storage k source) n b1 = (d2, b2)" for n b1 d2 b2
    using genuine_insert_known [of G d "normalize_source_storage k source" n b1 d2 b2] g s len that
    by (simp add: known_ok_normalize)
  show ?thesis
    using r None g(1) s(1) genuine_symbolD [OF g(3)]
    by (auto simp: commit_recovered_precharged_def Let_def dest: ins split: if_splits sum.splits prod.splits)
next
  case (Some x)
  then have "bh_data (ks_bytes x) = G k"
    using g(1) by (auto simp: genuine_def known_lookup_def find_Some_iff)
  then show ?thesis
    using r Some g(1) s(1) genuine_symbolD [OF g(3)]
    by (auto simp: commit_recovered_precharged_def split: if_splits)
qed

subsection \<open>Runs fed by an honest sender\<close>

text \<open>
  The peer's sender encodes symbol \<open>k\<close> as \<open>G k\<close> and every repair from consecutive encoded symbols,
  under any identifiers and seeds.  The network may lose, duplicate and reorder all of them.  Each step is labelled with
  what the operation returned.
\<close>

inductive honest_step ::
  "(u32 \<Rightarrow> bytes) \<Rightarrow> decoder_life \<Rightarrow> fec_error + recovered_source list \<Rightarrow> decoder_life \<Rightarrow> bool" where
  honest_source: "genuine_symbol (d_max_symbol_bytes d) G k \<Longrightarrow> bh_data source = G k \<Longrightarrow> handle_ok source \<Longrightarrow>
    add_source d b k source wb = Some (res, d', b') \<Longrightarrow>
    honest_step G \<lparr>dl_decoder = d, dl_budget = b, dl_charges = cs\<rparr> (map_sum id rb_items res)
      \<lparr>dl_decoder = d', dl_budget = b',
       dl_charges = (case res of Inl _ \<Rightarrow> cs | Inr batch \<Rightarrow> rb_scratch batch # cs)\<rparr>"
| honest_repair: "\<forall>i < unat span. genuine_symbol (d_max_symbol_bytes d) G (repair_id_at first i) \<Longrightarrow>
    repair_symbol first repair_id seed (map (\<lambda>i. G (repair_id_at first i)) [0..<unat span]) = Inr coded \<Longrightarrow>
    add_repair d b first span repair_id seed coded wb = Some (res, d', b') \<Longrightarrow>
    honest_step G \<lparr>dl_decoder = d, dl_budget = b, dl_charges = cs\<rparr> (map_sum id rb_items res)
      \<lparr>dl_decoder = d', dl_budget = b',
       dl_charges = (case res of Inl _ \<Rightarrow> cs | Inr batch \<Rightarrow> rb_scratch batch # cs)\<rparr>"
| honest_split: "charge_split c n = Inr (c1, c2) \<Longrightarrow>
    honest_step G \<lparr>dl_decoder = d, dl_budget = b, dl_charges = cs @ c # cs'\<rparr> (Inr [])
      \<lparr>dl_decoder = d, dl_budget = b, dl_charges = cs @ c1 # c2 # cs'\<rparr>"
| honest_commit: "genuine_symbol (d_max_symbol_bytes d) G k \<Longrightarrow> bh_data source = G k \<Longrightarrow> handle_ok source \<Longrightarrow>
    commit_recovered_precharged d b k source c = (res, d', b') \<Longrightarrow>
    honest_step G \<lparr>dl_decoder = d, dl_budget = b, dl_charges = cs @ c # cs'\<rparr> (map_sum id (\<lambda>_. []) res)
      \<lparr>dl_decoder = d', dl_budget = b', dl_charges = cs @ cs'\<rparr>"
| honest_release: "honest_step G \<lparr>dl_decoder = d, dl_budget = b, dl_charges = cs @ c # cs'\<rparr> (Inr [])
      \<lparr>dl_decoder = d, dl_budget = charge_drop c b, dl_charges = cs @ cs'\<rparr>"

inductive honest_run ::
  "(u32 \<Rightarrow> bytes) \<Rightarrow> decoder_life \<Rightarrow> (fec_error + recovered_source list) list \<Rightarrow> decoder_life \<Rightarrow> bool" where
  honest_start: "honest_run G s [] s"
| honest_next: "honest_run G s outs t \<Longrightarrow> honest_step G t out u \<Longrightarrow> honest_run G s (outs @ [out]) u"

definition output_ok :: "(u32 \<Rightarrow> bytes) \<Rightarrow> nat \<Rightarrow> fec_error + recovered_source list \<Rightarrow> bool" where
  "output_ok G M out \<longleftrightarrow> (case out of Inl e \<Rightarrow> limits e | Inr items \<Rightarrow> genuine_items G M items)"

lemma honest_life: "honest_step G s out t \<Longrightarrow> life_step s t"
  by (induction rule: honest_step.induct) (auto intro: life_step.intros)

lemma genuine_result_output:
  assumes "genuine_result G d (Some (res, d', b'))"
  shows "genuine G d' \<and> d_max_symbol_bytes d' = d_max_symbol_bytes d \<and> output_ok G (d_max_symbol_bytes d) (map_sum id rb_items res)"
  using assms by (cases res) (auto simp: genuine_result_def output_ok_def)

lemma honest_step_genuine:
  assumes "honest_step G s out t" and "genuine G (dl_decoder s)" and "life_inv limit s"
  shows "genuine G (dl_decoder t) \<and> d_max_symbol_bytes (dl_decoder t) = d_max_symbol_bytes (dl_decoder s)
    \<and> output_ok G (d_max_symbol_bytes (dl_decoder s)) out"
  using assms
proof (induction rule: honest_step.induct)
  case (honest_source d G k source b wb res d' b' cs)
  then have "genuine_result G d (Some (res, d', b'))"
    using add_source_genuine [of G d k source b wb] by (simp add: life_inv_def)
  from genuine_result_output [OF this] show ?case by simp
next
  case (honest_repair span d G first repair_id seed coded b wb res d' b' cs)
  have "length coded \<le> d_max_symbol_bytes d"
    using repair_symbol_Inr(6) [OF honest_repair(2)] honest_repair(1) by (auto simp: genuine_symbol_def)
  then have "genuine_result G d (Some (res, d', b'))"
    using add_repair_genuine [of G d first repair_id seed span coded b wb] honest_repair by simp
  from genuine_result_output [OF this] show ?case by simp
next
  case (honest_commit d G k source b c res d' b' cs cs')
  then show ?case
    using commit_recovered_genuine [of G d k source b c res d' b']
    by (cases res) (auto simp: life_inv_def output_ok_def)
qed (auto simp: output_ok_def)

lemma honest_run_genuine:
  assumes "honest_run G s outs t" and "genuine G (dl_decoder s)" and "life_inv limit s"
  shows "genuine G (dl_decoder t) \<and> life_inv limit t
    \<and> d_max_symbol_bytes (dl_decoder t) = d_max_symbol_bytes (dl_decoder s)
    \<and> (\<forall>out \<in> set outs. output_ok G (d_max_symbol_bytes (dl_decoder s)) out)"
  using assms
proof (induction rule: honest_run.induct)
  case (honest_next G s outs t out u)
  then show ?case
    using honest_step_genuine [of G t out u limit] life_inv_step [OF honest_life] by auto
qed simp


subsection \<open>A single loss is repaired\<close>

lemma filter_singletonD: "filter P xs = [x] \<Longrightarrow> x \<in> set xs"
  using filter_is_subset [of P xs] by simp

lemma spend_ok: "w < b \<Longrightarrow> b \<le> usize_max \<Longrightarrow> spend w b = Inr (Suc w)"
  by (simp add: spend_def saturating_add_def Let_def)

lemma xor_loop_ok:
  "w + length ss \<le> b \<Longrightarrow> b \<le> usize_max \<Longrightarrow> length ss \<le> length ts \<Longrightarrow>
     \<exists>out. xor_loop ts ss f w b = Inr (out, w + length ss)"
proof (induction ts ss f w b rule: xor_loop.induct)
  case (1 t ts s ss f w b)
  then have "spend w b = Inr (Suc w)" by (intro spend_ok) simp_all
  moreover have "\<exists>out. xor_loop ts ss f (Suc w) b = Inr (out, Suc w + length ss)" using 1 by (intro "1.IH") simp_all
  ultimately show ?case by auto
qed auto

lemma scale_coefficients_ok:
  "w + length cs \<le> b \<Longrightarrow> b \<le> usize_max \<Longrightarrow>
     scale_coefficients cs f w b = Inr (map (\<lambda>(k, c). (k, multiply c f)) cs, w + length cs)"
  by (induction cs f w b rule: scale_coefficients.induct) (simp_all add: spend_ok)

lemma scale_bytes_ok:
  "w + length bs \<le> b \<Longrightarrow> b \<le> usize_max \<Longrightarrow>
     scale_bytes bs f w b = Inr (map (\<lambda>x. multiply x f) bs, w + length bs)"
  by (induction bs f w b rule: scale_bytes.induct) (simp_all add: spend_ok)

lemma reduce_single:
  assumes r: "r_coefficients r = [(k, c)]" "c \<noteq> 0" and b: "Suc (length (r_data r)) \<le> b" "b \<le> usize_max"
  defines "r' \<equiv> r\<lparr>r_coefficients := [(k, 1)], r_data := map (\<lambda>x. multiply x (gf_inverse c)) (r_data r)\<rparr>"
  shows "reduce [r] m b = Inr ([r'], [(k, r_data r')])"
proof -
  have scale: "scale_row r (gf_inverse c) 0 b = Inr (r', Suc (length (r_data r)))"
    using r b by (simp add: scale_row_def spend_ok scale_bytes_ok multiply_inverse r'_def)
  have clone: "clone_rows_bounded [r'] 0 0 m = Inr ([r'\<lparr>r_coefficients_cap := 1, r_data_cap := m\<rparr>], 1)"
    using b by (auto simp: clone_rows_bounded_Inr matrix_coefficient_count_def checked_add_def r'_def usize_max_def)
  have "reduce_round [r] 0 m 0 b = Inr (Some ([r'], Suc (length (r_data r))))"
    using r scale clone by (simp add: reduce_round_def swap_rows_def)
  then have "reduce_loop [r] 0 m 0 b = Inr [r']"
    by (simp add: reduce_loop.simps [of "[r]"] reduce_loop.simps [of "[r']"])
  then show ?thesis
    by (simp add: reduce_def collect_recovered_eq false_row_def row_symbol_def r'_def bounded_vec_def
        vec_with_capacity_def size_of_recovered_pair_def)
qed

lemma repair_equation_ok:
  assumes "\<forall>i \<in> set is. \<forall>s. known_lookup d (repair_id_at first i) = Some s \<longrightarrow> length (bh_data (ks_bytes s)) \<le> length data"
    and "w + length is * length data \<le> b" and "b \<le> usize_max"
  shows "\<exists>cs' data' w'. repair_equation d first repair_id seed is cs data w b = Inr (cs', data', w')
    \<and> w' \<le> w + length is * length data"
  using assms(1,2)
proof (induction "is" arbitrary: cs data w)
  case Nil
  then show ?case by simp
next
  case (Cons i "is")
  show ?case
  proof (cases "known_lookup d (repair_id_at first i)")
    case None
    then show ?thesis
      using Cons.prems Cons.IH [of data w "cs @ [(repair_id_at first i, coefficient seed repair_id (repair_id_at first i))]"]
      by (fastforce simp: Let_def)
  next
    case (Some s)
    let ?c = "coefficient seed repair_id (repair_id_at first i)"
    have len: "length (bh_data (ks_bytes s)) \<le> length data" using Cons.prems(1) Some by simp
    then obtain out where x: "xor_scaled data (bh_data (ks_bytes s)) ?c w b = Inr (out, w + length (bh_data (ks_bytes s)))"
      using xor_loop_ok [of w "bh_data (ks_bytes s)" b data ?c] Cons.prems(2) assms(3) by (auto simp: xor_scaled_def)
    have lo: "length out = length data" using x len xor_loop_Inr by (auto simp: xor_scaled_def)
    have "\<exists>cs' data' w'. repair_equation d first repair_id seed is cs out (w + length (bh_data (ks_bytes s))) b = Inr (cs', data', w')
      \<and> w' \<le> w + length (bh_data (ks_bytes s)) + length is * length out"
      using Cons.prems len lo by (intro Cons.IH) auto
    then show ?thesis using x len lo Some by (fastforce simp: Let_def)
  qed
qed

text \<open>The matrix work of a repair whose window misses one symbol.\<close>

lemma add_repair_matrix_single:
  assumes g: "genuine G d" "d_rows d = []"
    and coded: "repair_symbol first repair_id seed (map (\<lambda>i. G (repair_id_at first i)) [0..<unat span]) = Inr coded"
    and window: "\<forall>i < unat span. genuine_symbol (d_max_symbol_bytes d) G (repair_id_at first i)"
    and M: "length coded \<le> d_max_symbol_bytes d"
    and lost: "filter (\<lambda>(k, _). known_lookup d k = None) (window_form first repair_id seed [0..<unat span]) = [(k, c)]"
    and budget: "w + unat span * length coded + Suc (length coded) \<le> wb" "wb \<le> usize_max"
  shows "add_repair_matrix d first span repair_id seed coded w wb =
    Inr (Some ([], [\<lparr>rs_symbol_id = k, rs_bytes = G k, rs_retained_bytes = length (G k)\<rparr>], size_of_row))"
proof -
  let ?M = "d_max_symbol_bytes d"
  have known: "\<forall>s \<in> set (d_known d). bh_data (ks_bytes s) = G (ks_symbol_id s)" using g by (simp add: genuine_def)
  have len: "\<forall>i \<in> set [0..<unat span]. length (G (repair_id_at first i)) \<le> length coded"
    using repair_symbol_Inr(5) [OF coded] by simp
  have "\<forall>i \<in> set [0..<unat span]. \<forall>s. known_lookup d (repair_id_at first i) = Some s \<longrightarrow> length (bh_data (ks_bytes s)) \<le> length coded"
    using known len by (auto simp: known_lookup_def find_Some_iff)
  from repair_equation_ok [OF this, of w wb repair_id seed "[]"] obtain cs data w1
    where eq: "repair_equation d first repair_id seed [0..<unat span] [] coded w wb = Inr (cs, data, w1)"
      and w1: "w1 \<le> w + unat span * length coded" using budget by auto
  have cs: "cs = [(k, c)]" and data: "length data = length coded"
    using repair_equation_genuine [OF known len, where repair_id = repair_id and seed = seed and cs = "[]" and w = w and b = wb]
      eq lost by auto
  have "(k, c) \<in> set (window_form first repair_id seed [0..<unat span])"
    using lost by (rule filter_singletonD)
  then have "c \<noteq> 0" using coefficient_nonzero by (auto simp: window_form_def)
  let ?row = "\<lparr>r_coefficients = sort_key fst cs, r_coefficients_cap = unat span, r_data = data, r_data_cap = ?M\<rparr>"
  note row = repair_row_genuine [OF eq known coded window M, of "unat span" ?M]
  let ?x = "map (\<lambda>x. multiply x (gf_inverse c)) data"
  have red: "reduce [?row] ?M (wb - w1) =
      Inr ([?row\<lparr>r_coefficients := [(k, 1)], r_data := ?x\<rparr>], [(k, ?x)])"
    using reduce_single [of ?row k c "wb - w1" ?M] cs data w1 budget \<open>c \<noteq> 0\<close> by simp
  have sol: "solves (value_of G) [?row]" and inv: "\<forall>r \<in> set [?row]. genuine_row ?M G r"
    using row by (simp_all add: solves_def)
  have "(\<forall>j. pad ?x j = pad (G k) j) \<and> length (G k) \<le> length ?x \<and> length ?x \<le> ?M \<and> genuine_symbol ?M G k"
    using reduce_sound [OF red inv sol, of k ?x] by (simp add: value_of_def)
  then have can: "canonical_recovered [(k, ?x)] ?M =
      Inr [\<lparr>rs_symbol_id = k, rs_bytes = G k, rs_retained_bytes = length (G k)\<rparr>]"
    using canonical_recovered_genuine [of ?M "[(k, ?x)]" G] g(1) by (simp add: genuine_def del: canonical_recovered.simps)
  have val: "validate_recovered (d_known d) [\<lparr>rs_symbol_id = k, rs_bytes = G k, rs_retained_bytes = length (G k)\<rparr>] = Inr ()"
    using known by (auto simp: validate_recovered_def split: option.splits dest!: find_Some_iff [THEN iffD1])
  have "reduce_and_recover d [?row] 1 (wb - w1) =
      Inr ([], [\<lparr>rs_symbol_id = k, rs_bytes = G k, rs_retained_bytes = length (G k)\<rparr>], size_of_row)"
    using red can val
    by (simp add: reduce_and_recover_def row_storage_bytes_def checked_mul_def size_of_row_def usize_max_def
        del: canonical_recovered.simps)
  then show ?thesis
    using eq g(2) cs
    by (simp add: add_repair_matrix_def matrix_coefficient_count_def bounded_vec_def vec_with_capacity_def
        size_of_coefficient_def size_of_row_def clone_rows_bounded_def checked_add_def usize_max_def Let_def)
qed

lemma scratch_memory_bytes_single:
  assumes "d_rows d = []" and "4 * d_max_symbol_bytes d + 16 * n + 184 \<le> usize_max"
  shows "scratch_memory_bytes d 1 n 0 = Inr (4 * d_max_symbol_bytes d + 16 * n + 184)"
  using assms
  by (simp add: scratch_memory_bytes_def matrix_coefficient_count_def checked_add_def checked_mul_def
      size_of_row_def size_of_coefficient_def size_of_recovered_pair_def size_of_recovered_source_def)

lemma add_repair_single:
  assumes d: "d_rows d = []" "0 < d_max_rows d" and span: "span \<noteq> 0" "\<not> MAX_REPAIR_SPAN < span"
    and coded: "coded \<noteq> []" "length coded \<le> d_max_symbol_bytes d"
    and wb: "length coded + unat span \<le> wb" "wb \<le> usize_max"
    and memory: "mb_used b + (4 * d_max_symbol_bytes d + 16 * unat span + 184) \<le> mb_limit b" "mb_limit b < 2 ^ 64"
    and m: "add_repair_matrix d first span repair_id seed coded (length coded + unat span) wb =
      Inr (Some ([], [\<lparr>rs_symbol_id = k, rs_bytes = x, rs_retained_bytes = length x\<rparr>], size_of_row))"
    and x: "length x \<le> d_max_symbol_bytes d"
  shows "\<exists>batch d' b'. add_repair d b first span repair_id seed coded wb = Some (Inr batch, d', b')
    \<and> rb_items batch = [\<lparr>rs_symbol_id = k, rs_bytes = x, rs_retained_bytes = length x\<rparr>]
    \<and> d_known d' = d_known d \<and> d_rows d' = []"
proof -
  let ?n = "4 * d_max_symbol_bytes d + 16 * unat span + 184"
  let ?it = "\<lparr>rs_symbol_id = k, rs_bytes = x, rs_retained_bytes = length x\<rparr>"
  have cap: "?n \<le> usize_max" using memory by (simp add: usize_max_def)
  let ?s = "\<lparr>ch_budget = mb_id b, ch_bytes = ?n\<rparr>" and ?b1 = "b\<lparr>mb_used := mb_used b + ?n\<rparr>"
  have new: "scratch_new b ?n = Inr (?s, ?b1)"
    using memory by (simp add: scratch_new_def charge_reserve_def try_reserve_def checked_add_def usize_max_def)
  have "\<exists>c b2. batch_new [?it] ?s (size_of_row - d_row_bytes d) ?b1
      = (Inr \<lparr>rb_items = [?it], rb_retained_bytes = 48 + length x, rb_scratch = c\<rparr>, b2) \<and> 48 + length x \<le> ch_bytes c"
    using x cap
    by (auto simp: batch_new_def batch_retained_def checked_mul_def checked_add_def size_of_recovered_source_def
        size_of_row_def scratch_ensure_def charge_grow_def charge_transfer_def usize_max_def)
  then obtain c b2 where bn: "batch_new [?it] ?s (size_of_row - d_row_bytes d) ?b1
      = (Inr \<lparr>rb_items = [?it], rb_retained_bytes = 48 + length x, rb_scratch = c\<rparr>, b2)" "48 + length x \<le> ch_bytes c"
    by blast
  have wb2: "length coded + unat span \<le> usize_max" using wb by simp
  show ?thesis
    using d span coded wb wb2 bn m new scratch_memory_bytes_single [OF d(1) cap]
    by (simp add: add_repair_def matrix_clone_work_def checked_add_def ensure_def install_rows_def
        shrink_after_state_transition_def charge_shrink_def)
qed


subsection \<open>Properties\<close>

text \<open>C11: recovery from an honest sender is sound.  Whatever is lost, duplicated or reordered, every
  symbol the decoder ever recovers is, octet for octet and without padding, the datagram its sender encoded for
  that identifier; and the only errors are resource limits: an honest repair is never called contradictory.\<close>

theorem recovery_sound:
  assumes "0 < max_symbols" and "M \<le> usize_max"
    and "honest_run G \<lparr>dl_decoder = decoder_with_budget max_symbols max_rows M,
        dl_budget = budget_new ident limit, dl_charges = []\<rparr> outs s"
    and "out \<in> set outs"
  shows "case out of
      Inl e \<Rightarrow> e = WorkBudget \<or> e = MemoryCapacity \<or> e = RowCapacity
    | Inr items \<Rightarrow> (\<forall>it \<in> set items. rs_bytes it = G (rs_symbol_id it))"
proof -
  have "genuine G (decoder_with_budget max_symbols max_rows M)"
    using assms(2) by (simp add: genuine_def decoder_with_budget_def solves_def)
  then have "output_ok G M out"
    using honest_run_genuine [OF assms(3) _ life_inv_start [OF assms(1)]] assms(4)
    by (auto simp: decoder_with_budget_def)
  then show ?thesis by (cases out) (auto simp: output_ok_def limits_def genuine_items_def)
qed

text \<open>A connection grants \<open>grant * M\<close> steps, where \<open>grant\<close> is its configured work budget and \<open>M\<close> its symbol size.  That covers the recovery of a
  single loss for windows of up to \<open>grant - 3\<close> symbols; a longer window may exceed it.\<close>

lemma granted_work:
  assumes "span + 3 \<le> grant" and "span + 1 \<le> M" and "len \<le> (M :: nat)"
  shows "(span + 2) * len + span + 1 \<le> grant * M"
proof -
  have "(span + 2) * len + span + 1 \<le> (span + 2) * M + M" using mult_le_mono2 [OF assms(3), of "span + 2"] assms(2) by simp
  also have "\<dots> = (span + 3) * M" by (simp add: algebra_simps)
  also have "\<dots> \<le> grant * M" by (rule mult_le_mono1 [OF assms(1)])
  finally show ?thesis .
qed

text \<open>C12: a single loss is repaired by a decoder that has the means.  Suppose no equation is pending, at least one row is
  allowed, all but one symbol of the window of an honest repair are known, the caller grants at least \<open>(span + 2) * size + span + 1\<close> steps of work, where
  \<open>size\<close> is the length of the repair, and the shared budget has \<open>4 * M + 16 * span + 184\<close> octets free for symbols of at most \<open>M\<close>
  octets.  Then the repair makes the decoder output exactly the missing datagram, and no equation stays behind.\<close>

theorem single_loss_recovered:
  assumes g: "genuine G d" "d_rows d = []" "0 < d_max_rows d"
    and coded: "repair_symbol first repair_id seed (map (\<lambda>i. G (repair_id_at first i)) [0..<unat span]) = Inr coded"
    and window: "\<forall>i < unat span. genuine_symbol (d_max_symbol_bytes d) G (repair_id_at first i)"
    and lost: "filter (\<lambda>k. known_lookup d k = None) (map (repair_id_at first) [0..<unat span]) = [k]"
    and work: "(unat span + 2) * length coded + unat span + 1 \<le> wb" "wb \<le> usize_max"
    and memory: "mb_used b + (4 * d_max_symbol_bytes d + 16 * unat span + 184) \<le> mb_limit b" "mb_limit b < 2 ^ 64"
  shows "\<exists>batch d' b'. add_repair d b first span repair_id seed coded wb = Some (Inr batch, d', b')
    \<and> rb_items batch = [\<lparr>rs_symbol_id = k, rs_bytes = G k, rs_retained_bytes = length (G k)\<rparr>]
    \<and> d_known d' = d_known d \<and> d_rows d' = []"
proof -
  let ?M = "d_max_symbol_bytes d"
  let ?it = "\<lparr>rs_symbol_id = k, rs_bytes = G k, rs_retained_bytes = length (G k)\<rparr>"
  note rs = repair_symbol_Inr [OF coded]
  have span: "span \<noteq> 0" "\<not> MAX_REPAIR_SPAN < span"
    using rs(1,2) by (auto simp: MAX_REPAIR_SPAN_def word_less_nat_alt)
  have M: "length coded \<le> ?M" using rs(6) window by (auto simp: genuine_symbol_def)
  have "filter (\<lambda>(k, _). known_lookup d k = None) (window_form first repair_id seed [0..<unat span])
      = map (\<lambda>k. (k, coefficient seed repair_id k)) (filter (\<lambda>k. known_lookup d k = None) (map (repair_id_at first) [0..<unat span]))"
    by (simp add: window_form_def filter_map comp_def)
  then have lost': "filter (\<lambda>(k, _). known_lookup d k = None) (window_form first repair_id seed [0..<unat span])
      = [(k, coefficient seed repair_id k)]" using lost by simp
  have m: "add_repair_matrix d first span repair_id seed coded (length coded + unat span) wb = Inr (Some ([], [?it], size_of_row))"
    by (rule add_repair_matrix_single [OF g(1,2) coded window M lost' _ work(2)]) (use work(1) in \<open>simp add: algebra_simps\<close>)
  have k: "length (G k) \<le> ?M"
  proof -
    have "k \<in> set (map (repair_id_at first) [0..<unat span])"
      using lost by (rule filter_singletonD)
    then show ?thesis using window by (auto simp: genuine_symbol_def)
  qed
  have wb: "length coded + unat span \<le> wb" using work(1) by (simp add: algebra_simps)
  show ?thesis
    by (rule add_repair_single [OF g(2,3) span rs(3) M wb work(2) memory m k])
qed


text \<open>A concrete sender and a decoder that has received symbol 5 and lost symbol 6.\<close>

definition demo_sender :: "u32 \<Rightarrow> bytes" where
  "demo_sender k = source_wire k [\<lparr>sr_flow_id = 7, sr_offset = 100, sr_fin = True, sr_data = [8, 9]\<rparr>]"

definition demo_decoder :: decoder where
  "demo_decoder = (decoder_with_budget 4 4 64)\<lparr>d_known := [\<lparr>ks_symbol_id = 5,
      ks_bytes = \<lparr>bh_data = demo_sender 5, bh_unique = True, bh_capacity = 13\<rparr>, ks_retained_bytes = 13\<rparr>],
     d_known_ids := {5}\<rparr>"

lemma demo_sender_length: "length (demo_sender k) = 13"
  by (simp add: demo_sender_def source_wire_def record_wire_def encode_varint_def bool_byte_def)

lemma demo_sender_genuine: "genuine_symbol 64 demo_sender k"
proof -
  have "source_ok MAX_SOURCE_RECORDS [\<lparr>sr_flow_id = 7, sr_offset = 100, sr_fin = True, sr_data = [8, 9]\<rparr>]"
    by (simp add: source_ok_def record_ok_def MAX_WIRE_OFFSET_def MAX_SOURCE_RECORDS_def)
  then show ?thesis
    unfolding genuine_symbol_def using demo_sender_length [of k] by (auto simp: demo_sender_def)
qed

lemma demo_decoder_simps [simp]:
  "d_max_symbol_bytes demo_decoder = 64" "d_rows demo_decoder = []" "d_max_rows demo_decoder = 4"
  by (simp_all add: demo_decoder_def decoder_with_budget_def)

lemma demo_decoder_genuine: "genuine demo_sender demo_decoder"
  by (simp add: genuine_def demo_decoder_def decoder_with_budget_def solves_def usize_max_def)

lemma demo_repair:
  obtains coded where "repair_symbol 5 1 9 (map (\<lambda>i. demo_sender (repair_id_at 5 i)) [0..<unat (2 :: u16)]) = Inr coded"
    and "length coded = 13"
proof -
  have two: "[0..<unat (2 :: u16)] = [0, 1]" by (simp add: upt_rec)
  obtain coded where c: "repair_symbol 5 1 9 (map (\<lambda>i. demo_sender (repair_id_at 5 i)) [0..<unat (2 :: u16)]) = Inr coded"
    by (simp add: two repair_symbol_def MAX_REPAIR_SPAN_def demo_sender_length)
  from repair_symbol_Inr(6) [OF c] c show ?thesis using that by (auto simp: demo_sender_length)
qed

theorem single_loss_recovered_witness:
  "\<exists>coded batch d' b'. add_repair demo_decoder ((budget_new 0 1000)\<lparr>mb_used := 13\<rparr>) 5 2 1 9 coded 200 = Some (Inr batch, d', b')
     \<and> rb_items batch = [\<lparr>rs_symbol_id = 6, rs_bytes = demo_sender 6, rs_retained_bytes = length (demo_sender 6)\<rparr>]
     \<and> d_known d' = d_known demo_decoder \<and> d_rows d' = []"
proof -
  obtain coded where c: "repair_symbol 5 1 9 (map (\<lambda>i. demo_sender (repair_id_at 5 i)) [0..<unat (2 :: u16)]) = Inr coded"
    and l: "length coded = 13" by (rule demo_repair)
  have "\<exists>batch d' b'. add_repair demo_decoder ((budget_new 0 1000)\<lparr>mb_used := 13\<rparr>) 5 2 1 9 coded 200 = Some (Inr batch, d', b')
     \<and> rb_items batch = [\<lparr>rs_symbol_id = 6, rs_bytes = demo_sender 6, rs_retained_bytes = length (demo_sender 6)\<rparr>]
     \<and> d_known d' = d_known demo_decoder \<and> d_rows d' = []"
  proof (rule single_loss_recovered [OF demo_decoder_genuine _ _ c])
    show "filter (\<lambda>k. known_lookup demo_decoder k = None) (map (repair_id_at 5) [0..<unat (2 :: u16)]) = [6]"
      by (simp add: upt_rec repair_id_at_def known_lookup_def demo_decoder_def decoder_with_budget_def)
  qed (simp_all add: demo_sender_genuine l usize_max_def budget_new_def)
  then show ?thesis by blast
qed

text \<open>The run: symbol 5 arrives, symbol 6 is lost, one repair over both.\<close>

lemma demo_source_step:
  "add_source (decoder_with_budget 4 4 64) (budget_new 0 1000) 5
     \<lparr>bh_data = demo_sender 5, bh_unique = True, bh_capacity = 13\<rparr> 200
   = Some (Inr (batch_empty ((budget_new 0 1000)\<lparr>mb_used := 13\<rparr>)), demo_decoder, (budget_new 0 1000)\<lparr>mb_used := 13\<rparr>)"
proof -
  have "demo_sender 5 \<noteq> []" using demo_sender_length [of 5] by auto
  then show ?thesis
    by (simp add: add_source_def add_source_without_rows_def decoder_with_budget_def source_status_def demo_decoder_def
        scratch_new_def scratch_ensure_def charge_reserve_def charge_grow_def charge_transfer_def charge_drop_def
        try_reserve_def release_def budget_new_def checked_add_def usize_max_def normalize_source_storage_def
        known_memory_delta_def evicted_known_bytes_def insert_known_def batch_empty_def evict_front.simps Let_def
        demo_sender_length)
qed

theorem recovery_sound_witness:
  "\<exists>items s. items \<noteq> [] \<and> list_all (\<lambda>it. rs_bytes it = demo_sender (rs_symbol_id it)) items
    \<and> honest_run demo_sender \<lparr>dl_decoder = decoder_with_budget 4 4 64, dl_budget = budget_new 0 1000, dl_charges = []\<rparr>
        [Inr [], Inr items] s"
proof -
  let ?b = "(budget_new 0 1000)\<lparr>mb_used := 13\<rparr>" and ?s0 = "\<lparr>dl_decoder = decoder_with_budget 4 4 64, dl_budget = budget_new 0 1000, dl_charges = []\<rparr>"
  obtain coded where c: "repair_symbol 5 1 9 (map (\<lambda>i. demo_sender (repair_id_at 5 i)) [0..<unat (2 :: u16)]) = Inr coded"
    and l: "length coded = 13" by (rule demo_repair)
  have lost: "filter (\<lambda>(k, _). known_lookup demo_decoder k = None) (window_form 5 1 9 [0..<unat (2 :: u16)]) = [(6, coefficient 9 1 6)]"
    by (simp add: upt_rec window_form_def repair_id_at_def known_lookup_def demo_decoder_def decoder_with_budget_def)
  have m: "add_repair_matrix demo_decoder 5 2 1 9 coded (length coded + unat (2 :: u16)) 200 =
      Inr (Some ([], [\<lparr>rs_symbol_id = 6, rs_bytes = demo_sender 6, rs_retained_bytes = length (demo_sender 6)\<rparr>], size_of_row))"
    by (rule add_repair_matrix_single [OF demo_decoder_genuine _ c _ _ lost]) (simp_all add: demo_sender_genuine l usize_max_def)
  have "coded \<noteq> []" using l by auto
  then obtain batch d' b' where a: "add_repair demo_decoder ?b 5 2 1 9 coded 200 = Some (Inr batch, d', b')"
      and i: "rb_items batch = [\<lparr>rs_symbol_id = 6, rs_bytes = demo_sender 6, rs_retained_bytes = length (demo_sender 6)\<rparr>]"
    using add_repair_single [OF _ _ _ _ _ _ _ _ _ _ m, of ?b] l
    by (auto simp: MAX_REPAIR_SPAN_def usize_max_def budget_new_def demo_sender_length)
  let ?s1 = "\<lparr>dl_decoder = demo_decoder, dl_budget = ?b, dl_charges = [rb_scratch (batch_empty ?b)]\<rparr>"
  have "honest_step demo_sender ?s0 (Inr []) ?s1"
    using honest_source [OF _ _ _ demo_source_step, of demo_sender "[]"]
    by (simp add: demo_sender_genuine handle_ok_def demo_sender_length decoder_with_budget_def)
  from honest_next [OF honest_start this]
  have r1: "honest_run demo_sender ?s0 [Inr []] ?s1" by simp
  have "honest_step demo_sender ?s1 (Inr (rb_items batch))
      \<lparr>dl_decoder = d', dl_budget = b', dl_charges = [rb_scratch batch, rb_scratch (batch_empty ?b)]\<rparr>"
    using honest_repair [OF _ c a, of "[rb_scratch (batch_empty ?b)]"] by (simp add: demo_sender_genuine)
  from honest_next [OF r1 this]
  have r2: "honest_run demo_sender ?s0 [Inr [], Inr (rb_items batch)] \<lparr>dl_decoder = d', dl_budget = b',
       dl_charges = [rb_scratch batch, rb_scratch (batch_empty ?b)]\<rparr>"
    by simp
  have "list_all (\<lambda>it. rs_bytes it = demo_sender (rs_symbol_id it)) (rb_items batch)"
    using recovery_sound [OF _ _ r2, of "Inr (rb_items batch)"] by (simp add: usize_max_def list_all_iff)
  moreover have "rb_items batch \<noteq> []" using i by simp
  ultimately show ?thesis using r2 by (intro exI conjI)
qed

end
