(* ===== verification/Ack_Ranges.thy ===== *)
theory Ack_Ranges
  imports Wire_Codec Memory_Budget
begin

section \<open>Received and acknowledged offsets (src/recovery.rs)\<close>

text \<open>
  Logical stream offsets are \<open>u64\<close> values bounded by \<open>MAX_WIRE_OFFSET\<close>; they are natural numbers here and
  every sum the code checks is checked.  \<open>AckRanges\<close> holds a contiguous prefix and a bounded, ascending list of later ranges;
  it is related to the set of offsets it stands for.  The locale \<open>received_set\<close> is the contract the
  flow relies on.
\<close>

type_synonym u64_range = "nat \<times> nat"

definition wire_max :: nat where "wire_max = unat MAX_WIRE_OFFSET"

lemma wire_max_value: "wire_max = 2 ^ 62 - 1"
  by (simp add: wire_max_def MAX_WIRE_OFFSET_def)

definition checked_end :: "nat \<Rightarrow> usize \<Rightarrow> recovery_error + nat" where
  "checked_end offset len =
     ok_or (case checked_add offset len of None \<Rightarrow> None | Some e \<Rightarrow> if e \<le> wire_max then Some e else None)
       OffsetOverflow"

definition validate_range :: "u64_range \<Rightarrow> recovery_error + unit" where
  "validate_range r = (if snd r \<le> fst r \<or> wire_max < snd r then Inl InvalidRange else Inr ())"

lemma checked_end_Inr: "checked_end offset len = Inr e \<longleftrightarrow> e = offset + len \<and> offset + len \<le> wire_max"
  by (auto simp: checked_end_def ok_or_def checked_add_def wire_max_value usize_max_def split: option.splits)

lemma checked_end_Inl: "checked_end offset len = Inl e \<longleftrightarrow> e = OffsetOverflow \<and> wire_max < offset + len"
  by (auto simp: checked_end_def ok_or_def checked_add_def wire_max_value usize_max_def split: option.splits)

lemma checked_end_ok: "offset + len \<le> wire_max \<Longrightarrow> checked_end offset len = Inr (offset + len)"
  by (simp add: checked_end_Inr)

definition end_or_max :: "nat \<Rightarrow> usize \<Rightarrow> nat" where
  "end_or_max offset len = (case checked_end offset len of Inl _ \<Rightarrow> wire_max | Inr e \<Rightarrow> e)"

lemma end_or_max_ok: "k + n \<le> wire_max \<Longrightarrow> end_or_max k n = k + n"
  by (simp add: end_or_max_def checked_end_ok)

lemma validate_range_Inr: "validate_range r = Inr () \<longleftrightarrow> fst r < snd r \<and> snd r \<le> wire_max"
  by (auto simp: validate_range_def)

subsection \<open>Acknowledged ranges\<close>

record ack_ranges =
  ak_contiguous :: nat
  ak_ranges :: "u64_range list"
  ak_max_ranges :: usize

definition ack_new :: "usize \<Rightarrow> ack_ranges" where
  "ack_new max_ranges = \<lparr>ak_contiguous = 0, ak_ranges = [], ak_max_ranges = max_ranges\<rparr>"

definition validate_insert :: "ack_ranges \<Rightarrow> u64_range \<Rightarrow> recovery_error + unit" where
  "validate_insert a rng =
     rbind (validate_range rng) (\<lambda>_.
       if snd rng \<le> ak_contiguous a \<or> length (ak_ranges a) < ak_max_ranges a then Inr ()
       else let start = max (fst rng) (ak_contiguous a) in
         if list_ex (\<lambda>(s, e). start \<le> e \<and> s \<le> snd rng) (ak_ranges a) then Inr () else Inl RangeCapacity)"

text \<open>The loop that swallows the ranges touching the new one, and the loop that moves the
  contiguous offset over the ranges it reaches.\<close>

fun merge_ranges :: "u64_range \<Rightarrow> u64_range list \<Rightarrow> u64_range \<times> u64_range list" where
  "merge_ranges (ms, me) [] = ((ms, me), [])"
| "merge_ranges (ms, me) ((s, e) # rest) =
     (if s \<le> me then merge_ranges (min ms s, max me e) rest else ((ms, me), (s, e) # rest))"

fun absorb_ranges :: "nat \<Rightarrow> u64_range list \<Rightarrow> nat \<times> u64_range list" where
  "absorb_ranges c [] = (c, [])"
| "absorb_ranges c ((s, e) # rest) = (if s \<le> c then absorb_ranges (max c e) rest else (c, (s, e) # rest))"

definition ack_insert :: "ack_ranges \<Rightarrow> u64_range \<Rightarrow> recovery_error + ack_ranges" where
  "ack_insert a rng =
     rbind (validate_insert a rng) (\<lambda>_.
       if snd rng \<le> ak_contiguous a then Inr a
       else let merged = (max (fst rng) (ak_contiguous a), snd rng);
                before = takeWhile (\<lambda>(_, e). e < fst merged) (ak_ranges a);
                (merged', after) = merge_ranges merged (drop (length before) (ak_ranges a));
                (contiguous, ranges) = absorb_ranges (ak_contiguous a) (before @ merged' # after)
            in Inr (a\<lparr>ak_contiguous := contiguous, ak_ranges := ranges\<rparr>))"

fun ack_insert_all :: "ack_ranges \<Rightarrow> u64_range list \<Rightarrow> nat \<Rightarrow> recovery_error + ack_ranges" where
  "ack_insert_all a [] sent = Inr a"
| "ack_insert_all a (rng # rest) sent =
     (if sent < snd rng then Inl InvalidRange
      else rbind (ack_insert a rng) (\<lambda>a'. ack_insert_all a' rest sent))"

definition ack_from_wire :: "nat \<Rightarrow> u64_range list \<Rightarrow> usize \<Rightarrow> nat \<Rightarrow> recovery_error + ack_ranges" where
  "ack_from_wire contiguous ranges max_ranges sent =
     (if sent < contiguous \<or> max_ranges < length ranges then Inl InvalidRange
      else ack_insert_all ((ack_new max_ranges)\<lparr>ak_contiguous := contiguous\<rparr>) ranges sent)"

subsection \<open>The set of acknowledged offsets\<close>

definition range_set :: "u64_range list \<Rightarrow> nat set" where
  "range_set rs = (\<Union>(s, e) \<in> set rs. {s..<e})"

definition ack_set :: "ack_ranges \<Rightarrow> nat set" where
  "ack_set a = {..<ak_contiguous a} \<union> range_set (ak_ranges a)"

text \<open>Ascending, non-empty, with a gap before each rng.\<close>

fun gapped :: "nat \<Rightarrow> u64_range list \<Rightarrow> bool" where
  "gapped lo [] \<longleftrightarrow> True"
| "gapped lo ((s, e) # rest) \<longleftrightarrow> lo < s \<and> s < e \<and> gapped e rest"

definition ack_inv :: "ack_ranges \<Rightarrow> bool" where
  "ack_inv a \<longleftrightarrow> gapped (ak_contiguous a) (ak_ranges a) \<and> length (ak_ranges a) \<le> ak_max_ranges a
     \<and> list_all (\<lambda>(_, e). e \<le> wire_max) (ak_ranges a)"

lemma range_set_simps [simp]: "range_set [] = {}" "range_set ((s, e) # rs) = {s..<e} \<union> range_set rs"
  "range_set (xs @ ys) = range_set xs \<union> range_set ys"
  by (auto simp: range_set_def)

lemma gapped_mono: "gapped lo rs \<Longrightarrow> lo' \<le> lo \<Longrightarrow> gapped lo' rs"
  by (cases rs) auto

lemma gapped_above: "gapped lo rs \<Longrightarrow> (s, e) \<in> set rs \<Longrightarrow> lo < s \<and> s < e"
  by (induction lo rs rule: gapped.induct) (auto dest: order.strict_trans)

lemma gapped_append:
  "gapped lo (xs @ ys) \<longleftrightarrow> gapped lo xs \<and> gapped (if xs = [] then lo else snd (last xs)) ys"
  by (induction lo xs rule: gapped.induct) auto

fun chained :: "u64_range list \<Rightarrow> bool" where
  "chained [] \<longleftrightarrow> True"
| "chained ((s, e) # rest) \<longleftrightarrow> s < e \<and> gapped e rest"

lemma chained_gapped: "gapped lo rs \<Longrightarrow> chained rs"
  by (cases rs) auto

lemma merge_ranges_spec:
  assumes "merge_ranges (ms, me) rs = ((ms', me'), rest)" and "chained rs" and "ms < me"
    and "rs \<noteq> [] \<longrightarrow> ms \<le> snd (hd rs)"
  shows "{ms'..<me'} \<union> range_set rest = {ms..<me} \<union> range_set rs \<and> chained ((ms', me') # rest)
    \<and> (\<forall>lo. lo < ms \<and> gapped lo rs \<longrightarrow> lo < ms')
    \<and> length rest \<le> length rs \<and> (rs \<noteq> [] \<and> fst (hd rs) \<le> me \<longrightarrow> length rest < length rs)
    \<and> (\<forall>M. me \<le> M \<and> list_all (\<lambda>(_, e). e \<le> M) rs \<longrightarrow> me' \<le> M \<and> list_all (\<lambda>(_, e). e \<le> M) rest)"
  using assms
proof (induction "(ms, me)" rs arbitrary: ms me rule: merge_ranges.induct)
  case 1
  then show ?case by auto
next
  case (2 ms me s e rs)
  show ?case
  proof (cases "s \<le> me")
    case True
    have m: "merge_ranges (min ms s, max me e) rs = ((ms', me'), rest)" using 2 True by simp
    have r: "rs \<noteq> [] \<longrightarrow> min ms s \<le> snd (hd rs)"
      using 2(3) by (cases rs) (auto simp: min_def)
    have g: "chained rs" using 2(3) chained_gapped by auto
    have "min ms s < max me e" using 2 by auto
    note IH = 2(1) [OF True m g this r]
    have u: "{min ms s..<max me e} = {ms..<me} \<union> {s..<e}" using 2 True by auto
    have lo: "lo < ms'" if "lo < ms" "gapped lo ((s, e) # rs)" for lo
      using that IH gapped_mono [of e rs lo] by auto
    show ?thesis using IH u True lo by auto
  next
    case False
    then show ?thesis using 2 by auto
  qed
qed

lemma absorb_ranges_spec:
  assumes "absorb_ranges c rs = (c', rs')" and "chained rs"
  shows "{..<c'} \<union> range_set rs' = {..<c} \<union> range_set rs \<and> gapped c' rs' \<and> length rs' \<le> length rs
    \<and> set rs' \<subseteq> set rs \<and> c \<le> c' \<and> (\<forall>M. c \<le> M \<and> list_all (\<lambda>(_, e). e \<le> M) rs \<longrightarrow> c' \<le> M)"
  using assms
proof (induction c rs rule: absorb_ranges.induct)
  case (2 c s e rest)
  show ?case
  proof (cases "s \<le> c")
    case True
    have "chained rest" using 2(3) chained_gapped by auto
    with 2 True have IH: "{..<c'} \<union> range_set rs' = {..<max c e} \<union> range_set rest \<and> gapped c' rs' \<and> length rs' \<le> length rest
      \<and> set rs' \<subseteq> set rest \<and> max c e \<le> c' \<and> (\<forall>M. max c e \<le> M \<and> list_all (\<lambda>(_, e). e \<le> M) rest \<longrightarrow> c' \<le> M)" by simp
    moreover have "{..<max c e} = {..<c} \<union> {s..<e}" using True by auto
    ultimately show ?thesis by auto
  next
    case False
    then show ?thesis using 2 by auto
  qed
qed auto

lemma chained_append: "xs \<noteq> [] \<Longrightarrow> chained (xs @ ys) \<longleftrightarrow> chained xs \<and> gapped (snd (last xs)) ys"
  by (cases xs) (auto simp: gapped_append)

lemma ack_insert_spec:
  assumes inv: "ack_inv a" and i: "ack_insert a (s, e) = Inr a'"
  shows "ack_inv a'" and "ack_set a' = ack_set a \<union> {s..<e}" and "ak_max_ranges a' = ak_max_ranges a"
    and "ak_contiguous a \<le> ak_contiguous a'" and "s < e" and "e \<le> wire_max"
    and "ak_contiguous a \<le> M \<Longrightarrow> e \<le> M \<Longrightarrow> list_all (\<lambda>(_, e). e \<le> M) (ak_ranges a) \<Longrightarrow>
       ak_contiguous a' \<le> M \<and> list_all (\<lambda>(_, e). e \<le> M) (ak_ranges a')"
proof -
  have v: "validate_insert a (s, e) = Inr ()" using i by (auto simp: ack_insert_def rbind_Inr_iff)
  then have se: "s < e" "e \<le> wire_max" by (auto simp: validate_insert_def rbind_Inr_iff validate_range_Inr)
  then show "s < e" "e \<le> wire_max" by simp_all
  let ?G = "ack_inv a' \<and> ack_set a' = ack_set a \<union> {s..<e} \<and> ak_max_ranges a' = ak_max_ranges a
    \<and> ak_contiguous a \<le> ak_contiguous a' \<and> (\<forall>M. ak_contiguous a \<le> M \<and> e \<le> M \<and> list_all (\<lambda>(_, e). e \<le> M) (ak_ranges a) \<longrightarrow>
       ak_contiguous a' \<le> M \<and> list_all (\<lambda>(_, e). e \<le> M) (ak_ranges a'))"
  have ?G
  proof (cases "e \<le> ak_contiguous a")
    case True
    then have "a' = a" using i v by (simp add: ack_insert_def)
    then show ?thesis using inv True by (auto simp: ack_set_def)
  next
    case False
    let ?c = "ak_contiguous a"
    define ms where "ms = max s ?c"
    define before where "before = takeWhile (\<lambda>(_, e). e < ms) (ak_ranges a)"
    define rest where "rest = drop (length before) (ak_ranges a)"
    have split: "ak_ranges a = before @ rest"
      unfolding before_def rest_def by (simp add: dropWhile_eq_drop [symmetric])
    obtain ms' me' after where m: "merge_ranges (ms, e) rest = ((ms', me'), after)"
      by (metis prod.exhaust)
    obtain c' rs' where ab: "absorb_ranges ?c (before @ (ms', me') # after) = (c', rs')" by (metis prod.exhaust)
    have a': "a' = a\<lparr>ak_contiguous := c', ak_ranges := rs'\<rparr>"
      using i v False m ab by (simp add: ack_insert_def Let_def ms_def [symmetric] before_def [symmetric] rest_def [symmetric])
    have g: "gapped ?c (before @ rest)" and len: "length (before @ rest) \<le> ak_max_ranges a"
      and wm: "list_all (\<lambda>(_, e). e \<le> wire_max) (before @ rest)"
      using inv split by (simp_all add: ack_inv_def)
    let ?lo = "if before = [] then ?c else snd (last before)"
    have gr: "gapped ?lo rest" using g by (simp add: gapped_append)
    have hd: "rest \<noteq> [] \<longrightarrow> ms \<le> snd (hd rest)"
      unfolding rest_def before_def dropWhile_eq_drop [symmetric]
      using hd_dropWhile [of "\<lambda>(_, e). e < ms" "ak_ranges a"] by (simp add: case_prod_unfold not_less del: dropWhile_eq_Nil_conv)
    have mse: "ms < e" using se False by (simp add: ms_def)
    note mr = merge_ranges_spec [OF m chained_gapped [OF gr] mse hd]
    have lb: "before \<noteq> [] \<longrightarrow> snd (last before) < ms"
      using set_takeWhileD [of "last before" "\<lambda>(_, e). e < ms" "ak_ranges a"] by (auto simp: before_def [symmetric])
    have ch: "chained (before @ (ms', me') # after)"
    proof (cases "before = []")
      case True
      then show ?thesis using mr by simp
    next
      case False
      then have "snd (last before) < ms'" using mr gr lb by auto
      then show ?thesis using mr False g by (auto simp: chained_append gapped_append dest: chained_gapped)
    qed
    note A = absorb_ranges_spec [OF ab ch]
    have touch: "length (before @ (ms', me') # after) \<le> ak_max_ranges a"
    proof (cases "length (ak_ranges a) < ak_max_ranges a")
      case True
      then show ?thesis using mr split by simp
    next
      case False
      with v \<open>\<not> e \<le> ?c\<close> obtain s1 e1 where t: "(s1, e1) \<in> set (ak_ranges a)" "ms \<le> e1" "s1 \<le> e"
        by (auto simp: validate_insert_def rbind_Inr_iff list_ex_iff Let_def ms_def split: if_splits)
      have "(s1, e1) \<notin> set before" using t(2) set_takeWhileD by (fastforce simp: before_def)
      then have r: "(s1, e1) \<in> set rest" using t(1) split by auto
      have "fst (hd rest) \<le> s1"
        using r gr by (cases rest) (fastforce dest: gapped_above)+
      then have "length after < length rest" using mr r t(3) by auto
      then show ?thesis using len split by simp
    qed
    have "ack_set a' = ack_set a \<union> {s..<e}"
    proof -
      have "ack_set a' = {..<?c} \<union> (range_set before \<union> ({ms'..<me'} \<union> range_set after))"
        using A by (simp add: a' ack_set_def)
      also have "\<dots> = {..<?c} \<union> (range_set before \<union> ({ms..<e} \<union> range_set rest))" using mr by simp
      also have "\<dots> = ack_set a \<union> {s..<e}" using split by (auto simp: ack_set_def ms_def)
      finally show ?thesis .
    qed
    moreover have bound: "c' \<le> M \<and> list_all (\<lambda>(_, e). e \<le> M) rs'"
      if "?c \<le> M" "e \<le> M" "list_all (\<lambda>(_, e). e \<le> M) (ak_ranges a)" for M
    proof -
      have "list_all (\<lambda>(_, e). e \<le> M) (before @ (ms', me') # after)" using mr that split by auto
      then show ?thesis using A that(1) by (auto simp: list_all_iff)
    qed
    moreover have "list_all (\<lambda>(_, e). e \<le> wire_max) rs'"
    proof -
      have "list_all (\<lambda>(_, e). e \<le> wire_max) (before @ (ms', me') # after)" using mr se(2) wm by auto
      then show ?thesis using A by (auto simp: list_all_iff)
    qed
    ultimately show ?thesis using A touch by (auto simp: a' ack_inv_def)
  qed
  then show "ack_inv a'" "ack_set a' = ack_set a \<union> {s..<e}" "ak_max_ranges a' = ak_max_ranges a"
    "ak_contiguous a \<le> ak_contiguous a'"
    "ak_contiguous a \<le> M \<Longrightarrow> e \<le> M \<Longrightarrow> list_all (\<lambda>(_, e). e \<le> M) (ak_ranges a) \<Longrightarrow>
       ak_contiguous a' \<le> M \<and> list_all (\<lambda>(_, e). e \<le> M) (ak_ranges a')"
    by blast+
qed

lemma ack_inv_contiguous_least: "ack_inv a \<Longrightarrow> ak_contiguous a \<notin> ack_set a"
  by (auto simp: ack_inv_def ack_set_def range_set_def dest: gapped_above)

lemma ack_insert_cases:
  "ack_insert a (s, e) = Inl x \<longleftrightarrow>
     (e \<le> s \<or> wire_max < e) \<and> x = InvalidRange
   \<or> s < e \<and> e \<le> wire_max \<and> ak_contiguous a < e \<and> ak_max_ranges a \<le> length (ak_ranges a)
       \<and> list_all (\<lambda>(s1, e1). e1 < max s (ak_contiguous a) \<or> e < s1) (ak_ranges a) \<and> x = RangeCapacity"
proof -
  have "ack_insert a (s, e) = Inl x \<longleftrightarrow> validate_insert a (s, e) = Inl x"
    by (auto simp: ack_insert_def Let_def split: rbind_splits prod.splits)
  also have "\<dots> \<longleftrightarrow> (e \<le> s \<or> wire_max < e) \<and> x = InvalidRange
   \<or> s < e \<and> e \<le> wire_max \<and> ak_contiguous a < e \<and> ak_max_ranges a \<le> length (ak_ranges a)
       \<and> \<not> list_ex (\<lambda>(s1, e1). max s (ak_contiguous a) \<le> e1 \<and> s1 \<le> e) (ak_ranges a) \<and> x = RangeCapacity"
    by (auto simp: validate_insert_def validate_range_def Let_def)
  also have "\<not> list_ex (\<lambda>(s1, e1). max s (ak_contiguous a) \<le> e1 \<and> s1 \<le> e) (ak_ranges a)
      \<longleftrightarrow> list_all (\<lambda>(s1, e1). e1 < max s (ak_contiguous a) \<or> e < s1) (ak_ranges a)"
    by (induction "ak_ranges a") (auto simp: list_ex_iff list_all_iff not_le)
  finally show ?thesis .
qed

lemma ack_inv_new: "ack_inv ((ack_new n)\<lparr>ak_contiguous := c\<rparr>)"
  by (simp add: ack_inv_def ack_new_def)

lemma ack_insert_all_spec:
  assumes "ack_insert_all a rs sent = Inr a'" and "ack_inv a" and "ack_set a \<subseteq> {..<sent}"
  shows "ack_inv a' \<and> ack_set a' = ack_set a \<union> range_set rs \<and> ack_set a' \<subseteq> {..<sent}
    \<and> ak_max_ranges a' = ak_max_ranges a"
  using assms
proof (induction rs arbitrary: a)
  case (Cons r rs)
  obtain s e where r: "r = (s, e)" by (cases r)
  obtain a1 where i: "ack_insert a (s, e) = Inr a1" and rest: "ack_insert_all a1 rs sent = Inr a'" and e: "e \<le> sent"
    using Cons.prems(1) by (auto simp: r rbind_Inr_iff split: if_splits)
  note sp = ack_insert_spec [OF Cons.prems(2) i]
  have "ack_set a1 \<subseteq> {..<sent}" using Cons.prems(3) sp(2) e by auto
  from Cons.IH [OF rest sp(1) this] show ?case using sp by (auto simp: r)
qed auto

lemma ack_from_wire_inv:
  assumes "ack_from_wire c rs n sent = Inr a"
  shows "ack_inv a \<and> ack_set a = {..<c} \<union> range_set rs \<and> ack_set a \<subseteq> {..<sent} \<and> ak_max_ranges a = n"
proof -
  let ?a = "(ack_new n)\<lparr>ak_contiguous := c\<rparr>"
  have i: "ack_insert_all ?a rs sent = Inr a" and c: "c \<le> sent"
    using assms by (auto simp: ack_from_wire_def split: if_splits)
  have s: "ack_set ?a = {..<c}" "ak_max_ranges ?a = n" by (simp_all add: ack_set_def ack_new_def)
  show ?thesis using ack_insert_all_spec [OF i ack_inv_new] s c by auto
qed

text \<open>An insertion adds at most one range, so a frame with no more ranges than the table has places always finds room.\<close>

lemma merge_ranges_length: "length (snd (merge_ranges m rs)) \<le> length rs"
  by (induction m rs rule: merge_ranges.induct) auto

lemma absorb_ranges_length: "length (snd (absorb_ranges c rs)) \<le> length rs"
  by (induction c rs rule: absorb_ranges.induct) auto

lemma ack_insert_length:
  assumes "ack_insert a rng = Inr a'"
  shows "length (ak_ranges a') \<le> Suc (length (ak_ranges a))"
proof (cases "snd rng \<le> ak_contiguous a")
  case True
  then show ?thesis using assms by (auto simp: ack_insert_def rbind_Inr_iff)
next
  case False
  let ?m = "(max (fst rng) (ak_contiguous a), snd rng)"
  let ?before = "takeWhile (\<lambda>(_, e). e < fst ?m) (ak_ranges a)"
  obtain m' after where m: "merge_ranges ?m (drop (length ?before) (ak_ranges a)) = (m', after)" by (metis prod.exhaust)
  obtain c ranges where c: "absorb_ranges (ak_contiguous a) (?before @ m' # after) = (c, ranges)" by (metis prod.exhaust)
  have "a' = a\<lparr>ak_contiguous := c, ak_ranges := ranges\<rparr>" using assms False m c by (auto simp: ack_insert_def rbind_Inr_iff Let_def)
  moreover have "length ranges \<le> Suc (length ?before + length after)" using absorb_ranges_length [of "ak_contiguous a" "?before @ m' # after"] c by simp
  moreover have "length after \<le> length (ak_ranges a) - length ?before"
    using merge_ranges_length [of ?m "drop (length ?before) (ak_ranges a)"] m by simp
  moreover have "length ?before \<le> length (ak_ranges a)" by (rule length_takeWhile_le)
  ultimately show ?thesis by simp
qed

lemma ack_insert_all_accepts:
  assumes "ack_inv a" and "length (ak_ranges a) + length rs \<le> ak_max_ranges a"
  shows "case ack_insert_all a rs sent of
      Inl x \<Rightarrow> x = InvalidRange \<and> \<not> (\<forall>(s, e) \<in> set rs. s < e \<and> e \<le> wire_max \<and> e \<le> sent)
    | Inr _ \<Rightarrow> \<forall>(s, e) \<in> set rs. s < e \<and> e \<le> wire_max \<and> e \<le> sent"
  using assms
proof (induction rs arbitrary: a)
  case (Cons r rs)
  obtain s e where r: "r = (s, e)" by (cases r)
  show ?case
  proof (cases "ack_insert a (s, e)")
    case (Inl x)
    then show ?thesis using ack_insert_cases [of a s e x] Cons.prems(2) by (auto simp: r)
  next
    case (Inr a1)
    note sp = ack_insert_spec [OF Cons.prems(1) Inr]
    have "length (ak_ranges a1) + length rs \<le> ak_max_ranges a1" using ack_insert_length [OF Inr] Cons.prems(2) sp(3) by simp
    from Cons.IH [OF sp(1) this] show ?thesis using Inr sp(5,6) by (auto simp: r split: sum.splits)
  qed
qed simp

lemma ack_from_wire_accepts:
  "case ack_from_wire c rs n sent of
      Inl x \<Rightarrow> x = InvalidRange \<and> \<not> (c \<le> sent \<and> length rs \<le> n \<and> (\<forall>(s, e) \<in> set rs. s < e \<and> e \<le> wire_max \<and> e \<le> sent))
    | Inr _ \<Rightarrow> c \<le> sent \<and> length rs \<le> n \<and> (\<forall>(s, e) \<in> set rs. s < e \<and> e \<le> wire_max \<and> e \<le> sent)"
proof (cases "sent < c \<or> n < length rs")
  case True
  then show ?thesis by (auto simp: ack_from_wire_def)
next
  case False
  let ?a = "(ack_new n)\<lparr>ak_contiguous := c\<rparr>"
  have "length (ak_ranges ?a) + length rs \<le> ak_max_ranges ?a" using False by (simp add: ack_new_def)
  from ack_insert_all_accepts [OF ack_inv_new this, of sent] show ?thesis
    using False by (auto simp: ack_from_wire_def not_less split: sum.splits)
qed

subsection \<open>The contract the flow relies on\<close>

text \<open>
  What a flow needs of the table of received offsets, whatever its representation: an accepted range is
  remembered, nothing else is, and the offset the peer is told is the first one missing.
\<close>

locale received_set =
  fixes valid :: "'a \<Rightarrow> bool" and offsets :: "'a \<Rightarrow> nat set" and first_missing :: "'a \<Rightarrow> nat"
    and put :: "'a \<Rightarrow> u64_range \<Rightarrow> recovery_error + 'a"
  assumes put_valid: "valid a \<Longrightarrow> put a (s, e) = Inr a' \<Longrightarrow> valid a'"
    and put_offsets: "valid a \<Longrightarrow> put a (s, e) = Inr a' \<Longrightarrow> offsets a' = offsets a \<union> {s..<e}"
    and below_first: "valid a \<Longrightarrow> {..<first_missing a} \<subseteq> offsets a"
    and first_not_in: "valid a \<Longrightarrow> first_missing a \<notin> offsets a"
begin

lemma first_missing_unique: "valid a \<Longrightarrow> {..<n} \<subseteq> offsets a \<Longrightarrow> n \<notin> offsets a \<Longrightarrow> n = first_missing a"
  using below_first [of a] first_not_in [of a] by (metis lessThan_iff linorder_less_linear subset_iff)

lemma put_advances:
  assumes "valid a" "put a (s, e) = Inr a'"
  shows "first_missing a \<le> first_missing a'"
  using below_first [OF assms(1)] first_not_in [OF put_valid [OF assms]] put_offsets [OF assms]
  by (metis UnCI lessThan_iff not_le subset_iff)

lemma put_twice:
  assumes "valid a" "put a (s, e) = Inr a1" "put a1 (s, e) = Inr a2"
  shows "offsets a2 = offsets a1" "first_missing a2 = first_missing a1"
proof -
  note v = put_valid [OF assms(1,2)]
  show o: "offsets a2 = offsets a1" using put_offsets [OF assms(1,2)] put_offsets [OF v assms(3)] by auto
  show "first_missing a2 = first_missing a1"
    using first_missing_unique [OF v] below_first [OF put_valid [OF v assms(3)]] first_not_in [OF put_valid [OF v assms(3)]] o
    by simp
qed

lemma put_commute:
  assumes "valid a" "put a r1 = Inr b1" "put b1 r2 = Inr c1" "put a r2 = Inr b2" "put b2 r1 = Inr c2"
  shows "offsets c1 = offsets c2" "first_missing c1 = first_missing c2"
proof -
  obtain s1 e1 s2 e2 where r: "r1 = (s1, e1)" "r2 = (s2, e2)" by (cases r1, cases r2)
  note v1 = put_valid [OF assms(1) assms(2) [unfolded r]] and v2 = put_valid [OF assms(1) assms(4) [unfolded r]]
  note w1 = put_valid [OF v1 assms(3) [unfolded r]] and w2 = put_valid [OF v2 assms(5) [unfolded r]]
  show o: "offsets c1 = offsets c2"
    using put_offsets [OF assms(1) assms(2) [unfolded r]] put_offsets [OF v1 assms(3) [unfolded r]]
      put_offsets [OF assms(1) assms(4) [unfolded r]] put_offsets [OF v2 assms(5) [unfolded r]] by auto
  show "first_missing c1 = first_missing c2"
    using first_missing_unique [OF w2] below_first [OF w1] first_not_in [OF w1] o by simp
qed

end

interpretation received: received_set ack_inv ack_set ak_contiguous ack_insert
proof
  fix a a' s e
  show "ack_inv a \<Longrightarrow> ack_insert a (s, e) = Inr a' \<Longrightarrow> ack_inv a'" by (rule ack_insert_spec)
  show "ack_inv a \<Longrightarrow> ack_insert a (s, e) = Inr a' \<Longrightarrow> ack_set a' = ack_set a \<union> {s..<e}" by (rule ack_insert_spec)
  show "ack_inv a \<Longrightarrow> {..<ak_contiguous a} \<subseteq> ack_set a" by (auto simp: ack_set_def)
  show "ack_inv a \<Longrightarrow> ak_contiguous a \<notin> ack_set a" by (rule ack_inv_contiguous_least)
qed

subsection \<open>Properties\<close>

text \<open>C13: the table of received offsets is an exact set.  A successful insertion adds exactly the
  range, keeps the table sorted, disjoint and within its capacity, and leaves the contiguous offset at the first
  offset not received; it fails only for an empty or over-long range, or when the table is full and
  no stored range touches the new one.\<close>

theorem ack_insert_exact:
  assumes "ack_inv a"
  shows "case ack_insert a (s, e) of
      Inr a' \<Rightarrow> ack_inv a' \<and> ack_set a' = ack_set a \<union> {s..<e}
        \<and> ak_contiguous a' = (LEAST x. x \<notin> ack_set a \<union> {s..<e})
    | Inl x \<Rightarrow> x = InvalidRange \<and> (e \<le> s \<or> wire_max < e)
        \<or> x = RangeCapacity \<and> length (ak_ranges a) = ak_max_ranges a
          \<and> list_all (\<lambda>(s1, e1). e1 < max s (ak_contiguous a) \<or> e < s1) (ak_ranges a)"
proof (cases "ack_insert a (s, e)")
  case (Inl x)
  show ?thesis using Inl [unfolded ack_insert_cases] assms by (auto simp: Inl ack_inv_def)
next
  case (Inr a')
  note v = received.put_valid [OF assms Inr] and o = received.put_offsets [OF assms Inr]
  have "(LEAST x. x \<notin> ack_set a') = ak_contiguous a'"
    using received.below_first [OF v] received.first_not_in [OF v]
    by (intro Least_equality) (auto simp: not_less [symmetric])
  then show ?thesis using Inr v o by simp
qed

theorem ack_insert_exact_witness:
  "\<exists>a'. ack_insert \<lparr>ak_contiguous = 2, ak_ranges = [(4, 6)], ak_max_ranges = 1\<rparr> (6, 9) = Inr a' \<and> ack_inv a'
     \<and> ack_set a' = ack_set \<lparr>ak_contiguous = 2, ak_ranges = [(4, 6)], ak_max_ranges = 1\<rparr> \<union> {6..<9}"
proof -
  let ?a = "\<lparr>ak_contiguous = 2, ak_ranges = [(4, 6)], ak_max_ranges = 1\<rparr>"
  have inv: "ack_inv ?a" by (simp add: ack_inv_def wire_max_value)
  have i: "ack_insert ?a (6, 9) = Inr \<lparr>ak_contiguous = 2, ak_ranges = [(4, 9)], ak_max_ranges = 1\<rparr>"
    by (simp add: ack_insert_def validate_insert_def validate_range_def wire_max_value)
  show ?thesis using ack_insert_exact [OF inv, where s = 6 and e = 9] unfolding i by simp
qed

text \<open>C14: an acknowledgement read from the wire is accepted exactly when its contiguous offset and its ranges are within what was sent, every range is
  non-empty and within the offsets of the wire, and there are no more ranges than the table holds; the only error is that of an
  invalid range, and the table never runs full.  An accepted frame denotes exactly the offsets it names, in the normal form of the table, with the
  contiguous offset moved to the first offset missing.\<close>

theorem ack_from_wire_exact:
  "case ack_from_wire contiguous ranges max_ranges sent of
      Inl x \<Rightarrow> x = InvalidRange \<and> \<not> (contiguous \<le> sent \<and> length ranges \<le> max_ranges
        \<and> (\<forall>(s, e) \<in> set ranges. s < e \<and> e \<le> wire_max \<and> e \<le> sent))
    | Inr a \<Rightarrow> (contiguous \<le> sent \<and> length ranges \<le> max_ranges \<and> (\<forall>(s, e) \<in> set ranges. s < e \<and> e \<le> wire_max \<and> e \<le> sent))
        \<and> ack_inv a \<and> ack_set a = {..<contiguous} \<union> range_set ranges \<and> ack_set a \<subseteq> {..<sent}
        \<and> ak_contiguous a = (LEAST x. x \<notin> {..<contiguous} \<union> range_set ranges)"
proof (cases "ack_from_wire contiguous ranges max_ranges sent")
  case (Inl x)
  then show ?thesis using ack_from_wire_accepts [where c = contiguous and rs = ranges and n = max_ranges and sent = sent] by simp
next
  case (Inr a)
  have w: "ack_inv a \<and> ack_set a = {..<contiguous} \<union> range_set ranges \<and> ack_set a \<subseteq> {..<sent} \<and> ak_max_ranges a = max_ranges"
    by (rule ack_from_wire_inv [OF Inr])
  have "(LEAST x. x \<notin> ack_set a) = ak_contiguous a"
    using received.below_first [of a] received.first_not_in [of a] w
    by (intro Least_equality) (auto simp: not_less [symmetric])
  then have l: "ak_contiguous a = (LEAST x. x \<notin> {..<contiguous} \<union> range_set ranges)" using w by simp
  have "contiguous \<le> sent \<and> length ranges \<le> max_ranges \<and> (\<forall>(s, e) \<in> set ranges. s < e \<and> e \<le> wire_max \<and> e \<le> sent)"
    using ack_from_wire_accepts [where c = contiguous and rs = ranges and n = max_ranges and sent = sent] unfolding Inr by simp
  then show ?thesis using w l unfolding Inr sum.case by (intro conjI) blast+
qed

theorem ack_from_wire_exact_witness:
  "\<exists>a. ack_from_wire 2 [(3, 5), (2, 3)] 4 9 = Inr a \<and> ack_set a = {..<2} \<union> range_set [(3, 5), (2, 3)]
     \<and> ak_contiguous a = (LEAST x. x \<notin> {..<2} \<union> range_set [(3, 5), (2, 3)]) \<and> ak_contiguous a = 5"
proof -
  have w: "ack_from_wire 2 [(3, 5), (2, 3)] 4 9 = Inr \<lparr>ak_contiguous = 5, ak_ranges = [], ak_max_ranges = 4\<rparr>"
    by (simp add: ack_from_wire_def ack_new_def ack_insert_def validate_insert_def validate_range_def wire_max_value)
  from ack_from_wire_exact [where contiguous = 2 and ranges = "[(3, 5), (2, 3)]" and max_ranges = 4 and sent = 9] show ?thesis unfolding w by auto
qed

text \<open>C15: a full table refuses data that needs no room.  When the table is full, a range that
  extends the contiguous prefix without reaching the first stored range is refused, although the set it would
  yield is represented by the same stored ranges with a larger contiguous offset.\<close>

theorem full_table_refuses_in_order:
  assumes "ack_inv a" and "length (ak_ranges a) = ak_max_ranges a" and "ak_ranges a \<noteq> []"
    and "s \<le> ak_contiguous a" and "ak_contiguous a < e" and "e < fst (hd (ak_ranges a))"
  shows "ack_insert a (s, e) = Inl RangeCapacity
    \<and> ack_inv (a\<lparr>ak_contiguous := e\<rparr>) \<and> ack_set (a\<lparr>ak_contiguous := e\<rparr>) = ack_set a \<union> {s..<e}"
proof -
  obtain s1 e1 rest where r: "ak_ranges a = (s1, e1) # rest" using assms(3) by (cases "ak_ranges a") auto
  have g: "gapped (ak_contiguous a) (ak_ranges a)" and w: "list_all (\<lambda>(_, e). e \<le> wire_max) (ak_ranges a)"
    using assms(1) by (simp_all add: ack_inv_def)
  have "e < s2" if "(s2, e2) \<in> set (ak_ranges a)" for s2 e2
    using that g assms(6) by (auto simp: r dest: gapped_above)
  then have "list_all (\<lambda>(s1, e1). e1 < max s (ak_contiguous a) \<or> e < s1) (ak_ranges a)" by (auto simp: list_all_iff)
  then have "ack_insert a (s, e) = Inl RangeCapacity"
    using assms w g by (auto simp: ack_insert_cases r)
  moreover have "ack_inv (a\<lparr>ak_contiguous := e\<rparr>)" using assms(1,6) by (simp add: ack_inv_def r)
  moreover have "ack_set (a\<lparr>ak_contiguous := e\<rparr>) = ack_set a \<union> {s..<e}"
    using assms(4,5) by (auto simp: ack_set_def)
  ultimately show ?thesis by simp
qed

theorem full_table_refuses_in_order_witness:
  "ack_insert \<lparr>ak_contiguous = 0, ak_ranges = [(10, 20)], ak_max_ranges = 1\<rparr> (0, 5) = Inl RangeCapacity
   \<and> ack_inv \<lparr>ak_contiguous = 5, ak_ranges = [(10, 20)], ak_max_ranges = 1\<rparr>"
  using full_table_refuses_in_order [of "\<lparr>ak_contiguous = 0, ak_ranges = [(10, 20)], ak_max_ranges = 1\<rparr>" 0 5]
  by (simp add: ack_inv_def wire_max_value)

end
