(* ===== verification/Chunk_Map.thy ===== *)
theory Chunk_Map
  imports Wire_Codec "HOL-Library.Multiset"
begin

section \<open>Ordered maps of chunks\<close>

text \<open>
  The replay buffer and the reassembler keep their chunks in a \<open>BTreeMap\<close> keyed by stream
  offset.  The map is its ascending association list, with the operations of the standard library the code uses: insertion,
  the entries below or up to a key, the last entry of a range and the first entry after a key.  The lemmas relate non-overlapping
  chunks to the partial stream they hold.
\<close>

fun bt_insert :: "nat \<Rightarrow> 'v \<Rightarrow> (nat \<times> 'v) list \<Rightarrow> (nat \<times> 'v) list" where
  "bt_insert k v [] = [(k, v)]"
| "bt_insert k v ((j, w) # m) =
     (if k < j then (k, v) # (j, w) # m else if k = j then (k, v) # m else (j, w) # bt_insert k v m)"

definition bt_below :: "nat \<Rightarrow> (nat \<times> 'v) list \<Rightarrow> (nat \<times> 'v) list" where
  "bt_below k m = takeWhile (\<lambda>(j, _). j < k) m"

definition bt_upto :: "nat \<Rightarrow> (nat \<times> 'v) list \<Rightarrow> (nat \<times> 'v) list" where
  "bt_upto k m = takeWhile (\<lambda>(j, _). j \<le> k) m"

definition bt_last :: "(nat \<times> 'v) list \<Rightarrow> (nat \<times> 'v) option" where
  "bt_last m = (if m = [] then None else Some (last m))"

definition bt_after :: "nat option \<Rightarrow> (nat \<times> 'v) list \<Rightarrow> (nat \<times> 'v) option" where
  "bt_after lo m = List.find (\<lambda>(j, _). case lo of None \<Rightarrow> True | Some l \<Rightarrow> l < j) m"

definition slice :: "bytes \<Rightarrow> nat \<Rightarrow> nat \<Rightarrow> bytes" where
  "slice bs i j = take (j - i) (drop i bs)"

subsection \<open>Chunks laid out along the stream\<close>

text \<open>\<open>f\<close> gives the octets of a stored value.  \<open>laid f lo m\<close>: the chunks are non-empty, ascending from
  \<open>lo\<close> on and do not overlap; \<open>content f m\<close> is the partial stream they hold.\<close>

fun laid :: "('v \<Rightarrow> bytes) \<Rightarrow> nat \<Rightarrow> (nat \<times> 'v) list \<Rightarrow> bool" where
  "laid f lo [] \<longleftrightarrow> True"
| "laid f lo ((k, c) # m) \<longleftrightarrow> lo \<le> k \<and> f c \<noteq> [] \<and> laid f (k + length (f c)) m"

fun content :: "('v \<Rightarrow> bytes) \<Rightarrow> (nat \<times> 'v) list \<Rightarrow> nat \<Rightarrow> u8 option" where
  "content f [] x = None"
| "content f ((k, c) # m) x =
     (if k \<le> x \<and> x < k + length (f c) then Some (f c ! (x - k)) else content f m x)"

definition cover :: "('v \<Rightarrow> bytes) \<Rightarrow> (nat \<times> 'v) list \<Rightarrow> nat set" where
  "cover f m = (\<Union>(k, c) \<in> set m. {k..<k + length (f c)})"

lemma cover_simps [simp]:
  "cover f [] = {}" "cover f ((k, c) # m) = {k..<k + length (f c)} \<union> cover f m"
  "cover f (xs @ ys) = cover f xs \<union> cover f ys"
  by (auto simp: cover_def)

lemma content_None_iff: "content f m x = None \<longleftrightarrow> x \<notin> cover f m"
  by (induction f m x rule: content.induct) auto

lemma dom_content: "dom (content f m) = cover f m"
  using content_None_iff [of f m] by (auto simp: dom_def)

lemma laid_mono: "laid f lo m \<Longrightarrow> lo' \<le> lo \<Longrightarrow> laid f lo' m"
  by (cases m) auto

lemma laid_append:
  "laid f lo (xs @ ys) \<longleftrightarrow>
     laid f lo xs \<and> laid f (if xs = [] then lo else fst (last xs) + length (f (snd (last xs)))) ys"
  by (induction f lo xs rule: laid.induct) auto

lemma laid_above: "laid f lo m \<Longrightarrow> (k, c) \<in> set m \<Longrightarrow> lo \<le> k \<and> f c \<noteq> []"
  by (induction f lo m rule: laid.induct) force+

lemma content_above: "laid f lo m \<Longrightarrow> x < lo \<Longrightarrow> content f m x = None"
  by (induction f lo m rule: laid.induct) auto

lemma laid_content:
  "laid f lo m \<Longrightarrow> (k, c) \<in> set m \<Longrightarrow> k \<le> x \<Longrightarrow> x < k + length (f c) \<Longrightarrow> content f m x = Some (f c ! (x - k))"
proof (induction f lo m rule: laid.induct)
  case (2 f lo j d m)
  then show ?case using laid_above [of f "j + length (f d)" m k c] by auto
qed simp

lemma content_SomeD:
  "content f m x = Some y \<Longrightarrow> \<exists>k c. (k, c) \<in> set m \<and> k \<le> x \<and> x < k + length (f c) \<and> y = f c ! (x - k)"
  by (induction f m x rule: content.induct) (auto split: if_splits)

lemma disjoint_intervals:
  assumes "{s..<s + m} \<inter> {k..<k + n} = {}" and "0 < m" and "0 < n"
  shows "s + m \<le> k \<or> k + n \<le> (s :: nat)"
proof (rule ccontr)
  assume "\<not> ?thesis"
  then have "max s k \<in> {s..<s + m} \<inter> {k..<k + n}" using assms(2,3) by auto
  then show False using assms(1) by blast
qed

lemma laid_insert:
  assumes "laid f lo m" and "lo \<le> s" and "f c \<noteq> []" and "{s..<s + length (f c)} \<inter> cover f m = {}"
  shows "laid f lo (bt_insert s c m)"
  using assms
proof (induction s c m arbitrary: lo rule: bt_insert.induct)
  case (2 s c k d m)
  have d: "f d \<noteq> []" using 2(2) by simp
  have rest: "{s..<s + length (f c)} \<inter> cover f m = {}" and kd: "{s..<s + length (f c)} \<inter> {k..<k + length (f d)} = {}"
    using 2(5) unfolding cover_simps by blast+
  have "s + length (f c) \<le> k \<or> k + length (f d) \<le> s"
    using disjoint_intervals [OF kd] d 2(4) by simp
  then show ?case using 2 rest d by auto
qed simp

lemma content_insert:
  assumes "f c \<noteq> []" and "{s..<s + length (f c)} \<inter> cover f m = {}" and "laid f lo m"
  shows "content f (bt_insert s c m) x =
    (if s \<le> x \<and> x < s + length (f c) then Some (f c ! (x - s)) else content f m x)"
  using assms
proof (induction s c m arbitrary: lo rule: bt_insert.induct)
  case (2 s c k d m)
  have d: "f d \<noteq> []" using 2(4) by simp
  have rest: "{s..<s + length (f c)} \<inter> cover f m = {}" and kd: "{s..<s + length (f c)} \<inter> {k..<k + length (f d)} = {}"
    using 2(3) unfolding cover_simps by blast+
  have "s + length (f c) \<le> k \<or> k + length (f d) \<le> s"
    using disjoint_intervals [OF kd] d 2(2) by simp
  then show ?case using 2 rest d by auto
qed simp

lemma cover_insert:
  assumes "f c \<noteq> []" and "{s..<s + length (f c)} \<inter> cover f m = {}" and "laid f lo m"
  shows "cover f (bt_insert s c m) = {s..<s + length (f c)} \<union> cover f m"
  using content_None_iff [of f "bt_insert s c m"] content_insert [OF assms] content_None_iff [of f m]
  by (auto split: if_splits) (metis option.distinct(1))+

lemma set_bt_insert:
  assumes "f c \<noteq> []" and "{s..<s + length (f c)} \<inter> cover f m = {}" and "laid f lo m"
  shows "mset (bt_insert s c m) = add_mset (s, c) (mset m)"
  using assms
proof (induction s c m arbitrary: lo rule: bt_insert.induct)
  case (2 s c k d m)
  have rest: "{s..<s + length (f c)} \<inter> cover f m = {}" and kd: "{s..<s + length (f c)} \<inter> {k..<k + length (f d)} = {}"
    using 2(3) unfolding cover_simps by blast+
  have "s \<noteq> k" using disjoint_intervals [OF kd] 2(2,4) by auto
  then show ?case using 2 rest by auto
qed simp

lemma length_bt_insert:
  assumes "f c \<noteq> []" and "{s..<s + length (f c)} \<inter> cover f m = {}" and "laid f lo m"
  shows "length (bt_insert s c m) = Suc (length m)"
  using arg_cong [OF set_bt_insert [OF assms], of size] by simp

text \<open>The overlap test of both buffers: only the last chunk that starts below the end can reach
  into the range.\<close>

lemma bt_below_cover:
  assumes "laid f lo m"
  shows "cover f (bt_below e m) \<inter> {..<e} = cover f m \<inter> {..<e}"
  using assms
proof (induction f lo m rule: laid.induct)
  case (2 f lo k c m)
  then show ?case
  proof (cases "k < e")
    case False
    have "x \<notin> cover f m" if "x < e" for x
      using content_above [of f "k + length (f c)" m x] 2(2) that False by (auto simp: content_None_iff)
    then show ?thesis using False by (auto simp: bt_below_def)
  qed (auto simp: bt_below_def)
qed (simp add: bt_below_def)

lemma bt_below_laid: "laid f lo m \<Longrightarrow> laid f lo (bt_below e m)"
  unfolding bt_below_def by (metis laid_append takeWhile_dropWhile_id)

lemma cover_last: "laid f lo m \<Longrightarrow> m \<noteq> [] \<Longrightarrow> x \<in> cover f m \<Longrightarrow> x < fst (last m) + length (f (snd (last m)))"
proof (induction f lo m rule: laid.induct)
  case (2 f lo k c m)
  show ?case
  proof (cases m)
    case Nil
    then show ?thesis using 2 by auto
  next
    case (Cons p rest)
    have "k + length (f c) \<le> fst (last m)"
      using laid_above [of f "k + length (f c)" m "fst (last m)" "snd (last m)"] 2(2) Cons by simp
    then show ?thesis using 2 Cons by auto
  qed
qed simp

lemma overlap_test:
  assumes l: "laid f lo m" and "offset < e"
  shows "(case bt_last (bt_below e m) of None \<Rightarrow> False | Some (k, c) \<Rightarrow> offset < k + length (f c))
    \<longleftrightarrow> {offset..<e} \<inter> cover f m \<noteq> {}"
proof (cases "bt_below e m = []")
  case True
  then have "cover f m \<inter> {..<e} = {}" using bt_below_cover [OF l, of e] by simp
  then show ?thesis using True by (auto simp: bt_last_def)
next
  case False
  obtain k c where kc: "last (bt_below e m) = (k, c)" by (cases "last (bt_below e m)")
  have kin: "(k, c) \<in> set (bt_below e m)" using False kc by (metis last_in_set)
  then have k: "k < e" "(k, c) \<in> set m" unfolding bt_below_def by (auto dest: set_takeWhileD)
  have ne: "f c \<noteq> []" using laid_above [OF l k(2)] by simp
  have "offset < k + length (f c) \<longleftrightarrow> {offset..<e} \<inter> cover f m \<noteq> {}"
  proof
    assume "offset < k + length (f c)"
    then have "max offset k \<in> {offset..<e} \<inter> cover f m"
      using assms(2) k ne by (auto simp: cover_def intro!: bexI [where x = "(k, c)"])
    then show "{offset..<e} \<inter> cover f m \<noteq> {}" by blast
  next
    assume "{offset..<e} \<inter> cover f m \<noteq> {}"
    then obtain x where x: "offset \<le> x" "x < e" "x \<in> cover f m" by auto
    then have "x \<in> cover f (bt_below e m)" using bt_below_cover [OF l, of e] by auto
    from cover_last [OF bt_below_laid [OF l] False this] show "offset < k + length (f c)" using kc x by simp
  qed
  then show ?thesis using False kc by (simp add: bt_last_def)
qed

lemma bt_last_in: "bt_last m = Some p \<Longrightarrow> p \<in> set m"
  using last_in_set [of m] by (auto simp: bt_last_def simp del: last_in_set split: if_splits)

lemma bt_last_below_in: "bt_last (bt_below e m) = Some p \<Longrightarrow> p \<in> set m"
  using bt_last_in [of "bt_below e m" p] set_takeWhileD by (fastforce simp: bt_below_def)

lemma sum_bt_insert:
  assumes "f c \<noteq> []" and "{s..<s + length (f c)} \<inter> cover f m = {}" and "laid f lo m"
  shows "sum_list (map g (bt_insert s c m)) = (g (s, c) :: nat) + sum_list (map g m)"
proof -
  have "mset (map g (bt_insert s c m)) = mset (map g ((s, c) # m))"
    using set_bt_insert [OF assms] by (simp add: mset_map)
  then show ?thesis by (metis list.simps(9) sum_list.Cons sum_mset_sum_list)
qed

lemma laid_filter: "laid f lo m \<Longrightarrow> laid f lo (filter P m)"
proof (induction f lo m rule: laid.induct)
  case (2 f lo k c m)
  then show ?case using laid_mono [of f "k + length (f c)" "filter P m" lo] by auto
qed simp

lemma sum_filter: "sum_list (map g (filter P xs)) + sum_list (map g (filter (\<lambda>x. \<not> P x) xs)) = (sum_list (map g xs) :: nat)"
  by (induction xs) auto

lemma content_filter:
  assumes "laid f lo m" and "content f m x = Some y" and "\<And>k c. (k, c) \<in> set m \<Longrightarrow> k \<le> x \<Longrightarrow> x < k + length (f c) \<Longrightarrow> P (k, c)"
  shows "content f (filter P m) x = Some y"
proof -
  obtain k c where kc: "(k, c) \<in> set m" "k \<le> x" "x < k + length (f c)" "y = f c ! (x - k)"
    using content_SomeD [OF assms(2)] by blast
  have "(k, c) \<in> set (filter P m)" using kc assms(3) by simp
  from laid_content [OF laid_filter [OF assms(1)] this kc(2,3)] kc(4) show ?thesis by simp
qed

lemma bt_after_laid:
  assumes "laid f lo (xs @ (k, c) # ys)" and "(xs = [] \<and> b = None) \<or> (xs \<noteq> [] \<and> b = Some (fst (last xs)))"
  shows "bt_after b (xs @ (k, c) # ys) = Some (k, c)"
  using assms
proof (induction xs arbitrary: lo)
  case (Cons p xs)
  obtain j d where p: "p = (j, d)" by (cases p)
  have above: "j + length (f d) \<le> fst (last xs)" "f d \<noteq> []" if "xs \<noteq> []"
    using laid_above [of f "j + length (f d)" "xs @ (k, c) # ys" "fst (last xs)" "snd (last xs)"] Cons.prems(1) that
    by (auto simp: p)
  show ?case
  proof (cases "xs = []")
    case True
    moreover have "j < k" using Cons.prems(1) True by (auto simp: p) (metis add_less_cancel_left length_greater_0_conv less_le_trans add_0_right)
    ultimately show ?thesis using Cons.prems by (auto simp: p bt_after_def)
  next
    case False
    then have "bt_after b (xs @ (k, c) # ys) = Some (k, c)" using Cons.prems by (intro Cons.IH) (auto simp: p)
    moreover have "\<not> fst (last xs) < j" using above [OF False] by simp
    ultimately show ?thesis using Cons.prems(2) False by (simp add: p bt_after_def)
  qed
qed (auto simp: bt_after_def)

lemma bt_after_end: "laid f lo m \<Longrightarrow> m \<noteq> [] \<Longrightarrow> bt_after (Some (fst (last m))) m = None"
proof -
  assume l: "laid f lo m" and m: "m \<noteq> []"
  have "k \<le> fst (last m)" if "(k, c) \<in> set m" for k c
  proof -
    show ?thesis
    proof (cases "(k, c) = last m")
      case False
      then have "(k, c) \<in> set (butlast m)" using that m by (metis append_butlast_last_id rotate1.simps(2) set_ConsD set_rotate1)
      then obtain us vs where u: "butlast m = us @ (k, c) # vs" by (metis split_list)
      have "laid f lo (us @ (k, c) # vs @ [last m])" using l m u by (metis append_Cons append_assoc append_butlast_last_id)
      then have "laid f (k + length (f c)) (vs @ [last m])" by (simp add: laid_append)
      then show ?thesis using laid_above [of f "k + length (f c)" "vs @ [last m]" "fst (last m)" "snd (last m)"] by simp
    next
      case True
      then show ?thesis by (metis fst_conv order_refl)
    qed
  qed
  then show ?thesis by (auto simp: bt_after_def find_None_iff not_less)
qed

end
