(* ===== verification/Replay_Buffer.thy ===== *)
theory Replay_Buffer
  imports Ack_Ranges Chunk_Map
begin

section \<open>The replay buffer (src/recovery.rs)\<close>

text \<open>
  Sent octets are retained until they are acknowledged, so that they can be replayed.  The buffer is a bounded ordered map
  of chunks; acknowledgement is related to the set of offsets the table of \<open>Ack_Ranges\<close> stands for.
\<close>

definition replay_chunk_limit :: "usize \<Rightarrow> usize" where
  "replay_chunk_limit max_bytes = max ((max_bytes + 63) div 64) 8"

record replay_buffer =
  rp_chunks :: "(nat \<times> bytes) list"
  rp_bytes :: usize
  rp_max_bytes :: usize
  rp_max_chunks :: usize

definition rp_new :: "usize \<Rightarrow> replay_buffer" where
  "rp_new max_bytes =
     \<lparr>rp_chunks = [], rp_bytes = 0, rp_max_bytes = max_bytes, rp_max_chunks = replay_chunk_limit max_bytes\<rparr>"

definition rp_retain :: "replay_buffer \<Rightarrow> nat \<Rightarrow> bytes \<Rightarrow> recovery_error + replay_buffer" where
  "rp_retain r offset bs =
     rbind (checked_end offset (length bs)) (\<lambda>e.
       if bs = [] \<or> rp_max_bytes r < saturating_add (rp_bytes r) (length bs) \<or> rp_max_chunks r \<le> length (rp_chunks r)
       then Inl Capacity
       else if (case bt_last (bt_below e (rp_chunks r)) of None \<Rightarrow> False
                | Some (start, chunk) \<Rightarrow> offset < end_or_max start (length chunk))
       then Inl ContradictoryOverlap
       else Inr (r\<lparr>rp_bytes := rp_bytes r + length bs, rp_chunks := bt_insert offset bs (rp_chunks r)\<rparr>))"

definition chunk_covered :: "ack_ranges \<Rightarrow> nat \<times> bytes \<Rightarrow> bool" where
  "chunk_covered ack kc =
     (let e = end_or_max (fst kc) (length (snd kc)) in
      e \<le> ak_contiguous ack \<or> list_ex (\<lambda>(s, t). s \<le> fst kc \<and> e \<le> t) (ak_ranges ack))"

definition rp_acknowledge :: "replay_buffer \<Rightarrow> ack_ranges \<Rightarrow> (usize \<times> usize) \<times> replay_buffer" where
  "rp_acknowledge r ack =
     (let kept = filter (\<lambda>kc. \<not> chunk_covered ack kc) (rp_chunks r);
          bytes = rp_bytes r - sum_list (map (length \<circ> snd) (filter (chunk_covered ack) (rp_chunks r))) in
      ((rp_bytes r - bytes, length (rp_chunks r) - length kept), r\<lparr>rp_chunks := kept, rp_bytes := bytes\<rparr>))"

definition rp_next_chunk_after :: "replay_buffer \<Rightarrow> nat option \<Rightarrow> (nat \<times> bytes) option" where
  "rp_next_chunk_after r last_offset = bt_after last_offset (rp_chunks r)"

subsection \<open>Invariant\<close>

definition octets :: "bytes \<Rightarrow> bytes" where
  "octets c = c"

lemma octets_simps [simp]: "length (octets c) = length c" "octets c = [] \<longleftrightarrow> c = []" "octets c ! i = c ! i"
  by (simp_all add: octets_def)

definition rp_inv :: "replay_buffer \<Rightarrow> bool" where
  "rp_inv r \<longleftrightarrow> laid octets 0 (rp_chunks r) \<and> list_all (\<lambda>(k, c). k + length c \<le> wire_max) (rp_chunks r)
     \<and> rp_bytes r = sum_list (map (length \<circ> snd) (rp_chunks r)) \<and> rp_bytes r \<le> rp_max_bytes r
     \<and> length (rp_chunks r) \<le> rp_max_chunks r \<and> rp_max_bytes r < usize_max"

lemma retain_overlap_test:
  assumes "rp_inv r" and "offset < e"
  shows "(case bt_last (bt_below e (rp_chunks r)) of None \<Rightarrow> False
            | Some (start, chunk) \<Rightarrow> offset < end_or_max start (length chunk))
     \<longleftrightarrow> {offset..<e} \<inter> cover octets (rp_chunks r) \<noteq> {}"
proof -
  have "k + length c \<le> wire_max" if "bt_last (bt_below e (rp_chunks r)) = Some (k, c)" for k c
  proof -
    have "(k, c) \<in> set (rp_chunks r)" using bt_last_below_in [OF that] .
    moreover have "list_all (\<lambda>(k, c). k + length c \<le> wire_max) (rp_chunks r)" using assms(1) by (simp only: rp_inv_def)
    ultimately show ?thesis by (auto simp: list_all_iff)
  qed
  then have "(case bt_last (bt_below e (rp_chunks r)) of None \<Rightarrow> False
            | Some (start, chunk) \<Rightarrow> offset < end_or_max start (length chunk))
     \<longleftrightarrow> (case bt_last (bt_below e (rp_chunks r)) of None \<Rightarrow> False
            | Some (start, chunk) \<Rightarrow> offset < start + length chunk)"
    by (auto simp: end_or_max_ok split: option.splits)
  then show ?thesis
    using overlap_test [of octets 0 "rp_chunks r" offset e] assms
    by (cases "bt_last (bt_below e (rp_chunks r))") (auto simp: rp_inv_def)
qed

lemma rp_retain_spec:
  assumes inv: "rp_inv r"
  shows "case rp_retain r offset bs of
      Inr r' \<Rightarrow> rp_inv r' \<and> bs \<noteq> [] \<and> offset + length bs \<le> wire_max
        \<and> content octets (rp_chunks r') = (\<lambda>x. if offset \<le> x \<and> x < offset + length bs then Some (bs ! (x - offset)) else content octets (rp_chunks r) x)
        \<and> {offset..<offset + length bs} \<inter> cover octets (rp_chunks r) = {} \<and> rp_bytes r' = rp_bytes r + length bs
        \<and> length (rp_chunks r') = Suc (length (rp_chunks r))
    | Inl e \<Rightarrow> e = OffsetOverflow \<and> wire_max < offset + length bs
        \<or> e = Capacity \<and> (bs = [] \<or> rp_max_bytes r < rp_bytes r + length bs \<or> length (rp_chunks r) = rp_max_chunks r)
        \<or> e = ContradictoryOverlap \<and> {offset..<offset + length bs} \<inter> cover octets (rp_chunks r) \<noteq> {}"
proof (cases "checked_end offset (length bs)")
  case (Inl e)
  then show ?thesis using Inl [unfolded checked_end_Inl] by (simp add: rp_retain_def)
next
  case (Inr e)
  then have e: "e = offset + length bs" "e \<le> wire_max" by (auto simp: checked_end_Inr)
  have sat: "rp_max_bytes r < saturating_add (rp_bytes r) (length bs) \<longleftrightarrow> rp_max_bytes r < rp_bytes r + length bs"
    using inv by (auto simp: saturating_add_def rp_inv_def)
  show ?thesis
  proof (cases "bs = [] \<or> rp_max_bytes r < rp_bytes r + length bs \<or> rp_max_chunks r \<le> length (rp_chunks r)")
    case True
    then show ?thesis using Inr sat inv by (auto simp: rp_retain_def rp_inv_def)
  next
    case False
    have test: "(case bt_last (bt_below e (rp_chunks r)) of None \<Rightarrow> False
            | Some (start, chunk) \<Rightarrow> offset < end_or_max start (length chunk))
       \<longleftrightarrow> {offset..<offset + length bs} \<inter> cover octets (rp_chunks r) \<noteq> {}"
      using retain_overlap_test [OF inv, of offset e] e False by simp
    show ?thesis
    proof (cases "{offset..<offset + length bs} \<inter> cover octets (rp_chunks r) = {}")
      case True
      let ?r = "r\<lparr>rp_bytes := rp_bytes r + length bs, rp_chunks := bt_insert offset bs (rp_chunks r)\<rparr>"
      have ok: "rp_retain r offset bs = Inr ?r" using Inr False sat test True by (simp add: rp_retain_def)
      have l: "laid octets 0 (rp_chunks r)" using inv by (simp add: rp_inv_def)
      have bs: "octets bs \<noteq> []" using False by simp
      have free: "{offset..<offset + length (octets bs)} \<inter> cover octets (rp_chunks r) = {}" using True by simp
      note ins = laid_insert [OF l _ bs free] content_insert [OF bs free l] length_bt_insert [OF bs free l]
        set_bt_insert [OF bs free l] sum_bt_insert [OF bs free l]
      have "set (bt_insert offset bs (rp_chunks r)) = insert (offset, bs) (set (rp_chunks r))"
        using arg_cong [OF ins(4), of set_mset] by simp
      then have "rp_inv ?r"
        using inv ins False e by (auto simp: rp_inv_def list_all_iff)
      then show ?thesis using ok ins(2,3) bs True e by (auto simp: fun_eq_iff)
    next
      case False
      then show ?thesis
        using Inr \<open>\<not> (bs = [] \<or> rp_max_bytes r < rp_bytes r + length bs \<or> rp_max_chunks r \<le> length (rp_chunks r))\<close> sat test
        by (simp add: rp_retain_def)
    qed
  qed
qed

subsection \<open>Acknowledgement releases exactly what was acknowledged\<close>

lemma gapped_pairwise:
  "gapped lo rs \<Longrightarrow> (s1, e1) \<in> set rs \<Longrightarrow> (s2, e2) \<in> set rs \<Longrightarrow> (s1, e1) = (s2, e2) \<or> e1 < s2 \<or> e2 < s1"
  by (induction lo rs rule: gapped.induct) (auto dest: gapped_above)

lemma interval_in_ack_set:
  assumes inv: "ack_inv a" and se: "s < e"
  shows "{s..<e} \<subseteq> ack_set a \<longleftrightarrow> e \<le> ak_contiguous a \<or> (\<exists>(s1, e1) \<in> set (ak_ranges a). s1 \<le> s \<and> e \<le> e1)"
proof
  let ?c = "ak_contiguous a"
  have g: "gapped ?c (ak_ranges a)" using inv by (simp add: ack_inv_def)
  assume sub: "{s..<e} \<subseteq> ack_set a"
  show "e \<le> ?c \<or> (\<exists>(s1, e1) \<in> set (ak_ranges a). s1 \<le> s \<and> e \<le> e1)"
  proof (cases "s < ?c")
    case True
    have "\<not> ?c < e" using subsetD [OF sub, of ?c] True ack_inv_contiguous_least [OF inv] by auto
    then show ?thesis by simp
  next
    case False
    then obtain s1 e1 where r: "(s1, e1) \<in> set (ak_ranges a)" "s1 \<le> s" "s < e1"
      using sub se by (force simp: ack_set_def range_set_def)
    have "\<not> e1 < e"
    proof
      assume "e1 < e"
      then have "e1 \<in> ack_set a" using sub r by auto
      then obtain s2 e2 where "(s2, e2) \<in> set (ak_ranges a)" "s2 \<le> e1" "e1 < e2"
        using r False by (auto simp: ack_set_def range_set_def)
      then show False using gapped_pairwise [OF g r(1), of s2 e2] gapped_above [OF g r(1)] by auto
    qed
    then show ?thesis using r(1,2) by (intro disjI2 bexI [OF _ r(1)]) simp
  qed
qed (auto simp: ack_set_def range_set_def)

lemma chunk_covered_iff:
  assumes "ack_inv a" and "c \<noteq> []" and "k + length c \<le> wire_max"
  shows "chunk_covered a (k, c) \<longleftrightarrow> {k..<k + length c} \<subseteq> ack_set a"
  using interval_in_ack_set [OF assms(1), of k "k + length c"] assms(2,3)
  by (simp add: chunk_covered_def end_or_max_ok list_ex_iff Let_def)

lemma rp_acknowledge_spec:
  assumes inv: "rp_inv r" and ack: "ack_inv a" and r: "rp_acknowledge r a = ((nb, nc), r')"
  shows "rp_inv r'" and "rp_chunks r' = filter (\<lambda>(k, c). \<not> {k..<k + length c} \<subseteq> ack_set a) (rp_chunks r)"
    and "rp_bytes r = rp_bytes r' + nb" and "length (rp_chunks r) = length (rp_chunks r') + nc"
    and "rp_max_bytes r' = rp_max_bytes r" "rp_max_chunks r' = rp_max_chunks r"
proof -
  have l: "laid octets 0 (rp_chunks r)" and w: "list_all (\<lambda>(k, c). k + length c \<le> wire_max) (rp_chunks r)"
    and b: "rp_bytes r = sum_list (map (length \<circ> snd) (rp_chunks r))"
    using inv by (simp_all only: rp_inv_def)
  let ?kept = "filter (\<lambda>kc. \<not> chunk_covered a kc) (rp_chunks r)"
  let ?gone = "filter (chunk_covered a) (rp_chunks r)"
  have "chunk_covered a (k, c) \<longleftrightarrow> {k..<k + length c} \<subseteq> ack_set a" if "(k, c) \<in> set (rp_chunks r)" for k c
    by (rule chunk_covered_iff [OF ack]) (use laid_above [OF l that] w that in \<open>auto simp: list_all_iff\<close>)
  then have kept: "?kept = filter (\<lambda>(k, c). \<not> {k..<k + length c} \<subseteq> ack_set a) (rp_chunks r)"
    by (intro filter_cong) auto
  have sum: "rp_bytes r = sum_list (map (length \<circ> snd) ?gone) + sum_list (map (length \<circ> snd) ?kept)"
    unfolding b by (rule sum_filter [symmetric])
  have r': "rp_chunks r' = ?kept" "rp_bytes r' = rp_bytes r - sum_list (map (length \<circ> snd) ?gone)"
    "nb = rp_bytes r - rp_bytes r'" "nc = length (rp_chunks r) - length ?kept"
    "rp_max_bytes r' = rp_max_bytes r" "rp_max_chunks r' = rp_max_chunks r"
    using r by (auto simp: rp_acknowledge_def Let_def)
  show "rp_chunks r' = filter (\<lambda>(k, c). \<not> {k..<k + length c} \<subseteq> ack_set a) (rp_chunks r)" using r'(1) kept by simp
  show "rp_bytes r = rp_bytes r' + nb" using r' sum by simp
  show "length (rp_chunks r) = length (rp_chunks r') + nc" using r' by simp
  show "rp_max_bytes r' = rp_max_bytes r" "rp_max_chunks r' = rp_max_chunks r" by (fact r')+
  have "length ?kept \<le> rp_max_chunks r"
    using inv length_filter_le [of "\<lambda>kc. \<not> chunk_covered a kc" "rp_chunks r"] unfolding rp_inv_def by linarith
  moreover have "rp_bytes r' = sum_list (map (length \<circ> snd) ?kept)" using r'(2) sum by linarith
  moreover have "rp_bytes r' \<le> rp_max_bytes r" "rp_max_bytes r < usize_max" using r'(2) inv unfolding rp_inv_def by linarith+
  moreover have "laid octets 0 ?kept" using l by (rule laid_filter)
  moreover have "list_all (\<lambda>(k, c). k + length c \<le> wire_max) ?kept" using w by (simp add: list_all_iff)
  ultimately show "rp_inv r'" unfolding rp_inv_def r'(1,5,6) by blast
qed

text \<open>The loop of a replay: ask for the first chunk after the last one sent.\<close>

fun replay_walk :: "nat \<Rightarrow> replay_buffer \<Rightarrow> nat option \<Rightarrow> (nat \<times> bytes) list" where
  "replay_walk 0 r lo = []"
| "replay_walk (Suc n) r lo =
     (case rp_next_chunk_after r lo of None \<Rightarrow> [] | Some (k, c) \<Rightarrow> (k, c) # replay_walk n r (Some k))"

lemma replay_walk_from:
  assumes "laid octets 0 (rp_chunks r)" and "rp_chunks r = xs @ ys" and "length ys \<le> n"
    and "(xs = [] \<and> b = None) \<or> (xs \<noteq> [] \<and> b = Some (fst (last xs)))"
  shows "replay_walk n r b = ys"
  using assms
proof (induction n arbitrary: xs ys b)
  case (Suc n)
  show ?case
  proof (cases ys)
    case Nil
    then have "rp_next_chunk_after r b = None"
      using Suc.prems bt_after_end [of octets 0 "rp_chunks r"] by (auto simp: rp_next_chunk_after_def bt_after_def)
    then show ?thesis using Nil by simp
  next
    case (Cons p zs)
    obtain k c where p: "p = (k, c)" by (cases p)
    have "rp_next_chunk_after r b = Some (k, c)"
      using bt_after_laid [of octets 0 xs k c zs b] Suc.prems Cons p by (simp add: rp_next_chunk_after_def)
    moreover have "replay_walk n r (Some k) = zs"
      using Suc.prems Cons p by (intro Suc.IH [of "xs @ [(k, c)]"]) auto
    ultimately show ?thesis using Cons p by simp
  qed
qed simp

subsection \<open>Properties\<close>

text \<open>C16: an acknowledgement releases exactly what it covers.  The chunks that stay are those with
  an octet not yet acknowledged, in their order; the reported bytes and chunks are what was released; and every octet that
  was not acknowledged is still there to be replayed.\<close>

theorem replay_release_exact:
  assumes "rp_inv r" and "ack_inv a" and "rp_acknowledge r a = ((nb, nc), r')"
  shows "rp_inv r' \<and> rp_chunks r' = filter (\<lambda>(k, c). \<not> {k..<k + length c} \<subseteq> ack_set a) (rp_chunks r)
    \<and> rp_bytes r = rp_bytes r' + nb \<and> length (rp_chunks r) = length (rp_chunks r') + nc
    \<and> (x \<notin> ack_set a \<longrightarrow> content octets (rp_chunks r') x = content octets (rp_chunks r) x)"
proof -
  note s = rp_acknowledge_spec [OF assms]
  have l: "laid octets 0 (rp_chunks r)" using assms(1) by (simp add: rp_inv_def)
  have "content octets (rp_chunks r') x = content octets (rp_chunks r) x" if x: "x \<notin> ack_set a"
  proof (cases "content octets (rp_chunks r) x")
    case None
    then have "x \<notin> cover octets (rp_chunks r)" by (simp add: content_None_iff)
    then have "x \<notin> cover octets (rp_chunks r')" unfolding s(2) by (auto simp: cover_def)
    then have "content octets (rp_chunks r') x = None" by (simp add: content_None_iff)
    then show ?thesis using None by simp
  next
    case (Some y)
    show ?thesis unfolding s(2) Some using x by (intro content_filter [OF l Some]) auto
  qed
  then show ?thesis using s by blast
qed

theorem replay_release_exact_witness:
  "rp_chunks (snd (rp_acknowledge \<lparr>rp_chunks = [(0, [1, 2]), (4, [3, 4])], rp_bytes = 4, rp_max_bytes = 9, rp_max_chunks = 8\<rparr>
      \<lparr>ak_contiguous = 3, ak_ranges = [], ak_max_ranges = 2\<rparr>)) = [(4, [3, 4])]"
proof -
  let ?r = "\<lparr>rp_chunks = [(0, [1, 2]), (4, [3, 4])], rp_bytes = 4, rp_max_bytes = 9, rp_max_chunks = 8\<rparr>"
  let ?a = "\<lparr>ak_contiguous = 3, ak_ranges = [], ak_max_ranges = 2\<rparr>"
  obtain nb nc r' where k: "rp_acknowledge ?r ?a = ((nb, nc), r')" by (metis prod.exhaust)
  have "rp_inv ?r" by (simp add: rp_inv_def wire_max_value usize_max_def)
  moreover have "ack_inv ?a" by (simp add: ack_inv_def)
  ultimately have "rp_chunks r' = filter (\<lambda>(k, c). \<not> {k..<k + length c} \<subseteq> ack_set ?a) (rp_chunks ?r)"
    using replay_release_exact [OF _ _ k] by blast
  moreover have "ack_set ?a = {..<3}" by (simp add: ack_set_def)
  moreover have "\<not> {4..<6 :: nat} \<subseteq> {..<3}" by (auto simp: subset_eq)
  ultimately show ?thesis unfolding k by (auto simp: subset_eq)
qed

text \<open>C17: retention is exact and bounded.  A retained chunk is added to the stored stream without touching
  what is there; a refusal is an offset past the wire limit, an empty chunk, a full buffer or an overlap, and
  the counted bytes never exceed the limit.\<close>

theorem replay_retain_exact:
  assumes "rp_inv r"
  shows "case rp_retain r offset bs of
      Inr r' \<Rightarrow> rp_inv r' \<and> rp_bytes r' = rp_bytes r + length bs
        \<and> content octets (rp_chunks r') = (\<lambda>x. if offset \<le> x \<and> x < offset + length bs then Some (bs ! (x - offset)) else content octets (rp_chunks r) x)
    | Inl e \<Rightarrow> e = OffsetOverflow \<and> wire_max < offset + length bs
        \<or> e = Capacity \<and> (bs = [] \<or> rp_max_bytes r < rp_bytes r + length bs \<or> length (rp_chunks r) = rp_max_chunks r)
        \<or> e = ContradictoryOverlap \<and> {offset..<offset + length bs} \<inter> cover octets (rp_chunks r) \<noteq> {}"
  using rp_retain_spec [OF assms, of offset bs] by (cases "rp_retain r offset bs") simp_all

theorem replay_retain_exact_witness:
  "case rp_retain (rp_new 64) 5 [1, 2] of
     Inr r' \<Rightarrow> rp_inv r' \<and> rp_bytes r' = 2 | Inl _ \<Rightarrow> False"
proof -
  have "rp_inv (rp_new 64)" by (simp add: rp_inv_def rp_new_def usize_max_def replay_chunk_limit_def)
  from replay_retain_exact [OF this, of 5 "[1, 2]"] show ?thesis
    by (cases "rp_retain (rp_new 64) 5 [1, 2]") (auto simp: rp_new_def wire_max_value replay_chunk_limit_def)
qed

text \<open>C18: a replay sends everything.  Asking for the next chunk after the last one, from the
  start and until none is left, yields every retained chunk once, in stream order.\<close>

theorem replay_walk_complete:
  assumes "rp_inv r" and "length (rp_chunks r) \<le> n"
  shows "replay_walk n r None = rp_chunks r"
  using assms by (intro replay_walk_from [of r "[]"]) (auto simp: rp_inv_def)

theorem replay_walk_complete_witness:
  "replay_walk 3 \<lparr>rp_chunks = [(0, [1, 2]), (4, [3, 4])], rp_bytes = 4, rp_max_bytes = 9, rp_max_chunks = 8\<rparr> None
     = [(0, [1, 2]), (4, [3, 4])]"
  using replay_walk_complete [of "\<lparr>rp_chunks = [(0, [1, 2]), (4, [3, 4])], rp_bytes = 4, rp_max_bytes = 9, rp_max_chunks = 8\<rparr>" 3]
  by (simp add: rp_inv_def wire_max_value usize_max_def)

end
