(* ===== verification/Reassembler.thy ===== *)
theory Reassembler
  imports Replay_Buffer
begin

section \<open>Reassembly of the received stream (recovery.rs, \<open>Reassembler\<close>)\<close>

text \<open>
  Records arrive in any order, overlap and repeat.  The reassembler stores the octets it does not have
  yet, compares the others with what it has, charges the storage to the shared memory budget and hands the stream to the
  application in order.  Offsets are natural numbers checked against the wire limit as the code does with \<open>checked_end\<close>;
  dropping a chunk or a charge returns its bytes to the budget, so every operation takes the budget and returns
  it.
\<close>

record buffered_chunk =
  bc_bytes :: bytes
  bc_charge :: recovery_charge

record reassembler =
  rx_chunks :: "(nat \<times> buffered_chunk) list"
  rx_next_offset :: nat
  rx_acknowledged_offset :: nat
  rx_final_offset :: "nat option"
  rx_bytes :: usize
  rx_max_bytes :: usize
  rx_max_chunks :: usize

definition rx_with_budget :: "usize \<Rightarrow> reassembler" where
  "rx_with_budget max_bytes =
     \<lparr>rx_chunks = [], rx_next_offset = 0, rx_acknowledged_offset = 0, rx_final_offset = None, rx_bytes = 0,
      rx_max_bytes = max_bytes, rx_max_chunks = max ((max_bytes + 63) div 64) 8\<rparr>"

definition rx_reserve :: "usize \<Rightarrow> mem_budget \<Rightarrow> recovery_error + recovery_charge \<times> mem_budget" where
  "rx_reserve n b = charge_reserve b n"

definition beyond :: "reassembler \<Rightarrow> nat \<Rightarrow> bool" where
  "beyond r e \<longleftrightarrow> list_ex (\<lambda>(k, c). e < end_or_max k (length (bc_bytes c))) (rx_chunks r)"

definition set_final_offset :: "reassembler \<Rightarrow> nat \<Rightarrow> recovery_error + reassembler" where
  "set_final_offset r final =
     (if wire_max < final \<or> (case rx_final_offset r of None \<Rightarrow> False | Some current \<Rightarrow> current \<noteq> final)
         \<or> final < rx_next_offset r \<or> beyond r final
      then Inl FinalOffset else Inr (r\<lparr>rx_final_offset := Some final\<rparr>))"

subsection \<open>Overlaps\<close>

text \<open>The comparison both loops make: the incoming octets and the stored ones on the common part
  of the two ranges.\<close>

definition overlap_differs :: "nat \<Rightarrow> nat \<Rightarrow> bytes \<Rightarrow> nat \<Rightarrow> bytes \<Rightarrow> bool" where
  "overlap_differs offset e bs k chunk =
     (let overlap_start = max offset k; overlap_end = min e (k + length chunk);
          incoming_start = overlap_start - offset; incoming_end = overlap_end - offset;
          existing_start = overlap_start - k; existing_end = existing_start + (incoming_end - incoming_start) in
      slice bs incoming_start incoming_end \<noteq> slice chunk existing_start existing_end)"

fun validate_consumed_overlap :: "nat \<Rightarrow> nat \<Rightarrow> bytes \<Rightarrow> (nat \<times> buffered_chunk) list \<Rightarrow> recovery_error + unit" where
  "validate_consumed_overlap offset e bs [] = Inr ()"
| "validate_consumed_overlap offset e bs ((k, c) # rest) =
     rbind (checked_end k (length (bc_bytes c))) (\<lambda>existing_end.
       if min e existing_end \<le> max offset k then validate_consumed_overlap offset e bs rest
       else if overlap_differs offset e bs k (bc_bytes c) then Inl ContradictoryOverlap
       else validate_consumed_overlap offset e bs rest)"

definition count_gap :: "bool \<Rightarrow> usize \<Rightarrow> usize \<Rightarrow> usize \<Rightarrow> recovery_error + usize \<times> usize" where
  "count_gap open_gap len gap_count added =
     (if open_gap
      then rbind (ok_or (checked_add gap_count 1) Capacity) (\<lambda>g.
        rbind (ok_or (checked_add added len) Capacity) (\<lambda>a. Inr (g, a)))
      else Inr (gap_count, added))"

fun overlap_scan ::
  "nat \<Rightarrow> nat \<Rightarrow> bytes \<Rightarrow> (nat \<times> buffered_chunk) list \<Rightarrow> nat \<Rightarrow> usize \<Rightarrow> usize \<Rightarrow> recovery_error + usize \<times> usize" where
  "overlap_scan offset e bs [] cursor gap_count added = count_gap (cursor < e) (e - cursor) gap_count added"
| "overlap_scan offset e bs ((k, c) # rest) cursor gap_count added =
     rbind (checked_end k (length (bc_bytes c))) (\<lambda>existing_end.
       if existing_end \<le> offset then overlap_scan offset e bs rest cursor gap_count added
       else rbind (count_gap (cursor < max offset k) (max offset k - cursor) gap_count added) (\<lambda>(g, a).
         if overlap_differs offset e bs k (bc_bytes c) then Inl ContradictoryOverlap
         else overlap_scan offset e bs rest (max cursor (min e existing_end)) g a))"

fun gap_scan :: "nat \<Rightarrow> nat \<Rightarrow> (nat \<times> buffered_chunk) list \<Rightarrow> nat \<Rightarrow> recovery_error + (nat \<times> nat) list" where
  "gap_scan offset e [] cursor = Inr (if cursor < e then [(cursor, e)] else [])"
| "gap_scan offset e ((k, c) # rest) cursor =
     rbind (checked_end k (length (bc_bytes c))) (\<lambda>existing_end.
       if existing_end \<le> offset then gap_scan offset e rest cursor
       else rbind (gap_scan offset e rest (max cursor (min e existing_end))) (\<lambda>gaps.
         Inr ((if cursor < max offset k then [(cursor, max offset k)] else []) @ gaps)))"

fun install_gaps ::
  "nat \<Rightarrow> bytes \<Rightarrow> (nat \<times> nat) list \<Rightarrow> (nat \<times> buffered_chunk) list \<Rightarrow> recovery_charge
     \<Rightarrow> (recovery_error + unit) \<times> (nat \<times> buffered_chunk) list \<times> recovery_charge" where
  "install_gaps offset bs [] chunks scratch = (Inr (), chunks, scratch)"
| "install_gaps offset bs ((s, t) # gaps) chunks scratch =
     (case charge_split scratch (t - s) of
        Inl e \<Rightarrow> (Inl e, chunks, scratch)
      | Inr (scratch', charge) \<Rightarrow>
          install_gaps offset bs gaps
            (bt_insert s \<lparr>bc_bytes = slice bs (s - offset) (t - offset), bc_charge = charge\<rparr> chunks) scratch')"

definition size_of_range :: usize where "size_of_range = 16"

definition insert_overlapping_record ::
  "reassembler \<Rightarrow> mem_budget \<Rightarrow> nat \<Rightarrow> nat \<Rightarrow> bytes \<Rightarrow> bool \<Rightarrow> recovery_charge
     \<Rightarrow> (recovery_error + unit) \<times> reassembler \<times> mem_budget" where
  "insert_overlapping_record r b offset e bs fin incoming =
     (case overlap_scan offset e bs (bt_below e (rx_chunks r)) offset 0 0 of
        Inl x \<Rightarrow> (Inl x, r, charge_drop incoming b)
      | Inr (gap_count, added) \<Rightarrow>
          if gap_count = 0 then
            (case (if fin then set_final_offset r e else Inr r) of
               Inl x \<Rightarrow> (Inl x, r, charge_drop incoming b)
             | Inr r' \<Rightarrow> (Inr (), r', charge_drop incoming b))
          else if rx_max_bytes r < saturating_add (rx_bytes r) added
              \<or> rx_max_chunks r < saturating_add (length (rx_chunks r)) gap_count
          then (Inl Capacity, r, charge_drop incoming b)
          else
            (case rbind (ok_or (checked_mul gap_count size_of_range) Capacity) (\<lambda>gap_metadata.
                rbind (ok_or (checked_add added gap_metadata) Capacity) (\<lambda>n. charge_reserve b n)) of
               Inl x \<Rightarrow> (Inl x, r, charge_drop incoming b)
             | Inr (scratch, b1) \<Rightarrow>
                 (case gap_scan offset e (bt_below e (rx_chunks r)) offset of
                    Inl x \<Rightarrow> (Inl x, r, charge_drop incoming (charge_drop scratch b1))
                  | Inr gaps \<Rightarrow>
                      (case install_gaps offset bs gaps (rx_chunks r) scratch of
                         (Inl x, chunks, scratch') \<Rightarrow>
                           (Inl x, r\<lparr>rx_chunks := chunks\<rparr>, charge_drop incoming (charge_drop scratch' b1))
                       | (Inr _, chunks, scratch') \<Rightarrow>
                           (Inr (), r\<lparr>rx_chunks := chunks, rx_bytes := rx_bytes r + added,
                              rx_final_offset := (if fin then Some e else rx_final_offset r)\<rparr>,
                            charge_drop incoming (charge_drop scratch' b1))))))"

subsection \<open>Insertion\<close>

text \<open>What is left of a record once the part below \<open>next_offset\<close> has been checked and cut off.\<close>

definition trim_consumed :: "reassembler \<Rightarrow> nat \<Rightarrow> bytes \<Rightarrow> recovery_error + nat \<times> bytes" where
  "trim_consumed r offset bs =
     (if offset < rx_next_offset r
      then rbind (validate_consumed_overlap offset (rx_next_offset r) bs (bt_below (rx_next_offset r) (rx_chunks r))) (\<lambda>_.
        Inr (rx_next_offset r, drop (rx_next_offset r - offset) bs))
      else Inr (offset, bs))"

definition insert_record_with_reservation ::
  "reassembler \<Rightarrow> mem_budget \<Rightarrow> nat \<Rightarrow> bytes \<Rightarrow> bool \<Rightarrow> recovery_charge \<Rightarrow> bool
     \<Rightarrow> (recovery_error + unit) \<times> reassembler \<times> mem_budget" where
  "insert_record_with_reservation r b offset bs fin charge precharged =
     (if \<not> belongs_to charge b \<or> (precharged \<and> ch_bytes charge < length bs)
      then (Inl Capacity, r, drop_foreign charge b)
      else case checked_end offset (length bs) of
        Inl x \<Rightarrow> (Inl x, r, charge_drop charge b)
      | Inr e \<Rightarrow>
          if bs = [] then (Inl InvalidRange, r, charge_drop charge b)
          else if (case rx_final_offset r of None \<Rightarrow> False | Some final \<Rightarrow> final < e)
          then (Inl FinalOffset, r, charge_drop charge b)
          else if fin \<and> ((case rx_final_offset r of None \<Rightarrow> False | Some final \<Rightarrow> final \<noteq> e)
              \<or> e < rx_next_offset r \<or> beyond r e)
          then (Inl FinalOffset, r, charge_drop charge b)
          else if e \<le> rx_next_offset r then
            (case rbind (validate_consumed_overlap offset e bs (bt_below e (rx_chunks r))) (\<lambda>_.
                if fin then set_final_offset r e else Inr r) of
               Inl x \<Rightarrow> (Inl x, r, charge_drop charge b)
             | Inr r' \<Rightarrow> (Inr (), r', charge_drop charge b))
          else
            (case trim_consumed r offset bs of
               Inl x \<Rightarrow> (Inl x, r, charge_drop charge b)
             | Inr (start, data) \<Rightarrow>
                 if (case bt_last (bt_below e (rx_chunks r)) of None \<Rightarrow> False
                     | Some (k, c) \<Rightarrow> start < end_or_max k (length (bc_bytes c)))
                 then insert_overlapping_record r b start e data fin charge
                 else if rx_max_bytes r < saturating_add (rx_bytes r) (length data)
                     \<or> rx_max_chunks r \<le> length (rx_chunks r)
                 then (Inl Capacity, r, charge_drop charge b)
                 else
                   (case (if precharged then Inr (charge, b) else charge_grow charge (length bs) b) of
                      Inl x \<Rightarrow> (Inl x, r, charge_drop charge b)
                    | Inr (charge', b') \<Rightarrow>
                        (Inr (), r\<lparr>rx_bytes := rx_bytes r + length data,
                           rx_chunks := bt_insert start \<lparr>bc_bytes = data, bc_charge = charge'\<rparr> (rx_chunks r),
                           rx_final_offset := (if fin then Some e else rx_final_offset r)\<rparr>, b'))))"

definition insert_record ::
  "reassembler \<Rightarrow> mem_budget \<Rightarrow> nat \<Rightarrow> bytes \<Rightarrow> bool \<Rightarrow> (recovery_error + unit) \<times> reassembler \<times> mem_budget" where
  "insert_record r b offset bs fin =
     (case rx_reserve 0 b of
        Inl x \<Rightarrow> (Inl x, r, b)
      | Inr (charge, b1) \<Rightarrow> insert_record_with_reservation r b1 offset bs fin charge False)"

definition insert_record_precharged ::
  "reassembler \<Rightarrow> mem_budget \<Rightarrow> nat \<Rightarrow> bytes \<Rightarrow> bool \<Rightarrow> recovery_charge
     \<Rightarrow> (recovery_error + unit) \<times> reassembler \<times> mem_budget" where
  "insert_record_precharged r b offset bs fin charge =
     insert_record_with_reservation r b offset bs fin charge True"

subsection \<open>Reading and acknowledging\<close>

definition read_candidate :: "reassembler \<Rightarrow> (nat \<times> buffered_chunk) option" where
  "read_candidate r =
     (case bt_last (bt_upto (rx_next_offset r) (rx_chunks r)) of
        None \<Rightarrow> None
      | Some (k, c) \<Rightarrow>
          (case checked_end k (length (bc_bytes c)) of
             Inl _ \<Rightarrow> None
           | Inr e \<Rightarrow> if rx_next_offset r < e then Some (k, c) else None))"

lemma bt_last_upto: "bt_last (bt_upto n m) = Some (k, c) \<Longrightarrow> k \<le> n \<and> (k, c) \<in> set m"
  using bt_last_in [of "bt_upto n m" "(k, c)"] by (auto simp: bt_upto_def dest: set_takeWhileD)

lemma read_candidate_Some:
  "read_candidate r = Some (k, c) \<Longrightarrow>
     k \<le> rx_next_offset r \<and> rx_next_offset r < k + length (bc_bytes c) \<and> (k, c) \<in> set (rx_chunks r)
     \<and> k + length (bc_bytes c) \<le> wire_max"
  by (auto simp: read_candidate_def checked_end_Inr dest: bt_last_upto split: option.splits sum.splits if_splits)

definition read_step :: "reassembler \<Rightarrow> mem_budget \<Rightarrow> usize \<Rightarrow> nat \<Rightarrow> buffered_chunk \<Rightarrow> bytes \<times> reassembler \<times> mem_budget" where
  "read_step r b wanted k c =
     (let start = rx_next_offset r - k;
          count = min (length (bc_bytes c) - start) wanted;
          e = k + length (bc_bytes c);
          r1 = r\<lparr>rx_next_offset := rx_next_offset r + count, rx_bytes := rx_bytes r - count\<rparr> in
      (slice (bc_bytes c) start (start + count),
       if e \<le> rx_next_offset r1 \<and> e \<le> rx_acknowledged_offset r1
       then (r1\<lparr>rx_chunks := filter (\<lambda>(j, _). j \<noteq> k) (rx_chunks r1)\<rparr>, charge_drop (bc_charge c) b)
       else (r1, b)))"

function rx_read :: "reassembler \<Rightarrow> mem_budget \<Rightarrow> usize \<Rightarrow> bytes \<times> reassembler \<times> mem_budget" where
  "rx_read r b wanted =
     (if wanted = 0 then ([], r, b)
      else case read_candidate r of
          None \<Rightarrow> ([], r, b)
        | Some (k, c) \<Rightarrow>
            let (out, r1, b1) = read_step r b wanted k c;
                (rest, r2, b2) = rx_read r1 b1 (wanted - length out) in
            (out @ rest, r2, b2))"
  by pat_completeness auto

lemma read_step_out:
  assumes "read_candidate r = Some (k, c)" and "read_step r b wanted k c = (out, r1, b1)"
  shows "length out = min (k + length (bc_bytes c) - rx_next_offset r) wanted"
proof -
  note k = read_candidate_Some [OF assms(1)]
  have "out = slice (bc_bytes c) (rx_next_offset r - k)
      (rx_next_offset r - k + min (length (bc_bytes c) - (rx_next_offset r - k)) wanted)"
    using assms(2) by (auto simp: read_step_def Let_def split: if_splits)
  then show ?thesis using k by (auto simp: slice_def)
qed

termination rx_read
proof (relation "measure (\<lambda>(_, _, wanted). wanted)")
  fix r b wanted kc k c p out q r1 b1
  assume "wanted \<noteq> 0" "read_candidate r = Some kc" "(k, c) = kc" "p = read_step r b wanted k c"
    "(out, q) = p" "(r1, b1) = q"
  then show "((r1, b1, wanted - length out), r, b, wanted) \<in> measure (\<lambda>(_, _, wanted). wanted)"
    using read_step_out [of r k c b wanted out r1 b1] read_candidate_Some [of r k c] by auto
qed simp

declare rx_read.simps [simp del]

definition acknowledge_consumed :: "reassembler \<Rightarrow> mem_budget \<Rightarrow> nat \<Rightarrow> reassembler \<times> mem_budget" where
  "acknowledge_consumed r b contiguous =
     (let acknowledged = max (rx_acknowledged_offset r) contiguous;
          release_before = min acknowledged (rx_next_offset r);
          gone = (\<lambda>(k, c). case checked_end k (length (bc_bytes c)) of Inl _ \<Rightarrow> False | Inr e \<Rightarrow> e \<le> release_before) in
      (r\<lparr>rx_acknowledged_offset := acknowledged, rx_chunks := filter (\<lambda>kc. \<not> gone kc) (rx_chunks r)\<rparr>,
       fold (\<lambda>(k, c). charge_drop (bc_charge c)) (filter gone (rx_chunks r)) b))"

definition is_finished :: "reassembler \<Rightarrow> bool" where
  "is_finished r \<longleftrightarrow> rx_final_offset r = Some (rx_next_offset r)"
subsection \<open>The stored stream\<close>

abbreviation stream :: "reassembler \<Rightarrow> nat \<Rightarrow> u8 option" where
  "stream r \<equiv> content bc_bytes (rx_chunks r)"

definition chunk_ok :: "nat \<Rightarrow> nat \<times> buffered_chunk \<Rightarrow> bool" where
  "chunk_ok owner kc \<longleftrightarrow> fst kc + length (bc_bytes (snd kc)) \<le> wire_max
     \<and> length (bc_bytes (snd kc)) \<le> ch_bytes (bc_charge (snd kc)) \<and> ch_budget (bc_charge (snd kc)) = owner"

definition unread :: "nat \<Rightarrow> nat \<times> buffered_chunk \<Rightarrow> nat" where
  "unread n kc = fst kc + length (bc_bytes (snd kc)) - max (fst kc) n"

definition chunk_memory :: "(nat \<times> buffered_chunk) list \<Rightarrow> nat" where
  "chunk_memory m = sum_list (map (\<lambda>kc. ch_bytes (bc_charge (snd kc))) m)"

definition rx_inv :: "nat \<Rightarrow> reassembler \<Rightarrow> bool" where
  "rx_inv owner r \<longleftrightarrow> laid bc_bytes 0 (rx_chunks r) \<and> list_all (chunk_ok owner) (rx_chunks r)
     \<and> rx_bytes r = sum_list (map (unread (rx_next_offset r)) (rx_chunks r)) \<and> rx_bytes r \<le> rx_max_bytes r
     \<and> length (rx_chunks r) \<le> rx_max_chunks r \<and> rx_max_bytes r < usize_max \<and> rx_max_chunks r < usize_max
     \<and> rx_next_offset r \<le> wire_max
     \<and> (case rx_final_offset r of None \<Rightarrow> True | Some f \<Rightarrow> rx_next_offset r \<le> f \<and> f \<le> wire_max \<and> cover bc_bytes (rx_chunks r) \<subseteq> {..<f})"

definition agrees :: "nat \<Rightarrow> nat \<Rightarrow> bytes \<Rightarrow> (nat \<Rightarrow> u8 option) \<Rightarrow> bool" where
  "agrees offset e bs g \<longleftrightarrow> (\<forall>x y. offset \<le> x \<longrightarrow> x < e \<longrightarrow> g x = Some y \<longrightarrow> y = bs ! (x - offset))"

lemma slice_nth: "j \<le> length bs \<Longrightarrow> t < j - i \<Longrightarrow> slice bs i j ! t = bs ! (i + t)"
  by (simp add: slice_def)

lemma length_slice [simp]: "j \<le> length bs \<Longrightarrow> length (slice bs i j) = j - i"
  by (simp add: slice_def)

lemma overlap_differs_iff:
  assumes "e \<le> offset + length bs" and "max offset k < min e (k + length c)"
  shows "overlap_differs offset e bs k c \<longleftrightarrow>
    (\<exists>x. max offset k \<le> x \<and> x < min e (k + length c) \<and> bs ! (x - offset) \<noteq> c ! (x - k))"
proof -
  let ?lo = "max offset k" and ?hi = "min e (k + length c)"
  let ?n = "?hi - ?lo"
  have d: "overlap_differs offset e bs k c \<longleftrightarrow>
      slice bs (?lo - offset) (?hi - offset) \<noteq> slice c (?lo - k) (?lo - k + ?n)"
    using assms by (simp add: overlap_differs_def Let_def)
  have l: "length (slice bs (?lo - offset) (?hi - offset)) = ?n" "length (slice c (?lo - k) (?lo - k + ?n)) = ?n"
    using assms by (auto simp: slice_def)
  have n: "slice bs (?lo - offset) (?hi - offset) ! t = bs ! (?lo + t - offset)"
      "slice c (?lo - k) (?lo - k + ?n) ! t = c ! (?lo + t - k)" if "t < ?n" for t
    using that assms by (auto simp: slice_def)
  show ?thesis
  proof
    assume "overlap_differs offset e bs k c"
    then obtain t where "t < ?n" "bs ! (?lo + t - offset) \<noteq> c ! (?lo + t - k)"
      using d l n by (metis nth_equalityI)
    then show "\<exists>x. ?lo \<le> x \<and> x < ?hi \<and> bs ! (x - offset) \<noteq> c ! (x - k)"
      by (intro exI [where x = "?lo + t"]) auto
  next
    assume "\<exists>x. ?lo \<le> x \<and> x < ?hi \<and> bs ! (x - offset) \<noteq> c ! (x - k)"
    then obtain x where x: "?lo \<le> x" "x < ?hi" "bs ! (x - offset) \<noteq> c ! (x - k)" by blast
    then have "x - ?lo < ?n" "?lo + (x - ?lo) = x" by auto
    with x(3) n show "overlap_differs offset e bs k c" unfolding d by metis
  qed
qed

lemma agrees_Cons:
  assumes "laid bc_bytes lo ((k, c) # m)"
  shows "agrees offset e bs (content bc_bytes ((k, c) # m)) \<longleftrightarrow>
    (\<forall>x. max offset k \<le> x \<longrightarrow> x < min e (k + length (bc_bytes c)) \<longrightarrow> bs ! (x - offset) = bc_bytes c ! (x - k))
    \<and> agrees offset e bs (content bc_bytes m)"
proof -
  have above: "content bc_bytes m x = None" if "x < k + length (bc_bytes c)" for x
    using content_above [of bc_bytes "k + length (bc_bytes c)" m x] assms that by simp
  show ?thesis
  proof
    assume a: "agrees offset e bs (content bc_bytes ((k, c) # m))"
    have "bs ! (x - offset) = bc_bytes c ! (x - k)"
      if "max offset k \<le> x" "x < min e (k + length (bc_bytes c))" for x
      using a that by (auto simp: agrees_def)
    moreover have "y = bs ! (x - offset)" if x: "offset \<le> x" "x < e" "content bc_bytes m x = Some y" for x y
    proof -
      have "\<not> x < k + length (bc_bytes c)" using x(3) above [of x] by auto
      then have "content bc_bytes ((k, c) # m) x = Some y" using x(3) by simp
      then show ?thesis using a x(1,2) unfolding agrees_def by blast
    qed
    ultimately show "(\<forall>x. max offset k \<le> x \<longrightarrow> x < min e (k + length (bc_bytes c)) \<longrightarrow> bs ! (x - offset) = bc_bytes c ! (x - k))
      \<and> agrees offset e bs (content bc_bytes m)" by (auto simp: agrees_def)
  qed (auto simp: agrees_def)
qed

lemma overlap_differs_agrees:
  assumes "e \<le> offset + length bs" and "laid bc_bytes lo ((k, c) # m)"
    and "max offset k < min e (k + length (bc_bytes c))"
  shows "agrees offset e bs (content bc_bytes ((k, c) # m)) \<longleftrightarrow>
    \<not> overlap_differs offset e bs k (bc_bytes c) \<and> agrees offset e bs (content bc_bytes m)"
  unfolding agrees_Cons [OF assms(2)] overlap_differs_iff [OF assms(1,3)] by blast

lemma validate_consumed_overlap_eq:
  assumes "e \<le> offset + length bs" and "laid bc_bytes lo m" and "list_all (chunk_ok owner) m"
  shows "validate_consumed_overlap offset e bs m =
    (if agrees offset e bs (content bc_bytes m) then Inr () else Inl ContradictoryOverlap)"
  using assms(2,3)
proof (induction m arbitrary: lo)
  case Nil
  then show ?case by (simp add: agrees_def)
next
  case (Cons p m)
  obtain k c where p: "p = (k, c)" by (cases p)
  have l: "laid bc_bytes lo ((k, c) # m)" and l': "laid bc_bytes (k + length (bc_bytes c)) m"
    and ce: "checked_end k (length (bc_bytes c)) = Inr (k + length (bc_bytes c))"
    using Cons.prems by (auto simp: p chunk_ok_def checked_end_ok)
  have IH: "validate_consumed_overlap offset e bs m = (if agrees offset e bs (content bc_bytes m) then Inr () else Inl ContradictoryOverlap)"
    using Cons.IH [OF l'] Cons.prems(2) by simp
  show ?case
  proof (cases "max offset k < min e (k + length (bc_bytes c))")
    case True
    then have "\<not> min e (k + length (bc_bytes c)) \<le> max offset k" by (simp only: not_le)
    then show ?thesis using IH overlap_differs_agrees [OF assms(1) l True]
      by (simp add: p ce del: content.simps min_le_iff_disj le_max_iff_disj)
  next
    case False
    then have "agrees offset e bs (content bc_bytes ((k, c) # m)) \<longleftrightarrow> agrees offset e bs (content bc_bytes m)"
      unfolding agrees_Cons [OF l] by auto
    moreover have "min e (k + length (bc_bytes c)) \<le> max offset k" using False by (simp only: not_less)
    ultimately show ?thesis using IH by (simp add: p ce del: content.simps min_le_iff_disj le_max_iff_disj)
  qed
qed

lemma bt_below_content:
  assumes "laid f lo m" and "x < e"
  shows "content f (bt_below e m) x = content f m x"
  using assms
proof (induction f lo m rule: laid.induct)
  case (2 f lo k c m)
  show ?case
  proof (cases "k < e")
    case False
    have "content f ((k, c) # m) x = None" using content_above [OF 2(2), of x] content_above [of f "k + length (f c)" m x] 2 False by auto
    then show ?thesis using False by (simp add: bt_below_def del: content.simps(2))
  qed (use 2 in \<open>auto simp: bt_below_def\<close>)
qed (simp add: bt_below_def)

lemma agrees_below:
  "laid bc_bytes lo m \<Longrightarrow> agrees offset e bs (content bc_bytes (bt_below e m)) \<longleftrightarrow> agrees offset e bs (content bc_bytes m)"
  by (auto simp: agrees_def bt_below_content)

lemma list_all_below: "list_all P m \<Longrightarrow> list_all P (bt_below e m)"
  unfolding bt_below_def by (auto simp: list_all_iff dest: set_takeWhileD)

text \<open>The gaps of a range between the stored chunks.\<close>

fun gaps_ok :: "nat \<Rightarrow> nat \<Rightarrow> (nat \<times> nat) list \<Rightarrow> bool" where
  "gaps_ok lo e [] \<longleftrightarrow> True"
| "gaps_ok lo e ((s, t) # gaps) \<longleftrightarrow> lo \<le> s \<and> s < t \<and> t \<le> e \<and> gaps_ok t e gaps"

abbreviation gap_total :: "(nat \<times> nat) list \<Rightarrow> nat" where
  "gap_total gaps \<equiv> sum_list (map (\<lambda>(s, t). t - s) gaps)"

lemma gaps_ok_mono: "gaps_ok lo e gaps \<Longrightarrow> lo' \<le> lo \<Longrightarrow> gaps_ok lo' e gaps"
  by (cases gaps) auto

lemma gap_total_le: "gaps_ok lo e gaps \<Longrightarrow> lo \<le> e \<Longrightarrow> gap_total gaps \<le> e - lo"
proof (induction lo e gaps rule: gaps_ok.induct)
  case (2 lo e s t gaps)
  then have "gap_total gaps \<le> e - t" by simp
  then show ?case using 2 by auto
qed simp

lemma gaps_above: "gaps_ok lo e gaps \<Longrightarrow> x \<in> range_set gaps \<Longrightarrow> lo \<le> x \<and> x < e"
  by (induction lo e gaps rule: gaps_ok.induct) fastforce+

lemma gap_scan_spec:
  assumes "laid bc_bytes lo m" and "list_all (chunk_ok owner) m" and "list_all (\<lambda>(k, _). k < e) m"
    and "offset \<le> cursor" and "cursor \<le> max offset lo" and "cursor \<le> e"
  shows "\<exists>gaps. gap_scan offset e m cursor = Inr gaps \<and> gaps_ok cursor e gaps
    \<and> range_set gaps = {cursor..<e} - cover bc_bytes m \<and> length gaps \<le> Suc (length m)"
  using assms
proof (induction m arbitrary: lo cursor)
  case Nil
  then show ?case by auto
next
  case (Cons p m)
  obtain k c where p: "p = (k, c)" by (cases p)
  let ?ce = "k + length (bc_bytes c)"
  have l: "lo \<le> k" "bc_bytes c \<noteq> []" "laid bc_bytes ?ce m" and k: "k < e"
    and ce: "checked_end k (length (bc_bytes c)) = Inr ?ce"
    using Cons.prems by (auto simp: p chunk_ok_def checked_end_ok)
  have len: "0 < length (bc_bytes c)" using l(2) by simp
  have above: "x \<notin> cover bc_bytes m" if "x < ?ce" for x
    using content_above [OF l(3) that] by (simp add: content_None_iff)
  show ?case
  proof (cases "?ce \<le> offset")
    case True
    have "cursor \<le> max offset ?ce" using Cons.prems(5) l(1) by auto
    then obtain gaps where "gap_scan offset e m cursor = Inr gaps" "gaps_ok cursor e gaps"
        "range_set gaps = {cursor..<e} - cover bc_bytes m" "length gaps \<le> Suc (length m)"
      using Cons.IH [OF l(3)] Cons.prems by fastforce
    then show ?thesis using True Cons.prems(4) by (auto simp: p ce)
  next
    case False
    let ?cur = "max cursor (min e ?ce)"
    have "\<exists>gaps. gap_scan offset e m ?cur = Inr gaps \<and> gaps_ok ?cur e gaps
      \<and> range_set gaps = {?cur..<e} - cover bc_bytes m \<and> length gaps \<le> Suc (length m)"
      using Cons.prems l False by (intro Cons.IH [OF l(3)]) auto
    then obtain gaps where g: "gap_scan offset e m ?cur = Inr gaps" "gaps_ok ?cur e gaps"
        "range_set gaps = {?cur..<e} - cover bc_bytes m" "length gaps \<le> Suc (length m)" by blast
    have cur: "cursor \<le> max offset k" using Cons.prems(5) l(1) by auto
    show ?thesis
    proof (cases "cursor < max offset k")
      case True
      then have ck: "max offset k = k" "cursor < k" using Cons.prems(4) by auto
      have "range_set ((cursor, k) # gaps) = {cursor..<e} - cover bc_bytes (p # m)"
        using g(3) ck k above by (auto simp: p)
      moreover have "gaps_ok cursor e ((cursor, k) # gaps)"
        using g(2) ck k len gaps_ok_mono [OF g(2), of k] by auto
      ultimately show ?thesis using False True g(1,4) ck by (auto simp: p ce)
    next
      case no: False
      then have ck: "cursor = max offset k" using cur by simp
      have "range_set gaps = {cursor..<e} - cover bc_bytes (p # m)"
        using g(3) ck k above False Cons.prems(4) by (auto simp: p)
      moreover have "gaps_ok cursor e gaps" using gaps_ok_mono [OF g(2), of cursor] by simp
      ultimately show ?thesis using False no g(1,4) by (auto simp: p ce)
    qed
  qed
qed
lemma count_gap_ok:
  "gap_count < usize_max \<Longrightarrow> added + len \<le> usize_max \<Longrightarrow>
     count_gap open_gap len gap_count added =
       Inr (if open_gap then (Suc gap_count, added + len) else (gap_count, added))"
  by (simp add: count_gap_def checked_add_def)

lemma overlap_scan_spec:
  assumes "laid bc_bytes lo m" and "list_all (chunk_ok owner) m" and "list_all (\<lambda>(k, _). k < e) m"
    and "offset \<le> cursor" and "cursor \<le> max offset lo" and "cursor \<le> e"
    and "e \<le> offset + length bs" and "e \<le> wire_max"
    and "gap_count + length m < usize_max" and "added + (e - cursor) \<le> usize_max" and "offset < e"
  shows "\<exists>gaps. gap_scan offset e m cursor = Inr gaps \<and>
    overlap_scan offset e bs m cursor gap_count added =
     (if agrees offset e bs (content bc_bytes m) then Inr (gap_count + length gaps, added + gap_total gaps)
      else Inl ContradictoryOverlap)"
  using assms(1-6,9,10)
proof (induction m arbitrary: lo cursor gap_count added)
  case Nil
  then show ?case by (auto simp: count_gap_ok agrees_def)
next
  case (Cons p m)
  obtain k c where p: "p = (k, c)" by (cases p)
  let ?ce = "k + length (bc_bytes c)"
  have L: "laid bc_bytes lo ((k, c) # m)" using Cons.prems by (simp add: p)
  have l: "lo \<le> k" "bc_bytes c \<noteq> []" "laid bc_bytes ?ce m" and k: "k < e"
    and ce: "checked_end k (length (bc_bytes c)) = Inr ?ce"
    using Cons.prems by (auto simp: p chunk_ok_def checked_end_ok)
  have len: "0 < length (bc_bytes c)" using l(2) by simp
  show ?case
  proof (cases "?ce \<le> offset")
    case True
    have "cursor \<le> max offset ?ce" using Cons.prems(5) l(1) by auto
    then obtain gaps where "gap_scan offset e m cursor = Inr gaps"
        "overlap_scan offset e bs m cursor gap_count added =
         (if agrees offset e bs (content bc_bytes m) then Inr (gap_count + length gaps, added + gap_total gaps)
          else Inl ContradictoryOverlap)"
      using Cons.IH [OF l(3), of cursor gap_count added] Cons.prems by fastforce
    moreover have "agrees offset e bs (content bc_bytes ((k, c) # m)) \<longleftrightarrow> agrees offset e bs (content bc_bytes m)"
      using True unfolding agrees_Cons [OF L] by auto
    ultimately show ?thesis using True by (simp add: p ce del: content.simps)
  next
    case False
    let ?cur = "max cursor (min e ?ce)" and ?open = "cursor < max offset k" and ?len = "max offset k - cursor"
    have cur: "cursor \<le> max offset k" using Cons.prems(5) l(1) by auto
    have ov: "max offset k < min e ?ce" using False k assms(11) len by auto
    define g1 where "g1 = (if ?open then Suc gap_count else gap_count)"
    define a1 where "a1 = (if ?open then added + ?len else added)"
    have cg: "count_gap ?open ?len gap_count added = Inr (g1, a1)"
      using Cons.prems(7,8) k assms(11) by (subst count_gap_ok) (auto simp: g1_def a1_def)
    have "\<exists>gaps. gap_scan offset e m ?cur = Inr gaps \<and>
      overlap_scan offset e bs m ?cur g1 a1 =
       (if agrees offset e bs (content bc_bytes m) then Inr (g1 + length gaps, a1 + gap_total gaps)
        else Inl ContradictoryOverlap)"
      using Cons.prems l False ov by (intro Cons.IH [OF l(3)]) (auto simp: g1_def a1_def)
    then obtain gaps where g: "gap_scan offset e m ?cur = Inr gaps"
      "overlap_scan offset e bs m ?cur g1 a1 =
       (if agrees offset e bs (content bc_bytes m) then Inr (g1 + length gaps, a1 + gap_total gaps)
        else Inl ContradictoryOverlap)" by blast
    show ?thesis
      using False cg g overlap_differs_agrees [OF assms(7) L ov]
      by (auto simp: p ce g1_def a1_def simp del: content.simps)
  qed
qed

text \<open>One chunk more.\<close>

lemma insert_chunk:
  assumes l: "laid bc_bytes 0 m" and ok: "list_all (chunk_ok owner) m"
    and c: "bc_bytes c \<noteq> []" "chunk_ok owner (s, c)" and free: "{s..<s + length (bc_bytes c)} \<inter> cover bc_bytes m = {}"
  shows "laid bc_bytes 0 (bt_insert s c m)" and "list_all (chunk_ok owner) (bt_insert s c m)"
    and "cover bc_bytes (bt_insert s c m) = {s..<s + length (bc_bytes c)} \<union> cover bc_bytes m"
    and "content bc_bytes (bt_insert s c m) x =
      (if s \<le> x \<and> x < s + length (bc_bytes c) then Some (bc_bytes c ! (x - s)) else content bc_bytes m x)"
    and "length (bt_insert s c m) = Suc (length m)"
    and "chunk_memory (bt_insert s c m) = ch_bytes (bc_charge c) + chunk_memory m"
    and "sum_list (map (unread n) (bt_insert s c m)) = unread n (s, c) + sum_list (map (unread n) m)"
proof -
  have "set (bt_insert s c m) = insert (s, c) (set m)"
    using arg_cong [OF set_bt_insert [OF c(1) free l], of set_mset] by simp
  then show "list_all (chunk_ok owner) (bt_insert s c m)" using ok c(2) by (simp add: list_all_iff)
  show "chunk_memory (bt_insert s c m) = ch_bytes (bc_charge c) + chunk_memory m"
    unfolding chunk_memory_def using sum_bt_insert [OF c(1) free l] by simp
qed (use laid_insert [OF l _ c(1) free] cover_insert [OF c(1) free l] content_insert [OF c(1) free l]
      length_bt_insert [OF c(1) free l] sum_bt_insert [OF c(1) free l] in simp_all)

lemma install_gaps_spec:
  assumes "gaps_ok lo e gaps" and "offset \<le> lo" and "e \<le> offset + length bs" and "e \<le> wire_max" and "n \<le> lo"
    and "laid bc_bytes 0 m" and "list_all (chunk_ok owner) m" and "range_set gaps \<inter> cover bc_bytes m = {}"
    and "gap_total gaps \<le> ch_bytes scratch" and "ch_budget scratch = owner"
  shows "\<exists>m' scratch'. install_gaps offset bs gaps m scratch = (Inr (), m', scratch')
    \<and> laid bc_bytes 0 m' \<and> list_all (chunk_ok owner) m'
    \<and> cover bc_bytes m' = cover bc_bytes m \<union> range_set gaps
    \<and> (\<forall>x. content bc_bytes m' x = (if x \<in> range_set gaps then Some (bs ! (x - offset)) else content bc_bytes m x))
    \<and> length m' = length m + length gaps
    \<and> chunk_memory m' + ch_bytes scratch' = chunk_memory m + ch_bytes scratch
    \<and> ch_bytes scratch = ch_bytes scratch' + gap_total gaps
    \<and> sum_list (map (unread n) m') = sum_list (map (unread n) m) + gap_total gaps"
  using assms
proof (induction gaps arbitrary: lo m scratch)
  case Nil
  then show ?case by auto
next
  case (Cons g gaps)
  obtain s t where g: "g = (s, t)" by (cases g)
  have st: "lo \<le> s" "s < t" "t \<le> e" "gaps_ok t e gaps" using Cons.prems(1) by (auto simp: g)
  let ?c = "\<lparr>bc_bytes = slice bs (s - offset) (t - offset), bc_charge = \<lparr>ch_budget = ch_budget scratch, ch_bytes = t - s\<rparr>\<rparr>"
  let ?scratch = "scratch\<lparr>ch_bytes := ch_bytes scratch - (t - s)\<rparr>"
  have len: "length (bc_bytes ?c) = t - s" using st Cons.prems(2,3) by simp
  have c1: "bc_bytes ?c \<noteq> []" using len st(2) by fastforce
  have c2: "chunk_ok owner (s, ?c)" using len st Cons.prems(4,10) by (simp add: chunk_ok_def)
  have free: "{s..<s + length (bc_bytes ?c)} \<inter> cover bc_bytes m = {}"
    using Cons.prems(8) st(2) unfolding len by (auto simp: g)
  note I = insert_chunk [OF Cons.prems(6,7) c1 c2 free]
  have split: "charge_split scratch (t - s) = Inr (?scratch, \<lparr>ch_budget = ch_budget scratch, ch_bytes = t - s\<rparr>)"
    using Cons.prems(9) by (simp add: charge_split_def g)
  have rest: "range_set gaps \<inter> {s..<t} = {}" by (auto dest!: gaps_above [OF st(4)])
  have "range_set gaps \<inter> cover bc_bytes (bt_insert s ?c m) = {}"
    using Cons.prems(8) rest len st(2) unfolding I(3) by (auto simp: g)
  then have ex: "\<exists>m' scratch'. install_gaps offset bs gaps (bt_insert s ?c m) ?scratch = (Inr (), m', scratch')
    \<and> laid bc_bytes 0 m' \<and> list_all (chunk_ok owner) m'
    \<and> cover bc_bytes m' = cover bc_bytes (bt_insert s ?c m) \<union> range_set gaps
    \<and> (\<forall>x. content bc_bytes m' x = (if x \<in> range_set gaps then Some (bs ! (x - offset)) else content bc_bytes (bt_insert s ?c m) x))
    \<and> length m' = length (bt_insert s ?c m) + length gaps
    \<and> chunk_memory m' + ch_bytes scratch' = chunk_memory (bt_insert s ?c m) + ch_bytes ?scratch
    \<and> ch_bytes ?scratch = ch_bytes scratch' + gap_total gaps
    \<and> sum_list (map (unread n) m') = sum_list (map (unread n) (bt_insert s ?c m)) + gap_total gaps"
    by (intro Cons.IH [OF st(4) _ Cons.prems(3,4) _ I(1,2)]) (use Cons.prems st in \<open>simp_all add: g\<close>)
  have cont: "content bc_bytes (bt_insert s ?c m) x = (if s \<le> x \<and> x < t then Some (bs ! (x - offset)) else content bc_bytes m x)" for x
  proof -
    have "slice bs (s - offset) (t - offset) ! (x - s) = bs ! (x - offset)" if "s \<le> x" "x < t"
      using that st Cons.prems(2,3) by (subst slice_nth) auto
    then show ?thesis using I(4) [of x] len st(2) by simp
  qed
  have un: "unread n (s, ?c) = t - s" using len st Cons.prems(5) by (simp add: unread_def)
  have cv: "cover bc_bytes (bt_insert s ?c m) = {s..<t} \<union> cover bc_bytes m" unfolding I(3) len using st(2) by simp
  have tot: "gap_total (g # gaps) = t - s + gap_total gaps" "t - s \<le> ch_bytes scratch" using Cons.prems(9) by (simp_all add: g)
  show ?case
    using ex
  proof (elim exE conjE, intro exI conjI)
    fix m' scratch'
    assume IH: "install_gaps offset bs gaps (bt_insert s ?c m) ?scratch = (Inr (), m', scratch')"
      "laid bc_bytes 0 m'" "list_all (chunk_ok owner) m'"
      "cover bc_bytes m' = cover bc_bytes (bt_insert s ?c m) \<union> range_set gaps"
      "\<forall>x. content bc_bytes m' x = (if x \<in> range_set gaps then Some (bs ! (x - offset)) else content bc_bytes (bt_insert s ?c m) x)"
      "length m' = length (bt_insert s ?c m) + length gaps"
      "chunk_memory m' + ch_bytes scratch' = chunk_memory (bt_insert s ?c m) + ch_bytes ?scratch"
      "ch_bytes ?scratch = ch_bytes scratch' + gap_total gaps"
      "sum_list (map (unread n) m') = sum_list (map (unread n) (bt_insert s ?c m)) + gap_total gaps"
    show "install_gaps offset bs (g # gaps) m scratch = (Inr (), m', scratch')" using IH(1) split by (simp add: g)
    show "laid bc_bytes 0 m'" "list_all (chunk_ok owner) m'" by (fact IH)+
    show "cover bc_bytes m' = cover bc_bytes m \<union> range_set (g # gaps)" unfolding IH(4) cv by (auto simp: g)
    show "\<forall>x. content bc_bytes m' x = (if x \<in> range_set (g # gaps) then Some (bs ! (x - offset)) else content bc_bytes m x)"
      unfolding IH(5) [rule_format] cont by (auto simp: g)
    show "length m' = length m + length (g # gaps)" using IH(6) I(5) by simp
    show "chunk_memory m' + ch_bytes scratch' = chunk_memory m + ch_bytes scratch" using IH(7) I(6) tot by simp
    show "ch_bytes scratch = ch_bytes scratch' + gap_total (g # gaps)" using IH(8) tot by simp
    show "sum_list (map (unread n) m') = sum_list (map (unread n) m) + gap_total (g # gaps)"
      using IH(9) I(7) [of n] un tot by simp
  qed
qed
subsection \<open>Insertion is an exact merge\<close>

definition merged :: "reassembler \<Rightarrow> nat \<Rightarrow> bytes \<Rightarrow> nat \<Rightarrow> u8 option" where
  "merged r offset bs x =
     (if max offset (rx_next_offset r) \<le> x \<and> x < offset + length bs then Some (bs ! (x - offset)) else stream r x)"

text \<open>What every insertion promises: on success the record is merged into the stored stream, agreeing with what was there;
  on error nothing changed.  \<open>n\<close> is what the rest of the program holds of the budget.\<close>

definition insert_result ::
  "reassembler \<Rightarrow> mem_budget \<Rightarrow> nat \<Rightarrow> nat \<Rightarrow> bytes \<Rightarrow> bool \<Rightarrow> (recovery_error + unit) \<times> reassembler \<times> mem_budget \<Rightarrow> bool" where
  "insert_result r b n offset bs fin res \<longleftrightarrow>
     (let (out, r', b') = res in
      rx_inv (mb_id b) r' \<and> acc b b' (n + chunk_memory (rx_chunks r'))
      \<and> rx_next_offset r' = rx_next_offset r \<and> rx_acknowledged_offset r' = rx_acknowledged_offset r
      \<and> rx_max_bytes r' = rx_max_bytes r \<and> rx_max_chunks r' = rx_max_chunks r
      \<and> (case out of
           Inl x \<Rightarrow> r' = r \<and> (x = ContradictoryOverlap \<longrightarrow> \<not> agrees offset (offset + length bs) bs (stream r))
         | Inr _ \<Rightarrow> agrees offset (offset + length bs) bs (stream r) \<and> stream r' = merged r offset bs
             \<and> rx_final_offset r' = (if fin then Some (offset + length bs) else rx_final_offset r)))"

lemma acc_drop: "acc b0 b (n + ch_bytes c) \<Longrightarrow> acc b0 (charge_drop c b) n"
  by (simp add: charge_drop_def acc_release)

lemma insert_error:
  assumes "rx_inv (mb_id b) r" and "holds b (n + chunk_memory (rx_chunks r) + ch_bytes charge)"
    and "x = ContradictoryOverlap \<Longrightarrow> \<not> agrees offset (offset + length bs) bs (stream r)"
  shows "insert_result r b n offset bs fin (Inl x, r, charge_drop charge b)"
  using assms acc_drop [OF acc_refl [OF assms(2)]] by (auto simp: insert_result_def)

lemma beyond_iff:
  assumes "list_all (chunk_ok owner) (rx_chunks r)"
  shows "beyond r e \<longleftrightarrow> (\<exists>(k, c) \<in> set (rx_chunks r). e < k + length (bc_bytes c))"
  using assms unfolding beyond_def list_ex_iff
  by (intro bex_cong) (auto simp: list_all_iff chunk_ok_def end_or_max_ok split: prod.splits)

lemma not_beyond_cover:
  assumes "rx_inv owner r"
  shows "\<not> beyond r e \<longleftrightarrow> cover bc_bytes (rx_chunks r) \<subseteq> {..<e}"
proof -
  have l: "laid bc_bytes 0 (rx_chunks r)" and ok: "list_all (chunk_ok owner) (rx_chunks r)"
    using assms by (simp_all add: rx_inv_def)
  show ?thesis
  proof
    assume "\<not> beyond r e"
    then show "cover bc_bytes (rx_chunks r) \<subseteq> {..<e}"
      unfolding beyond_iff [OF ok] by (fastforce simp: cover_def not_less)
  next
    assume sub: "cover bc_bytes (rx_chunks r) \<subseteq> {..<e}"
    have "k + length (bc_bytes c) \<le> e" if kc: "(k, c) \<in> set (rx_chunks r)" for k c
    proof -
      obtain j where j: "length (bc_bytes c) = Suc j" using laid_above [OF l kc] by (cases "bc_bytes c") auto
      then have "k + j \<in> cover bc_bytes (rx_chunks r)"
        using kc by (auto simp: cover_def intro!: bexI [OF _ kc])
      then show ?thesis using sub j by auto
    qed
    then show "\<not> beyond r e" unfolding beyond_iff [OF ok] by fastforce
  qed
qed

lemma rx_inv_final:
  assumes "rx_inv owner r" and "rx_next_offset r \<le> e" and "e \<le> wire_max" and "\<not> beyond r e"
  shows "rx_inv owner (r\<lparr>rx_final_offset := Some e\<rparr>)"
  using assms not_beyond_cover [OF assms(1), of e] by (simp add: rx_inv_def)

lemma merged_consumed:
  assumes "offset + length bs \<le> rx_next_offset r"
  shows "merged r offset bs = stream r"
  using assms by (auto simp: merged_def fun_eq_iff)

lemma agrees_covered:
  assumes "agrees offset (offset + length bs) bs (stream r)"
    and "{max offset (rx_next_offset r)..<offset + length bs} \<subseteq> cover bc_bytes (rx_chunks r)"
  shows "merged r offset bs = stream r"
proof
  fix x
  show "merged r offset bs x = stream r x"
  proof (cases "max offset (rx_next_offset r) \<le> x \<and> x < offset + length bs")
    case True
    then have "x \<in> cover bc_bytes (rx_chunks r)" using assms(2) by auto
    then obtain y where y: "stream r x = Some y" using content_None_iff [of bc_bytes "rx_chunks r" x] by auto
    then show ?thesis using assms(1) True by (auto simp: merged_def agrees_def)
  qed (auto simp: merged_def)
qed

lemma set_final_ok:
  assumes inv: "rx_inv owner r" and e: "e \<le> wire_max" "rx_next_offset r \<le> e"
    and f: "\<not> (case rx_final_offset r of None \<Rightarrow> False | Some final \<Rightarrow> final \<noteq> e)" and nb: "\<not> beyond r e"
  shows "set_final_offset r e = Inr (r\<lparr>rx_final_offset := Some e\<rparr>)"
  using assms by (auto simp: set_final_offset_def)

text \<open>The branch that fills the gaps between stored chunks.\<close>

lemma insert_overlapping_spec:
  assumes inv: "rx_inv (mb_id b) r" and h: "holds b (n + chunk_memory (rx_chunks r) + ch_bytes incoming)"
    and e: "e = offset + length bs" "e \<le> wire_max" "bs \<noteq> []" "rx_next_offset r \<le> offset"
    and f: "\<not> (case rx_final_offset r of None \<Rightarrow> False | Some final \<Rightarrow> final < e)"
      "fin \<Longrightarrow> \<not> (case rx_final_offset r of None \<Rightarrow> False | Some final \<Rightarrow> final \<noteq> e) \<and> \<not> beyond r e"
  shows "insert_result r b n offset bs fin (insert_overlapping_record r b offset e bs fin incoming)"
proof -
  let ?m = "rx_chunks r" and ?below = "bt_below e (rx_chunks r)"
  have l: "laid bc_bytes 0 ?m" and ok: "list_all (chunk_ok (mb_id b)) ?m" using inv by (simp_all add: rx_inv_def)
  have oe: "offset < e" using e by simp
  have bl: "laid bc_bytes 0 ?below" "list_all (chunk_ok (mb_id b)) ?below" "list_all (\<lambda>(k, _). k < e) ?below"
    using bt_below_laid [OF l] list_all_below [OF ok] by (auto simp: bt_below_def list_all_iff dest: set_takeWhileD)
  have "length ?below \<le> length ?m" by (simp add: bt_below_def length_takeWhile_le)
  then have lb: "length ?below < usize_max" using inv by (simp add: rx_inv_def)
  have small: "e - offset \<le> usize_max" using e by (simp add: wire_max_value usize_max_def)
  obtain gaps where g: "gap_scan offset e ?below offset = Inr gaps" "gaps_ok offset e gaps"
      "range_set gaps = {offset..<e} - cover bc_bytes ?below"
    using gap_scan_spec [OF bl, of offset offset] oe by auto
  have scan: "overlap_scan offset e bs ?below offset 0 0 =
     (if agrees offset e bs (stream r) then Inr (length gaps, gap_total gaps) else Inl ContradictoryOverlap)"
    using overlap_scan_spec [OF bl, of offset offset bs 0 0] oe e small lb g(1) agrees_below [OF l, of offset e bs] by auto
  have "x \<in> cover bc_bytes ?below \<longleftrightarrow> x \<in> cover bc_bytes ?m" if "x < e" for x
    using bt_below_cover [OF l, of e] that by blast
  then have gs: "range_set gaps = {offset..<e} - cover bc_bytes ?m" unfolding g(3) by auto
  show ?thesis
  proof (cases "agrees offset e bs (stream r)")
    case False
    then show ?thesis using scan insert_error [OF inv h, of ContradictoryOverlap offset bs fin] e by (simp add: insert_overlapping_record_def)
  next
    case ag: True
    show ?thesis
    proof (cases "gaps = []")
      case True
      then have cov: "{offset..<e} \<subseteq> cover bc_bytes ?m" using gs by auto
      have mg: "merged r offset bs = stream r" using agrees_covered [of offset bs r] ag cov e by auto
      let ?r = "if fin then r\<lparr>rx_final_offset := Some e\<rparr> else r"
      have "insert_overlapping_record r b offset e bs fin incoming = (Inr (), ?r, charge_drop incoming b)"
        using scan ag True set_final_ok [OF inv e(2)] oe e f(2) by (simp add: insert_overlapping_record_def)
      moreover have "rx_inv (mb_id b) ?r" using inv rx_inv_final [OF inv, of e] oe e f(2) by auto
      ultimately show ?thesis
        using acc_drop [OF acc_refl [OF h]] ag mg e by (auto simp: insert_result_def)
    next
      case False
      let ?a = "gap_total gaps" and ?g = "length gaps"
      show ?thesis
      proof (cases "rx_max_bytes r < saturating_add (rx_bytes r) ?a \<or> rx_max_chunks r < saturating_add (length ?m) ?g")
        case True
        then show ?thesis using scan ag False insert_error [OF inv h, of Capacity offset bs fin] by (simp add: insert_overlapping_record_def)
      next
        case room: False
        have rb: "rx_bytes r + ?a \<le> rx_max_bytes r" "length ?m + ?g \<le> rx_max_chunks r"
          using room inv by (auto simp: saturating_add_def rx_inv_def)
        let ?res = "rbind (ok_or (checked_mul ?g size_of_range) Capacity) (\<lambda>gap_metadata.
                rbind (ok_or (checked_add ?a gap_metadata) Capacity) (\<lambda>n. charge_reserve b n))"
        show ?thesis
        proof (cases ?res)
          case (Inl x)
          then have "x = Capacity" by (auto simp: ok_or_def charge_reserve_def split: rbind_split_asm option.splits)
          then show ?thesis using scan ag False room Inl insert_error [OF inv h, of Capacity offset bs fin]
            by (simp add: insert_overlapping_record_def)
        next
          case (Inr p)
          obtain scratch b1 where p: "p = (scratch, b1)" by (cases p)
          have cr: "charge_reserve b (?a + ?g * size_of_range) = Inr (scratch, b1)"
            using Inr p by (auto simp: rbind_Inr_iff ok_or_Inr_iff)
          have s: "ch_bytes scratch = ?a + ?g * size_of_range" "ch_budget scratch = mb_id b"
            and a1: "acc b b1 (n + chunk_memory ?m + ch_bytes incoming + ch_bytes scratch)"
            using cr acc_reserve [OF acc_refl [OF h]] by (auto simp: charge_reserve_Inr)
          have "range_set gaps \<inter> cover bc_bytes ?m = {}" using gs by auto
          then obtain m' scratch' where ig: "install_gaps offset bs gaps ?m scratch = (Inr (), m', scratch')"
              "laid bc_bytes 0 m'" "list_all (chunk_ok (mb_id b)) m'" "cover bc_bytes m' = cover bc_bytes ?m \<union> range_set gaps"
              "\<forall>x. content bc_bytes m' x = (if x \<in> range_set gaps then Some (bs ! (x - offset)) else stream r x)"
              "length m' = length ?m + length gaps"
              "chunk_memory m' + ch_bytes scratch' = chunk_memory ?m + ch_bytes scratch"
              "ch_bytes scratch = ch_bytes scratch' + gap_total gaps"
              "sum_list (map (unread (rx_next_offset r)) m') = sum_list (map (unread (rx_next_offset r)) ?m) + gap_total gaps"
            using install_gaps_spec [OF g(2) order_refl, of bs "rx_next_offset r" ?m "mb_id b" scratch] e s l ok by auto
          let ?r = "r\<lparr>rx_chunks := m', rx_bytes := rx_bytes r + ?a, rx_final_offset := (if fin then Some e else rx_final_offset r)\<rparr>"
          have res: "insert_overlapping_record r b offset e bs fin incoming = (Inr (), ?r, charge_drop incoming (charge_drop scratch' b1))"
            using scan ag False room Inr p g(1) ig(1) by (simp add: insert_overlapping_record_def)
          have "acc b b1 (n + chunk_memory m' + ch_bytes incoming + ch_bytes scratch')"
            using a1 ig(7) by (simp add: ac_simps)
          then have "acc b (charge_drop incoming (charge_drop scratch' b1)) (n + chunk_memory m')"
            by (intro acc_drop)
          moreover have "content bc_bytes m' = merged r offset bs"
          proof
            fix x
            show "content bc_bytes m' x = merged r offset bs x"
            proof (cases "offset \<le> x \<and> x < e")
              case True
              show ?thesis
              proof (cases "x \<in> cover bc_bytes ?m")
                case cov: True
                then obtain y where y: "stream r x = Some y" using content_None_iff [of bc_bytes ?m x] by auto
                then show ?thesis using ag True cov ig(5) gs e by (auto simp: agrees_def merged_def)
              next
                case no: False
                then show ?thesis using True ig(5) gs e by (simp add: merged_def)
              qed
            next
              case out: False
              then show ?thesis using ig(5) gs e by (auto simp: merged_def)
            qed
          qed
          moreover have "rx_inv (mb_id b) ?r"
          proof -
            have "cover bc_bytes m' \<subseteq> {..<f}" if "rx_final_offset r = Some f" for f
              using inv f(1) that ig(4) gs by (auto simp: rx_inv_def)
            moreover have "cover bc_bytes m' \<subseteq> {..<e}" if fin
              using f(2) [OF that] not_beyond_cover [OF inv, of e] ig(4) gs by auto
            ultimately show ?thesis
              using inv ig rb e by (auto simp: rx_inv_def split: option.splits)
          qed
          ultimately show ?thesis using res ag e by (simp add: insert_result_def)
        qed
      qed
    qed
  qed
qed
lemma trim_consumed_spec:
  assumes inv: "rx_inv owner r" and e: "rx_next_offset r < offset + length bs" and ne: "bs \<noteq> []"
  shows "case trim_consumed r offset bs of
      Inl x \<Rightarrow> x = ContradictoryOverlap \<and> \<not> agrees offset (offset + length bs) bs (stream r)
    | Inr (start, data) \<Rightarrow> start = max offset (rx_next_offset r) \<and> data = drop (start - offset) bs
        \<and> start + length data = offset + length bs \<and> data \<noteq> []
        \<and> (agrees offset (offset + length bs) bs (stream r) \<longleftrightarrow> agrees start (start + length data) data (stream r))
        \<and> merged r start data = merged r offset bs"
proof (cases "offset < rx_next_offset r")
  case False
  then show ?thesis using ne by (auto simp: trim_consumed_def)
next
  case True
  let ?n = "rx_next_offset r"
  let ?data = "drop (?n - offset) bs"
  have l: "laid bc_bytes 0 (rx_chunks r)" and ok: "list_all (chunk_ok owner) (rx_chunks r)"
    using inv by (simp_all add: rx_inv_def)
  have v: "validate_consumed_overlap offset ?n bs (bt_below ?n (rx_chunks r)) =
      (if agrees offset ?n bs (stream r) then Inr () else Inl ContradictoryOverlap)"
    using validate_consumed_overlap_eq [OF _ bt_below_laid [OF l] list_all_below [OF ok]] e agrees_below [OF l]
    by simp
  have nth: "?data ! (x - ?n) = bs ! (x - offset)" if "?n \<le> x" "x < offset + length bs" for x
    using that True by (simp add: ac_simps)
  have ln: "?n + length ?data = offset + length bs" using e True by simp
  have ag: "agrees offset (offset + length bs) bs (stream r) \<longleftrightarrow>
      agrees offset ?n bs (stream r) \<and> agrees ?n (?n + length ?data) ?data (stream r)"
    unfolding ln
  proof
    assume a: "agrees offset (offset + length bs) bs (stream r)"
    have "agrees offset ?n bs (stream r)" using a e by (auto simp: agrees_def)
    moreover have "agrees ?n (offset + length bs) ?data (stream r)"
      unfolding agrees_def
    proof (intro allI impI)
      fix x y assume x: "?n \<le> x" "x < offset + length bs" "stream r x = Some y"
      then have "y = bs ! (x - offset)" using a True by (auto simp: agrees_def)
      then show "y = ?data ! (x - ?n)" using nth [OF x(1,2)] by simp
    qed
    ultimately show "agrees offset ?n bs (stream r) \<and> agrees ?n (offset + length bs) ?data (stream r)" ..
  next
    assume a: "agrees offset ?n bs (stream r) \<and> agrees ?n (offset + length bs) ?data (stream r)"
    show "agrees offset (offset + length bs) bs (stream r)"
      unfolding agrees_def
    proof (intro allI impI)
      fix x y assume x: "offset \<le> x" "x < offset + length bs" "stream r x = Some y"
      show "y = bs ! (x - offset)"
      proof (cases "x < ?n")
        case True
        then show ?thesis using a x by (auto simp: agrees_def)
      next
        case False
        then have "y = ?data ! (x - ?n)" using a x by (auto simp: agrees_def)
        then show ?thesis using nth [of x] x False by simp
      qed
    qed
  qed
  have mg: "merged r ?n ?data = merged r offset bs"
    unfolding merged_def fun_eq_iff ln using nth True by auto
  show ?thesis
  proof (cases "agrees offset ?n bs (stream r)")
    case False
    then show ?thesis using True v ag by (simp add: trim_consumed_def)
  next
    case a: True
    have "trim_consumed r offset bs = Inr (?n, ?data)" using True v a by (simp add: trim_consumed_def)
    then show ?thesis using True ag a mg ln e by (simp del: length_drop)
  qed
qed

lemma insert_fresh_chunk:
  assumes inv: "rx_inv (mb_id b) r" and e: "e = start + length data" "e \<le> wire_max" "data \<noteq> []" "rx_next_offset r \<le> start"
    and f1: "\<not> (case rx_final_offset r of None \<Rightarrow> False | Some final \<Rightarrow> final < e)"
    and f2: "fin \<Longrightarrow> \<not> beyond r e"
    and free: "{start..<e} \<inter> cover bc_bytes (rx_chunks r) = {}"
    and room: "rx_bytes r + length data \<le> rx_max_bytes r" "length (rx_chunks r) < rx_max_chunks r"
    and c: "acc b b' (n + chunk_memory (rx_chunks r) + ch_bytes charge)" "length data \<le> ch_bytes charge" "ch_budget charge = mb_id b"
  shows "insert_result r b n start data fin (Inr (), r\<lparr>rx_bytes := rx_bytes r + length data,
      rx_chunks := bt_insert start \<lparr>bc_bytes = data, bc_charge = charge\<rparr> (rx_chunks r),
      rx_final_offset := (if fin then Some e else rx_final_offset r)\<rparr>, b')"
    (is "insert_result r b n start data fin (Inr (), ?r, b')")
proof -
  let ?c = "\<lparr>bc_bytes = data, bc_charge = charge\<rparr>"
  have l: "laid bc_bytes 0 (rx_chunks r)" and ok: "list_all (chunk_ok (mb_id b)) (rx_chunks r)"
    using inv by (simp_all add: rx_inv_def)
  have ne: "bc_bytes ?c \<noteq> []" and ck: "chunk_ok (mb_id b) (start, ?c)" using c e by (simp_all add: chunk_ok_def)
  have "{start..<start + length (bc_bytes ?c)} \<inter> cover bc_bytes (rx_chunks r) = {}" using free e(1) by simp
  note I = insert_chunk [OF l ok ne ck this]
  have agr: "agrees start (start + length data) data (stream r)"
    unfolding agrees_def using free e(1) content_None_iff [of bc_bytes "rx_chunks r"]
    by (metis IntI atLeastLessThan_iff empty_iff option.distinct(1))
  have str: "stream ?r = merged r start data"
    using I(4) e(4) by (auto simp: merged_def fun_eq_iff)
  have un: "unread (rx_next_offset r) (start, ?c) = length data" using e(4) by (simp add: unread_def)
  have "cover bc_bytes (bt_insert start ?c (rx_chunks r)) \<subseteq> {..<f}" if "rx_final_offset r = Some f" for f
    using inv f1 that I(3) e(1) by (auto simp: rx_inv_def)
  moreover have "cover bc_bytes (bt_insert start ?c (rx_chunks r)) \<subseteq> {..<e}" if fin
    using f2 [OF that] not_beyond_cover [OF inv, of e] I(3) e(1) by auto
  ultimately have "rx_inv (mb_id b) ?r"
    using inv I e room un by (auto simp: rx_inv_def split: option.splits)
  moreover have "acc b b' (n + chunk_memory (rx_chunks ?r))" using c(1) I(6) by (simp add: ac_simps)
  ultimately show ?thesis using agr str e(1) by (simp add: insert_result_def)
qed

lemma insert_consumed_record:
  assumes inv: "rx_inv (mb_id b) r" and h: "holds b (n + chunk_memory (rx_chunks r) + ch_bytes charge)"
    and e: "offset + length bs \<le> wire_max" "offset + length bs \<le> rx_next_offset r"
    and f: "fin \<Longrightarrow> \<not> (case rx_final_offset r of None \<Rightarrow> False | Some final \<Rightarrow> final \<noteq> offset + length bs)
      \<and> \<not> beyond r (offset + length bs) \<and> rx_next_offset r \<le> offset + length bs"
  shows "insert_result r b n offset bs fin
    (case rbind (validate_consumed_overlap offset (offset + length bs) bs (bt_below (offset + length bs) (rx_chunks r))) (\<lambda>_.
        if fin then set_final_offset r (offset + length bs) else Inr r) of
       Inl x \<Rightarrow> (Inl x, r, charge_drop charge b)
     | Inr r' \<Rightarrow> (Inr (), r', charge_drop charge b))"
proof -
  let ?e = "offset + length bs"
  have l: "laid bc_bytes 0 (rx_chunks r)" and ok: "list_all (chunk_ok (mb_id b)) (rx_chunks r)"
    using inv by (simp_all add: rx_inv_def)
  have v: "validate_consumed_overlap offset ?e bs (bt_below ?e (rx_chunks r)) =
      (if agrees offset ?e bs (stream r) then Inr () else Inl ContradictoryOverlap)"
    using validate_consumed_overlap_eq [OF _ bt_below_laid [OF l] list_all_below [OF ok]] agrees_below [OF l] by simp
  show ?thesis
  proof (cases "agrees offset ?e bs (stream r)")
    case False
    then show ?thesis using insert_error [OF inv h, of ContradictoryOverlap offset bs fin] v by simp
  next
    case ag: True
    let ?r = "if fin then r\<lparr>rx_final_offset := Some ?e\<rparr> else r"
    have "(if fin then set_final_offset r ?e else Inr r) = Inr ?r" using f set_final_ok [OF inv e(1)] by simp
    moreover have "rx_inv (mb_id b) ?r" using inv rx_inv_final [OF inv _ e(1)] f by auto
    ultimately show ?thesis
      using acc_drop [OF acc_refl [OF h]] ag v merged_consumed [OF e(2)] by (auto simp: insert_result_def)
  qed
qed

text \<open>The branch for a record that reaches past what has been read.\<close>

definition insert_unread ::
  "reassembler \<Rightarrow> mem_budget \<Rightarrow> nat \<Rightarrow> nat \<Rightarrow> bytes \<Rightarrow> usize \<Rightarrow> bool \<Rightarrow> recovery_charge \<Rightarrow> bool
     \<Rightarrow> (recovery_error + unit) \<times> reassembler \<times> mem_budget" where
  "insert_unread r b start e data retained fin charge precharged =
     (if (case bt_last (bt_below e (rx_chunks r)) of None \<Rightarrow> False
         | Some (k, c) \<Rightarrow> start < end_or_max k (length (bc_bytes c)))
      then insert_overlapping_record r b start e data fin charge
      else if rx_max_bytes r < saturating_add (rx_bytes r) (length data) \<or> rx_max_chunks r \<le> length (rx_chunks r)
      then (Inl Capacity, r, charge_drop charge b)
      else
        (case (if precharged then Inr (charge, b) else charge_grow charge retained b) of
           Inl x \<Rightarrow> (Inl x, r, charge_drop charge b)
         | Inr (charge', b') \<Rightarrow>
             (Inr (), r\<lparr>rx_bytes := rx_bytes r + length data,
                rx_chunks := bt_insert start \<lparr>bc_bytes = data, bc_charge = charge'\<rparr> (rx_chunks r),
                rx_final_offset := (if fin then Some e else rx_final_offset r)\<rparr>, b')))"

lemma insert_unread_spec:
  assumes inv: "rx_inv (mb_id b) r" and h: "holds b (n + chunk_memory (rx_chunks r) + ch_bytes charge)"
    and own: "belongs_to charge b" and pre: "precharged \<Longrightarrow> retained \<le> ch_bytes charge"
    and e: "e = start + length data" "e \<le> wire_max" "data \<noteq> []" "rx_next_offset r \<le> start" "length data \<le> retained"
    and f1: "\<not> (case rx_final_offset r of None \<Rightarrow> False | Some final \<Rightarrow> final < e)"
    and f2: "fin \<Longrightarrow> \<not> (case rx_final_offset r of None \<Rightarrow> False | Some final \<Rightarrow> final \<noteq> e) \<and> \<not> beyond r e"
  shows "insert_result r b n start data fin (insert_unread r b start e data retained fin charge precharged)"
proof -
  have l: "laid bc_bytes 0 (rx_chunks r)" and ok: "list_all (chunk_ok (mb_id b)) (rx_chunks r)"
    using inv by (simp_all add: rx_inv_def)
  have test: "(case bt_last (bt_below e (rx_chunks r)) of None \<Rightarrow> False
      | Some (k, c) \<Rightarrow> start < end_or_max k (length (bc_bytes c)))
    \<longleftrightarrow> {start..<e} \<inter> cover bc_bytes (rx_chunks r) \<noteq> {}"
  proof -
    have "end_or_max k (length (bc_bytes c)) = k + length (bc_bytes c)"
      if "bt_last (bt_below e (rx_chunks r)) = Some (k, c)" for k c
      using bt_last_below_in [OF that] ok by (auto simp: list_all_iff chunk_ok_def end_or_max_ok)
    then show ?thesis
      using overlap_test [OF l, of start e] e
      by (cases "bt_last (bt_below e (rx_chunks r))") auto
  qed
  show ?thesis
  proof (cases "{start..<e} \<inter> cover bc_bytes (rx_chunks r) = {}")
    case False
    then show ?thesis
      using insert_overlapping_spec [OF inv h e(1-4) f1 f2] test by (simp add: insert_unread_def)
  next
    case free: True
    show ?thesis
    proof (cases "rx_max_bytes r < saturating_add (rx_bytes r) (length data) \<or> rx_max_chunks r \<le> length (rx_chunks r)")
      case True
      then show ?thesis using insert_error [OF inv h, of Capacity start data fin] test free by (simp add: insert_unread_def)
    next
      case False
      then have room: "rx_bytes r + length data \<le> rx_max_bytes r" "length (rx_chunks r) < rx_max_chunks r"
        using inv by (auto simp: saturating_add_def rx_inv_def)
      let ?res = "if precharged then Inr (charge, b) else charge_grow charge retained b"
      show ?thesis
      proof (cases ?res)
        case (Inl x)
        then have "x = Capacity" by (auto simp: charge_grow_def split: if_splits option.splits)
        then show ?thesis using insert_error [OF inv h, of Capacity start data fin] test free False Inl by (simp add: insert_unread_def)
      next
        case (Inr q)
        obtain charge' b' where q: "?res = Inr (charge', b')" using Inr by (cases q) auto
        have c: "acc b b' (n + chunk_memory (rx_chunks r) + ch_bytes charge')" "length data \<le> ch_bytes charge'"
          "ch_budget charge' = mb_id b"
          using q pre own e(5) acc_refl [OF h] acc_grow [OF acc_refl [OF h], of retained charge' b']
          by (auto simp: belongs_to_def split: if_splits)
        show ?thesis
          using insert_fresh_chunk [OF inv e(1-4) f1 _ free room c] f2 test free False q
          by (simp add: insert_unread_def)
      qed
    qed
  qed
qed

lemma insert_record_unread:
  assumes "belongs_to charge b" and "precharged \<Longrightarrow> length bs \<le> ch_bytes charge" and "e = offset + length bs" "e \<le> wire_max" "bs \<noteq> []"
    and "\<not> (case rx_final_offset r of None \<Rightarrow> False | Some final \<Rightarrow> final < e)"
    and "\<not> (fin \<and> ((case rx_final_offset r of None \<Rightarrow> False | Some final \<Rightarrow> final \<noteq> e) \<or> e < rx_next_offset r \<or> beyond r e))"
    and "rx_next_offset r < e"
  shows "insert_record_with_reservation r b offset bs fin charge precharged =
    (case trim_consumed r offset bs of
       Inl x \<Rightarrow> (Inl x, r, charge_drop charge b)
     | Inr (start, data) \<Rightarrow> insert_unread r b start e data (length bs) fin charge precharged)"
  using assms unfolding insert_record_with_reservation_def insert_unread_def
  by (auto simp: checked_end_ok not_less simp del: not_less split: sum.splits)

lemma insert_result_cong:
  assumes "insert_result r b n start data fin res" and "offset + length bs = start + length data"
    and "agrees offset (offset + length bs) bs (stream r) \<longleftrightarrow> agrees start (start + length data) data (stream r)"
    and "merged r start data = merged r offset bs"
  shows "insert_result r b n offset bs fin res"
proof -
  obtain out r' b' where res: "res = (out, r', b')" by (cases res)
  show ?thesis using assms by (cases out) (auto simp: res insert_result_def)
qed

lemma insert_record_with_reservation_spec:
  assumes inv: "rx_inv (mb_id b) r" and h: "holds b (n + chunk_memory (rx_chunks r) + ch_bytes charge)"
    and own: "belongs_to charge b"
  shows "insert_result r b n offset bs fin (insert_record_with_reservation r b offset bs fin charge precharged)"
proof -
  let ?I = "insert_record_with_reservation r b offset bs fin charge precharged"
  let ?n = "rx_next_offset r" and ?e = "offset + length bs"
  let ?F1 = "case rx_final_offset r of None \<Rightarrow> False | Some final \<Rightarrow> final < ?e"
  let ?F2 = "fin \<and> ((case rx_final_offset r of None \<Rightarrow> False | Some final \<Rightarrow> final \<noteq> ?e) \<or> ?e < ?n \<or> beyond r ?e)"
  consider (bad) x where "?I = (Inl x, r, charge_drop charge b)" "x \<noteq> ContradictoryOverlap"
    | (good) "precharged \<Longrightarrow> length bs \<le> ch_bytes charge" "?e \<le> wire_max" "bs \<noteq> []" "\<not> ?F1" "\<not> ?F2"
  proof (cases "(precharged \<and> ch_bytes charge < length bs) \<or> wire_max < ?e \<or> bs = [] \<or> ?F1 \<or> ?F2")
    case True
    have "\<exists>x. ?I = (Inl x, r, charge_drop charge b) \<and> x \<noteq> ContradictoryOverlap"
    proof (cases "wire_max < ?e")
      case over: True
      then have "checked_end offset (length bs) = Inl OffsetOverflow" by (simp add: checked_end_Inl)
      then show ?thesis using own by (simp add: insert_record_with_reservation_def drop_foreign_def)
    next
      case False
      then have "checked_end offset (length bs) = Inr ?e" by (simp add: checked_end_ok)
      then show ?thesis using True own False by (auto simp: insert_record_with_reservation_def drop_foreign_def)
    qed
    then show ?thesis using bad by blast
  next
    case False
    then show ?thesis using good by auto
  qed
  then show ?thesis
  proof cases
    case (bad x)
    then show ?thesis using insert_error [OF inv h, of x offset bs fin] by simp
  next
    case good
    show ?thesis
    proof (cases "?e \<le> ?n")
      case True
      have "?I = (case rbind (validate_consumed_overlap offset ?e bs (bt_below ?e (rx_chunks r))) (\<lambda>_.
          if fin then set_final_offset r ?e else Inr r) of
             Inl x \<Rightarrow> (Inl x, r, charge_drop charge b) | Inr r' \<Rightarrow> (Inr (), r', charge_drop charge b))"
        using own good True by (auto simp: insert_record_with_reservation_def checked_end_ok)
      then show ?thesis using insert_consumed_record [OF inv h good(2) True, of fin] good(5) by auto
    next
      case False
      then have fresh: "?n < ?e" by simp
      have I: "?I = (case trim_consumed r offset bs of Inl x \<Rightarrow> (Inl x, r, charge_drop charge b)
          | Inr (start, data) \<Rightarrow> insert_unread r b start ?e data (length bs) fin charge precharged)"
        by (rule insert_record_unread [OF own good(1) refl good(2-5) fresh])
      note t = trim_consumed_spec [OF inv fresh good(3)]
      show ?thesis
      proof (cases "trim_consumed r offset bs")
        case (Inl x)
        then show ?thesis using insert_error [OF inv h, of x offset bs fin] t I by simp
      next
        case (Inr p)
        obtain start data where p: "trim_consumed r offset bs = Inr (start, data)" using Inr by (cases p) auto
        have st: "?e = start + length data" "data \<noteq> []" "?n \<le> start" "length data \<le> length bs"
          and ag: "agrees offset ?e bs (stream r) \<longleftrightarrow> agrees start (start + length data) data (stream r)"
          and mg: "merged r start data = merged r offset bs"
          using t p by auto
        have "insert_result r b n start data fin ?I"
          using insert_unread_spec [OF inv h own good(1) st(1) good(2) st(2-4) good(4)] good(5) I p by simp
        then show ?thesis by (rule insert_result_cong [OF _ st(1) ag mg])
      qed
    qed
  qed
qed

subsection \<open>Reading returns the next octets\<close>

lemma unread_below: "fst kc + length (bc_bytes (snd kc)) \<le> n \<Longrightarrow> unread n kc = 0"
  by (simp add: unread_def)

lemma unread_above: "n \<le> fst kc \<Longrightarrow> n' \<le> fst kc \<Longrightarrow> unread n kc = unread n' kc"
  by (simp add: unread_def)

lemma laid_before: "laid f lo (xs @ (k, c) # ys) \<Longrightarrow> (j, d) \<in> set xs \<Longrightarrow> j + length (f d) \<le> k \<and> f d \<noteq> []"
proof (induction xs arbitrary: lo)
  case (Cons p xs)
  obtain i a where p: "p = (i, a)" by (cases p)
  show ?case
  proof (cases "(j, d) = p")
    case True
    then show ?thesis using Cons.prems(1) laid_above [of f "j + length (f d)" "xs @ (k, c) # ys" k c] by (auto simp: p)
  next
    case False
    then show ?thesis using Cons.prems Cons.IH [of "i + length (f a)"] by (auto simp: p)
  qed
qed simp

lemma laid_split:
  assumes "laid f lo m" and "(k, c) \<in> set m"
  obtains xs ys where "m = xs @ (k, c) # ys"
    and "\<forall>j d. (j, d) \<in> set xs \<longrightarrow> j + length (f d) \<le> k \<and> j < k"
    and "\<forall>j d. (j, d) \<in> set ys \<longrightarrow> k + length (f c) \<le> j \<and> k < j"
proof -
  obtain xs ys where m: "m = xs @ (k, c) # ys" using assms(2) by (metis split_list)
  have l: "laid f (k + length (f c)) ys" using assms(1) by (auto simp: m laid_append)
  have ne: "0 < length (f c)" using laid_above [OF assms] by simp
  have "j + length (f d) \<le> k \<and> j < k" if "(j, d) \<in> set xs" for j d
    using laid_before [OF assms(1) [unfolded m] that] length_greater_0_conv [of "f d"] by linarith
  moreover have "k + length (f c) \<le> j \<and> k < j" if "(j, d) \<in> set ys" for j d
    using laid_above [OF l that] ne by linarith
  ultimately show ?thesis using that [OF m] by blast
qed

lemma sum_unread_advance:
  assumes "laid bc_bytes 0 m" and "(k, c) \<in> set m" and "k \<le> n" "n \<le> n'" "n' \<le> k + length (bc_bytes c)"
  shows "sum_list (map (unread n) m) = sum_list (map (unread n') m) + (n' - n)"
proof -
  obtain xs ys where m: "m = xs @ (k, c) # ys"
      and xs: "\<forall>j d. (j, d) \<in> set xs \<longrightarrow> j + length (bc_bytes d) \<le> k \<and> j < k"
      and ys: "\<forall>j d. (j, d) \<in> set ys \<longrightarrow> k + length (bc_bytes c) \<le> j \<and> k < j"
    by (rule laid_split [OF assms(1,2)]) blast
  have "map (unread n) xs = map (unread n') xs" using assms by (auto simp: unread_def dest!: xs [rule_format])
  moreover have "map (unread n) ys = map (unread n') ys" using assms by (auto simp: unread_def dest!: ys [rule_format])
  moreover have "unread n (k, c) = unread n' (k, c) + (n' - n)" using assms by (simp add: unread_def)
  ultimately show ?thesis unfolding m by (simp del: map_eq_conv)
qed

lemma remove_chunk:
  assumes "laid bc_bytes 0 m" and "(k, c) \<in> set m"
  shows "chunk_memory m = chunk_memory (filter (\<lambda>(j, _). j \<noteq> k) m) + ch_bytes (bc_charge c)"
    and "unread n (k, c) = 0 \<Longrightarrow> sum_list (map (unread n) (filter (\<lambda>(j, _). j \<noteq> k) m)) = sum_list (map (unread n) m)"
    and "k + length (bc_bytes c) \<le> x \<Longrightarrow> content bc_bytes (filter (\<lambda>(j, _). j \<noteq> k) m) x = content bc_bytes m x"
proof -
  obtain xs ys where m: "m = xs @ (k, c) # ys"
      and xs: "\<forall>j d. (j, d) \<in> set xs \<longrightarrow> j + length (bc_bytes d) \<le> k \<and> j < k"
      and ys: "\<forall>j d. (j, d) \<in> set ys \<longrightarrow> k + length (bc_bytes c) \<le> j \<and> k < j"
    by (rule laid_split [OF assms]) blast
  have "filter (\<lambda>(j, _). j \<noteq> k) xs = xs" "filter (\<lambda>(j, _). j \<noteq> k) ys = ys"
    by (auto simp: filter_id_conv dest: xs [rule_format] ys [rule_format])
  then have f: "filter (\<lambda>(j, _). j \<noteq> k) m = xs @ ys" by (simp add: m)
  show "chunk_memory m = chunk_memory (filter (\<lambda>(j, _). j \<noteq> k) m) + ch_bytes (bc_charge c)"
    unfolding f by (simp add: m chunk_memory_def)
  show "unread n (k, c) = 0 \<Longrightarrow> sum_list (map (unread n) (filter (\<lambda>(j, _). j \<noteq> k) m)) = sum_list (map (unread n) m)"
    unfolding f by (simp add: m)
  assume x: "k + length (bc_bytes c) \<le> x"
  have app: "content bc_bytes (us @ vs) x = (case content bc_bytes us x of None \<Rightarrow> content bc_bytes vs x | Some y \<Rightarrow> Some y)" for us vs
    by (induction us) auto
  show "content bc_bytes (filter (\<lambda>(j, _). j \<noteq> k) m) x = content bc_bytes m x"
    unfolding f using x by (simp add: m app split: option.splits)
qed

lemma cover_filter: "cover f (filter P m) \<subseteq> cover f m"
  by (auto simp: cover_def)

lemma read_step_spec:
  assumes inv: "rx_inv (mb_id b) r" and a: "acc b0 b (n + chunk_memory (rx_chunks r))"
    and k: "read_candidate r = Some (k, c)" and s: "read_step r b wanted k c = (out, r1, b1)"
  shows "rx_inv (mb_id b1) r1" and "acc b0 b1 (n + chunk_memory (rx_chunks r1))" and "mb_id b1 = mb_id b"
    and "rx_next_offset r1 = rx_next_offset r + length out"
    and "\<forall>i < length out. stream r (rx_next_offset r + i) = Some (out ! i)"
    and "\<forall>x \<ge> rx_next_offset r1. stream r1 x = stream r x"
    and "rx_final_offset r1 = rx_final_offset r" "rx_acknowledged_offset r1 = rx_acknowledged_offset r"
      "rx_max_bytes r1 = rx_max_bytes r" "rx_max_chunks r1 = rx_max_chunks r"
    and "\<forall>x. stream r1 x = None \<or> stream r1 x = stream r x"
proof -
  note K = read_candidate_Some [OF k]
  let ?n = "rx_next_offset r" and ?e = "k + length (bc_bytes c)"
  have l: "laid bc_bytes 0 (rx_chunks r)" and ok: "list_all (chunk_ok (mb_id b)) (rx_chunks r)"
    and sm: "rx_bytes r = sum_list (map (unread ?n) (rx_chunks r))"
    using inv by (simp_all add: rx_inv_def)
  have len: "length out = min (?e - ?n) wanted" by (rule read_step_out [OF k s])
  let ?n' = "?n + length out"
  have n': "?n' \<le> ?e" using len K by auto
  let ?drop = "?e \<le> ?n' \<and> ?e \<le> rx_acknowledged_offset r"
  let ?m = "if ?drop then filter (\<lambda>(j, _). j \<noteq> k) (rx_chunks r) else rx_chunks r"
  have cnt: "min (length (bc_bytes c) - (?n - k)) wanted = length out" using len K by auto
  have out: "out = slice (bc_bytes c) (?n - k) (?n - k + length out)"
    and r1: "r1 = r\<lparr>rx_next_offset := ?n', rx_bytes := rx_bytes r - length out, rx_chunks := ?m\<rparr>"
    and b1: "b1 = (if ?drop then charge_drop (bc_charge c) b else b)"
    using s unfolding read_step_def Let_def cnt by (auto split: if_splits)
  show id: "mb_id b1 = mb_id b" by (simp add: b1 charge_drop_def release_def)
  show "rx_next_offset r1 = ?n'" "rx_final_offset r1 = rx_final_offset r" "rx_acknowledged_offset r1 = rx_acknowledged_offset r"
      "rx_max_bytes r1 = rx_max_bytes r" "rx_max_chunks r1 = rx_max_chunks r" by (simp_all add: r1)
  have kin: "(k, c) \<in> set (rx_chunks r)" using K by simp
  show "\<forall>i < length out. stream r (?n + i) = Some (out ! i)"
  proof (intro allI impI)
    fix i assume i: "i < length out"
    have "stream r (?n + i) = Some (bc_bytes c ! (?n + i - k))" using laid_content [OF l kin, of "?n + i"] K n' i by simp
    moreover have "out ! i = bc_bytes c ! (?n - k + i)" using i n' K by (subst out) (auto simp: slice_nth)
    moreover have "?n + i - k = ?n - k + i" using K by simp
    ultimately show "stream r (?n + i) = Some (out ! i)" by simp
  qed
  have adv: "rx_bytes r = sum_list (map (unread ?n') (rx_chunks r)) + length out"
    unfolding sm using sum_unread_advance [OF l kin, of ?n ?n'] K n' by simp
  have un0: "unread ?n' (k, c) = 0" if ?drop using that by (simp add: unread_def)
  have sum: "rx_bytes r1 = sum_list (map (unread ?n') ?m)" using adv remove_chunk(2) [OF l kin un0] by (simp add: r1)
  have lm: "laid bc_bytes 0 ?m" using l laid_filter [OF l] by simp
  have okm: "list_all (chunk_ok (mb_id b)) ?m" using ok by (simp add: list_all_iff)
  have cov: "cover bc_bytes ?m \<subseteq> cover bc_bytes (rx_chunks r)" by (simp add: cover_filter)
  have ec: "x \<in> cover bc_bytes (rx_chunks r)" if "?n \<le> x" "x < ?e" for x
    using kin K that by (auto simp: cover_def intro!: bexI [OF _ kin])
  have fin: "?n' \<le> f" if "rx_final_offset r = Some f" for f
  proof (cases "length out = 0")
    case True
    then show ?thesis using inv that by (simp add: rx_inv_def)
  next
    case False
    then have "?n \<le> ?n' - 1" "?n' - 1 < ?e" "0 < ?n'" using n' by linarith+
    then have "?n' - 1 \<in> cover bc_bytes (rx_chunks r)" by (intro ec)
    then have "?n' - 1 < f" using inv that unfolding rx_inv_def by auto
    then show ?thesis using \<open>0 < ?n'\<close> by linarith
  qed
  have lenm: "length ?m \<le> length (rx_chunks r)" by simp
  show "rx_inv (mb_id b1) r1"
    unfolding rx_inv_def id
    using inv lm okm sum cov fin lenm n' K
    by (auto simp: r1 rx_inv_def split: option.splits intro: order_trans)
  show "acc b0 b1 (n + chunk_memory (rx_chunks r1))"
    using a remove_chunk(1) [OF l kin] acc_release_eq [OF a]
    by (auto simp: r1 b1 charge_drop_def)
  show "\<forall>x \<ge> rx_next_offset r1. stream r1 x = stream r x"
    using remove_chunk(3) [OF l kin] by (auto simp: r1)
  show "\<forall>x. stream r1 x = None \<or> stream r1 x = stream r x"
  proof
    fix x
    show "stream r1 x = None \<or> stream r1 x = stream r x"
    proof (cases "stream r1 x")
      case (Some y)
      then obtain j d where jd: "(j, d) \<in> set ?m" "j \<le> x" "x < j + length (bc_bytes d)" "y = bc_bytes d ! (x - j)"
        using content_SomeD [of bc_bytes "rx_chunks r1" x y] by (auto simp: r1)
      then have "(j, d) \<in> set (rx_chunks r)" by (auto split: if_splits)
      then show ?thesis using laid_content [OF l _ jd(2,3)] jd(4) Some by simp
    qed simp
  qed
qed

lemma read_candidate_None:
  assumes "rx_inv owner r" and "read_candidate r = None"
  shows "stream r (rx_next_offset r) = None"
proof (rule ccontr)
  let ?n = "rx_next_offset r"
  assume "stream r ?n \<noteq> None"
  then obtain y where "stream r ?n = Some y" by auto
  then obtain k c where kc: "(k, c) \<in> set (rx_chunks r)" "k \<le> ?n" "?n < k + length (bc_bytes c)"
    using content_SomeD by blast
  have l: "laid bc_bytes 0 (rx_chunks r)" and ok: "list_all (chunk_ok owner) (rx_chunks r)"
    using assms(1) by (simp_all add: rx_inv_def)
  obtain xs ys where m: "rx_chunks r = xs @ (k, c) # ys"
      and xs: "\<forall>j d. (j, d) \<in> set xs \<longrightarrow> j + length (bc_bytes d) \<le> k \<and> j < k"
      and ys: "\<forall>j d. (j, d) \<in> set ys \<longrightarrow> k + length (bc_bytes c) \<le> j \<and> k < j"
    by (rule laid_split [OF l kc(1)]) blast
  have "takeWhile (\<lambda>(j, _). j \<le> ?n) ys = []" using kc(3) ys by (cases ys) force+
  moreover have "\<forall>p \<in> set xs. (case p of (j, _) \<Rightarrow> j \<le> ?n)" using kc(2) by (auto dest: xs [rule_format])
  ultimately have "bt_upto ?n (rx_chunks r) = xs @ [(k, c)]"
    using kc(2) by (simp add: bt_upto_def m takeWhile_append2)
  then have "bt_last (bt_upto ?n (rx_chunks r)) = Some (k, c)" by (simp add: bt_last_def)
  moreover have "checked_end k (length (bc_bytes c)) = Inr (k + length (bc_bytes c))"
    using ok kc(1) by (auto simp: list_all_iff chunk_ok_def checked_end_ok)
  ultimately show False using assms(2) kc(3) by (simp add: read_candidate_def)
qed

lemma rx_read_spec:
  assumes "rx_inv (mb_id b) r" and "acc b0 b (n + chunk_memory (rx_chunks r))" and "rx_read r b wanted = (out, r', b')"
  shows "rx_inv (mb_id b') r' \<and> acc b0 b' (n + chunk_memory (rx_chunks r')) \<and> mb_id b' = mb_id b
    \<and> rx_next_offset r' = rx_next_offset r + length out \<and> length out \<le> wanted
    \<and> (\<forall>i < length out. stream r (rx_next_offset r + i) = Some (out ! i))
    \<and> (length out < wanted \<longrightarrow> stream r (rx_next_offset r') = None)
    \<and> (\<forall>x \<ge> rx_next_offset r'. stream r' x = stream r x)
    \<and> (\<forall>x. stream r' x = None \<or> stream r' x = stream r x)
    \<and> rx_final_offset r' = rx_final_offset r"
  using assms
proof (induction r b wanted arbitrary: out r' b' rule: rx_read.induct)
  case (1 r b wanted)
  show ?case
  proof (cases "wanted = 0")
    case True
    then have "out = []" "r' = r" "b' = b" using 1(4) by (simp_all add: rx_read.simps [of r b 0])
    then show ?thesis using 1 True by simp
  next
    case w: False
    show ?thesis
    proof (cases "read_candidate r")
      case None
      then have "out = []" "r' = r" "b' = b" using 1(4) w by (simp_all add: rx_read.simps [of r b wanted])
      then show ?thesis using 1 read_candidate_None [OF 1(2) None] by simp
    next
      case (Some kc)
      obtain k c where kc: "read_candidate r = Some (k, c)" using Some by (cases kc) auto
      obtain o1 r1 b1 where s: "read_step r b wanted k c = (o1, r1, b1)" by (metis prod.exhaust)
      obtain o2 r2 b2 where rest: "rx_read r1 b1 (wanted - length o1) = (o2, r2, b2)" by (metis prod.exhaust)
      have res: "out = o1 @ o2" "r' = r2" "b' = b2"
        using 1(4) w kc s rest by (simp_all add: rx_read.simps [of r b wanted])
      note S = read_step_spec [OF 1(2,3) kc s]
      have len: "length o1 \<le> wanted" using read_step_out [OF kc s] by simp
      have IH: "rx_inv (mb_id b2) r2 \<and> acc b0 b2 (n + chunk_memory (rx_chunks r2)) \<and> mb_id b2 = mb_id b1
        \<and> rx_next_offset r2 = rx_next_offset r1 + length o2 \<and> length o2 \<le> wanted - length o1
        \<and> (\<forall>i < length o2. stream r1 (rx_next_offset r1 + i) = Some (o2 ! i))
        \<and> (length o2 < wanted - length o1 \<longrightarrow> stream r1 (rx_next_offset r2) = None)
        \<and> (\<forall>x \<ge> rx_next_offset r2. stream r2 x = stream r1 x)
        \<and> (\<forall>x. stream r2 x = None \<or> stream r2 x = stream r1 x)
        \<and> rx_final_offset r2 = rx_final_offset r1"
        using 1(1) [OF w kc refl s [symmetric] refl refl S(1,2) rest] .
      have "stream r (rx_next_offset r + i) = Some ((o1 @ o2) ! i)" if "i < length (o1 @ o2)" for i
      proof (cases "i < length o1")
        case True
        then show ?thesis using S(5) by (simp add: nth_append)
      next
        case False
        let ?j = "i - length o1"
        have "?j < length o2" using that False by auto
        with IH have "stream r1 (rx_next_offset r1 + ?j) = Some (o2 ! ?j)" by blast
        moreover have "rx_next_offset r1 + ?j = rx_next_offset r + i" using S(4) False by simp
        moreover have "stream r1 (rx_next_offset r + i) = stream r (rx_next_offset r + i)" using S(4,6) False by simp
        ultimately show ?thesis using False by (simp add: nth_append)
      qed
      moreover have "stream r2 x = stream r x" if "rx_next_offset r2 \<le> x" for x using IH S(4,6) that by simp
      moreover have "stream r2 x = None \<or> stream r2 x = stream r x" for x using IH S(11) by metis
      moreover have "length (o1 @ o2) < wanted \<longrightarrow> stream r (rx_next_offset r2) = None"
      proof
        assume "length (o1 @ o2) < wanted"
        then have "stream r1 (rx_next_offset r2) = None" using IH by auto
        then show "stream r (rx_next_offset r2) = None" using IH S(6) [rule_format, of "rx_next_offset r2"] by simp
      qed
      moreover have "length (o1 @ o2) \<le> wanted" using IH len by auto
      moreover have "rx_inv (mb_id b) r2" using IH S(3) by auto
      ultimately show ?thesis using IH S(3,4,7) unfolding res by simp
    qed
  qed
qed
subsection \<open>Acknowledging releases only what was read\<close>

lemma acc_fold_drop:
  "acc b0 b (n + chunk_memory m) \<Longrightarrow> acc b0 (fold (\<lambda>(k, c). charge_drop (bc_charge c)) m b) n"
proof (induction m arbitrary: b)
  case (Cons p m)
  obtain k c where p: "p = (k, c)" by (cases p)
  have "acc b0 (charge_drop (bc_charge c) b) (n + chunk_memory m)"
    unfolding charge_drop_def by (rule acc_release_eq [OF Cons.prems]) (simp add: p chunk_memory_def)
  then show ?case using Cons.IH by (simp add: p)
qed (simp add: chunk_memory_def)

lemma chunk_memory_filter: "chunk_memory m = chunk_memory (filter (\<lambda>kc. \<not> P kc) m) + chunk_memory (filter P m)"
  unfolding chunk_memory_def using sum_filter [of "\<lambda>kc. ch_bytes (bc_charge (snd kc))" P m] by linarith

lemma acknowledge_consumed_spec:
  assumes inv: "rx_inv (mb_id b) r" and a: "acc b0 b (n + chunk_memory (rx_chunks r))"
    and s: "acknowledge_consumed r b contiguous = (r', b')"
  shows "rx_inv (mb_id b') r' \<and> acc b0 b' (n + chunk_memory (rx_chunks r')) \<and> mb_id b' = mb_id b
    \<and> rx_next_offset r' = rx_next_offset r \<and> rx_acknowledged_offset r' = max (rx_acknowledged_offset r) contiguous
    \<and> (\<forall>x \<ge> rx_next_offset r. stream r' x = stream r x) \<and> (\<forall>x. stream r' x = None \<or> stream r' x = stream r x)
    \<and> rx_final_offset r' = rx_final_offset r"
proof -
  let ?n = "rx_next_offset r"
  define gone :: "nat \<times> buffered_chunk \<Rightarrow> bool" where "gone = (\<lambda>(k, c). case checked_end k (length (bc_bytes c)) of Inl _ \<Rightarrow> False
    | Inr e \<Rightarrow> e \<le> min (max (rx_acknowledged_offset r) contiguous) ?n)"
  let ?m = "filter (\<lambda>kc. \<not> gone kc) (rx_chunks r)"
  have r': "r' = r\<lparr>rx_acknowledged_offset := max (rx_acknowledged_offset r) contiguous, rx_chunks := ?m\<rparr>"
    and b': "b' = fold (\<lambda>(k, c). charge_drop (bc_charge c)) (filter gone (rx_chunks r)) b"
    using s by (auto simp: acknowledge_consumed_def gone_def Let_def)
  have l: "laid bc_bytes 0 (rx_chunks r)" and ok: "list_all (chunk_ok (mb_id b)) (rx_chunks r)"
    using inv by (simp_all add: rx_inv_def)
  have a': "acc b0 b' (n + chunk_memory ?m)"
    unfolding b' using a chunk_memory_filter [of "rx_chunks r" gone] by (intro acc_fold_drop) (simp add: ac_simps)
  have ids: "mb_id b' = mb_id b" using a a' by (simp add: acc_def)
  have g: "k + length (bc_bytes c) \<le> ?n" if "gone (k, c)" for k c
    using that by (auto simp: gone_def checked_end_Inr split: sum.splits)
  have "sum_list (map (unread ?n) (filter gone (rx_chunks r))) = 0"
    by (auto simp: unread_def sum_list_eq_0_iff dest!: g)
  then have sm: "sum_list (map (unread ?n) ?m) = sum_list (map (unread ?n) (rx_chunks r))"
    using sum_filter [of "unread ?n" gone "rx_chunks r"] by linarith
  have cov: "cover bc_bytes ?m \<subseteq> cover bc_bytes (rx_chunks r)" by (rule cover_filter)
  have len: "length ?m \<le> rx_max_chunks r"
    using inv by (intro le_trans [OF length_filter_le]) (simp add: rx_inv_def)
  have "rx_inv (mb_id b) r'"
    using inv sm cov len laid_filter [OF l, of "\<lambda>kc. \<not> gone kc"]
    by (auto simp: rx_inv_def r' list_all_iff split: option.splits)
  moreover have sub: "stream r' x = None \<or> stream r' x = stream r x" for x
  proof (cases "stream r' x")
    case (Some y)
    then obtain k c where kc: "(k, c) \<in> set ?m" "k \<le> x" "x < k + length (bc_bytes c)" "y = bc_bytes c ! (x - k)"
      using content_SomeD [of bc_bytes "rx_chunks r'" x y] by (auto simp: r')
    then show ?thesis using laid_content [OF l _ kc(2,3)] Some by simp
  qed simp
  moreover have "stream r' x = stream r x" if x: "?n \<le> x" for x
  proof (cases "stream r x")
    case None
    then show ?thesis using sub [of x] by auto
  next
    case (Some y)
    have "content bc_bytes ?m x = Some y"
      by (rule content_filter [OF l Some]) (use g x in fastforce)
    then show ?thesis using Some by (simp add: r')
  qed
  moreover have "rx_next_offset r' = ?n" "rx_acknowledged_offset r' = max (rx_acknowledged_offset r) contiguous"
      "rx_final_offset r' = rx_final_offset r" "rx_chunks r' = ?m"
    by (simp_all add: r')
  ultimately show ?thesis using a' ids by simp
qed

subsection \<open>Runs over an honest stream\<close>

text \<open>
  \<open>rx_run T r0 b0 r b out errs\<close>: the reassembler and its budget after any sequence of records cut out of
  the stream \<open>T\<close>, reads and acknowledgements from \<open>r0\<close> and \<open>b0\<close>; \<open>out\<close> is what the application read, \<open>errs\<close> the errors the insertions returned.
\<close>

inductive rx_run ::
  "(nat \<Rightarrow> u8) \<Rightarrow> reassembler \<Rightarrow> mem_budget \<Rightarrow> reassembler \<Rightarrow> mem_budget \<Rightarrow> bytes \<Rightarrow> recovery_error list \<Rightarrow> bool"
  for T r0 b0 where
  start: "rx_run T r0 b0 r0 b0 [] []"
| record_ok: "rx_run T r0 b0 r b out errs \<Longrightarrow> bs = map T [offset..<offset + len]
    \<Longrightarrow> insert_record r b offset bs fin = (Inr u, r', b') \<Longrightarrow> rx_run T r0 b0 r' b' out errs"
| record_err: "rx_run T r0 b0 r b out errs \<Longrightarrow> bs = map T [offset..<offset + len]
    \<Longrightarrow> insert_record r b offset bs fin = (Inl x, r', b') \<Longrightarrow> rx_run T r0 b0 r' b' out (x # errs)"
| read: "rx_run T r0 b0 r b out errs \<Longrightarrow> rx_read r b wanted = (bs, r', b') \<Longrightarrow> rx_run T r0 b0 r' b' (out @ bs) errs"
| acknowledge: "rx_run T r0 b0 r b out errs \<Longrightarrow> acknowledge_consumed r b contiguous = (r', b')
    \<Longrightarrow> rx_run T r0 b0 r' b' out errs"

definition run_ok :: "(nat \<Rightarrow> u8) \<Rightarrow> nat \<Rightarrow> mem_budget \<Rightarrow> reassembler \<Rightarrow> mem_budget \<Rightarrow> bytes \<Rightarrow> recovery_error list \<Rightarrow> bool" where
  "run_ok T n b0 r b out errs \<longleftrightarrow> rx_inv (mb_id b) r \<and> acc b0 b (n + chunk_memory (rx_chunks r))
     \<and> out = map T [0..<rx_next_offset r] \<and> (\<forall>x y. stream r x = Some y \<longrightarrow> y = T x) \<and> ContradictoryOverlap \<notin> set errs"

lemma honest_agrees: "\<forall>x y. stream r x = Some y \<longrightarrow> y = T x \<Longrightarrow>
    agrees offset (offset + length (map T [offset..<offset + len])) (map T [offset..<offset + len]) (stream r)"
  by (auto simp: agrees_def)

lemma insert_record_spec:
  assumes "rx_inv (mb_id b) r" and "acc b0 b (n + chunk_memory (rx_chunks r))"
  shows "insert_result r b n offset bs fin (insert_record r b offset bs fin)"
proof -
  have h: "holds b (n + chunk_memory (rx_chunks r))" using assms(2) by (rule acc_holds)
  have z: "rx_reserve 0 b = Inr (\<lparr>ch_budget = mb_id b, ch_bytes = 0\<rparr>, b)"
    using reserve_zero [OF h] by (simp add: rx_reserve_def charge_reserve_def)
  show ?thesis unfolding insert_record_def z
    using insert_record_with_reservation_spec [OF assms(1), of n "\<lparr>ch_budget = mb_id b, ch_bytes = 0\<rparr>" offset bs fin False] h
    by (simp add: belongs_to_def)
qed

lemma rx_run_ok:
  assumes "rx_inv (mb_id b0) r0" and "holds b0 n" and "rx_chunks r0 = []" and "rx_next_offset r0 = 0"
    and "rx_run T r0 b0 r b out errs"
  shows "run_ok T n b0 r b out errs"
  using assms(5)
proof induction
  case start
  then show ?case using assms(1-4) by (auto simp: run_ok_def chunk_memory_def acc_refl)
next
  case (record_ok r b out errs bs offset len fin u r' b')
  have i: "insert_result r b n offset bs fin (Inr u, r', b')"
    using insert_record_spec [of b r b0 n offset bs fin] record_ok by (simp add: run_ok_def)
  then have "y = T x" if "stream r' x = Some y" for x y
    using that record_ok.IH record_ok.hyps(2) by (auto simp: insert_result_def merged_def run_ok_def split: if_splits)
  then show ?case using i record_ok.IH by (auto simp: insert_result_def run_ok_def acc_def)
next
  case (record_err r b out errs bs offset len fin x r' b')
  have i: "insert_result r b n offset bs fin (Inl x, r', b')"
    using insert_record_spec [of b r b0 n offset bs fin] record_err by (simp add: run_ok_def)
  have "agrees offset (offset + length bs) bs (stream r)"
    unfolding record_err.hyps(2) by (rule honest_agrees) (use record_err.IH in \<open>simp add: run_ok_def\<close>)
  then show ?case using i record_err.IH by (auto simp: insert_result_def run_ok_def acc_def)
next
  case (read r b out errs wanted bs r' b')
  have inv: "rx_inv (mb_id b) r" and a: "acc b0 b (n + chunk_memory (rx_chunks r))" and o: "out = map T [0..<rx_next_offset r]"
    and T: "\<forall>x y. stream r x = Some y \<longrightarrow> y = T x" using read.IH by (simp_all add: run_ok_def)
  note s = rx_read_spec [OF inv a read.hyps(2)]
  have "bs = map T [rx_next_offset r..<rx_next_offset r + length bs]"
    using s T by (intro nth_equalityI) auto
  then have "out @ bs = map T [0..<rx_next_offset r']"
    using s o upt_add_eq_append [of 0 "rx_next_offset r" "length bs"] by (metis le0 map_append)
  moreover have "y = T x" if "stream r' x = Some y" for x y
    using that s T by (metis option.distinct(1))
  moreover have "rx_inv (mb_id b') r'" using s by blast
  ultimately show ?case using s read.IH unfolding run_ok_def by blast
next
  case (acknowledge r b out errs contiguous r' b')
  have inv: "rx_inv (mb_id b) r" and a: "acc b0 b (n + chunk_memory (rx_chunks r))" and o: "out = map T [0..<rx_next_offset r]"
    and T: "\<forall>x y. stream r x = Some y \<longrightarrow> y = T x" using acknowledge.IH by (simp_all add: run_ok_def)
  note s = acknowledge_consumed_spec [OF inv a acknowledge.hyps(2)]
  have "y = T x" if "stream r' x = Some y" for x y
    using that s T by (metis option.distinct(1))
  moreover have "rx_inv (mb_id b') r'" using s by blast
  ultimately show ?case using s acknowledge.IH unfolding run_ok_def by metis
qed
subsection \<open>Properties\<close>

lemma rx_inv_new: "m + 63 < usize_max \<Longrightarrow> rx_inv owner (rx_with_budget m)"
  by (auto simp: rx_inv_def rx_with_budget_def usize_max_def)

text \<open>C19: inserting a record, whether its memory is reserved now or was reserved before, either merges it exactly or
  changes nothing: on success the stored stream is the old one with the octets from the
  read position on filled in from the record, the octets both have are equal, and the final offset is recorded; on error the
  reassembler is unchanged, and \<open>ContradictoryOverlap\<close> is reported only when a stored octet differs from the
  record's.  In all cases the invariant holds and the budget holds exactly what the chunks hold: a charge that is not kept is
  returned.\<close>

theorem insert_record_exact:
  assumes "rx_inv (mb_id b) r" and "holds b (n + chunk_memory (rx_chunks r) + ch_bytes charge)" and "belongs_to charge b"
    and "insert_record_with_reservation r b offset bs fin charge precharged = (res, r', b')"
  shows "rx_inv (mb_id b) r' \<and> holds b' (n + chunk_memory (rx_chunks r'))
    \<and> (case res of
         Inl x \<Rightarrow> r' = r \<and> (x = ContradictoryOverlap \<longrightarrow> \<not> agrees offset (offset + length bs) bs (stream r))
       | Inr _ \<Rightarrow> agrees offset (offset + length bs) bs (stream r) \<and> stream r' = merged r offset bs
           \<and> rx_next_offset r' = rx_next_offset r
           \<and> rx_final_offset r' = (if fin then Some (offset + length bs) else rx_final_offset r))"
  using insert_record_with_reservation_spec [OF assms(1-3), of offset bs fin precharged] unfolding assms(4)
  by (auto simp: insert_result_def acc_def split: sum.splits)

text \<open>C20: a read returns the stored octets from the read position on, at most as many as
  asked for, and stops early only where the next octet has not arrived; the read position moves by what was
  returned, nothing unread is lost, and dropping consumed chunks returns exactly their bytes to the budget.\<close>

theorem read_exact:
  assumes "rx_inv (mb_id b) r" and "holds b (n + chunk_memory (rx_chunks r))" and "rx_read r b wanted = (out, r', b')"
  shows "map Some out = map (stream r) [rx_next_offset r..<rx_next_offset r + length out]
    \<and> length out \<le> wanted \<and> (length out = wanted \<or> stream r (rx_next_offset r + length out) = None)
    \<and> rx_next_offset r' = rx_next_offset r + length out
    \<and> {x. rx_next_offset r' \<le> x \<and> stream r' x \<noteq> stream r x} = {}
    \<and> rx_inv (mb_id b') r' \<and> holds b' (n + chunk_memory (rx_chunks r'))"
proof -
  note s = rx_read_spec [OF assms(1) acc_refl [OF assms(2)] assms(3)]
  have "map Some out = map (stream r) [rx_next_offset r..<rx_next_offset r + length out]"
    using s by (intro nth_equalityI) auto
  then show ?thesis using s acc_holds by fastforce
qed

text \<open>C21: whatever the order, overlap and repetition in which the records of a stream arrive, and however reads and
  acknowledgements are interleaved, the application has read exactly the prefix of the stream up to the read
  position, no record was ever taken for a contradiction, the buffered octets stay within the limit and the budget holds
  exactly the memory of the stored chunks on top of what it held at the start.\<close>

theorem reassembly_delivers:
  assumes "m + 63 < usize_max" and "holds b0 n" and "rx_run T (rx_with_budget m) b0 r b out errs"
  shows "out = map T [0..<rx_next_offset r] \<and> ContradictoryOverlap \<notin> set errs
    \<and> holds b (n + chunk_memory (rx_chunks r)) \<and> rx_bytes r \<le> rx_max_bytes r \<and> length (rx_chunks r) \<le> rx_max_chunks r"
  using rx_run_ok [OF rx_inv_new [OF assms(1)] assms(2) _ _ assms(3)]
  by (auto simp: run_ok_def rx_with_budget_def acc_def rx_inv_def)

text \<open>A run: the octets 2 and 3 arrive, then 0 to 2, and are read.\<close>

definition demo_stream :: "nat \<Rightarrow> u8" where
  "demo_stream i = word_of_nat (i + 7)"

definition demo_budget :: mem_budget where
  "demo_budget = budget_new 1 1000"

definition demo_held :: reassembler where
  "demo_held = (rx_with_budget 64)\<lparr>rx_bytes := 2, rx_chunks := [(2, \<lparr>bc_bytes = [9, 10], bc_charge = \<lparr>ch_budget = 1, ch_bytes = 2\<rparr>\<rparr>)]\<rparr>"

definition demo_filled :: reassembler where
  "demo_filled = (rx_with_budget 64)\<lparr>rx_bytes := 4, rx_chunks :=
     [(0, \<lparr>bc_bytes = [7, 8], bc_charge = \<lparr>ch_budget = 1, ch_bytes = 2\<rparr>\<rparr>),
      (2, \<lparr>bc_bytes = [9, 10], bc_charge = \<lparr>ch_budget = 1, ch_bytes = 2\<rparr>\<rparr>)]\<rparr>"

definition demo_used :: "nat \<Rightarrow> mem_budget" where
  "demo_used n = demo_budget\<lparr>mb_used := n\<rparr>"

lemmas demo_simps = demo_stream_def demo_budget_def demo_held_def demo_filled_def demo_used_def budget_new_def rx_with_budget_def
  wire_max_value usize_max_def

lemmas insert_simps = insert_record_def insert_record_with_reservation_def insert_overlapping_record_def rx_reserve_def
  charge_reserve_def try_reserve_def belongs_to_def checked_end_ok beyond_def trim_consumed_def bt_last_def bt_below_def
  end_or_max_ok Let_def saturating_add_def overlap_differs_def slice_def count_gap_def checked_add_def checked_mul_def charge_grow_def
  size_of_range_def charge_drop_def release_def charge_split_def charge_transfer_def charge_shrink_def

lemma demo_insert_first:
  "insert_record (rx_with_budget 64) demo_budget 2 [9, 10] False = (Inr (), demo_held, demo_used 2)"
  by (simp add: insert_simps demo_simps)

lemma demo_insert_second:
  "insert_record_with_reservation demo_held (demo_used 2) 0 [7, 8, 9] False \<lparr>ch_budget = 1, ch_bytes = 0\<rparr> False
     = (Inr (), demo_filled, demo_used 4)"
  by (simp add: insert_simps demo_simps)

theorem insert_record_exact_witness:
  "stream demo_filled = merged demo_held 0 [7, 8, 9] \<and> rx_inv 1 demo_filled"
proof -
  have i: "rx_inv (mb_id (demo_used 2)) demo_held"
    by (simp add: rx_inv_def demo_simps chunk_ok_def unread_def)
  have h: "holds (demo_used 2) (0 + chunk_memory (rx_chunks demo_held) + ch_bytes \<lparr>ch_budget = 1, ch_bytes = 0\<rparr>)"
    by (simp add: holds_def demo_simps chunk_memory_def)
  have "belongs_to \<lparr>ch_budget = 1, ch_bytes = 0\<rparr> (demo_used 2)" by (simp add: belongs_to_def demo_simps)
  from insert_record_exact [OF i h this demo_insert_second] show ?thesis by (simp add: demo_used_def demo_budget_def budget_new_def)
qed

lemma rx_read_stop: "read_candidate r = None \<Longrightarrow> rx_read r b wanted = ([], r, b)"
  by (simp add: rx_read.simps [of r b wanted])

lemma rx_read_more:
  assumes "0 < wanted" and "read_candidate r = Some (k, c)" and "read_step r b wanted k c = (o1, r1, b1)"
    and "rx_read r1 b1 (wanted - length o1) = (o2, r2, b2)"
  shows "rx_read r b wanted = (o1 @ o2, r2, b2)"
  using assms by (simp add: rx_read.simps [of r b wanted])

lemmas read_simps = read_candidate_def read_step_def slice_def demo_simps bt_last_def bt_upto_def checked_end_ok

lemma demo_read:
  "rx_read demo_filled (demo_used 4) 9 = ([7, 8] @ [9, 10] @ [], demo_filled\<lparr>rx_next_offset := 4, rx_bytes := 0\<rparr>, demo_used 4)"
proof (rule rx_read_more)
  show "rx_read (demo_filled\<lparr>rx_next_offset := 2, rx_bytes := 2\<rparr>) (demo_used 4) (9 - length [7 :: u8, 8])
      = ([9, 10] @ [], demo_filled\<lparr>rx_next_offset := 4, rx_bytes := 0\<rparr>, demo_used 4)"
  proof (rule rx_read_more)
    show "rx_read (demo_filled\<lparr>rx_next_offset := 4, rx_bytes := 0\<rparr>) (demo_used 4) (9 - length [7 :: u8, 8] - length [9 :: u8, 10])
        = ([], demo_filled\<lparr>rx_next_offset := 4, rx_bytes := 0\<rparr>, demo_used 4)"
      by (rule rx_read_stop) (simp add: read_simps)
    show "read_candidate (demo_filled\<lparr>rx_next_offset := 2, rx_bytes := 2\<rparr>)
        = Some (2, \<lparr>bc_bytes = [9, 10], bc_charge = \<lparr>ch_budget = 1, ch_bytes = 2\<rparr>\<rparr>)"
      by (simp add: read_simps)
  qed (simp_all add: read_simps)
  show "read_candidate demo_filled = Some (0, \<lparr>bc_bytes = [7, 8], bc_charge = \<lparr>ch_budget = 1, ch_bytes = 2\<rparr>\<rparr>)"
    by (simp add: read_simps)
qed (simp_all add: read_simps)

theorem read_exact_witness:
  "map Some [7, 8, 9, 10] = map (stream demo_filled) [0..<0 + length [7 :: u8, 8, 9, 10]]
    \<and> stream demo_filled (0 + length [7 :: u8, 8, 9, 10]) = None"
proof -
  have i: "rx_inv (mb_id (demo_used 4)) demo_filled"
    by (simp add: rx_inv_def demo_simps chunk_ok_def unread_def)
  have h: "holds (demo_used 4) (0 + chunk_memory (rx_chunks demo_filled))"
    by (simp add: holds_def demo_simps chunk_memory_def)
  have "rx_next_offset demo_filled = 0" by (simp add: demo_simps)
  with read_exact [OF i h demo_read] show ?thesis by auto
qed

lemma demo_run: "rx_run demo_stream (rx_with_budget 64) demo_budget (demo_filled\<lparr>rx_next_offset := 4, rx_bytes := 0\<rparr>) (demo_used 4) ([] @ [7, 8] @ [9, 10] @ []) []"
proof -
  have "rx_run demo_stream (rx_with_budget 64) demo_budget demo_held (demo_used 2) [] []"
    by (rule record_ok [OF start _ demo_insert_first, where len = 2]) (simp add: demo_stream_def upt_rec)
  then have "rx_run demo_stream (rx_with_budget 64) demo_budget demo_filled (demo_used 4) [] []"
  proof (rule record_ok)
    show "insert_record demo_held (demo_used 2) 0 [7, 8, 9] False = (Inr (), demo_filled, demo_used 4)"
      using demo_insert_second by (simp add: insert_record_def rx_reserve_def charge_reserve_def try_reserve_def checked_add_def demo_simps)
    show "[7, 8, 9] = map demo_stream [0..<0 + 3]" by (simp add: demo_stream_def upt_rec)
  qed
  then show ?thesis by (rule read [OF _ demo_read])
qed

theorem reassembly_delivers_witness: "map demo_stream [0..<4] = [7, 8, 9, 10]"
  using reassembly_delivers [OF _ _ demo_run, of 0]
  by (simp add: usize_max_def holds_def demo_simps)

end
