(* ===== verification/Replay_Admission.thy ===== *)
theory Replay_Admission
  imports Wire_Frames "HOL-Library.AList"
begin

section \<open>Session admission and replay protection (session.rs)\<close>

text \<open>
  A server admits a connection by the evidence of its handshake, and an early attempt by a token it issued before: the token
  names an epoch, an expiry, the capabilities it was issued for and an identity, and carries a keyed hash.  Each pair of
  identity and nonce is admitted once; a bounded cache remembers the admitted pairs until they expire.  The keyed hash, the
  random source and the backend connection are parameters; times are the 64-bit seconds the caller passes.
\<close>

subsection \<open>Tokens\<close>

datatype replay_token_error =
    CapabilitiesUnavailable | Malformed | InvalidMac | WrongEpoch | Expired | CapabilitiesChanged | Replayed
  | CacheCapacity | InvalidPolicy | Random

definition REPLAY_TOKEN_VERSION :: u8 where "REPLAY_TOKEN_VERSION = 1"
definition REPLAY_TOKEN_BODY_BYTES :: usize where "REPLAY_TOKEN_BODY_BYTES = 1 + 8 + 8 + 8 + 16"
definition REPLAY_TOKEN_BYTES :: usize where "REPLAY_TOKEN_BYTES = REPLAY_TOKEN_BODY_BYTES + 32"
definition MAX_REPLAY_ATTEMPTS :: usize where "MAX_REPLAY_ATTEMPTS = 65536"

text \<open>The octets of \<open>b"quicp replay token\0"\<close>.\<close>

definition REPLAY_TOKEN_DOMAIN :: bytes where
  "REPLAY_TOKEN_DOMAIN = [113, 117, 105, 99, 112, 32, 114, 101, 112, 108, 97, 121, 32, 116, 111, 107, 101, 110, 0]"

definition token_from_bytes :: "bytes \<Rightarrow> replay_token_error + bytes" where
  "token_from_bytes bs =
     (if length bs \<noteq> REPLAY_TOKEN_BYTES then Inl Malformed
      else if bs ! 0 \<noteq> REPLAY_TOKEN_VERSION then Inl Malformed
      else Inr bs)"

definition replay_token_auth_data :: "bytes \<Rightarrow> replay_token_error + bytes" where
  "replay_token_auth_data body =
     (if length body \<noteq> REPLAY_TOKEN_BODY_BYTES then Inl Malformed else Inr (REPLAY_TOKEN_DOMAIN @ body))"

definition read_token_u64 :: "bytes \<Rightarrow> usize \<Rightarrow> replay_token_error + u64" where
  "read_token_u64 body offset =
     (if offset + 8 \<le> length body then Inr (from_be (take 8 (drop offset body))) else Inl Malformed)"

subsection \<open>Admission\<close>

text \<open>The keyed hash is a parameter: \<open>'k\<close> is the key, \<open>key_new\<close>, \<open>sign\<close> and \<open>verify\<close> stand for
  \<open>hmac::Key::new\<close>, \<open>hmac::sign\<close> and \<open>hmac::verify\<close>.  The cache is an association list with distinct keys; the
  iteration order of the hash map is never observed.\<close>

record 'k replay_admission =
  ra_key :: 'k
  ra_epoch :: u64
  ra_max_attempts :: usize
  ra_attempts :: "(bytes \<times> u64) list"

definition admission_new :: "(bytes \<Rightarrow> 'k) \<Rightarrow> bytes \<Rightarrow> u64 \<Rightarrow> usize \<Rightarrow> replay_token_error + 'k replay_admission" where
  "admission_new key_new secret epoch max_attempts =
     (if length secret < 32 \<or> \<not> (1 \<le> max_attempts \<and> max_attempts \<le> MAX_REPLAY_ATTEMPTS) then Inl InvalidPolicy
      else Inr \<lparr>ra_key = key_new secret, ra_epoch = epoch, ra_max_attempts = max_attempts, ra_attempts = []\<rparr>)"

definition checked_add_u64 :: "u64 \<Rightarrow> u64 \<Rightarrow> u64 option" where
  "checked_add_u64 a b = (if unat a + unat b < 2 ^ 64 then Some (a + b) else None)"

text \<open>\<open>random\<close> is the outcome of filling the sixteen octets of the identity.\<close>

definition issue ::
  "('k \<Rightarrow> bytes \<Rightarrow> bytes) \<Rightarrow> 'k replay_admission \<Rightarrow> bytes option \<Rightarrow> u64 \<Rightarrow> u64 \<Rightarrow> u64 \<Rightarrow> replay_token_error + bytes" where
  "issue sign a random now_seconds ttl_seconds capability_fingerprint =
     rbind (ok_or random Random) (\<lambda>identity.
     rbind (ok_or (if ttl_seconds \<noteq> 0 then checked_add_u64 now_seconds ttl_seconds else None) InvalidPolicy) (\<lambda>expiry.
     let body = REPLAY_TOKEN_VERSION # be_bytes 8 (ra_epoch a) @ be_bytes 8 expiry
           @ be_bytes 8 capability_fingerprint @ identity in
     rbind (replay_token_auth_data body) (\<lambda>authenticated. Inr (body @ sign (ra_key a) authenticated))))"

definition attempt_key :: "bytes \<Rightarrow> u64 \<Rightarrow> bytes" where
  "attempt_key body nonce = take 16 (drop 25 body) @ be_bytes 8 nonce"

text \<open>The part of \<open>admit\<close> under the mutex.\<close>

definition admit_attempt :: "'k replay_admission \<Rightarrow> bytes \<Rightarrow> u64 \<Rightarrow> u64 \<Rightarrow> (replay_token_error + unit) \<times> 'k replay_admission" where
  "admit_attempt a attempt expiry now_seconds =
     (if (case map_of (ra_attempts a) attempt of None \<Rightarrow> False | Some expires \<Rightarrow> now_seconds \<le> expires)
      then (Inl Replayed, a)
      else if length (ra_attempts a) = ra_max_attempts a
      then let kept = filter (\<lambda>(_, expires). now_seconds \<le> expires) (ra_attempts a) in
        if length kept = ra_max_attempts a then (Inl CacheCapacity, a\<lparr>ra_attempts := kept\<rparr>)
        else (Inr (), a\<lparr>ra_attempts := AList.update attempt expiry kept\<rparr>)
      else (Inr (), a\<lparr>ra_attempts := AList.update attempt expiry (ra_attempts a)\<rparr>))"

definition check_token ::
  "('k \<Rightarrow> bytes \<Rightarrow> bytes \<Rightarrow> bool) \<Rightarrow> 'k replay_admission \<Rightarrow> bytes \<Rightarrow> u64 \<Rightarrow> u64 \<Rightarrow> replay_token_error + bytes \<times> u64" where
  "check_token verify a token now_seconds capability_fingerprint =
     rbind (ok_or (if REPLAY_TOKEN_BODY_BYTES \<le> length token then Some (take REPLAY_TOKEN_BODY_BYTES token) else None) Malformed) (\<lambda>body.
     rbind (ok_or (if REPLAY_TOKEN_BODY_BYTES \<le> length token then Some (drop REPLAY_TOKEN_BODY_BYTES token) else None) Malformed) (\<lambda>tag.
     rbind (replay_token_auth_data body) (\<lambda>authenticated.
     rbind (ensure (verify (ra_key a) authenticated tag) InvalidMac) (\<lambda>_.
     rbind (read_token_u64 body 1) (\<lambda>epoch.
     rbind (read_token_u64 body 9) (\<lambda>expiry.
     rbind (read_token_u64 body 17) (\<lambda>capabilities.
       if epoch \<noteq> ra_epoch a then Inl WrongEpoch
       else if expiry < now_seconds then Inl Expired
       else if capabilities \<noteq> capability_fingerprint then Inl CapabilitiesChanged
       else Inr (body, expiry))))))))"

definition admit ::
  "('k \<Rightarrow> bytes \<Rightarrow> bytes \<Rightarrow> bool) \<Rightarrow> 'k replay_admission \<Rightarrow> bytes \<Rightarrow> u64 \<Rightarrow> u64 \<Rightarrow> u64
     \<Rightarrow> (replay_token_error + unit) \<times> 'k replay_admission" where
  "admit verify a token nonce now_seconds capability_fingerprint =
     (case check_token verify a token now_seconds capability_fingerprint of
        Inl e \<Rightarrow> (Inl e, a)
      | Inr (body, expiry) \<Rightarrow> admit_attempt a (attempt_key body nonce) expiry now_seconds)"

subsection \<open>Session admission and error codes\<close>

definition QUICP_PROFILE :: bytes where "QUICP_PROFILE = [113, 117, 105, 99, 112]"

datatype peer_admission = Authenticated | ExplicitlyUnauthenticated | Unauthenticated

record handshake_evidence =
  he_selected_profile_token :: bytes
  he_peer_admission :: peer_admission
  he_current_policy_authorized :: bool

datatype session_error = PeerUnauthenticated | PolicyRejected | UnsupportedProfileToken | UnsupportedCrypto | InvalidState | Wire wire_error

text \<open>What the code asks of the connection: the handshake data, by the type they downcast to, and the certificates of
  the peer.\<close>

datatype handshake_data = NoSecurityHandshakeData bytes | RustlsHandshakeData "bytes option" | OtherHandshakeData

record noq_connection =
  nc_handshake_data :: "handshake_data option"
  nc_peer_certificates :: "bytes list option"

definition application_profile_token :: bytes where "application_profile_token = QUICP_PROFILE"

definition tls_handshake_evidence :: "bool \<Rightarrow> noq_connection \<Rightarrow> handshake_data \<Rightarrow> bool \<Rightarrow> session_error + handshake_evidence" where
  "tls_handshake_evidence tls_rustls connection handshake authorized =
     (if \<not> tls_rustls then Inl UnsupportedCrypto
      else case handshake of
        RustlsHandshakeData protocol \<Rightarrow>
          rbind (ok_or protocol UnsupportedProfileToken) (\<lambda>selected.
            Inr \<lparr>he_selected_profile_token = selected,
              he_peer_admission = (case nc_peer_certificates connection of
                  None \<Rightarrow> Unauthenticated
                | Some certificates \<Rightarrow> if certificates \<noteq> [] then Authenticated else Unauthenticated),
              he_current_policy_authorized = authorized\<rparr>)
      | _ \<Rightarrow> Inl UnsupportedCrypto)"

definition handshake_evidence_of :: "bool \<Rightarrow> noq_connection \<Rightarrow> bool \<Rightarrow> session_error + handshake_evidence" where
  "handshake_evidence_of tls_rustls connection authorized =
     rbind (ok_or (nc_handshake_data connection) PeerUnauthenticated) (\<lambda>handshake.
       case handshake of
         NoSecurityHandshakeData profile_token \<Rightarrow>
           Inr \<lparr>he_selected_profile_token = profile_token, he_peer_admission = ExplicitlyUnauthenticated,
             he_current_policy_authorized = authorized\<rparr>
       | other \<Rightarrow> tls_handshake_evidence tls_rustls connection other authorized)"

definition admit_evidence :: "handshake_evidence \<Rightarrow> session_error + unit" where
  "admit_evidence evidence =
     (if he_peer_admission evidence = Unauthenticated then Inl PeerUnauthenticated
      else if \<not> he_current_policy_authorized evidence then Inl PolicyRejected
      else if he_selected_profile_token evidence \<noteq> QUICP_PROFILE then Inl UnsupportedProfileToken
      else Inr ())"

definition admit_negotiated :: "bool \<Rightarrow> noq_connection \<Rightarrow> bool \<Rightarrow> session_error + unit" where
  "admit_negotiated tls_rustls connection authorized =
     rbind (handshake_evidence_of tls_rustls connection authorized) admit_evidence"

text \<open>A connection is admitted exactly when the policy allows it, the profile is the one of QUICP and either
  the plaintext backend was chosen on purpose or the peer showed a certificate.\<close>

lemma admit_negotiated_iff:
  "admit_negotiated tls c authorized = Inr () \<longleftrightarrow> authorized \<and>
     (nc_handshake_data c = Some (NoSecurityHandshakeData QUICP_PROFILE)
      \<or> (tls \<and> nc_handshake_data c = Some (RustlsHandshakeData (Some QUICP_PROFILE))
          \<and> (\<exists>x xs. nc_peer_certificates c = Some (x # xs))))"
proof (cases "nc_handshake_data c")
  case (Some h)
  then show ?thesis
    by (cases h; cases "nc_peer_certificates c"; cases tls)
      (auto simp: admit_negotiated_def handshake_evidence_of_def tls_handshake_evidence_def admit_evidence_def result_iff neq_Nil_conv
        split: if_splits option.splits)
qed (simp add: admit_negotiated_def handshake_evidence_of_def)

datatype application_error = FlowProtocol | FlowAbort | FlowRejected | MultipathRequired | MultipathChurn

fun application_error_code :: "application_error \<Rightarrow> u64" where
  "application_error_code FlowProtocol = 0x100"
| "application_error_code FlowAbort = 0x101"
| "application_error_code FlowRejected = 0x102"
| "application_error_code MultipathRequired = 0x103"
| "application_error_code MultipathChurn = 0x104"

definition from_peer_code :: "u64 \<Rightarrow> application_error" where
  "from_peer_code code =
     (if code = application_error_code FlowAbort then FlowAbort
      else if code = application_error_code FlowRejected then FlowRejected
      else if code = application_error_code MultipathRequired then MultipathRequired
      else if code = application_error_code MultipathChurn then MultipathChurn
      else FlowProtocol)"

lemma from_peer_code_code [simp]: "from_peer_code (application_error_code e) = e"
  by (cases e) (simp_all add: from_peer_code_def)

subsection \<open>The cache\<close>

definition cache_inv :: "'k replay_admission \<Rightarrow> bool" where
  "cache_inv a \<longleftrightarrow> distinct (map fst (ra_attempts a)) \<and> length (ra_attempts a) \<le> ra_max_attempts a"

lemma length_alist_update: "length (AList.update k v xs) = (if k \<in> fst ` set xs then length xs else Suc (length xs))"
  by (induction xs) (auto split: if_splits)

lemma distinct_alist_filter: "distinct (map fst xs) \<Longrightarrow> distinct (map fst (filter P xs))"
  by (induction xs) auto

lemma map_of_alist_filter:
  "distinct (map fst xs) \<Longrightarrow> map_of (filter (\<lambda>(_, v). P v) xs) k = (case map_of xs k of None \<Rightarrow> None | Some v \<Rightarrow> if P v then Some v else None)"
proof (induction xs)
  case (Cons x xs)
  obtain j v where x: "x = (j, v)" by (cases x)
  have "map_of xs j = None" using Cons.prems by (auto simp: x map_of_eq_None_iff image_iff)
  then show ?case using Cons by (auto simp: x split: option.splits)
qed simp

definition live :: "'k replay_admission \<Rightarrow> u64 \<Rightarrow> bytes \<Rightarrow> u64 option" where
  "live a now k = (case map_of (ra_attempts a) k of None \<Rightarrow> None | Some e \<Rightarrow> if now \<le> e then Some e else None)"

text \<open>The abstract cache: the attempts that have not expired.  Admission is an insertion into it that fails when the attempt
  is there or when it has as many entries as allowed; the lazily purged list implements it.\<close>

lemma card_live:
  assumes "distinct (map fst (ra_attempts a))"
  shows "card (dom (live a now)) = length (filter (\<lambda>(_, e). now \<le> e) (ra_attempts a))"
proof -
  let ?f = "filter (\<lambda>(_, e). now \<le> e) (ra_attempts a)"
  have "live a now = map_of ?f"
    using assms by (auto simp: live_def fun_eq_iff map_of_alist_filter)
  then have "dom (live a now) = fst ` set ?f" by (simp add: dom_map_of_conv_image_fst)
  moreover have "distinct (map fst ?f)" by (rule distinct_alist_filter [OF assms])
  ultimately show ?thesis using distinct_card [of "map fst ?f"] by simp
qed

lemma filter_length_eq: "length (filter P xs) = length xs \<Longrightarrow> filter P xs = xs"
  by (metis length_filter_less filter_True order_less_irrefl)

lemma admit_attempt_spec:
  assumes inv: "cache_inv a" and e: "now \<le> expiry" and r: "admit_attempt a k expiry now = (res, a')"
  shows "cache_inv a' \<and> ra_key a' = ra_key a \<and> ra_epoch a' = ra_epoch a \<and> ra_max_attempts a' = ra_max_attempts a
    \<and> res = (if live a now k \<noteq> None then Inl Replayed
             else if card (dom (live a now)) = ra_max_attempts a then Inl CacheCapacity else Inr ())
    \<and> (case res of Inl _ \<Rightarrow> a' = a | Inr _ \<Rightarrow> (\<forall>now' \<ge> now. live a' now' = (live a now')(k := if now' \<le> expiry then Some expiry else None)))"
proof -
  let ?kept = "filter (\<lambda>(_, e). now \<le> e) (ra_attempts a)"
  have d: "distinct (map fst (ra_attempts a))" and len: "length (ra_attempts a) \<le> ra_max_attempts a"
    using inv by (simp_all add: cache_inv_def)
  note card = card_live [OF d, of now]
  have kle: "length ?kept \<le> length (ra_attempts a)" by simp
  have dk: "distinct (map fst ?kept)" by (rule distinct_alist_filter [OF d])
  show ?thesis
  proof (cases "live a now k")
    case (Some x)
    then have "res = Inl Replayed" "a' = a" using r by (auto simp: admit_attempt_def live_def split: option.splits if_splits)
    then show ?thesis using inv Some by simp
  next
    case None
    then have nr: "\<not> (case map_of (ra_attempts a) k of None \<Rightarrow> False | Some expires \<Rightarrow> now \<le> expires)"
      by (auto simp: live_def split: option.splits if_splits)
    consider (full) "length (ra_attempts a) = ra_max_attempts a" "length ?kept = ra_max_attempts a"
      | (purge) "length (ra_attempts a) = ra_max_attempts a" "length ?kept < ra_max_attempts a"
      | (room) "length (ra_attempts a) < ra_max_attempts a"
      using len kle by linarith
    then show ?thesis
    proof cases
      case full
      then have "?kept = ra_attempts a" by (intro filter_length_eq) simp
      then have "res = Inl CacheCapacity" "a' = a" using r nr full by (simp_all add: admit_attempt_def Let_def)
      then show ?thesis using inv None full card by simp
    next
      case purge
      then have res: "res = Inr ()" and a': "a' = a\<lparr>ra_attempts := AList.update k expiry ?kept\<rparr>"
        using r nr by (simp_all add: admit_attempt_def Let_def)
      have "live a' now' = (live a now')(k := if now' \<le> expiry then Some expiry else None)" if "now \<le> now'" for now'
        using that d by (auto simp: a' live_def fun_eq_iff update_conv map_of_alist_filter split: option.splits)
      moreover have "cache_inv a'"
        using purge dk by (auto simp: cache_inv_def a' distinct_update length_alist_update)
      ultimately show ?thesis using None purge card by (simp add: res a')
    next
      case room
      then have res: "res = Inr ()" and a': "a' = a\<lparr>ra_attempts := AList.update k expiry (ra_attempts a)\<rparr>"
        using r nr by (simp_all add: admit_attempt_def Let_def)
      have "live a' now' = (live a now')(k := if now' \<le> expiry then Some expiry else None)" if "now \<le> now'" for now'
        by (auto simp: a' live_def fun_eq_iff update_conv)
      moreover have "cache_inv a'"
        using room d by (auto simp: cache_inv_def a' distinct_update length_alist_update)
      moreover have "length ?kept \<noteq> ra_max_attempts a" using room kle by linarith
      ultimately show ?thesis using None card by (simp add: res a')
    qed
  qed
qed

subsection \<open>What a token says\<close>

definition token_body :: "bytes \<Rightarrow> bytes" where "token_body t = take 41 t"

definition token_field :: "bytes \<Rightarrow> nat \<Rightarrow> u64" where "token_field t i = from_be (take 8 (drop i t))"

lemmas token_consts = REPLAY_TOKEN_VERSION_def REPLAY_TOKEN_BODY_BYTES_def REPLAY_TOKEN_BYTES_def

lemma check_token_spec:
  assumes "length t = REPLAY_TOKEN_BYTES"
  shows "check_token verify a t now caps =
    (if \<not> verify (ra_key a) (REPLAY_TOKEN_DOMAIN @ token_body t) (drop 41 t) then Inl InvalidMac
     else if token_field t 1 \<noteq> ra_epoch a then Inl WrongEpoch
     else if token_field t 9 < now then Inl Expired
     else if token_field t 17 \<noteq> caps then Inl CapabilitiesChanged
     else Inr (token_body t, token_field t 9))"
proof -
  have f: "take 8 (drop i (take 41 t)) = take 8 (drop i t)" if "i + 8 \<le> 41" for i
    using that by (simp add: drop_take min_def)
  show ?thesis
    using assms by (simp add: check_token_def replay_token_auth_data_def read_token_u64_def token_body_def token_field_def token_consts f)
qed

lemma token_from_bytes_length: "token_from_bytes bs = Inr t \<Longrightarrow> t = bs \<and> length t = REPLAY_TOKEN_BYTES"
  by (auto simp: token_from_bytes_def split: if_splits)

lemma admit_spec:
  assumes inv: "cache_inv a" and len: "length t = REPLAY_TOKEN_BYTES" and r: "admit verify a t nonce now caps = (res, a')"
  shows "cache_inv a' \<and> ra_key a' = ra_key a \<and> ra_epoch a' = ra_epoch a \<and> ra_max_attempts a' = ra_max_attempts a
    \<and> res = (if \<not> verify (ra_key a) (REPLAY_TOKEN_DOMAIN @ token_body t) (drop 41 t) then Inl InvalidMac
        else if token_field t 1 \<noteq> ra_epoch a then Inl WrongEpoch
        else if token_field t 9 < now then Inl Expired
        else if token_field t 17 \<noteq> caps then Inl CapabilitiesChanged
        else if live a now (attempt_key (token_body t) nonce) \<noteq> None then Inl Replayed
        else if card (dom (live a now)) = ra_max_attempts a then Inl CacheCapacity
        else Inr ())
    \<and> (case res of Inl _ \<Rightarrow> a' = a
       | Inr _ \<Rightarrow> (\<forall>now' \<ge> now. live a' now' = (live a now')(attempt_key (token_body t) nonce :=
           if now' \<le> token_field t 9 then Some (token_field t 9) else None)))"
proof (cases "check_token verify a t now caps")
  case (Inl e)
  have "res = Inl e" "a' = a" using r Inl by (simp_all add: admit_def)
  then show ?thesis using inv Inl unfolding check_token_spec [OF len] by (auto split: if_splits)
next
  case (Inr p)
  then have p: "p = (token_body t, token_field t 9)" and ok: "verify (ra_key a) (REPLAY_TOKEN_DOMAIN @ token_body t) (drop 41 t)"
      "token_field t 1 = ra_epoch a" "now \<le> token_field t 9" "token_field t 17 = caps"
    unfolding check_token_spec [OF len] by (auto split: if_splits)
  have "admit_attempt a (attempt_key (token_body t) nonce) (token_field t 9) now = (res, a')"
    using r Inr p by (simp add: admit_def)
  note sp = admit_attempt_spec [OF inv ok(3) this]
  have n: "\<not> token_field t 9 < now" using ok(3) by simp
  show ?thesis by (simp (no_asm) only: ok(1,2,4) n if_False if_True not_True_eq_False simp_thms) (rule sp)
qed

lemma attempt_key_inj:
  assumes "length t = REPLAY_TOKEN_BYTES" "length t' = REPLAY_TOKEN_BYTES"
  shows "attempt_key (token_body t) n = attempt_key (token_body t') n' \<longleftrightarrow> take 16 (drop 25 t) = take 16 (drop 25 t') \<and> n = n'"
proof -
  have k: "attempt_key (token_body u) m = take 16 (drop 25 u) @ be_bytes 8 m" for u m
    by (simp add: attempt_key_def token_body_def drop_take min_def)
  have l: "length (take 16 (drop 25 t)) = length (take 16 (drop 25 t'))" using assms by (simp add: token_consts)
  have "be_bytes 8 n = be_bytes 8 n' \<longleftrightarrow> n = n'" by (metis be_bytes_roundtrip(3))
  then show ?thesis unfolding k using append_eq_append_conv [OF disjI1 [OF l]] by simp
qed

subsection \<open>Service under a monotone clock\<close>

text \<open>\<open>serves verify a0 now a log\<close>: the server after any sequence of attempts with tokens of the right length, the clock
  never running backwards.  An admitted attempt is logged as its identity, its expiry and its nonce.\<close>

inductive serves ::
  "('k \<Rightarrow> bytes \<Rightarrow> bytes \<Rightarrow> bool) \<Rightarrow> 'k replay_admission \<Rightarrow> u64 \<Rightarrow> 'k replay_admission \<Rightarrow> (bytes \<times> u64 \<times> u64) list \<Rightarrow> bool"
  for verify a0 where
  serves_start: "serves verify a0 0 a0 []"
| serves_tick: "serves verify a0 now a log \<Longrightarrow> now \<le> now' \<Longrightarrow> serves verify a0 now' a log"
| serves_admitted: "serves verify a0 now a log \<Longrightarrow> token_from_bytes bs = Inr t
    \<Longrightarrow> admit verify a t nonce now caps = (Inr (), a')
    \<Longrightarrow> serves verify a0 now a' ((take 16 (drop 25 t), token_field t 9, nonce) # log)"
| serves_refused: "serves verify a0 now a log \<Longrightarrow> token_from_bytes bs = Inr t
    \<Longrightarrow> admit verify a t nonce now caps = (Inl e, a') \<Longrightarrow> serves verify a0 now a' log"

definition serves_inv :: "u64 \<Rightarrow> 'k replay_admission \<Rightarrow> (bytes \<times> u64 \<times> u64) list \<Rightarrow> bool" where
  "serves_inv now a log \<longleftrightarrow> cache_inv a \<and> distinct log
     \<and> (\<forall>(i, e, n) \<in> set log. now \<le> e \<longrightarrow> live a now (i @ be_bytes 8 n) = Some e)"

lemma serves_inv_run:
  assumes "cache_inv a0" and "serves verify a0 now a log"
  shows "serves_inv now a log \<and> ra_max_attempts a = ra_max_attempts a0"
  using assms(2)
proof induction
  case serves_start
  then show ?case using assms(1) by (simp add: serves_inv_def)
next
  case (serves_tick now a log now')
  then show ?case by (fastforce simp: serves_inv_def live_def split: option.splits if_splits)
next
  case (serves_admitted now a log bs t nonce caps a')
  have len: "length t = REPLAY_TOKEN_BYTES" using token_from_bytes_length [OF serves_admitted.hyps(2)] by blast
  have inv: "cache_inv a" and dist: "distinct log"
    and log: "\<And>i e n. (i, e, n) \<in> set log \<Longrightarrow> now \<le> e \<Longrightarrow> live a now (i @ be_bytes 8 n) = Some e"
    using serves_admitted.IH by (auto simp: serves_inv_def)
  let ?k = "attempt_key (token_body t) nonce" and ?i = "take 16 (drop 25 t)" and ?e = "token_field t 9"
  have k: "?k = ?i @ be_bytes 8 nonce" by (simp add: attempt_key_def token_body_def drop_take min_def)
  note s = admit_spec [OF inv len serves_admitted.hyps(3)]
  have now: "now \<le> ?e" and fresh: "live a now ?k = None"
    and upd: "live a' now = (live a now)(?k := Some ?e)"
    using s by (auto split: if_splits)
  have new: "(?i, ?e, nonce) \<notin> set log" using log [of ?i ?e nonce] fresh now k by auto
  have "live a' now (i @ be_bytes 8 n) = Some e" if "(i, e, n) \<in> set log" "now \<le> e" for i e n
    using log [OF that] fresh unfolding upd by auto
  moreover have "live a' now (?i @ be_bytes 8 nonce) = Some ?e" unfolding upd k by simp
  moreover have "cache_inv a'" "ra_max_attempts a' = ra_max_attempts a0" using s serves_admitted.IH by simp_all
  ultimately show ?case using new dist by (auto simp: serves_inv_def)
next
  case (serves_refused now a log bs t nonce caps e a')
  have len: "length t = REPLAY_TOKEN_BYTES" using token_from_bytes_length [OF serves_refused.hyps(2)] by blast
  have "a' = a" using admit_spec [OF _ len serves_refused.hyps(3)] serves_refused.IH by (auto simp: serves_inv_def)
  then show ?case using serves_refused.IH by simp
qed

subsection \<open>Properties of replay admission\<close>

text \<open>C22: under a clock that never runs backwards, no attempt is admitted twice: among everything admitted, however
  tokens are repeated and whatever else is asked in between, the triples of token identity, expiry and nonce are
  distinct, so in particular the same token is never admitted twice with one nonce; and the cache never outgrows its
  limit.\<close>

theorem replay_at_most_once:
  assumes "admission_new key_new secret epoch limit = Inr a0" and "serves verify a0 now a log"
  shows "distinct log \<and> length (ra_attempts a) \<le> limit \<and> limit \<le> MAX_REPLAY_ATTEMPTS"
proof -
  have "cache_inv a0" "ra_max_attempts a0 = limit" "limit \<le> MAX_REPLAY_ATTEMPTS"
    using assms(1) by (auto simp: admission_new_def cache_inv_def split: if_splits)
  then show ?thesis using serves_inv_run [OF _ assms(2)] by (auto simp: serves_inv_def cache_inv_def)
qed

text \<open>C23: an attempt is decided by the token and the attempts that have not expired: in this order a wrong
  authentication code, another epoch, an expired token, other capabilities, an attempt already admitted and a cache full of
  unexpired attempts are refused, everything else is admitted.  A refusal leaves the cache as it was, even when expired
  entries are purged on the way; an admission adds exactly this attempt.\<close>

theorem admit_exact:
  assumes "cache_inv a" and "token_from_bytes bs = Inr t" and "admit verify a t nonce now caps = (res, a')"
  shows "res = (if \<not> verify (ra_key a) (REPLAY_TOKEN_DOMAIN @ token_body t) (drop 41 t) then Inl InvalidMac
      else if token_field t 1 \<noteq> ra_epoch a then Inl WrongEpoch
      else if token_field t 9 < now then Inl Expired
      else if token_field t 17 \<noteq> caps then Inl CapabilitiesChanged
      else if live a now (attempt_key (token_body t) nonce) \<noteq> None then Inl Replayed
      else if card (dom (live a now)) = ra_max_attempts a then Inl CacheCapacity
      else Inr ())
    \<and> (case res of Inl _ \<Rightarrow> a' = a
       | Inr _ \<Rightarrow> live a' now = (live a now)(attempt_key (token_body t) nonce \<mapsto> token_field t 9))
    \<and> cache_inv a'"
proof -
  have len: "length t = REPLAY_TOKEN_BYTES" using token_from_bytes_length [OF assms(2)] by blast
  show ?thesis using admit_spec [OF assms(1) len assms(3)] by (auto split: if_splits sum.splits)
qed

text \<open>C24: a token issued by a server is accepted by \<open>token_from_bytes\<close> and, for any nonce not yet used with it,
  admitted by the same server until it expires, if the capabilities are the ones it was issued for and the cache has
  room; another epoch, other capabilities and a later time are refused as such.  The keyed hash is assumed to give 32
  octets and to verify exactly the codes it gives.\<close>

theorem issue_admit:
  assumes mac: "\<And>k m tag. verify k m tag \<longleftrightarrow> tag = sign k m" "\<And>k m. length (sign k m) = 32"
    and i: "issue sign a (Some identity) now ttl caps = Inr t" and "length identity = 16" and inv: "cache_inv a"
  shows "token_from_bytes t = Inr t
    \<and> fst (admit verify a t nonce now' caps') =
        (if now + ttl < now' then Inl Expired
         else if caps' \<noteq> caps then Inl CapabilitiesChanged
         else if live a now' (identity @ be_bytes 8 nonce) \<noteq> None then Inl Replayed
         else if card (dom (live a now')) = ra_max_attempts a then Inl CacheCapacity
         else Inr ())"
proof -
  let ?body = "REPLAY_TOKEN_VERSION # be_bytes 8 (ra_epoch a) @ be_bytes 8 (now + ttl) @ be_bytes 8 caps @ identity"
  have t: "t = ?body @ sign (ra_key a) (REPLAY_TOKEN_DOMAIN @ ?body)"
    using i by (auto simp: issue_def Let_def result_iff checked_add_u64_def replay_token_auth_data_def split: if_splits)
  have body: "length ?body = 41" using assms(4) by simp
  have tb: "token_body t = ?body" "drop 41 t = sign (ra_key a) (REPLAY_TOKEN_DOMAIN @ ?body)"
    unfolding token_body_def t using body by simp_all
  have f: "token_field t 1 = ra_epoch a" "token_field t 9 = now + ttl" "token_field t 17 = caps"
    unfolding token_field_def t by simp_all
  have k: "attempt_key (token_body t) nonce = identity @ be_bytes 8 nonce"
    unfolding tb attempt_key_def using assms(4) by simp
  have len: "length t = REPLAY_TOKEN_BYTES" using body mac(2) unfolding t by (simp add: token_consts)
  have "token_from_bytes t = Inr t" using len by (simp add: token_from_bytes_def) (simp add: t)
  moreover obtain res a' where r: "admit verify a t nonce now' caps' = (res, a')" by (metis prod.exhaust)
  ultimately show ?thesis using admit_spec [OF inv len r] mac(1) tb f k by auto
qed

text \<open>A run: one token, admitted with one nonce, refused with the same nonce, admitted with another.\<close>

definition demo_sign :: "u8 \<Rightarrow> bytes \<Rightarrow> bytes" where "demo_sign k m = replicate 32 (k + word_of_nat (length m))"
definition demo_verify :: "u8 \<Rightarrow> bytes \<Rightarrow> bytes \<Rightarrow> bool" where "demo_verify k m tag \<longleftrightarrow> tag = demo_sign k m"
definition demo_admission :: "u8 replay_admission" where
  "demo_admission = \<lparr>ra_key = 7, ra_epoch = 2, ra_max_attempts = 2, ra_attempts = []\<rparr>"
definition demo_identity :: bytes where "demo_identity = replicate 16 9"
definition demo_token :: bytes where
  "demo_token = 1 # be_bytes 8 (2 :: u64) @ be_bytes 8 (15 :: u64) @ be_bytes 8 (3 :: u64) @ demo_identity @ replicate 32 67"

lemma demo_issue: "issue demo_sign demo_admission (Some demo_identity) 10 5 3 = Inr demo_token"
  by (simp add: issue_def checked_add_u64_def Let_def replay_token_auth_data_def token_consts demo_admission_def demo_identity_def
      demo_sign_def demo_token_def REPLAY_TOKEN_DOMAIN_def)

lemma demo_inv: "cache_inv demo_admission" by (simp add: cache_inv_def demo_admission_def)

lemma demo_live: "live demo_admission now = Map.empty" by (simp add: live_def demo_admission_def fun_eq_iff)

theorem issue_admit_witness:
  "fst (admit demo_verify demo_admission demo_token 1 12 3) = Inr ()
    \<and> fst (admit demo_verify demo_admission demo_token 1 16 3) = Inl Expired
    \<and> fst (admit demo_verify demo_admission demo_token 1 12 4) = Inl CapabilitiesChanged"
proof -
  have l: "length demo_identity = 16" by (simp add: demo_identity_def)
  have v: "demo_verify k m tag \<longleftrightarrow> tag = demo_sign k m" "length (demo_sign k m) = 32" for k m tag
    by (simp_all add: demo_verify_def demo_sign_def)
  note i = issue_admit [OF v demo_issue l demo_inv]
  show ?thesis using i [of 1 12 3] i [of 1 16 3] i [of 1 12 4] by (simp add: demo_live) (simp add: demo_admission_def)
qed

lemma demo_from_bytes: "token_from_bytes demo_token = Inr demo_token"
  by (simp add: token_from_bytes_def token_consts demo_token_def demo_identity_def)

lemma demo_fields: "token_body demo_token = 1 # be_bytes 8 (2 :: u64) @ be_bytes 8 (15 :: u64) @ be_bytes 8 (3 :: u64) @ demo_identity"
    "token_field demo_token 1 = 2" "token_field demo_token 9 = 15" "token_field demo_token 17 = 3"
    "take 16 (drop 25 demo_token) = demo_identity" "drop 41 demo_token = replicate 32 67"
  by (simp_all add: token_body_def token_field_def demo_token_def demo_identity_def)

lemma demo_key: "attempt_key (token_body demo_token) n = demo_identity @ be_bytes 8 n"
  by (simp add: demo_fields attempt_key_def demo_identity_def)

lemma demo_admit:
  "admit demo_verify demo_admission demo_token 1 12 3
     = (Inr (), demo_admission\<lparr>ra_attempts := [(demo_identity @ be_bytes 8 (1 :: u64), 15)]\<rparr>)"
proof -
  have len: "length demo_token = REPLAY_TOKEN_BYTES" using token_from_bytes_length [OF demo_from_bytes] by blast
  have "check_token demo_verify demo_admission demo_token 12 3 = Inr (token_body demo_token, 15)"
    unfolding check_token_spec [OF len] demo_fields
    by (simp add: demo_verify_def demo_sign_def demo_admission_def demo_identity_def REPLAY_TOKEN_DOMAIN_def)
  then show ?thesis by (simp add: admit_def demo_key admit_attempt_def) (simp add: demo_admission_def)
qed

theorem admit_exact_witness:
  "live (snd (admit demo_verify demo_admission demo_token 1 12 3)) 12 = [demo_identity @ be_bytes 8 (1 :: u64) \<mapsto> 15]"
  using admit_exact [OF demo_inv demo_from_bytes demo_admit] by (simp add: demo_admit demo_live demo_key demo_fields(3))

theorem replay_at_most_once_witness:
  "distinct [(demo_identity, 15 :: u64, 1 :: u64)] \<and>
   (\<exists>a. serves demo_verify demo_admission 12 a [(demo_identity, 15, 1)] \<and> length (ra_attempts a) \<le> 2)"
proof -
  have n: "admission_new (\<lambda>s. hd s) (replicate 32 7) 2 2 = Inr demo_admission"
    by (simp add: admission_new_def demo_admission_def MAX_REPLAY_ATTEMPTS_def)
  have "serves demo_verify demo_admission 12 demo_admission []"
    by (rule serves_tick [OF serves_start]) simp
  from serves_admitted [OF this demo_from_bytes demo_admit]
  have s: "serves demo_verify demo_admission 12
      (demo_admission\<lparr>ra_attempts := [(demo_identity @ be_bytes 8 (1 :: u64), 15)]\<rparr>) [(demo_identity, 15, 1)]"
    by (simp add: demo_fields)
  show ?thesis using replay_at_most_once [OF n s] s by blast
qed

end
