(* ===== verification/Packet_Ring.thy ===== *)
theory Packet_Ring
  imports Quicp_Prelude "HOL-Library.Multiset"
begin

section \<open>The packet ring (packet_ring.rs)\<close>

text \<open>
  A fixed pool of packet buffers between the network stack and QUICP.  A buffer is in the free list, in the queue
  or in a lease; leases are taken and given back under a short lock.  A buffer is its length-bounded contents together with
  its allocated capacity, so that a reallocation would show.  Each operation on the pool is one step; the last part lets any
  number of threads interleave these steps.
\<close>

subsection \<open>State\<close>

record vec_u8 =
  vec_capacity :: usize
  vec_bytes :: bytes

definition size_of_vec :: usize where "size_of_vec = 24"

definition vec_with_capacity :: "usize \<Rightarrow> vec_u8" where
  "vec_with_capacity n = \<lparr>vec_capacity = n, vec_bytes = []\<rparr>"

definition vec_clear :: "vec_u8 \<Rightarrow> vec_u8" where
  "vec_clear v = v\<lparr>vec_bytes := []\<rparr>"

text \<open>Growing beyond the capacity reallocates, by the amortised rule of the standard library.\<close>

definition vec_resize :: "usize \<Rightarrow> vec_u8 \<Rightarrow> vec_u8" where
  "vec_resize n v = v\<lparr>vec_bytes := take n (vec_bytes v) @ replicate (n - length (vec_bytes v)) 0,
     vec_capacity := (if n \<le> vec_capacity v then vec_capacity v else max (max (2 * vec_capacity v) n) 8)\<rparr>"

datatype ring_error =
    ZeroCapacity | ZeroSlotCapacity | CapacityOverflow | TooLarge usize usize | BufferTooSmall usize usize | Full

record packet_pool =
  pp_queued :: "vec_u8 list"
  pp_free :: "vec_u8 list"

record packet_ring =
  pr_pool :: packet_pool
  pr_slot_capacity :: usize

definition ring_new :: "usize \<Rightarrow> usize \<Rightarrow> ring_error + packet_ring" where
  "ring_new capacity slot_capacity =
     (if capacity = 0 then Inl ZeroCapacity
      else if slot_capacity = 0 then Inl ZeroSlotCapacity
      else rbind (ok_or (checked_mul capacity slot_capacity) CapacityOverflow) (\<lambda>_.
        rbind (ok_or (checked_mul capacity size_of_vec) CapacityOverflow) (\<lambda>_.
          Inr \<lparr>pr_pool = \<lparr>pp_queued = [], pp_free = map (\<lambda>_. vec_with_capacity slot_capacity) [0..<capacity]\<rparr>,
               pr_slot_capacity = slot_capacity\<rparr>)))"

subsection \<open>Operations\<close>

definition ring_recycle :: "vec_u8 \<Rightarrow> packet_ring \<Rightarrow> packet_ring" where
  "ring_recycle packet r = r\<lparr>pr_pool := (pr_pool r)\<lparr>pp_free := pp_free (pr_pool r) @ [vec_clear packet]\<rparr>\<rparr>"

definition ring_write :: "packet_ring \<Rightarrow> (vec_u8 \<times> packet_ring) option" where
  "ring_write r =
     (if pp_free (pr_pool r) = [] then None
      else Some (last (pp_free (pr_pool r)), r\<lparr>pr_pool := (pr_pool r)\<lparr>pp_free := butlast (pp_free (pr_pool r))\<rparr>\<rparr>))"

text \<open>\<open>f\<close> is the callback: it gets the zeroed slot and gives its new contents, of the same length, and a result.
  A packet that is not queued is recycled when the lease is dropped.\<close>

definition write_consume :: "vec_u8 \<Rightarrow> usize \<Rightarrow> (bytes \<Rightarrow> bytes \<times> 'r) \<Rightarrow> packet_ring \<Rightarrow> 'r \<times> packet_ring" where
  "write_consume lease len f r =
     (let packet = vec_resize (min len (pr_slot_capacity r)) (vec_clear lease);
          (contents, result) = f (vec_bytes packet);
          packet = packet\<lparr>vec_bytes := contents\<rparr> in
      (result,
       if len \<le> pr_slot_capacity r
       then r\<lparr>pr_pool := (pr_pool r)\<lparr>pp_queued := pp_queued (pr_pool r) @ [packet]\<rparr>\<rparr>
       else ring_recycle packet r))"

definition write_drop :: "vec_u8 \<Rightarrow> packet_ring \<Rightarrow> packet_ring" where
  "write_drop lease r = ring_recycle lease r"

definition push_copy :: "packet_ring \<Rightarrow> bytes \<Rightarrow> (ring_error + unit) \<times> packet_ring" where
  "push_copy r packet =
     (if pr_slot_capacity r < length packet then (Inl (TooLarge (length packet) (pr_slot_capacity r)), r)
      else case ring_write r of
        None \<Rightarrow> (Inl Full, r)
      | Some (lease, r1) \<Rightarrow> (Inr (), snd (write_consume lease (length packet) (\<lambda>_. (packet, ())) r1)))"

definition ring_read :: "packet_ring \<Rightarrow> (vec_u8 \<times> packet_ring) option" where
  "ring_read r =
     (case pp_queued (pr_pool r) of
        [] \<Rightarrow> None
      | packet # rest \<Rightarrow> Some (packet, r\<lparr>pr_pool := (pr_pool r)\<lparr>pp_queued := rest\<rparr>\<rparr>))"

definition read_drop :: "vec_u8 \<Rightarrow> packet_ring \<Rightarrow> packet_ring" where
  "read_drop lease r = ring_recycle lease r"

text \<open>\<open>pop_into\<close> looks at the front and removes it under one lock, copies, and recycles under another.  \<open>capacity\<close> is the
  length of the caller's buffer; the copied octets are returned.\<close>

definition pop_front :: "packet_ring \<Rightarrow> usize \<Rightarrow> (ring_error + vec_u8 option) \<times> packet_ring" where
  "pop_front r capacity =
     (case pp_queued (pr_pool r) of
        [] \<Rightarrow> (Inr None, r)
      | packet # rest \<Rightarrow>
          if capacity < length (vec_bytes packet) then (Inl (BufferTooSmall (length (vec_bytes packet)) capacity), r)
          else (Inr (Some packet), r\<lparr>pr_pool := (pr_pool r)\<lparr>pp_queued := rest\<rparr>\<rparr>))"

definition pop_into :: "packet_ring \<Rightarrow> usize \<Rightarrow> (ring_error + bytes option) \<times> packet_ring" where
  "pop_into r capacity =
     (case pop_front r capacity of
        (Inl e, r1) \<Rightarrow> (Inl e, r1)
      | (Inr None, r1) \<Rightarrow> (Inr None, r1)
      | (Inr (Some packet), r1) \<Rightarrow> (Inr (Some (vec_bytes packet)), ring_recycle packet r1))"

definition ring_is_empty :: "packet_ring \<Rightarrow> bool" where
  "ring_is_empty r \<longleftrightarrow> pp_queued (pr_pool r) = []"

subsection \<open>Invariant\<close>

definition slot_ok :: "usize \<Rightarrow> vec_u8 \<Rightarrow> bool" where
  "slot_ok n v \<longleftrightarrow> vec_capacity v = n \<and> length (vec_bytes v) \<le> n"

text \<open>\<open>ring_inv n leases r\<close>: all buffers, \<open>n\<close> of them, are in the queue, free or in \<open>leases\<close>, still at their first
  capacity.\<close>

definition ring_inv :: "nat \<Rightarrow> vec_u8 list \<Rightarrow> packet_ring \<Rightarrow> bool" where
  "ring_inv n leases r \<longleftrightarrow>
     length (pp_queued (pr_pool r)) + length (pp_free (pr_pool r)) + length leases = n
     \<and> list_all (slot_ok (pr_slot_capacity r)) (pp_queued (pr_pool r) @ pp_free (pr_pool r) @ leases)"

definition ring_contents :: "packet_ring \<Rightarrow> bytes list" where
  "ring_contents r = map vec_bytes (pp_queued (pr_pool r))"

lemma ring_new_Inr:
  assumes "ring_new capacity slot = Inr r"
  shows "ring_inv capacity [] r \<and> ring_contents r = [] \<and> pr_slot_capacity r = slot"
  using assms by (auto simp: ring_new_def ring_inv_def ring_contents_def result_iff list_all_iff slot_ok_def vec_with_capacity_def split: if_splits)

lemma ring_recycle_spec:
  assumes "ring_inv n (l # ls) r"
  shows "ring_inv n ls (ring_recycle l r) \<and> ring_contents (ring_recycle l r) = ring_contents r
    \<and> pr_slot_capacity (ring_recycle l r) = pr_slot_capacity r"
  using assms by (auto simp: ring_inv_def ring_recycle_def ring_contents_def slot_ok_def vec_clear_def)

lemma ring_write_Some:
  assumes "ring_inv n ls r" and "ring_write r = Some (l, r1)"
  shows "ring_inv n (l # ls) r1 \<and> ring_contents r1 = ring_contents r \<and> pr_slot_capacity r1 = pr_slot_capacity r"
proof -
  obtain fs f where f: "pp_free (pr_pool r) = fs @ [f]" using assms(2) by (cases "pp_free (pr_pool r)" rule: rev_cases) (auto simp: ring_write_def)
  then have "l = f" "r1 = r\<lparr>pr_pool := (pr_pool r)\<lparr>pp_free := fs\<rparr>\<rparr>" using assms(2) by (simp_all add: ring_write_def)
  then show ?thesis using assms(1) f by (auto simp: ring_inv_def ring_contents_def)
qed

lemma ring_write_None: "ring_inv n ls r \<Longrightarrow> ring_write r = None \<longleftrightarrow> length (ring_contents r) + length ls = n"
  by (auto simp: ring_write_def ring_inv_def ring_contents_def)

lemma write_consume_spec:
  assumes "ring_inv n (l # ls) r" and "\<And>bs. length (fst (f bs)) = length bs" and "write_consume l len f r = (x, r1)"
  shows "ring_inv n ls r1 \<and> pr_slot_capacity r1 = pr_slot_capacity r
    \<and> ring_contents r1 = ring_contents r @ (if len \<le> pr_slot_capacity r then [fst (f (replicate len 0))] else [])"
proof -
  let ?m = "min len (pr_slot_capacity r)"
  let ?p = "vec_resize ?m (vec_clear l)"
  obtain c y where c: "f (replicate ?m 0) = (c, y)" by (cases "f (replicate ?m 0)")
  have l: "vec_capacity l = pr_slot_capacity r" using assms(1) by (simp add: ring_inv_def slot_ok_def)
  have b: "vec_bytes ?p = replicate ?m 0" by (simp add: vec_resize_def vec_clear_def)
  have lc: "length c = ?m" using assms(2) [of "replicate ?m 0"] c by simp
  have p: "slot_ok (pr_slot_capacity r) (?p\<lparr>vec_bytes := c\<rparr>)"
    using l lc by (simp add: slot_ok_def vec_resize_def vec_clear_def)
  have inv: "ring_inv n (?p\<lparr>vec_bytes := c\<rparr> # ls) r" using assms(1) p by (simp add: ring_inv_def)
  have r1: "r1 = (if len \<le> pr_slot_capacity r
      then r\<lparr>pr_pool := (pr_pool r)\<lparr>pp_queued := pp_queued (pr_pool r) @ [?p\<lparr>vec_bytes := c\<rparr>]\<rparr>\<rparr> else ring_recycle (?p\<lparr>vec_bytes := c\<rparr>) r)"
    using assms(3) c b by (auto simp: write_consume_def Let_def)
  show ?thesis
  proof (cases "len \<le> pr_slot_capacity r")
    case True
    then show ?thesis using inv c unfolding r1 by (auto simp: ring_inv_def ring_contents_def min_def)
  next
    case False
    then show ?thesis using ring_recycle_spec [OF inv] unfolding r1 by simp
  qed
qed

lemma push_copy_spec:
  assumes "ring_inv n ls r" and "push_copy r packet = (res, r1)"
  shows "ring_inv n ls r1 \<and> pr_slot_capacity r1 = pr_slot_capacity r
    \<and> res = (if pr_slot_capacity r < length packet then Inl (TooLarge (length packet) (pr_slot_capacity r))
             else if length (ring_contents r) + length ls = n then Inl Full else Inr ())
    \<and> (case res of Inl _ \<Rightarrow> r1 = r | Inr _ \<Rightarrow> ring_contents r1 = ring_contents r @ [packet])"
proof (cases "pr_slot_capacity r < length packet")
  case True
  then show ?thesis using assms by (auto simp: push_copy_def)
next
  case False
  show ?thesis
  proof (cases "ring_write r")
    case None
    then show ?thesis using assms False ring_write_None [OF assms(1)] by (auto simp: push_copy_def)
  next
    case (Some p)
    obtain l r2 where p: "ring_write r = Some (l, r2)" using Some by (cases p) simp
    note w = ring_write_Some [OF assms(1) p]
    let ?f = "\<lambda>_ :: bytes. (packet, ())"
    obtain x r3 where c: "write_consume l (length packet) ?f r2 = (x, r3)" by (metis prod.exhaust)
    have inv: "ring_inv n (l # ls) r2" using w by simp
    let ?m = "length packet"
    have fits: "length packet \<le> pr_slot_capacity r2" using w False by simp
    have cap: "vec_capacity l = pr_slot_capacity r2" using inv by (simp add: ring_inv_def slot_ok_def)
    have r3: "r3 = r2\<lparr>pr_pool := (pr_pool r2)\<lparr>pp_queued := pp_queued (pr_pool r2) @ [(vec_resize ?m (vec_clear l))\<lparr>vec_bytes := packet\<rparr>]\<rparr>\<rparr>"
      using c fits by (auto simp: write_consume_def Let_def)
    have "slot_ok (pr_slot_capacity r2) ((vec_resize ?m (vec_clear l))\<lparr>vec_bytes := packet\<rparr>)"
      using fits cap by (simp add: slot_ok_def vec_resize_def vec_clear_def)
    then have i3: "ring_inv n ls r3" using inv unfolding r3 by (simp add: ring_inv_def)
    have c3: "ring_contents r3 = ring_contents r @ [packet]" "pr_slot_capacity r3 = pr_slot_capacity r"
      using w unfolding r3 by (simp_all add: ring_contents_def)
    have "res = Inr ()" "r1 = r3" using assms(2) False p c by (simp_all add: push_copy_def)
    then show ?thesis using i3 c3 False p ring_write_None [OF assms(1)] by simp
  qed
qed

lemma pop_front_spec:
  assumes "ring_inv n ls r" and "pop_front r capacity = (res, r1)"
  shows "case res of
      Inl e \<Rightarrow> r1 = r \<and> (\<exists>p ps. ring_contents r = p # ps \<and> capacity < length p \<and> e = BufferTooSmall (length p) capacity)
    | Inr None \<Rightarrow> r1 = r \<and> ring_contents r = []
    | Inr (Some v) \<Rightarrow> ring_contents r = vec_bytes v # ring_contents r1 \<and> length (vec_bytes v) \<le> capacity
        \<and> ring_inv n (v # ls) r1 \<and> pr_slot_capacity r1 = pr_slot_capacity r"
  using assms by (auto simp: pop_front_def ring_inv_def ring_contents_def split: list.splits if_splits)

lemma pop_into_spec:
  assumes "ring_inv n ls r" and "pop_into r capacity = (res, r1)"
  shows "ring_inv n ls r1 \<and> pr_slot_capacity r1 = pr_slot_capacity r \<and>
    (case ring_contents r of
       [] \<Rightarrow> res = Inr None \<and> r1 = r
     | p # ps \<Rightarrow> if capacity < length p then res = Inl (BufferTooSmall (length p) capacity) \<and> r1 = r
         else res = Inr (Some p) \<and> ring_contents r1 = ps)"
proof -
  obtain res0 r0 where f: "pop_front r capacity = (res0, r0)" by (metis prod.exhaust)
  note s = pop_front_spec [OF assms(1) f]
  show ?thesis
  proof (cases res0)
    case (Inl e)
    then show ?thesis using s f assms by (auto simp: pop_into_def)
  next
    case (Inr ov)
    show ?thesis
    proof (cases ov)
      case None
      then show ?thesis using s f assms Inr by (auto simp: pop_into_def)
    next
      case (Some v)
      have inv: "ring_inv n (v # ls) r0" using s Inr Some by simp
      show ?thesis using s f assms Inr Some ring_recycle_spec [OF inv] by (auto simp: pop_into_def)
    qed
  qed
qed

subsection \<open>A bounded queue\<close>

text \<open>Pushing a batch, and popping until the queue is empty or \<open>k\<close> packets were taken.\<close>

primrec push_all :: "('s \<Rightarrow> bytes \<Rightarrow> ('e + unit) \<times> 's) \<Rightarrow> bytes list \<Rightarrow> 's \<Rightarrow> 's" where
  "push_all push [] s = s"
| "push_all push (p # ps) s = push_all push ps (snd (push s p))"

fun pop_all :: "('s \<Rightarrow> usize \<Rightarrow> ('e + bytes option) \<times> 's) \<Rightarrow> nat \<Rightarrow> usize \<Rightarrow> 's \<Rightarrow> bytes list \<times> 's" where
  "pop_all pop 0 c s = ([], s)"
| "pop_all pop (Suc k) c s =
     (case pop s c of
        (Inr (Some p), s') \<Rightarrow> let (ps, s'') = pop_all pop k c s' in (p # ps, s'')
      | (_, s') \<Rightarrow> ([], s'))"

text \<open>What a user of the ring relies on: a queue of bounded length whose elements are bounded, where a refused
  operation changes nothing.  A batch that fits is transferred whole and in order.\<close>

locale bounded_queue =
  fixes good :: "'s \<Rightarrow> bool" and contents :: "'s \<Rightarrow> bytes list" and limit :: nat and slot :: nat
    and push :: "'s \<Rightarrow> bytes \<Rightarrow> ('e + unit) \<times> 's" and pop :: "'s \<Rightarrow> usize \<Rightarrow> ('e + bytes option) \<times> 's"
  assumes push_fits: "good s \<Longrightarrow> length p \<le> slot \<Longrightarrow> length (contents s) < limit
      \<Longrightarrow> fst (push s p) = Inr () \<and> good (snd (push s p)) \<and> contents (snd (push s p)) = contents s @ [p]"
    and push_refused: "good s \<Longrightarrow> \<not> (length p \<le> slot \<and> length (contents s) < limit)
      \<Longrightarrow> (\<exists>e. fst (push s p) = Inl e) \<and> snd (push s p) = s"
    and pop_some: "good s \<Longrightarrow> contents s = p # ps \<Longrightarrow> length p \<le> c
      \<Longrightarrow> fst (pop s c) = Inr (Some p) \<and> good (snd (pop s c)) \<and> contents (snd (pop s c)) = ps"
    and pop_none: "good s \<Longrightarrow> contents s = [] \<Longrightarrow> pop s c = (Inr None, s)"
begin

lemma pushed:
  "good s \<Longrightarrow> length (contents s) + length ps \<le> limit \<Longrightarrow> list_all (\<lambda>p. length p \<le> slot) ps
     \<Longrightarrow> good (push_all push ps s) \<and> contents (push_all push ps s) = contents s @ ps"
proof (induction ps arbitrary: s)
  case (Cons p ps)
  have "good (snd (push s p))" "contents (snd (push s p)) = contents s @ [p]" using push_fits [of s p] Cons.prems by auto
  then show ?case using Cons.IH [of "snd (push s p)"] Cons.prems by simp
qed simp

lemma popped:
  "good s \<Longrightarrow> list_all (\<lambda>p. length p \<le> c) (contents s) \<Longrightarrow> length (contents s) \<le> k
     \<Longrightarrow> fst (pop_all pop k c s) = contents s \<and> good (snd (pop_all pop k c s)) \<and> contents (snd (pop_all pop k c s)) = []"
proof (induction k arbitrary: s)
  case (Suc k)
  show ?case
  proof (cases "contents s")
    case Nil
    then show ?thesis using Suc.prems pop_none [of s c] by simp
  next
    case (Cons p ps)
    obtain s' where s': "pop s c = (Inr (Some p), s')" "good s'" "contents s' = ps"
      using pop_some [OF Suc.prems(1) Cons, of c] Suc.prems(2) Cons by (cases "pop s c") auto
    then show ?thesis using Suc.IH [OF s'(2)] Suc.prems Cons by (auto split: prod.splits)
  qed
qed simp

lemma transfer:
  assumes "good s" and "contents s = []" and "length ps \<le> limit" and "list_all (\<lambda>p. length p \<le> slot) ps"
  shows "fst (pop_all pop limit slot (push_all push ps s)) = ps"
  using pushed [of s ps] popped [of "push_all push ps s" slot limit] assms by simp

end

interpretation ring: bounded_queue "\<lambda>r. ring_inv n [] r \<and> pr_slot_capacity r = slot" ring_contents n slot push_copy pop_into
  for n slot
proof
  fix r and p :: bytes assume g: "ring_inv n [] r \<and> pr_slot_capacity r = slot" and p: "length p \<le> slot" "length (ring_contents r) < n"
  show "fst (push_copy r p) = Inr () \<and> (ring_inv n [] (snd (push_copy r p)) \<and> pr_slot_capacity (snd (push_copy r p)) = slot)
      \<and> ring_contents (snd (push_copy r p)) = ring_contents r @ [p]"
    using push_copy_spec [of n "[]" r p "fst (push_copy r p)" "snd (push_copy r p)"] g p by auto
next
  fix r and p :: bytes assume g: "ring_inv n [] r \<and> pr_slot_capacity r = slot" and p: "\<not> (length p \<le> slot \<and> length (ring_contents r) < n)"
  have "length (ring_contents r) \<le> n" using g by (simp add: ring_inv_def ring_contents_def)
  then show "(\<exists>e. fst (push_copy r p) = Inl e) \<and> snd (push_copy r p) = r"
    using push_copy_spec [of n "[]" r p "fst (push_copy r p)" "snd (push_copy r p)"] g p by (auto split: if_splits)
next
  fix r c and p :: bytes and ps assume g: "ring_inv n [] r \<and> pr_slot_capacity r = slot" and p: "ring_contents r = p # ps" "length p \<le> c"
  show "fst (pop_into r c) = Inr (Some p) \<and> (ring_inv n [] (snd (pop_into r c)) \<and> pr_slot_capacity (snd (pop_into r c)) = slot)
      \<and> ring_contents (snd (pop_into r c)) = ps"
    using pop_into_spec [of n "[]" r c "fst (pop_into r c)" "snd (pop_into r c)"] g p by auto
next
  fix r c assume g: "ring_inv n [] r \<and> pr_slot_capacity r = slot" and p: "ring_contents r = []"
  show "pop_into r c = (Inr None, r)"
    using pop_into_spec [of n "[]" r c "fst (pop_into r c)" "snd (pop_into r c)"] g p by (simp add: prod_eq_iff)
qed

subsection \<open>Interleaved threads\<close>

text \<open>
  The system is the ring with the leases that threads hold and, as ghosts, the packets queued and taken so
  far.  Every step is one critical section: a lease may be abandoned at any moment, as when a callback
  unwinds, and the callback may leave any octets in the slot.
\<close>

record ring_system =
  rs_ring :: packet_ring
  rs_writers :: "vec_u8 list"
  rs_readers :: "vec_u8 list"
  rs_in :: "bytes list"
  rs_out :: "bytes list"

inductive ring_step :: "ring_system \<Rightarrow> ring_system \<Rightarrow> bool" where
  acquire: "ring_write (rs_ring s) = Some (l, r) \<Longrightarrow> ring_step s (s\<lparr>rs_ring := r, rs_writers := l # rs_writers s\<rparr>)"
| publish: "rs_writers s = xs @ l # ys \<Longrightarrow> \<forall>bs. length (fst (f bs)) = length bs
    \<Longrightarrow> write_consume l len f (rs_ring s) = ((), r)
    \<Longrightarrow> ring_step s (s\<lparr>rs_ring := r, rs_writers := xs @ ys,
          rs_in := rs_in s @ (if len \<le> pr_slot_capacity (rs_ring s) then [fst (f (replicate len 0))] else [])\<rparr>)"
| abandon: "rs_writers s = xs @ l # ys \<Longrightarrow> ring_step s (s\<lparr>rs_ring := write_drop l (rs_ring s), rs_writers := xs @ ys\<rparr>)"
| take_packet: "ring_read (rs_ring s) = Some (v, r)
    \<Longrightarrow> ring_step s (s\<lparr>rs_ring := r, rs_readers := v # rs_readers s, rs_out := rs_out s @ [vec_bytes v]\<rparr>)"
| pop_packet: "pop_front (rs_ring s) capacity = (Inr (Some v), r)
    \<Longrightarrow> ring_step s (s\<lparr>rs_ring := r, rs_readers := v # rs_readers s, rs_out := rs_out s @ [vec_bytes v]\<rparr>)"
| give_back: "rs_readers s = xs @ v # ys \<Longrightarrow> ring_step s (s\<lparr>rs_ring := read_drop v (rs_ring s), rs_readers := xs @ ys\<rparr>)"

definition ring_start :: "packet_ring \<Rightarrow> ring_system" where
  "ring_start r = \<lparr>rs_ring = r, rs_writers = [], rs_readers = [], rs_in = [], rs_out = []\<rparr>"

definition system_inv :: "nat \<Rightarrow> nat \<Rightarrow> ring_system \<Rightarrow> bool" where
  "system_inv n slot s \<longleftrightarrow> ring_inv n (rs_writers s @ rs_readers s) (rs_ring s) \<and> pr_slot_capacity (rs_ring s) = slot
     \<and> rs_in s = rs_out s @ ring_contents (rs_ring s)"

lemma ring_inv_mset: "ring_inv n ls r \<Longrightarrow> mset ls = mset ls' \<Longrightarrow> ring_inv n ls' r"
  unfolding ring_inv_def by (auto simp: list_all_iff dest: mset_eq_setD mset_eq_length)

lemma system_inv_step:
  assumes "ring_step s s'" and "system_inv n slot s"
  shows "system_inv n slot s'"
  using assms
proof induction
  case (acquire s l r)
  then have inv: "ring_inv n (rs_writers s @ rs_readers s) (rs_ring s)" by (simp add: system_inv_def)
  show ?case using ring_write_Some [OF inv acquire.hyps] acquire.prems by (simp add: system_inv_def)
next
  case (publish s xs l ys f len r)
  have "ring_inv n (l # xs @ ys @ rs_readers s) (rs_ring s)"
    by (rule ring_inv_mset [of n "rs_writers s @ rs_readers s"]) (use publish in \<open>simp_all add: system_inv_def\<close>)
  from write_consume_spec [OF this _ publish.hyps(3)] publish show ?case by (simp add: system_inv_def)
next
  case (abandon s xs l ys)
  have "ring_inv n (l # xs @ ys @ rs_readers s) (rs_ring s)"
    by (rule ring_inv_mset [of n "rs_writers s @ rs_readers s"]) (use abandon in \<open>simp_all add: system_inv_def\<close>)
  from ring_recycle_spec [OF this] abandon show ?case by (simp add: system_inv_def write_drop_def)
next
  case (take_packet s v r)
  have q: "ring_inv n (v # rs_writers s @ rs_readers s) r" "ring_contents (rs_ring s) = vec_bytes v # ring_contents r"
      "pr_slot_capacity r = pr_slot_capacity (rs_ring s)"
    using take_packet by (auto simp: system_inv_def ring_read_def ring_inv_def ring_contents_def split: list.splits)
  have "ring_inv n (rs_writers s @ v # rs_readers s) r" by (rule ring_inv_mset [OF q(1)]) simp
  then show ?case using q take_packet by (simp add: system_inv_def)
next
  case (pop_packet s capacity v r)
  have inv: "ring_inv n (rs_writers s @ rs_readers s) (rs_ring s)" using pop_packet by (simp add: system_inv_def)
  note q = pop_front_spec [OF inv pop_packet.hyps, simplified]
  have "ring_inv n (rs_writers s @ v # rs_readers s) r"
    by (rule ring_inv_mset [of n "v # rs_writers s @ rs_readers s"]) (use q in simp_all)
  then show ?case using q pop_packet by (simp add: system_inv_def)
next
  case (give_back s xs v ys)
  have "ring_inv n (v # rs_writers s @ xs @ ys) (rs_ring s)"
    by (rule ring_inv_mset [of n "rs_writers s @ rs_readers s"]) (use give_back in \<open>simp_all add: system_inv_def\<close>)
  from ring_recycle_spec [OF this] give_back show ?case by (simp add: system_inv_def read_drop_def)
qed

lemma system_inv_steps: "ring_step\<^sup>*\<^sup>* s s' \<Longrightarrow> system_inv n slot s \<Longrightarrow> system_inv n slot s'"
  by (induction rule: rtranclp_induct) (auto intro: system_inv_step)

subsection \<open>Properties\<close>

text \<open>C25: however the threads interleave, abandon leases and fill their slots, no packet buffer is lost, duplicated
  or reallocated: the buffers queued, free and leased always add up to the pool, each at the capacity it was allocated with;
  and the packets leave in the order in which they were queued, with nothing added.\<close>

theorem ring_conserves:
  assumes "ring_new capacity slot = Inr r" and "ring_step\<^sup>*\<^sup>* (ring_start r) s"
  shows "length (pp_queued (pr_pool (rs_ring s))) + length (pp_free (pr_pool (rs_ring s)))
      + length (rs_writers s) + length (rs_readers s) = capacity
    \<and> vec_capacity ` set (pp_queued (pr_pool (rs_ring s)) @ pp_free (pr_pool (rs_ring s)) @ rs_writers s @ rs_readers s) \<subseteq> {slot}
    \<and> rs_in s = rs_out s @ ring_contents (rs_ring s)"
proof -
  have "system_inv capacity slot (ring_start r)"
    using ring_new_Inr [OF assms(1)] by (simp add: system_inv_def ring_start_def)
  from system_inv_steps [OF assms(2) this] show ?thesis
    by (auto simp: system_inv_def ring_inv_def list_all_iff slot_ok_def)
qed

text \<open>C26: a batch of packets that fits the ring and its slots is transferred whole: pushing it into a new ring
  and popping until the ring is empty gives the same packets in the same order.\<close>

theorem ring_transfers:
  assumes "ring_new capacity slot = Inr r" and "length ps \<le> capacity" and "list_all (\<lambda>p. length p \<le> slot) ps"
  shows "fst (pop_all pop_into capacity slot (push_all push_copy ps r)) = ps"
  using ring.transfer [where n = capacity and slot = slot and s = r and ps = ps] ring_new_Inr [OF assms(1)] assms(2,3) by simp

theorem ring_transfers_witness:
  "\<exists>r. ring_new 3 4 = Inr r \<and> fst (pop_all pop_into 3 4 (push_all push_copy [[1, 2], [], [3, 4, 5, 6]] r)) = [[1, 2], [], [3, 4, 5, 6]]"
proof -
  obtain r where r: "ring_new 3 4 = Inr r" by (simp add: ring_new_def checked_mul_def usize_max_def size_of_vec_def)
  show ?thesis using r ring_transfers [OF r, of "[[1, 2], [], [3, 4, 5, 6]]"] by simp
qed

text \<open>A run: a slot of a one-slot ring is leased, filled with two octets and read.\<close>

theorem ring_conserves_witness:
  "\<exists>r s. ring_new 1 4 = Inr r \<and> ring_step\<^sup>*\<^sup>* (ring_start r) s \<and> length (rs_readers s) = 1 \<and> rs_out s = [[8, 9]]
     \<and> rs_in s = rs_out s @ ring_contents (rs_ring s)"
proof -
  let ?v = "vec_with_capacity 4" and ?w = "\<lparr>vec_capacity = 4, vec_bytes = [8, 9]\<rparr> :: vec_u8"
  let ?ring = "\<lambda>q f. \<lparr>pr_pool = \<lparr>pp_queued = q, pp_free = f\<rparr>, pr_slot_capacity = 4\<rparr>"
  let ?f = "\<lambda>bs :: bytes. (take (length bs) ([8, 9] @ bs), ())"
  have n: "ring_new 1 4 = Inr (?ring [] [?v])"
    by (simp add: ring_new_def checked_mul_def usize_max_def size_of_vec_def)
  let ?s0 = "ring_start (?ring [] [?v])"
  let ?s1 = "?s0\<lparr>rs_ring := ?ring [] [], rs_writers := [?v]\<rparr>"
  let ?s2 = "?s1\<lparr>rs_ring := ?ring [?w] [], rs_writers := [], rs_in := [[8, 9]]\<rparr>"
  let ?s3 = "?s2\<lparr>rs_ring := ?ring [] [], rs_readers := [?w], rs_out := [[8, 9]]\<rparr>"
  have 1: "ring_step ?s0 ?s1"
    using acquire [of ?s0 ?v "?ring [] []"] by (simp add: ring_start_def ring_write_def)
  have 2: "ring_step ?s1 ?s2"
    using publish [of ?s1 "[]" ?v "[]" ?f 2 "?ring [?w] []"]
    by (simp add: ring_start_def write_consume_def vec_resize_def vec_clear_def vec_with_capacity_def Let_def numeral_2_eq_2)
  have 3: "ring_step ?s2 ?s3"
    using take_packet [of ?s2 ?w "?ring [] []"] by (simp add: ring_start_def ring_read_def)
  have run: "ring_step\<^sup>*\<^sup>* ?s0 ?s3" using 1 2 3 by (meson converse_rtranclp_into_rtranclp rtranclp.rtrancl_refl)
  from ring_conserves [OF n run] have "rs_in ?s3 = rs_out ?s3 @ ring_contents (rs_ring ?s3)" by simp
  then show ?thesis using n run by (intro exI [of _ "?ring [] [?v]"] exI [of _ ?s3]) simp
qed

end
