(* ===== verification/Fake_Tcp_Codec.thy ===== *)
theory Fake_Tcp_Codec
  imports Quicp_Prelude
begin

unbundle bit_operations_syntax

section \<open>The TCP-shaped packet codec (faketcp.rs)\<close>

text \<open>
  A QUICP datagram travels in one packet with an IPv4 or IPv6 header and a TCP-shaped header.  This theory models the
  Internet checksum, the addresses, the TCP options, and the encoder and decoder of one packet.  Sums are 32-bit words that
  could wrap; for packets of legal size they do not, and the lemmas on \<open>octet_sum\<close> give their value.  Caller-owned output
  buffers are passed in and returned.
\<close>

subsection \<open>The Internet checksum\<close>

lemma unat_u8_less: "unat (b :: u8) < 256"
  using unsigned_less [of b, where 'a = nat] by simp

lemma unat_u16_less: "unat (b :: u16) < 65536"
  using unsigned_less [of b, where 'a = nat] by simp

lemma unat_ucast_up [simp]: "LENGTH('a) \<le> LENGTH('b) \<Longrightarrow> unat (ucast (w :: 'a::len word) :: 'b::len word) = unat w"
proof -
  assume l: "LENGTH('a) \<le> LENGTH('b)"
  have "unat w < 2 ^ LENGTH('a)" by (rule unsigned_less)
  also have "\<dots> \<le> 2 ^ LENGTH('b)" using l by simp
  finally show ?thesis by (simp add: unsigned_ucast_eq take_bit_nat_eq_self)
qed

fun checksum_sum :: "bytes \<Rightarrow> u32" where
  "checksum_sum [] = 0"
| "checksum_sum [b] = push_bit 8 (ucast b)"
| "checksum_sum (high # low # rest) = ucast (from_be [high, low] :: u16) + checksum_sum rest"

lemma word_and_ffff: "(s :: u32) AND 0xffff = take_bit 16 s"
  by (simp add: take_bit_eq_mask mask_eq_exp_minus_1)

lemma unat_low: "unat ((s :: u32) AND 0xffff) = unat s mod 65536"
  unfolding word_and_ffff unsigned_take_bit_eq by (simp add: take_bit_eq_mod)

lemma unat_high: "unat (drop_bit 16 (s :: u32)) = unat s div 65536"
  unfolding unat_drop_bit_eq by (simp add: drop_bit_eq_div)

lemma unat_fold_step: "unat (((s :: u32) AND 0xffff) + drop_bit 16 s) = unat s mod 65536 + unat s div 65536"
proof -
  have "unat s < 2 ^ LENGTH(32)" by (rule unsigned_less)
  then have "unat s mod 65536 + unat s div 65536 < 2 ^ LENGTH(32)" by simp
  then show ?thesis using unat_add_lem [of "s AND 0xffff" "drop_bit 16 s", THEN iffD1] by (simp only: unat_low unat_high)
qed

function fold_checksum :: "u32 \<Rightarrow> u32" where
  "fold_checksum s = (if drop_bit 16 s \<noteq> 0 then fold_checksum ((s AND 0xffff) + drop_bit 16 s) else s)"
  by pat_completeness auto

lemma drop_bit_16_eq_0: "drop_bit 16 (s :: u32) = 0 \<longleftrightarrow> unat s < 65536"
  by (metis unat_high unat_eq_0 div_eq_0_iff zero_neq_numeral)

lemma fold_less: "65536 \<le> (n :: nat) \<Longrightarrow> n mod 65536 + n div 65536 < n"
proof -
  assume n: "65536 \<le> n"
  have "n = 65536 * (n div 65536) + n mod 65536" by simp
  moreover have "0 < n div 65536" using n by (simp add: div_greater_zero_iff)
  ultimately show ?thesis by linarith
qed

termination fold_checksum
  by (relation "measure unat") (auto simp: drop_bit_16_eq_0 unat_fold_step fold_less not_less)

declare fold_checksum.simps [simp del]

text \<open>Folding reduces modulo 65535, with 65535 as the representative of zero for a positive sum.\<close>

lemma fold_checksum_spec:
  "unat (fold_checksum s) = (if unat s = 0 then 0 else (unat s - 1) mod 65535 + 1)"
proof (induction s rule: fold_checksum.induct)
  case (1 s)
  show ?case
  proof (cases "unat s < 65536")
    case True
    then show ?thesis by (auto simp: fold_checksum.simps [of s] drop_bit_16_eq_0)
  next
    case False
    let ?n = "unat s mod 65536 + unat s div 65536"
    have e: "unat s = ?n + 65535 * (unat s div 65536)" using div_mult_mod_eq [of "unat s" 65536] by linarith
    have pos: "0 < ?n" using False by (simp add: div_greater_zero_iff)
    have "unat s - 1 = ?n - 1 + 65535 * (unat s div 65536)" using e pos by linarith
    then have "(unat s - 1) mod 65535 = (?n - 1) mod 65535" by (metis mod_mult_self2)
    moreover have "fold_checksum s = fold_checksum ((s AND 0xffff) + drop_bit 16 s)"
      using False by (simp add: fold_checksum.simps [of s] drop_bit_16_eq_0)
    moreover have "unat (fold_checksum ((s AND 0xffff) + drop_bit 16 s)) = (?n - 1) mod 65535 + 1"
      using 1 False pos by (simp add: drop_bit_16_eq_0 unat_fold_step)
    ultimately show ?thesis using False by simp
  qed
qed

lemma fold_checksum_less: "unat (fold_checksum s) < 65536"
  using fold_checksum_spec [of s] by (auto split: if_splits)

text \<open>\<open>!u16::try_from(fold_checksum(sum)).unwrap_or(u16::MAX)\<close>\<close>

definition finish_checksum :: "u32 \<Rightarrow> u16" where
  "finish_checksum s = (let f = fold_checksum s in NOT (if unat f < 65536 then ucast f else - 1))"

definition internet_checksum :: "bytes \<Rightarrow> u16" where
  "internet_checksum input = finish_checksum (checksum_sum input)"

subsection \<open>The sum as a number\<close>

fun octet_sum :: "bytes \<Rightarrow> nat" where
  "octet_sum [] = 0"
| "octet_sum [b] = 256 * unat b"
| "octet_sum (high # low # rest) = 256 * unat high + unat low + octet_sum rest"

lemma unat_from_be_2: "unat (from_be [h, l] :: u16) = 256 * unat h + unat l"
proof -
  have h: "unat (push_bit 8 (ucast h) :: u16) = 256 * unat h"
    using unat_u8_less [of h] unfolding unsigned_push_bit_eq by (simp add: push_bit_eq_mult take_bit_eq_mod)
  have "(push_bit 8 (ucast h) :: u16) OR ucast l = push_bit 8 (ucast h) + ucast l"
    by (rule disjunctive_add [symmetric]) (auto simp: bit_push_bit_iff bit_ucast_iff dest: bit_imp_le_length)
  moreover have "unat ((push_bit 8 (ucast h) :: u16) + ucast l) = 256 * unat h + unat l"
    using unat_u8_less [of h] unat_u8_less [of l] h
    by (subst unat_add_lem [THEN iffD1]) simp_all
  ultimately show ?thesis by (simp add: from_be_def be_step_def)
qed

lemma octet_sum_bound: "octet_sum bs \<le> 65535 * ((length bs + 1) div 2)"
proof (induction bs rule: octet_sum.induct)
  case (2 b)
  then show ?case using unat_u8_less [of b] by simp
next
  case (3 h l rest)
  then show ?case using unat_u8_less [of h] unat_u8_less [of l] by simp
qed simp

lemma checksum_sum_value:
  assumes "length bs \<le> 65536"
  shows "unat (checksum_sum bs) = octet_sum bs"
  using assms
proof (induction bs rule: checksum_sum.induct)
  case (2 b)
  then show ?case
    using unat_u8_less [of b] unfolding checksum_sum.simps unsigned_push_bit_eq by (simp add: push_bit_eq_mult take_bit_eq_mod)
next
  case (3 h l rest)
  have "octet_sum (h # l # rest) \<le> 65535 * ((length (h # l # rest) + 1) div 2)" by (rule octet_sum_bound)
  also have "\<dots> \<le> 65535 * 32768" using 3(2) by (intro mult_le_mono2) simp
  finally have b: "256 * unat h + unat l + octet_sum rest < 2 ^ 32" by simp
  have "unat (ucast (from_be [h, l] :: u16) :: u32) = 256 * unat h + unat l"
    by (simp add: unat_from_be_2)
  then show ?case using 3 b by (subst checksum_sum.simps, subst unat_add_lem [THEN iffD1]) simp_all
qed simp

lemma octet_sum_append: "even (length xs) \<Longrightarrow> octet_sum (xs @ ys) = octet_sum xs + octet_sum ys"
  by (induction xs rule: octet_sum.induct) auto

lemma octet_sum_zeros [simp]: "octet_sum (replicate n 0) = 0"
proof (induction n rule: less_induct)
  case (less n)
  consider "n = 0" | "n = 1" | m where "n = Suc (Suc m)" by (metis One_nat_def not0_implies_Suc)
  then show ?case using less by cases auto
qed

lemma octet_sum_be_16: "octet_sum (be_bytes 2 (w :: u16)) = unat w"
proof -
  have "be_bytes 2 w = [ucast (drop_bit 8 w), ucast w]" by (simp add: be_bytes_def numeral_2_eq_2)
  moreover have "from_be (be_bytes 2 w) = w" by simp
  ultimately show ?thesis using unat_from_be_2 [of "ucast (drop_bit 8 w)" "ucast w"] by simp
qed

text \<open>The complement makes the total a multiple of 65535: a sum that contains its own checksum folds to all
  ones.\<close>

lemma finish_checksum_value: "unat (finish_checksum s) = 65535 - unat (fold_checksum s)"
proof -
  have l: "unat (fold_checksum s) < 65536" by (rule fold_checksum_less)
  have u: "unat (ucast (fold_checksum s) :: u16) = unat (fold_checksum s)"
    using l by (simp add: unsigned_ucast_eq take_bit_nat_eq_self)
  have "unat (NOT (x :: u16)) = 65535 - unat x" for x
  proof -
    have "NOT x = - 1 - x" by (simp add: not_eq_complement)
    then show ?thesis using unat_sub [of x "- 1"] by (simp add: unsigned_minus_1_eq_mask mask_eq_exp_minus_1)
  qed
  then show ?thesis using l u by (simp add: finish_checksum_def Let_def)
qed

lemma finish_checksum_zero_iff: "finish_checksum s = 0 \<longleftrightarrow> 0 < unat s \<and> 65535 dvd unat s"
proof -
  have "finish_checksum s = 0 \<longleftrightarrow> unat (fold_checksum s) = 65535"
    using fold_checksum_less [of s] finish_checksum_value [of s] unat_eq_0 [of "finish_checksum s"] by linarith
  also have "\<dots> \<longleftrightarrow> 0 < unat s \<and> (unat s - 1) mod 65535 = 65534"
    by (auto simp: fold_checksum_spec)
  also have "\<dots> \<longleftrightarrow> 0 < unat s \<and> 65535 dvd unat s"
  proof (cases "unat s")
    case (Suc n)
    have "n mod 65535 = 65534 \<longleftrightarrow> Suc n mod 65535 = 0" by (auto simp: mod_Suc)
    then show ?thesis using Suc by (simp add: dvd_eq_mod_eq_0)
  qed simp
  finally show ?thesis .
qed

lemma complement_total: "n = 65535 * q + r \<Longrightarrow> r < 65535 \<Longrightarrow> Suc n + (65535 - (r + 1)) = 65535 * (q + 1)" for n :: nat
  by simp

lemma finish_checksum_cancels:
  assumes "unat s = unat t + unat (finish_checksum t)"
  shows "finish_checksum s = 0"
proof -
  have v: "unat (finish_checksum t) = 65535 - unat (fold_checksum t)" by (rule finish_checksum_value)
  show ?thesis
  proof (cases "unat t = 0")
    case True
    then show ?thesis using assms v fold_checksum_spec [of t] by (simp add: finish_checksum_zero_iff)
  next
    case False
    let ?r = "(unat t - 1) mod 65535"
    have "unat (fold_checksum t) = ?r + 1" using fold_checksum_spec [of t] False by simp
    then have "unat s = unat t + (65535 - (?r + 1))" by (simp only: assms v)
    moreover obtain n where "unat t = Suc n" using False not0_implies_Suc by blast
    ultimately have "unat s = 65535 * (n div 65535 + 1)"
      using complement_total [of n "n div 65535" "n mod 65535"] by simp
    then show ?thesis by (simp add: finish_checksum_zero_iff)
  qed
qed

subsection \<open>Addresses\<close>

text \<open>An IPv6 socket address carries a flow label and a scope beside the address and the port; they take part in equality
  and never appear in a packet.\<close>

datatype ip_addr = IpV4 u32 | IpV6 "128 word"

datatype socket_addr = SocketV4 u32 u16 | SocketV6 "128 word" u16 u32 u32

fun addr_ip :: "socket_addr \<Rightarrow> ip_addr" where
  "addr_ip (SocketV4 ip port) = IpV4 ip"
| "addr_ip (SocketV6 ip port flowinfo scope) = IpV6 ip"

fun addr_port :: "socket_addr \<Rightarrow> u16" where
  "addr_port (SocketV4 ip port) = port"
| "addr_port (SocketV6 ip port flowinfo scope) = port"

fun is_ipv4 :: "socket_addr \<Rightarrow> bool" where
  "is_ipv4 (SocketV4 ip port) = True"
| "is_ipv4 (SocketV6 ip port flowinfo scope) = False"

fun socket_addr_new :: "ip_addr \<Rightarrow> u16 \<Rightarrow> socket_addr" where
  "socket_addr_new (IpV4 ip) port = SocketV4 ip port"
| "socket_addr_new (IpV6 ip) port = SocketV6 ip port 0 0"

fun is_unspecified :: "ip_addr \<Rightarrow> bool" where
  "is_unspecified (IpV4 ip) = (ip = 0)"
| "is_unspecified (IpV6 ip) = (ip = 0)"

fun ip_octets :: "ip_addr \<Rightarrow> bytes" where
  "ip_octets (IpV4 ip) = be_bytes 4 ip"
| "ip_octets (IpV6 ip) = be_bytes 16 ip"

record four_tuple =
  ft_source :: socket_addr
  ft_destination :: socket_addr

definition tuple_reverse :: "four_tuple \<Rightarrow> four_tuple" where
  "tuple_reverse t = \<lparr>ft_source = ft_destination t, ft_destination = ft_source t\<rparr>"

datatype carrier_error =
    InvalidTuple | UnsupportedIpVersion | PacketTooShort | PacketTooLarge | InvalidOuterMtu u16 | InvalidMss u16 u16
  | OutputTooSmall usize usize | InvalidIpHeader | InvalidTcpHeader | InvalidTcpOption | TcpOptionsTooLong | DatagramTooLarge
  | SynDataDisabled | SynCookieRejected | CarrierInvalidState | WrongTuple | EmptyPayload | Randomness

definition TCP_PROTOCOL :: u8 where "TCP_PROTOCOL = 6"
definition IPV4_HEADER_BYTES :: usize where "IPV4_HEADER_BYTES = 20"
definition IPV6_HEADER_BYTES :: usize where "IPV6_HEADER_BYTES = 40"
definition TCP_HEADER_BYTES :: usize where "TCP_HEADER_BYTES = 20"
definition MAX_TCP_OPTIONS_BYTES :: usize where "MAX_TCP_OPTIONS_BYTES = 40"
definition MAX_PACKET_BYTES :: usize where "MAX_PACKET_BYTES = 65535"
definition MAX_DATAGRAM_BYTES :: usize where
  "MAX_DATAGRAM_BYTES = MAX_PACKET_BYTES - IPV6_HEADER_BYTES - TCP_HEADER_BYTES"
definition TFO_OPTION_KIND :: u8 where "TFO_OPTION_KIND = 34"
definition DEFAULT_SYN_MSS :: u16 where "DEFAULT_SYN_MSS = 1460"
definition SYN_WINDOW_SCALE :: u8 where "SYN_WINDOW_SCALE = 7"

lemmas carrier_consts = TCP_PROTOCOL_def IPV4_HEADER_BYTES_def IPV6_HEADER_BYTES_def TCP_HEADER_BYTES_def
  MAX_TCP_OPTIONS_BYTES_def MAX_PACKET_BYTES_def MAX_DATAGRAM_BYTES_def TFO_OPTION_KIND_def SYN_WINDOW_SCALE_def

subsection \<open>Checksums of headers\<close>

definition ipv4_header_checksum :: "u32 \<Rightarrow> u32 \<Rightarrow> u16 \<Rightarrow> u16" where
  "ipv4_header_checksum source destination total_length =
     (let s = be_bytes 4 source; d = be_bytes 4 destination;
          sum = ucast total_length + 0x4500 + 0x4000 + 0x4006
            + ucast (from_be [s ! 0, s ! 1] :: u16) + ucast (from_be [s ! 2, s ! 3] :: u16)
            + ucast (from_be [d ! 0, d ! 1] :: u16) + ucast (from_be [d ! 2, d ! 3] :: u16) in
      finish_checksum sum)"

definition tcp_pseudo_header_prefix :: "socket_addr \<Rightarrow> socket_addr \<Rightarrow> u32 option" where
  "tcp_pseudo_header_prefix source destination =
     (case (addr_ip source, addr_ip destination) of
        (IpV4 s, IpV4 d) \<Rightarrow> Some (checksum_sum (be_bytes 4 s) + checksum_sum (be_bytes 4 d) + ucast TCP_PROTOCOL)
      | (IpV6 s, IpV6 d) \<Rightarrow> Some (checksum_sum (be_bytes 16 s) + checksum_sum (be_bytes 16 d) + ucast TCP_PROTOCOL)
      | _ \<Rightarrow> None)"

definition tcp_checksum_with_prefix :: "socket_addr \<Rightarrow> u32 \<Rightarrow> bytes \<Rightarrow> u16" where
  "tcp_checksum_with_prefix source prefix tcp =
     (let length_sum =
        (if is_ipv4 source then (if length tcp < 2 ^ 16 then word_of_nat (length tcp) else 0xffff)
         else let len = (if length tcp < 2 ^ 32 then word_of_nat (length tcp) else - 1) :: u32 in
           drop_bit 16 len + (len AND 0xffff)) in
      finish_checksum (prefix + length_sum + checksum_sum tcp))"

definition tcp_checksum :: "socket_addr \<Rightarrow> socket_addr \<Rightarrow> bytes \<Rightarrow> u16" where
  "tcp_checksum source destination tcp =
     (case tcp_pseudo_header_prefix source destination of
        None \<Rightarrow> - 1
      | Some prefix \<Rightarrow> tcp_checksum_with_prefix source prefix tcp)"

subsection \<open>TCP flags and options\<close>

type_synonym tcp_flags = u8

definition SYN :: tcp_flags where "SYN = 0x02"
definition RST :: tcp_flags where "RST = 0x04"
definition PSH :: tcp_flags where "PSH = 0x08"
definition ACK :: tcp_flags where "ACK = 0x10"

definition flags_contains :: "tcp_flags \<Rightarrow> tcp_flags \<Rightarrow> bool" where
  "flags_contains f other \<longleftrightarrow> f AND other = other"

definition is_syn :: "tcp_flags \<Rightarrow> bool" where "is_syn f = flags_contains f SYN"
definition is_rst :: "tcp_flags \<Rightarrow> bool" where "is_rst f = flags_contains f RST"

text \<open>The cookie field is a sixteen-octet array and a length, which may exceed sixteen.\<close>

record tcp_options =
  to_mss :: "u16 option"
  to_sack_permitted :: bool
  to_timestamps :: "(u32 \<times> u32) option"
  to_window_scale :: "u8 option"
  to_fast_open_cookie :: "(bytes \<times> usize) option"

definition default_options :: tcp_options where
  "default_options = \<lparr>to_mss = None, to_sack_permitted = False, to_timestamps = None, to_window_scale = None, to_fast_open_cookie = None\<rparr>"

definition for_syn_with_mss :: "u16 \<Rightarrow> bytes option \<Rightarrow> tcp_options" where
  "for_syn_with_mss mss cookie =
     \<lparr>to_mss = Some mss, to_sack_permitted = True, to_timestamps = None, to_window_scale = Some SYN_WINDOW_SCALE,
      to_fast_open_cookie = map_option (\<lambda>c. (take 16 c @ replicate (16 - length c) 0, length c)) cookie\<rparr>"

definition options_is_empty :: "tcp_options \<Rightarrow> bool" where
  "options_is_empty opts \<longleftrightarrow> to_mss opts = None \<and> \<not> to_sack_permitted opts \<and> to_timestamps opts = None
     \<and> to_window_scale opts = None \<and> to_fast_open_cookie opts = None"

text \<open>The options are written into a buffer of forty octets; \<open>out\<close> is what has been written.\<close>

definition append_option :: "bytes \<Rightarrow> bytes \<Rightarrow> carrier_error + bytes" where
  "append_option out bs =
     rbind (ok_or (checked_add (length out) (length bs)) TcpOptionsTooLong) (\<lambda>e.
       if MAX_TCP_OPTIONS_BYTES < e then Inl TcpOptionsTooLong else Inr (out @ bs))"

function pad_options :: "bytes \<Rightarrow> carrier_error + bytes" where
  "pad_options out =
     (if length out mod 4 = 0 then Inr out
      else case append_option out [1] of Inl e \<Rightarrow> Inl e | Inr out' \<Rightarrow> pad_options out')"
  by pat_completeness auto

termination pad_options
  by (relation "measure (\<lambda>out. 41 - length out)")
    (auto simp: append_option_def carrier_consts result_iff split: if_splits)

declare pad_options.simps [simp del]

definition encode_fast_open :: "(bytes \<times> usize) option \<Rightarrow> bytes \<Rightarrow> carrier_error + bytes" where
  "encode_fast_open c out =
     (case c of
        None \<Rightarrow> Inr out
      | Some (cookie, cookie_length) \<Rightarrow>
          if length cookie < cookie_length then Inl InvalidTcpOption
          else let option_length = saturating_add 2 cookie_length in
            if 256 \<le> option_length then Inl InvalidTcpOption
            else rbind (append_option out [TFO_OPTION_KIND, word_of_nat option_length]) (\<lambda>out.
              append_option out (take cookie_length cookie)))"

definition options_encode :: "tcp_options \<Rightarrow> carrier_error + bytes" where
  "options_encode opts =
     rbind (case to_mss opts of None \<Rightarrow> Inr []
            | Some mss \<Rightarrow> rbind (append_option [] [2, 4]) (\<lambda>out. append_option out (be_bytes 2 mss))) (\<lambda>out.
     rbind (if to_sack_permitted opts then append_option out [4, 2] else Inr out) (\<lambda>out.
     rbind (case to_timestamps opts of None \<Rightarrow> Inr out
            | Some (v, echo) \<Rightarrow> rbind (append_option out [1, 1, 8, 10]) (\<lambda>out.
                rbind (append_option out (be_bytes 4 v)) (\<lambda>out. append_option out (be_bytes 4 echo)))) (\<lambda>out.
     rbind (case to_window_scale opts of None \<Rightarrow> Inr out | Some scale \<Rightarrow> append_option out [3, 3, scale]) (\<lambda>out.
     rbind (encode_fast_open (to_fast_open_cookie opts) out) pad_options))))"

function fast_open_cookie :: "bytes \<Rightarrow> bytes option \<Rightarrow> carrier_error + bytes option" where
  "fast_open_cookie input cookie =
     (case input of
        [] \<Rightarrow> Inr cookie
      | kind # rest \<Rightarrow>
          if kind = 0 then Inr cookie
          else if kind = 1 then fast_open_cookie rest cookie
          else case rest of
              [] \<Rightarrow> Inl InvalidTcpOption
            | len # _ \<Rightarrow>
                if unat len < 2 \<or> length input < unat len then Inl InvalidTcpOption
                else fast_open_cookie (drop (unat len) input)
                  (if kind = TFO_OPTION_KIND \<and> 2 \<le> unat len \<and> unat len \<le> 18
                   then Some (drop 2 (take (unat len) input)) else cookie))"
  by pat_completeness auto

termination fast_open_cookie
  by (relation "measure (\<lambda>(input, _). length input)") auto

declare fast_open_cookie.simps [simp del]

subsection \<open>Decoding a packet\<close>

record packet_view =
  pv_source :: socket_addr
  pv_destination :: socket_addr
  pv_sequence :: u32
  pv_flags :: tcp_flags
  pv_fast_open_cookie :: "bytes option"
  pv_payload :: bytes

definition decode_tcp_view :: "socket_addr \<Rightarrow> socket_addr \<Rightarrow> bytes \<Rightarrow> u32 option \<Rightarrow> carrier_error + packet_view" where
  "decode_tcp_view source destination input prefix =
     (let checksum = (case prefix of
            None \<Rightarrow> tcp_checksum source destination input
          | Some p \<Rightarrow> tcp_checksum_with_prefix source p input) in
      if length input < TCP_HEADER_BYTES \<or> checksum \<noteq> 0 then Inl InvalidTcpHeader
      else let header_length = unat (drop_bit 4 (input ! 12)) * 4 in
        if header_length < TCP_HEADER_BYTES \<or> length input < header_length then Inl InvalidTcpHeader
        else rbind (fast_open_cookie (drop TCP_HEADER_BYTES (take header_length input)) None) (\<lambda>cookie.
          Inr \<lparr>pv_source = socket_addr_new (addr_ip source) (from_be [input ! 0, input ! 1]),
            pv_destination = socket_addr_new (addr_ip destination) (from_be [input ! 2, input ! 3]),
            pv_sequence = from_be [input ! 4, input ! 5, input ! 6, input ! 7],
            pv_flags = input ! 13, pv_fast_open_cookie = cookie, pv_payload = drop header_length input\<rparr>))"

definition decode_packet_view :: "bytes \<Rightarrow> u32 option \<Rightarrow> carrier_error + packet_view" where
  "decode_packet_view input prefix =
     (if length input < IPV4_HEADER_BYTES then Inl PacketTooShort
      else if MAX_PACKET_BYTES < length input then Inl PacketTooLarge
      else if drop_bit 4 (input ! 0) = 4 then
        let ihl = unat (input ! 0 AND 0x0f) * 4 in
        if ihl < IPV4_HEADER_BYTES \<or> length input < ihl then Inl InvalidIpHeader
        else let total_length = unat (from_be [input ! 2, input ! 3] :: u16) in
          if total_length \<noteq> length input \<or> total_length < ihl + TCP_HEADER_BYTES then Inl InvalidIpHeader
          else let fragment = from_be [input ! 6, input ! 7] :: u16 in
            if fragment AND 0x3fff \<noteq> 0 \<or> input ! 9 \<noteq> TCP_PROTOCOL \<or> internet_checksum (take ihl input) \<noteq> 0
            then Inl InvalidIpHeader
            else decode_tcp_view
              (SocketV4 (from_be [input ! 12, input ! 13, input ! 14, input ! 15]) 0)
              (SocketV4 (from_be [input ! 16, input ! 17, input ! 18, input ! 19]) 0)
              (drop ihl input) prefix
      else if drop_bit 4 (input ! 0) = 6 then
        if length input < IPV6_HEADER_BYTES then Inl InvalidIpHeader
        else let payload_length = unat (from_be [input ! 4, input ! 5] :: u16) in
          if payload_length + IPV6_HEADER_BYTES \<noteq> length input \<or> input ! 6 \<noteq> TCP_PROTOCOL then Inl InvalidIpHeader
          else decode_tcp_view
            (SocketV6 (from_be (take 16 (drop 8 input))) 0 0 0) (SocketV6 (from_be (take 16 (drop 24 input))) 0 0 0)
            (drop IPV6_HEADER_BYTES input) prefix
      else Inl UnsupportedIpVersion)"

subsection \<open>Encoding a packet\<close>

text \<open>The headers as the code fills them in, the checksum fields being given.\<close>

definition tcp_header ::
  "socket_addr \<Rightarrow> socket_addr \<Rightarrow> u32 \<Rightarrow> u32 \<Rightarrow> u8 \<Rightarrow> tcp_flags \<Rightarrow> u16 \<Rightarrow> u16 \<Rightarrow> bytes" where
  "tcp_header source destination sequence acknowledgment data_offset flags window checksum =
     be_bytes 2 (addr_port source) @ be_bytes 2 (addr_port destination) @ be_bytes 4 sequence @ be_bytes 4 acknowledgment
     @ [push_bit 4 data_offset, flags] @ be_bytes 2 window @ be_bytes 2 checksum @ [0, 0]"

definition ipv4_header :: "u32 \<Rightarrow> u32 \<Rightarrow> u16 \<Rightarrow> u16 \<Rightarrow> bytes" where
  "ipv4_header source destination total_length checksum =
     [0x45, 0] @ be_bytes 2 total_length @ [0, 0, 0x40, 0, 64, TCP_PROTOCOL] @ be_bytes 2 checksum
     @ be_bytes 4 source @ be_bytes 4 destination"

definition ipv6_header :: "128 word \<Rightarrow> 128 word \<Rightarrow> u16 \<Rightarrow> bytes" where
  "ipv6_header source destination payload_length =
     [0x60, 0, 0, 0] @ be_bytes 2 payload_length @ [TCP_PROTOCOL, 64] @ be_bytes 16 source @ be_bytes 16 destination"

definition tcp_segment ::
  "socket_addr \<Rightarrow> socket_addr \<Rightarrow> u32 \<Rightarrow> u32 \<Rightarrow> tcp_flags \<Rightarrow> u16 \<Rightarrow> bytes \<Rightarrow> bytes \<Rightarrow> u32 \<Rightarrow> bytes" where
  "tcp_segment source destination sequence acknowledgment flags window option_bytes payload prefix =
     (let data_offset = word_of_nat ((TCP_HEADER_BYTES + length option_bytes) div 4);
          header = tcp_header source destination sequence acknowledgment data_offset flags window;
          checksum = tcp_checksum_with_prefix source prefix (header 0 @ option_bytes @ payload) in
      header checksum @ option_bytes @ payload)"

definition encode_packet_into ::
  "socket_addr \<Rightarrow> socket_addr \<Rightarrow> u32 \<Rightarrow> u32 \<Rightarrow> tcp_flags \<Rightarrow> u16 \<Rightarrow> tcp_options \<Rightarrow> bytes \<Rightarrow> bytes \<Rightarrow> u32
     \<Rightarrow> (carrier_error + usize) \<times> bytes" where
  "encode_packet_into source destination sequence acknowledgment flags window options payload out prefix =
     (if is_ipv4 source \<noteq> is_ipv4 destination \<or> addr_port source = 0 \<or> addr_port destination = 0 then (Inl InvalidTuple, out)
      else let ip_header_length = (if is_ipv4 source then IPV4_HEADER_BYTES else IPV6_HEADER_BYTES) in
        case (if options_is_empty options then Inr [] else options_encode options) of
          Inl e \<Rightarrow> (Inl e, out)
        | Inr option_bytes \<Rightarrow>
            (case rbind (ok_or (checked_add TCP_HEADER_BYTES (length option_bytes)) TcpOptionsTooLong) (\<lambda>header_length.
                rbind (ok_or (checked_add header_length (length payload)) PacketTooLarge) (\<lambda>tcp_length.
                if MAX_PACKET_BYTES < tcp_length then Inl PacketTooLarge
                else rbind (ok_or (checked_add ip_header_length tcp_length) PacketTooLarge) (\<lambda>packet_length.
                if MAX_PACKET_BYTES < packet_length then Inl PacketTooLarge
                else if length out < packet_length then Inl (OutputTooSmall packet_length (length out))
                else Inr (tcp_length, packet_length)))) of
               Inl e \<Rightarrow> (Inl e, out)
             | Inr (tcp_length, packet_length) \<Rightarrow>
                 let tcp = tcp_segment source destination sequence acknowledgment flags window option_bytes payload prefix in
                 case (addr_ip source, addr_ip destination) of
                   (IpV4 s, IpV4 d) \<Rightarrow>
                     let total_length = word_of_nat packet_length in
                     (Inr packet_length,
                      ipv4_header s d total_length (ipv4_header_checksum s d total_length) @ tcp @ drop packet_length out)
                 | (IpV6 s, IpV6 d) \<Rightarrow>
                     (Inr packet_length, ipv6_header s d (word_of_nat tcp_length) @ tcp @ drop packet_length out)
                 | _ \<Rightarrow> (Inl InvalidTuple, take ip_header_length out @ tcp @ drop packet_length out)))"

lemma unat_word_of_nat: "n < 2 ^ LENGTH('a) \<Longrightarrow> unat (word_of_nat n :: 'a::len word) = n"
  by (simp add: unsigned_of_nat take_bit_nat_eq_self)

subsection \<open>Options survive the trip\<close>

lemma append_option_Inr: "append_option out bs = Inr r \<longleftrightarrow> r = out @ bs \<and> length out + length bs \<le> 40"
  by (auto simp: append_option_def carrier_consts result_iff usize_max_def split: if_splits)

lemma pad_options_Inr: "pad_options out = Inr r \<Longrightarrow> \<exists>n. r = out @ replicate n 1 \<and> length r mod 4 = 0 \<and> length r \<le> max 40 (length out)"
proof (induction out arbitrary: r rule: pad_options.induct)
  case (1 out)
  show ?case
  proof (cases "length out mod 4 = 0")
    case True
    then have "r = out" using 1(2) by (simp add: pad_options.simps [of out])
    then show ?thesis using True by (intro exI [of _ 0]) simp
  next
    case False
    have e: "pad_options out = (case append_option out [1] of Inl e \<Rightarrow> Inl e | Inr out' \<Rightarrow> pad_options out')"
      using False by (subst pad_options.simps) simp
    obtain out' where o: "append_option out [1] = Inr out'" "pad_options out' = Inr r"
      using 1(2) unfolding e by (cases "append_option out [1]") simp_all
    obtain n where n: "r = out' @ replicate n 1" "length r mod 4 = 0" "length r \<le> max 40 (length out')"
      using 1(1) [OF False o(1,2)] by (elim exE conjE) (rule that)
    have out': "out' = out @ [1]" "length out' \<le> 40" using o(1) by (auto simp: append_option_Inr)
    have "r = out @ replicate (Suc n) 1" using n(1) out'(1) by simp
    moreover have "length r \<le> max 40 (length out)" using n(3) out'(2) by linarith
    ultimately show ?thesis using n(2) by (intro exI conjI)
  qed
qed

definition mss_option :: "u16 option \<Rightarrow> bytes" where
  "mss_option m = (case m of None \<Rightarrow> [] | Some mss \<Rightarrow> [2, 4] @ be_bytes 2 mss)"

definition sack_option :: "bool \<Rightarrow> bytes" where
  "sack_option p = (if p then [4, 2] else [])"

definition timestamp_option :: "(u32 \<times> u32) option \<Rightarrow> bytes" where
  "timestamp_option t = (case t of None \<Rightarrow> [] | Some (v, e) \<Rightarrow> [1, 1, 8, 10] @ be_bytes 4 v @ be_bytes 4 e)"

definition scale_option :: "u8 option \<Rightarrow> bytes" where
  "scale_option w = (case w of None \<Rightarrow> [] | Some s \<Rightarrow> [3, 3, s])"

definition cookie_option :: "(bytes \<times> usize) option \<Rightarrow> bytes" where
  "cookie_option c = (case c of None \<Rightarrow> [] | Some (b, n) \<Rightarrow> [34, word_of_nat (n + 2)] @ take n b)"

lemmas option_parts = mss_option_def sack_option_def timestamp_option_def scale_option_def cookie_option_def

lemma options_encode_Inr:
  assumes "options_encode opts = Inr out"
  shows "\<exists>n. out = mss_option (to_mss opts) @ sack_option (to_sack_permitted opts) @ timestamp_option (to_timestamps opts)
      @ scale_option (to_window_scale opts) @ cookie_option (to_fast_open_cookie opts) @ replicate n 1
    \<and> length out mod 4 = 0 \<and> length out \<le> 40
    \<and> (case to_fast_open_cookie opts of None \<Rightarrow> True | Some (b, k) \<Rightarrow> k \<le> length b \<and> k \<le> 38)"
proof -
  obtain o1 where 1: "(case to_mss opts of None \<Rightarrow> Inr []
      | Some mss \<Rightarrow> rbind (append_option [] [2, 4]) (\<lambda>out. append_option out (be_bytes 2 mss))) = Inr o1"
    and r1: "rbind (if to_sack_permitted opts then append_option o1 [4, 2] else Inr o1) (\<lambda>out.
     rbind (case to_timestamps opts of None \<Rightarrow> Inr out
            | Some (v, echo) \<Rightarrow> rbind (append_option out [1, 1, 8, 10]) (\<lambda>out.
                rbind (append_option out (be_bytes 4 v)) (\<lambda>out. append_option out (be_bytes 4 echo)))) (\<lambda>out.
     rbind (case to_window_scale opts of None \<Rightarrow> Inr out | Some scale \<Rightarrow> append_option out [3, 3, scale]) (\<lambda>out.
     rbind (encode_fast_open (to_fast_open_cookie opts) out) pad_options))) = Inr out"
    using assms unfolding options_encode_def rbind_Inr_iff [of "case_option _ _ _"] by blast
  obtain o2 where 2: "(if to_sack_permitted opts then append_option o1 [4, 2] else Inr o1) = Inr o2"
    and r2: "rbind (case to_timestamps opts of None \<Rightarrow> Inr o2
            | Some (v, echo) \<Rightarrow> rbind (append_option o2 [1, 1, 8, 10]) (\<lambda>out.
                rbind (append_option out (be_bytes 4 v)) (\<lambda>out. append_option out (be_bytes 4 echo)))) (\<lambda>out.
     rbind (case to_window_scale opts of None \<Rightarrow> Inr out | Some scale \<Rightarrow> append_option out [3, 3, scale]) (\<lambda>out.
     rbind (encode_fast_open (to_fast_open_cookie opts) out) pad_options)) = Inr out"
    using r1 unfolding rbind_Inr_iff [of "If _ _ _"] by blast
  obtain o3 where 3: "(case to_timestamps opts of None \<Rightarrow> Inr o2
            | Some (v, echo) \<Rightarrow> rbind (append_option o2 [1, 1, 8, 10]) (\<lambda>out.
                rbind (append_option out (be_bytes 4 v)) (\<lambda>out. append_option out (be_bytes 4 echo)))) = Inr o3"
    and r3: "rbind (case to_window_scale opts of None \<Rightarrow> Inr o3 | Some scale \<Rightarrow> append_option o3 [3, 3, scale]) (\<lambda>out.
     rbind (encode_fast_open (to_fast_open_cookie opts) out) pad_options) = Inr out"
    using r2 unfolding rbind_Inr_iff [of "case_option _ _ _"] by blast
  obtain o4 o5 where 4: "(case to_window_scale opts of None \<Rightarrow> Inr o3 | Some scale \<Rightarrow> append_option o3 [3, 3, scale]) = Inr o4"
    and 5: "encode_fast_open (to_fast_open_cookie opts) o4 = Inr o5" and 6: "pad_options o5 = Inr out"
    using r3 unfolding rbind_Inr_iff by blast
  have "o1 = mss_option (to_mss opts) \<and> length o1 \<le> 40"
    using 1 by (auto simp: mss_option_def result_iff append_option_Inr split: option.splits)
  then have o2: "o2 = mss_option (to_mss opts) @ sack_option (to_sack_permitted opts) \<and> length o2 \<le> 40"
    using 2 by (auto simp: sack_option_def append_option_Inr split: if_splits)
  then have "o3 = o2 @ timestamp_option (to_timestamps opts) \<and> length o3 \<le> 40"
    using 3 by (auto simp: timestamp_option_def result_iff append_option_Inr split: option.splits)
  then have o4: "o4 = o2 @ timestamp_option (to_timestamps opts) @ scale_option (to_window_scale opts) \<and> length o4 \<le> 40"
    using 4 by (auto simp: scale_option_def append_option_Inr split: option.splits)
  then have o5: "o5 = o4 @ cookie_option (to_fast_open_cookie opts) \<and> length o5 \<le> 40
      \<and> (case to_fast_open_cookie opts of None \<Rightarrow> True | Some (b, k) \<Rightarrow> k \<le> length b \<and> k \<le> 38)"
    using 5 by (auto simp: cookie_option_def encode_fast_open_def result_iff append_option_Inr Let_def saturating_add_def usize_max_def
        carrier_consts min_def split: option.splits if_splits)
  obtain n where n: "out = o5 @ replicate n 1" "length out mod 4 = 0" "length out \<le> max 40 (length o5)"
    using pad_options_Inr [OF 6] by (elim exE conjE) (rule that)
  have "length out \<le> 40" using n(3) o5 by linarith
  then show ?thesis using o2 o4 o5 n(1,2) by (intro exI [of _ n]) simp
qed

lemma fast_open_cookie_one [simp]: "fast_open_cookie (1 # rest) c = fast_open_cookie rest c"
  by (subst fast_open_cookie.simps) simp

lemma fast_open_cookie_nil [simp]: "fast_open_cookie [] c = Inr c"
  by (subst fast_open_cookie.simps) simp

lemma fast_open_cookie_pad [simp]: "fast_open_cookie (replicate n 1) c = Inr c"
  by (induction n) simp_all

lemma fast_open_cookie_option:
  assumes "kind \<noteq> 0" "kind \<noteq> 1" and "unat len = length body + 2"
  shows "fast_open_cookie (kind # len # body @ rest) c =
    fast_open_cookie rest (if kind = 34 \<and> length body \<le> 16 then Some body else c)"
  using assms by (subst fast_open_cookie.simps) (auto simp: TFO_OPTION_KIND_def)

lemma fast_open_cookie_encoded:
  assumes "options_encode opts = Inr out"
  shows "fast_open_cookie out None = Inr (case to_fast_open_cookie opts of
      None \<Rightarrow> None | Some (b, k) \<Rightarrow> if k \<le> 16 then Some (take k b) else None)"
proof -
  obtain n where out: "out = mss_option (to_mss opts) @ sack_option (to_sack_permitted opts) @ timestamp_option (to_timestamps opts)
      @ scale_option (to_window_scale opts) @ cookie_option (to_fast_open_cookie opts) @ replicate n 1"
    and k: "case to_fast_open_cookie opts of None \<Rightarrow> True | Some (b, k) \<Rightarrow> k \<le> length b \<and> k \<le> 38"
    using options_encode_Inr [OF assms] by (elim exE conjE) (rule that)
  have m: "fast_open_cookie (mss_option m @ rest) None = fast_open_cookie rest None" for m rest
    using fast_open_cookie_option [of 2 4 "be_bytes 2 x" rest None for x] by (auto simp: mss_option_def split: option.splits)
  have s: "fast_open_cookie (sack_option p @ rest) None = fast_open_cookie rest None" for p rest
    using fast_open_cookie_option [of 4 2 "[]" rest None] by (auto simp: sack_option_def)
  have t: "fast_open_cookie (timestamp_option p @ rest) None = fast_open_cookie rest None" for p rest
    using fast_open_cookie_option [of 8 10 "be_bytes 4 v @ be_bytes 4 e" rest None for v e :: u32]
    by (auto simp: timestamp_option_def split: option.splits)
  have w: "fast_open_cookie (scale_option p @ rest) None = fast_open_cookie rest None" for p rest
    using fast_open_cookie_option [of 3 3 "[x]" rest None for x] by (auto simp: scale_option_def split: option.splits)
  have c: "fast_open_cookie (cookie_option p @ replicate n 1) None = Inr (case p of
      None \<Rightarrow> None | Some (b, k) \<Rightarrow> if k \<le> 16 then Some (take k b) else None)"
    if "case p of None \<Rightarrow> True | Some (b, k) \<Rightarrow> k \<le> length b \<and> k \<le> 38" for p
  proof (cases p)
    case (Some bk)
    obtain b j where bk: "bk = (b, j)" by (cases bk)
    have j: "j \<le> length b" "j \<le> 38" using that Some bk by simp_all
    have "unat (word_of_nat (j + 2) :: u8) = length (take j b) + 2"
      using unat_word_of_nat [of "j + 2", where 'a = 8] j by simp
    then show ?thesis using fast_open_cookie_option [of 34 "word_of_nat (j + 2)" "take j b" "replicate n 1" None] j Some bk
      by (simp add: cookie_option_def)
  qed (simp add: cookie_option_def)
  show ?thesis unfolding out m s t w by (rule c [OF k])
qed
subsection \<open>Headers check out\<close>

lemma be_2_cases: "\<exists>a b. be_bytes 2 (w :: u16) = [a, b] \<and> from_be [a, b] = w"
proof -
  have e: "be_bytes 2 w = [ucast (drop_bit 8 w), ucast w]" by (simp add: be_bytes_def numeral_2_eq_2)
  show ?thesis using be_bytes_roundtrip(1) [of w] unfolding e by (intro exI conjI) (rule refl, assumption)
qed

lemma be_4_cases: "\<exists>a b c d. be_bytes 4 (w :: u32) = [a, b, c, d] \<and> from_be [a, b, c, d] = w"
proof -
  have e: "be_bytes 4 w = [ucast (drop_bit 24 w), ucast (drop_bit 16 w), ucast (drop_bit 8 w), ucast w]"
    by (simp add: be_bytes_def numeral_eq_Suc)
  show ?thesis using be_bytes_roundtrip(2) [of w] unfolding e by (intro exI conjI) (rule refl, assumption)
qed

lemma be_16_roundtrip [simp]: "from_be (be_bytes 16 (w :: 128 word)) = w"
  by (rule from_be_be_bytes) simp

lemma length_tcp_header [simp]: "length (tcp_header s d q a off f w c) = 20"
  by (simp add: tcp_header_def)

lemma octet_sum_tcp_header:
  "octet_sum (tcp_header s d q a off f w c @ rest) = octet_sum (tcp_header s d q a off f w 0 @ rest) + unat c"
proof -
  let ?front = "be_bytes 2 (addr_port s) @ be_bytes 2 (addr_port d) @ be_bytes 4 q @ be_bytes 4 a @ [push_bit 4 off, f] @ be_bytes 2 w"
  have h: "tcp_header s d q a off f w x @ rest = ?front @ be_bytes 2 x @ [0, 0] @ rest" for x
    by (simp add: tcp_header_def)
  have e: "even (length ?front)" by simp
  have z: "octet_sum (be_bytes 2 x @ [0, 0] @ rest) = unat x + octet_sum rest" for x :: u16
    using octet_sum_append [of "be_bytes 2 x" "[0, 0] @ rest"] octet_sum_append [of "[0, 0]" rest] by (simp add: octet_sum_be_16)
  show ?thesis unfolding h octet_sum_append [OF e] z by simp
qed

text \<open>Sums of packets of legal size do not reach 32 bits.\<close>

lemma octet_sum_small: "length bs \<le> 65535 \<Longrightarrow> octet_sum bs \<le> 65535 * 32768"
proof -
  assume "length bs \<le> 65535"
  then have "(length bs + 1) div 2 \<le> 32768" by simp
  then show ?thesis using octet_sum_bound [of bs] mult_le_mono2 [of "(length bs + 1) div 2" 32768 65535] by linarith
qed

definition small_prefix :: "u32 \<Rightarrow> bool" where "small_prefix p \<longleftrightarrow> unat p \<le> 65535 * 16 + 6"

lemma prefix_small: "tcp_pseudo_header_prefix s d = Some p \<Longrightarrow> small_prefix p"
proof -
  assume p: "tcp_pseudo_header_prefix s d = Some p"
  have add: "unat (x + y + 6 :: u32) = unat x + unat y + 6" if "unat x \<le> 65535 * 8" "unat y \<le> 65535 * 8" for x y
  proof -
    have 1: "unat (x + y) = unat x + unat y" using that by (intro unat_add_lem [THEN iffD1]) simp
    have "unat (x + y + 6) = unat (x + y) + unat (6 :: u32)" using that 1 by (intro unat_add_lem [THEN iffD1]) simp
    then show ?thesis using 1 by simp
  qed
  have 4: "unat (checksum_sum (be_bytes 4 a)) \<le> 65535 * 8" for a :: u32
    using octet_sum_bound [of "be_bytes 4 a"] by (simp add: checksum_sum_value)
  have 16: "unat (checksum_sum (be_bytes 16 a)) \<le> 65535 * 8" for a :: "128 word"
    using octet_sum_bound [of "be_bytes 16 a"] by (simp add: checksum_sum_value)
  have s4: "unat (checksum_sum (be_bytes 4 a) + checksum_sum (be_bytes 4 b) + 6) \<le> 65535 * 16 + 6" for a b :: u32
    unfolding add [OF 4 4] using 4 [of a] 4 [of b] by linarith
  have s16: "unat (checksum_sum (be_bytes 16 a) + checksum_sum (be_bytes 16 b) + 6) \<le> 65535 * 16 + 6" for a b :: "128 word"
    unfolding add [OF 16 16] using 16 [of a] 16 [of b] by linarith
  show ?thesis
  proof (cases "addr_ip s"; cases "addr_ip d")
    fix a b assume "addr_ip s = IpV4 a" "addr_ip d = IpV4 b"
    then show ?thesis using p s4 [of a b] by (auto simp: tcp_pseudo_header_prefix_def small_prefix_def TCP_PROTOCOL_def)
  next
    fix a b assume "addr_ip s = IpV6 a" "addr_ip d = IpV6 b"
    then show ?thesis using p s16 [of a b] by (auto simp: tcp_pseudo_header_prefix_def small_prefix_def TCP_PROTOCOL_def)
  qed (use p in \<open>simp_all add: tcp_pseudo_header_prefix_def\<close>)
qed

lemma tcp_checksum_value:
  assumes "length tcp \<le> 65535" and "small_prefix p"
  shows "\<exists>t. tcp_checksum_with_prefix s p tcp = finish_checksum t \<and> unat t = unat p + length tcp + octet_sum tcp"
proof -
  have os: "octet_sum tcp \<le> 65535 * 32768" by (rule octet_sum_small [OF assms(1)])
  let ?n = "word_of_nat (length tcp) :: u32"
  have n: "unat ?n = length tcp" using assms(1) by (intro unat_word_of_nat) simp
  have hi: "drop_bit 16 ?n = 0" using n assms(1) by (simp add: drop_bit_16_eq_0)
  have lo: "?n AND 0xffff = ?n" using n assms(1) by (simp add: word_unat_eq_iff unat_low)
  have t: "tcp_checksum_with_prefix s p tcp = finish_checksum (p + ?n + checksum_sum tcp)"
    using assms(1) hi lo by (simp add: tcp_checksum_with_prefix_def Let_def)
  have 1: "unat (p + ?n) = unat p + length tcp"
    using unat_add_lem [of p ?n] n assms by (simp add: small_prefix_def)
  have "unat (p + ?n + checksum_sum tcp) = unat p + length tcp + octet_sum tcp"
    using unat_add_lem [of "p + ?n" "checksum_sum tcp"] 1 os assms by (simp add: small_prefix_def checksum_sum_value)
  then show ?thesis using t by blast
qed
lemma tcp_segment_checks:
  assumes "20 + length opts + length payload \<le> 65535" and "small_prefix p"
  shows "tcp_checksum_with_prefix s' p (tcp_segment s d q a f w opts payload p) = 0"
proof -
  let ?h = "tcp_header s d q a (word_of_nat ((20 + length opts) div 4)) f w"
  let ?t0 = "?h 0 @ opts @ payload"
  let ?c = "tcp_checksum_with_prefix s p ?t0"
  have seg: "tcp_segment s d q a f w opts payload p = ?h ?c @ opts @ payload"
    by (simp add: tcp_segment_def Let_def TCP_HEADER_BYTES_def)
  obtain t0 where t0: "?c = finish_checksum t0" "unat t0 = unat p + length ?t0 + octet_sum ?t0"
    using tcp_checksum_value [of ?t0 p s] assms by auto
  obtain t1 where t1: "tcp_checksum_with_prefix s' p (?h ?c @ opts @ payload) = finish_checksum t1"
      "unat t1 = unat p + length (?h ?c @ opts @ payload) + octet_sum (?h ?c @ opts @ payload)"
    using tcp_checksum_value [of "?h ?c @ opts @ payload" p s'] assms by auto
  have "unat t1 = unat t0 + unat (finish_checksum t0)"
    unfolding t1(2) t0(2) octet_sum_tcp_header [of _ _ _ _ _ _ _ ?c] t0(1) [symmetric] by simp
  then show ?thesis unfolding seg t1(1) by (rule finish_checksum_cancels)
qed

lemma unat_data_offset:
  assumes "n mod 4 = 0" and "n \<le> 60"
  shows "unat (drop_bit 4 (push_bit 4 (word_of_nat (n div 4) :: u8))) * 4 = n"
proof -
  have n: "n div 4 \<le> 15" using assms(2) by linarith
  have u: "unat (word_of_nat (n div 4) :: u8) = n div 4" using n by (intro unat_word_of_nat) simp
  have "unat (push_bit 4 (word_of_nat (n div 4) :: u8)) = 16 * (n div 4)"
    unfolding unsigned_push_bit_eq u using n by (simp add: push_bit_eq_mult take_bit_eq_mod)
  then have "unat (drop_bit 4 (push_bit 4 (word_of_nat (n div 4) :: u8))) = n div 4"
    unfolding unat_drop_bit_eq by (simp add: drop_bit_eq_div)
  then show ?thesis using assms(1) by auto
qed

lemma decode_segment:
  assumes opts: "fast_open_cookie opts None = Inr cookie" "length opts mod 4 = 0" "length opts \<le> 40"
    and len: "20 + length opts + length payload \<le> 65535" and p: "small_prefix p"
  shows "decode_tcp_view s' d' (tcp_segment s d q a f w opts payload p) (Some p) =
    Inr \<lparr>pv_source = socket_addr_new (addr_ip s') (addr_port s), pv_destination = socket_addr_new (addr_ip d') (addr_port d),
      pv_sequence = q, pv_flags = f, pv_fast_open_cookie = cookie, pv_payload = payload\<rparr>"
proof -
  let ?off = "word_of_nat ((20 + length opts) div 4) :: u8"
  let ?seg = "tcp_segment s d q a f w opts payload p"
  obtain c where seg: "?seg = tcp_header s d q a ?off f w c @ opts @ payload"
    by (simp add: tcp_segment_def Let_def TCP_HEADER_BYTES_def)
  obtain p0 p1 where p01: "be_bytes 2 (addr_port s) = [p0, p1]" "from_be [p0, p1] = addr_port s" using be_2_cases by blast
  obtain p2 p3 where p23: "be_bytes 2 (addr_port d) = [p2, p3]" "from_be [p2, p3] = addr_port d" using be_2_cases by blast
  obtain q0 q1 q2 q3 where q: "be_bytes 4 q = [q0, q1, q2, q3]" "from_be [q0, q1, q2, q3] = q" using be_4_cases by blast
  obtain a0 a1 a2 a3 where ak: "be_bytes 4 a = [a0, a1, a2, a3]" using be_4_cases by blast
  obtain w0 w1 where w: "be_bytes 2 w = [w0, w1]" using be_2_cases by blast
  obtain c0 c1 where c: "be_bytes 2 c = [c0, c1]" using be_2_cases by blast
  have list: "?seg = [p0, p1, p2, p3, q0, q1, q2, q3, a0, a1, a2, a3, push_bit 4 ?off, f, w0, w1, c0, c1, 0, 0] @ opts @ payload"
    unfolding seg tcp_header_def p01(1) p23(1) q(1) ak w c by simp
  have off: "unat (drop_bit 4 (push_bit 4 ?off)) * 4 = 20 + length opts"
    using opts by (intro unat_data_offset) (simp_all add: mod_add_eq [symmetric])
  have chk: "tcp_checksum_with_prefix s' p ?seg = 0" by (rule tcp_segment_checks [OF len p])
  have l: "length ?seg = 20 + length opts + length payload" unfolding list by simp
  have idx: "?seg ! 0 = p0" "?seg ! 1 = p1" "?seg ! 2 = p2" "?seg ! 3 = p3" "?seg ! 4 = q0" "?seg ! 5 = q1" "?seg ! 6 = q2"
      "?seg ! 7 = q3" "?seg ! 12 = push_bit 4 ?off" "?seg ! 13 = f"
    unfolding list by simp_all
  have body: "drop 20 (take (20 + length opts) ?seg) = opts" "drop (20 + length opts) ?seg = payload"
    unfolding seg by simp_all
  show ?thesis
    unfolding decode_tcp_view_def Let_def option.case TCP_HEADER_BYTES_def chk idx off body p01(2) p23(2) q(2) opts(1)
    by (simp add: l)
qed

lemma octet_sum_be_4: "octet_sum (be_bytes 4 (w :: u32)) =
    unat (from_be [be_bytes 4 w ! 0, be_bytes 4 w ! 1] :: u16) + unat (from_be [be_bytes 4 w ! 2, be_bytes 4 w ! 3] :: u16)"
proof -
  obtain a b c d where e: "be_bytes 4 w = [a, b, c, d]" using be_4_cases by blast
  show ?thesis unfolding e by (simp add: unat_from_be_2)
qed

lemma ipv4_header_checks:
  "internet_checksum (ipv4_header s d n (ipv4_header_checksum s d n)) = 0"
proof -
  let ?c = "ipv4_header_checksum s d n"
  let ?S = "\<lambda>x. octet_sum (be_bytes 4 x)"
  have add: "unat (x + y :: u32) = unat x + unat y" if "unat x \<le> 9 * 65535" "unat y \<le> 65535" for x y
    using that by (intro unat_add_lem [THEN iffD1]) simp
  have u: "unat (ucast (x :: u16) :: u32) = unat x" "unat x \<le> 65535" for x
    using unat_u16_less [of x] by simp_all
  let ?s0 = "from_be [be_bytes 4 s ! 0, be_bytes 4 s ! 1] :: u16" and ?s1 = "from_be [be_bytes 4 s ! 2, be_bytes 4 s ! 3] :: u16"
    and ?d0 = "from_be [be_bytes 4 d ! 0, be_bytes 4 d ! 1] :: u16" and ?d1 = "from_be [be_bytes 4 d ! 2, be_bytes 4 d ! 3] :: u16"
  let ?t = "ucast n + 0x4500 + 0x4000 + 0x4006 + ucast ?s0 + ucast ?s1 + ucast ?d0 + ucast ?d1 :: u32"
  have t: "unat ?t = unat n + 0x4500 + 0x4000 + 0x4006 + unat ?s0 + unat ?s1 + unat ?d0 + unat ?d1"
    using u(2) [of n] u(2) [of ?s0] u(2) [of ?s1] u(2) [of ?d0] u(2) [of ?d1] by (simp add: add u(1))
  have c: "?c = finish_checksum ?t" by (simp add: ipv4_header_checksum_def Let_def)
  have split: "ipv4_header s d n ?c = [0x45, 0] @ be_bytes 2 n @ [0, 0, 0x40, 0, 64, 6] @ be_bytes 2 ?c @ be_bytes 4 s @ be_bytes 4 d"
    by (simp add: ipv4_header_def TCP_PROTOCOL_def)
  have len: "length (ipv4_header s d n ?c) \<le> 65536" by (simp add: ipv4_header_def)
  have "octet_sum (ipv4_header s d n ?c) = 0x4500 + unat n + (0x4000 + 0x4006) + unat ?c + ?S s + ?S d"
    unfolding split
    by (subst octet_sum_append, simp, subst octet_sum_append, simp, subst octet_sum_append, simp, subst octet_sum_append, simp,
        subst octet_sum_append, simp) (simp add: octet_sum_be_16)
  then have "unat (checksum_sum (ipv4_header s d n ?c)) = unat ?t + unat ?c"
    unfolding t octet_sum_be_4 checksum_sum_value [OF len] by linarith
  then show ?thesis unfolding internet_checksum_def c by (rule finish_checksum_cancels)
qed
subsection \<open>A packet survives the trip\<close>

definition encoded_options :: "tcp_options \<Rightarrow> carrier_error + bytes" where
  "encoded_options opts = (if options_is_empty opts then Inr [] else options_encode opts)"

lemma encoded_options_Inr:
  assumes "encoded_options opts = Inr out"
  shows "length out mod 4 = 0 \<and> length out \<le> 40
    \<and> fast_open_cookie out None = Inr (case to_fast_open_cookie opts of
        None \<Rightarrow> None | Some (b, k) \<Rightarrow> if k \<le> 16 then Some (take k b) else None)"
proof (cases "options_is_empty opts")
  case True
  then show ?thesis using assms by (auto simp: encoded_options_def options_is_empty_def)
next
  case False
  then have e: "options_encode opts = Inr out" using assms by (simp add: encoded_options_def)
  have "length out mod 4 = 0" using options_encode_Inr [OF e] by (elim exE conjE)
  moreover have "length out \<le> 40" using options_encode_Inr [OF e] by (elim exE conjE)
  ultimately show ?thesis using fast_open_cookie_encoded [OF e] by simp
qed

fun ip_header :: "ip_addr \<Rightarrow> ip_addr \<Rightarrow> usize \<Rightarrow> bytes" where
  "ip_header (IpV4 s) (IpV4 d) tcp_length =
     ipv4_header s d (word_of_nat (20 + tcp_length)) (ipv4_header_checksum s d (word_of_nat (20 + tcp_length)))"
| "ip_header (IpV6 s) (IpV6 d) tcp_length = ipv6_header s d (word_of_nat tcp_length)"
| "ip_header _ _ _ = []"

lemma length_ip_header:
  "is_ipv4 s = is_ipv4 d \<Longrightarrow> length (ip_header (addr_ip s) (addr_ip d) n) = (if is_ipv4 s then 20 else 40)"
  by (cases s; cases d) (simp_all add: ipv4_header_def ipv6_header_def)

lemma encode_packet_Inr:
  assumes "encode_packet_into s d q a f w opts payload out p = (Inr n, out')"
  shows "\<exists>ob. encoded_options opts = Inr ob \<and> is_ipv4 s = is_ipv4 d
    \<and> n = (if is_ipv4 s then 20 else 40) + 20 + length ob + length payload \<and> n \<le> 65535 \<and> n \<le> length out
    \<and> out' = ip_header (addr_ip s) (addr_ip d) (20 + length ob + length payload) @ tcp_segment s d q a f w ob payload p @ drop n out"
proof -
  let ?ipl = "if is_ipv4 s then IPV4_HEADER_BYTES else IPV6_HEADER_BYTES"
  have fam: "is_ipv4 s = is_ipv4 d" "addr_port s \<noteq> 0" "addr_port d \<noteq> 0"
    using assms by (auto simp: encode_packet_into_def split: if_splits)
  obtain ob where ob: "encoded_options opts = Inr ob"
    using assms fam by (auto simp: encode_packet_into_def encoded_options_def [symmetric] Let_def split: sum.splits)
  define lens where "lens = rbind (ok_or (checked_add TCP_HEADER_BYTES (length ob)) TcpOptionsTooLong) (\<lambda>header_length.
                rbind (ok_or (checked_add header_length (length payload)) PacketTooLarge) (\<lambda>tcp_length.
                if MAX_PACKET_BYTES < tcp_length then Inl PacketTooLarge
                else rbind (ok_or (checked_add ?ipl tcp_length) PacketTooLarge) (\<lambda>packet_length.
                if MAX_PACKET_BYTES < packet_length then Inl PacketTooLarge
                else if length out < packet_length then Inl (OutputTooSmall packet_length (length out))
                else Inr (tcp_length, packet_length))))"
  have enc: "encode_packet_into s d q a f w opts payload out p =
     (case lens of
        Inl e \<Rightarrow> (Inl e, out)
      | Inr (tcp_length, packet_length) \<Rightarrow>
          let tcp = tcp_segment s d q a f w ob payload p in
          case (addr_ip s, addr_ip d) of
            (IpV4 s, IpV4 d) \<Rightarrow>
              let total_length = word_of_nat packet_length in
              (Inr packet_length,
               ipv4_header s d total_length (ipv4_header_checksum s d total_length) @ tcp @ drop packet_length out)
          | (IpV6 s, IpV6 d) \<Rightarrow>
              (Inr packet_length, ipv6_header s d (word_of_nat tcp_length) @ tcp @ drop packet_length out)
          | _ \<Rightarrow> (Inl InvalidTuple, take ?ipl out @ tcp @ drop packet_length out))"
    unfolding encode_packet_into_def encoded_options_def [symmetric] Let_def lens_def using fam ob by simp
  obtain tl pl where l: "lens = Inr (tl, pl)" using assms unfolding enc by (cases lens) auto
  have v: "tl = 20 + length ob + length payload" "pl = (if is_ipv4 s then 20 else 40) + tl" "pl \<le> 65535" "pl \<le> length out"
    using l by (auto simp: lens_def result_iff carrier_consts split: if_splits)
  have "n = pl \<and> out' = ip_header (addr_ip s) (addr_ip d) tl @ tcp_segment s d q a f w ob payload p @ drop n out"
    using assms fam v unfolding enc l by (cases s; cases d) (auto simp: Let_def)
  then show ?thesis using ob fam v by (intro exI [of _ ob]) simp
qed

lemma decode_ipv4:
  assumes l: "length seg + 20 = n" "n \<le> 65535" "20 \<le> length seg"
  shows "decode_packet_view (ipv4_header s d (word_of_nat n) (ipv4_header_checksum s d (word_of_nat n)) @ seg) p =
    decode_tcp_view (SocketV4 s 0) (SocketV4 d 0) seg p"
proof -
  let ?n = "word_of_nat n :: u16"
  let ?c = "ipv4_header_checksum s d ?n"
  let ?h = "ipv4_header s d ?n ?c"
  obtain n0 n1 where nb: "be_bytes 2 ?n = [n0, n1]" "from_be [n0, n1] = ?n" using be_2_cases by blast
  obtain c0 c1 where cb: "be_bytes 2 ?c = [c0, c1]" using be_2_cases by blast
  obtain s0 s1 s2 s3 where sb: "be_bytes 4 s = [s0, s1, s2, s3]" "from_be [s0, s1, s2, s3] = s" using be_4_cases by blast
  obtain d0 d1 d2 d3 where db: "be_bytes 4 d = [d0, d1, d2, d3]" "from_be [d0, d1, d2, d3] = d" using be_4_cases by blast
  have h: "?h = [0x45, 0, n0, n1, 0, 0, 0x40, 0, 64, 6, c0, c1, s0, s1, s2, s3, d0, d1, d2, d3]"
    by (simp add: ipv4_header_def TCP_PROTOCOL_def nb cb sb db)
  have un: "unat ?n = n" using l by (intro unat_word_of_nat) simp
  have chk: "internet_checksum ?h = 0" by (rule ipv4_header_checks)
  have lh: "length ?h = 20" unfolding h by simp
  let ?in = "?h @ seg"
  have idx: "?in ! 0 = 0x45" "?in ! 2 = n0" "?in ! 3 = n1" "?in ! 6 = 0x40" "?in ! 7 = 0" "?in ! 9 = 6" "?in ! 12 = s0" "?in ! 13 = s1"
      "?in ! 14 = s2" "?in ! 15 = s3" "?in ! 16 = d0" "?in ! 17 = d1" "?in ! 18 = d2" "?in ! 19 = d3"
    unfolding h by simp_all
  have ihl: "drop_bit 4 (0x45 :: u8) = 4" "unat ((0x45 :: u8) AND 0x0f) * 4 = 20" by simp_all
  have frag: "(from_be [0x40, 0] :: u16) AND 0x3fff = 0" by (simp add: from_be_def be_step_def)
  have tk: "take 20 ?in = ?h" "drop 20 ?in = seg" "length ?in = n" using lh l by simp_all
  show ?thesis
    unfolding decode_packet_view_def Let_def idx ihl carrier_consts tk chk nb(2) sb(2) db(2) un frag using l by simp
qed

lemma decode_ipv6:
  assumes l: "length seg + 40 \<le> 65535"
  shows "decode_packet_view (ipv6_header s d (word_of_nat (length seg)) @ seg) p =
    decode_tcp_view (SocketV6 s 0 0 0) (SocketV6 d 0 0 0) seg p"
proof -
  let ?n = "word_of_nat (length seg) :: u16"
  let ?h = "ipv6_header s d ?n"
  obtain n0 n1 where nb: "be_bytes 2 ?n = [n0, n1]" "from_be [n0, n1] = ?n" using be_2_cases by blast
  have h: "?h = [0x60, 0, 0, 0, n0, n1, 6, 64] @ be_bytes 16 s @ be_bytes 16 d"
    by (simp add: ipv6_header_def TCP_PROTOCOL_def nb)
  have un: "unat ?n = length seg" using l by (intro unat_word_of_nat) simp
  let ?in = "?h @ seg"
  have lh: "length ?h = 40" unfolding h by simp
  have idx: "?in ! 0 = 0x60" "?in ! 4 = n0" "?in ! 5 = n1" "?in ! 6 = 6" unfolding h by simp_all
  have v: "drop_bit 4 (0x60 :: u8) \<noteq> 4" "drop_bit 4 (0x60 :: u8) = 6" by simp_all
  have ad: "take 16 (drop 8 ?in) = be_bytes 16 s" "take 16 (drop 24 ?in) = be_bytes 16 d" unfolding h by simp_all
  have tk: "drop 40 ?in = seg" "length ?in = 40 + length seg" using lh by simp_all
  show ?thesis
    unfolding decode_packet_view_def Let_def idx carrier_consts tk ad be_16_roundtrip nb(2) un if_not_P [OF v(1)] if_P [OF v(2)]
    using l by simp
qed

lemma packet_roundtrip:
  assumes e: "encode_packet_into s d q a f w opts payload out p = (Inr n, out')" and p: "small_prefix p"
  shows "length out' = length out \<and> n \<le> length out \<and> n \<le> 65535 \<and> drop n out' = drop n out
    \<and> decode_packet_view (take n out') (Some p) =
      Inr \<lparr>pv_source = socket_addr_new (addr_ip s) (addr_port s), pv_destination = socket_addr_new (addr_ip d) (addr_port d),
        pv_sequence = q, pv_flags = f,
        pv_fast_open_cookie = (case to_fast_open_cookie opts of
            None \<Rightarrow> None | Some (b, k) \<Rightarrow> if k \<le> 16 then Some (take k b) else None),
        pv_payload = payload\<rparr>"
proof -
  obtain ob where ob: "encoded_options opts = Inr ob" and fam: "is_ipv4 s = is_ipv4 d"
    and n: "n = (if is_ipv4 s then 20 else 40) + 20 + length ob + length payload" "n \<le> 65535" "n \<le> length out"
    and out': "out' = ip_header (addr_ip s) (addr_ip d) (20 + length ob + length payload) @ tcp_segment s d q a f w ob payload p @ drop n out"
    using encode_packet_Inr [OF e] by (elim exE conjE) (rule that)
  let ?seg = "tcp_segment s d q a f w ob payload p" and ?tl = "20 + length ob + length payload"
  have ls: "length ?seg = ?tl" by (simp add: tcp_segment_def Let_def)
  have lh: "length (ip_header (addr_ip s) (addr_ip d) ?tl) = (if is_ipv4 s then 20 else 40)" by (rule length_ip_header [OF fam])
  have tk: "take n out' = ip_header (addr_ip s) (addr_ip d) ?tl @ ?seg" and dr: "drop n out' = drop n out" and lo: "length out' = length out"
    unfolding out' using lh ls n by simp_all
  note o = encoded_options_Inr [OF ob]
  have dec: "decode_tcp_view s' d' ?seg (Some p) =
      Inr \<lparr>pv_source = socket_addr_new (addr_ip s') (addr_port s), pv_destination = socket_addr_new (addr_ip d') (addr_port d),
        pv_sequence = q, pv_flags = f,
        pv_fast_open_cookie = (case to_fast_open_cookie opts of
            None \<Rightarrow> None | Some (b, k) \<Rightarrow> if k \<le> 16 then Some (take k b) else None), pv_payload = payload\<rparr>" for s' d'
    using o n by (intro decode_segment [OF _ _ _ _ p]) (simp_all split: if_splits)
  have "decode_packet_view (take n out') (Some p) = decode_tcp_view (socket_addr_new (addr_ip s) 0) (socket_addr_new (addr_ip d) 0) ?seg (Some p)"
  proof (cases "is_ipv4 s")
    case True
    then obtain si sp di dp where sd: "s = SocketV4 si sp" "d = SocketV4 di dp" using fam by (cases s; cases d) auto
    show ?thesis unfolding tk using decode_ipv4 [of ?seg "20 + ?tl" si di "Some p"] ls n sd by simp
  next
    case False
    then obtain si sp sf ss di dp df ds where sd: "s = SocketV6 si sp sf ss" "d = SocketV6 di dp df ds"
      using fam by (cases s; cases d) auto
    show ?thesis unfolding tk using decode_ipv6 [of ?seg si di "Some p"] ls n sd by simp
  qed
  moreover have "addr_ip (socket_addr_new i 0) = i" for i by (cases i) simp_all
  ultimately show ?thesis using dec lo dr n by simp
qed

text \<open>C31: the 32-bit accumulator of the TCP checksum never wraps: for any pair of addresses of one family and any
  segment of legal size, the pseudo-header prefix, the length and the sum over the segment add up without overflow, so the
  checksum is the one of the exact sum.\<close>

theorem checksum_no_wrap:
  assumes "tcp_pseudo_header_prefix s d = Some p" and "length tcp \<le> MAX_PACKET_BYTES"
  shows "unat (p + word_of_nat (length tcp) + checksum_sum tcp) = unat p + length tcp + octet_sum tcp
    \<and> unat p + length tcp + octet_sum tcp < 2 ^ 32"
proof -
  have p: "unat p \<le> 65535 * 16 + 6" using prefix_small [OF assms(1)] by (simp add: small_prefix_def)
  have len: "length tcp \<le> 65535" using assms(2) by (simp add: carrier_consts)
  have os: "octet_sum tcp \<le> 65535 * 32768" by (rule octet_sum_small [OF len])
  have n: "unat (word_of_nat (length tcp) :: u32) = length tcp" using len by (intro unat_word_of_nat) simp
  have 1: "unat (p + word_of_nat (length tcp)) = unat p + length tcp"
    using unat_add_lem [of p "word_of_nat (length tcp)"] n p len by simp
  have "unat (p + word_of_nat (length tcp) + checksum_sum tcp) = unat p + length tcp + octet_sum tcp"
    using unat_add_lem [of "p + word_of_nat (length tcp)" "checksum_sum tcp"] 1 os p len by (simp add: checksum_sum_value)
  then show ?thesis using p len os by simp
qed

theorem checksum_no_wrap_witness:
  "\<exists>p. tcp_pseudo_header_prefix (SocketV4 0xffffffff 1) (SocketV4 0xffffffff 2) = Some p
     \<and> unat (p + word_of_nat (length [1, 2, 3 :: u8]) + checksum_sum [1, 2, 3]) = unat p + length [1, 2, 3 :: u8] + octet_sum [1, 2, 3]"
proof -
  obtain p where p: "tcp_pseudo_header_prefix (SocketV4 0xffffffff 1) (SocketV4 0xffffffff 2) = Some p"
    by (simp add: tcp_pseudo_header_prefix_def)
  have "length [1, 2, 3 :: u8] \<le> MAX_PACKET_BYTES" by (simp add: carrier_consts)
  from checksum_no_wrap [OF p this] p show ?thesis by blast
qed

end
