(* ===== verification/Fake_Tcp_Carrier.thy ===== *)
theory Fake_Tcp_Carrier
  imports Fake_Tcp_Codec
begin

unbundle bit_operations_syntax

section \<open>The FakeTCP carrier (faketcp.rs)\<close>

text \<open>
  One path's sequence state over the packet codec.  A carrier encodes each datagram into one packet, the first one
  in a SYN with a cookie, and decodes packets of the reverse tuple without waiting for missing sequence numbers.  The
  acknowledgment number lives in a cell that the two halves of a pair share: \<open>mem\<close> is the store of these cells.  The CRC
  of the initial sequence, the random source and the keyed hash of the cookie are parameters.
\<close>

subsection \<open>State\<close>

datatype carrier_direction = ClientToServer | ServerToClient

fun direction_bit :: "carrier_direction \<Rightarrow> u8" where
  "direction_bit ClientToServer = 0"
| "direction_bit ServerToClient = 1"

datatype syn_data_mode = SynDisabled | Cookie bytes

type_synonym ack_cells = "nat \<Rightarrow> u32"

record fake_tcp_carrier =
  fc_tuple :: four_tuple
  fc_pseudo_header_prefix :: u32
  fc_syn_data :: syn_data_mode
  fc_send_sequence :: u32
  fc_acknowledgment :: nat
  fc_sent_syn :: bool
  fc_syn_mss :: u16
  fc_outer_mtu :: u16

record decoded_datagram =
  dd_sequence :: u32
  dd_was_syn :: bool
  dd_payload :: bytes

subsection \<open>Construction\<close>

definition tuple_validate :: "four_tuple \<Rightarrow> carrier_error + unit" where
  "tuple_validate t =
     (if is_ipv4 (ft_source t) \<noteq> is_ipv4 (ft_destination t)
         \<or> is_unspecified (addr_ip (ft_source t)) \<or> is_unspecified (addr_ip (ft_destination t))
         \<or> addr_port (ft_source t) = 0 \<or> addr_port (ft_destination t) = 0
      then Inl InvalidTuple else Inr ())"

definition validated_pseudo_header_prefix :: "four_tuple \<Rightarrow> carrier_error + u32" where
  "validated_pseudo_header_prefix t =
     rbind (tuple_validate t) (\<lambda>_. ok_or (tcp_pseudo_header_prefix (ft_source t) (ft_destination t)) InvalidTuple)"

definition append_address :: "socket_addr \<Rightarrow> bytes" where
  "append_address a =
     (case addr_ip a of IpV4 ip \<Rightarrow> 4 # be_bytes 4 ip | IpV6 ip \<Rightarrow> 6 # be_bytes 16 ip) @ be_bytes 2 (addr_port a)"

definition initial_sequence :: "(bytes \<Rightarrow> u32) \<Rightarrow> u32 option \<Rightarrow> four_tuple \<Rightarrow> carrier_direction \<Rightarrow> carrier_error + u32" where
  "initial_sequence crc32c random t direction =
     (let checksum = crc32c (append_address (ft_source t) @ append_address (ft_destination t) @ [direction_bit direction]) in
      rbind (ok_or random Randomness) (\<lambda>r. Inr (r XOR checksum)))"

definition from_parts :: "nat \<Rightarrow> four_tuple \<Rightarrow> u32 \<Rightarrow> syn_data_mode \<Rightarrow> u32 \<Rightarrow> u16 \<Rightarrow> u16 \<Rightarrow> fake_tcp_carrier" where
  "from_parts cell t prefix syn_data send_sequence syn_mss outer_mtu =
     \<lparr>fc_tuple = t, fc_pseudo_header_prefix = prefix, fc_syn_data = syn_data, fc_send_sequence = send_sequence,
      fc_acknowledgment = cell, fc_sent_syn = False, fc_syn_mss = syn_mss, fc_outer_mtu = outer_mtu\<rparr>"

text \<open>\<open>cell\<close> is the fresh acknowledgment cell, set to zero.\<close>

definition carrier_new_with_mtu ::
  "(bytes \<Rightarrow> u32) \<Rightarrow> u32 option \<Rightarrow> nat \<Rightarrow> ack_cells \<Rightarrow> four_tuple \<Rightarrow> carrier_direction \<Rightarrow> syn_data_mode \<Rightarrow> u16 \<Rightarrow> u16
     \<Rightarrow> carrier_error + fake_tcp_carrier \<times> ack_cells" where
  "carrier_new_with_mtu crc32c random cell mem t direction syn_data syn_mss outer_mtu =
     rbind (validated_pseudo_header_prefix t) (\<lambda>prefix.
       let header_bytes = (if is_ipv4 (ft_source t) then IPV4_HEADER_BYTES + TCP_HEADER_BYTES
                           else IPV6_HEADER_BYTES + TCP_HEADER_BYTES) in
       rbind (ok_or (checked_sub (unat outer_mtu) header_bytes) (InvalidOuterMtu outer_mtu)) (\<lambda>maximum_mss.
         if syn_mss = 0 \<or> maximum_mss < unat syn_mss then Inl (InvalidMss syn_mss (word_of_nat maximum_mss))
         else rbind (initial_sequence crc32c random t direction) (\<lambda>send_sequence.
           Inr (from_parts cell t prefix syn_data send_sequence syn_mss outer_mtu, mem(cell := 0)))))"

definition carrier_new ::
  "(bytes \<Rightarrow> u32) \<Rightarrow> u32 option \<Rightarrow> nat \<Rightarrow> ack_cells \<Rightarrow> four_tuple \<Rightarrow> carrier_direction \<Rightarrow> syn_data_mode
     \<Rightarrow> carrier_error + fake_tcp_carrier \<times> ack_cells" where
  "carrier_new crc32c random cell mem t direction syn_data =
     carrier_new_with_mtu crc32c random cell mem t direction syn_data DEFAULT_SYN_MSS (- 1)"

definition carrier_new_with_initial_sequence ::
  "nat \<Rightarrow> ack_cells \<Rightarrow> four_tuple \<Rightarrow> syn_data_mode \<Rightarrow> u32 \<Rightarrow> carrier_error + fake_tcp_carrier \<times> ack_cells" where
  "carrier_new_with_initial_sequence cell mem t syn_data sequence =
     rbind (validated_pseudo_header_prefix t) (\<lambda>prefix.
       Inr (from_parts cell t prefix syn_data sequence DEFAULT_SYN_MSS (- 1), mem(cell := 0)))"

definition carrier_pair_with_mtu ::
  "(bytes \<Rightarrow> u32) \<Rightarrow> u32 option \<Rightarrow> u32 option \<Rightarrow> nat \<Rightarrow> nat \<Rightarrow> ack_cells \<Rightarrow> four_tuple \<Rightarrow> carrier_direction \<Rightarrow> syn_data_mode
     \<Rightarrow> u16 \<Rightarrow> u16 \<Rightarrow> carrier_error + fake_tcp_carrier \<times> fake_tcp_carrier \<times> ack_cells" where
  "carrier_pair_with_mtu crc32c random1 random2 cell1 cell2 mem t direction syn_data syn_mss outer_mtu =
     rbind (carrier_new_with_mtu crc32c random1 cell1 mem t direction syn_data syn_mss outer_mtu) (\<lambda>(inbound, mem).
     rbind (carrier_new_with_mtu crc32c random2 cell2 mem t direction syn_data syn_mss outer_mtu) (\<lambda>(outbound, mem).
       Inr (inbound, outbound\<lparr>fc_acknowledgment := fc_acknowledgment inbound\<rparr>, mem)))"

subsection \<open>Encoding\<close>

text \<open>\<open>u32::try_from(len).unwrap_or(u32::MAX).saturating_add(u32::from(is_syn))\<close>\<close>

definition consumed :: "usize \<Rightarrow> bool \<Rightarrow> u32" where
  "consumed len syn =
     (let n = (if len < 2 ^ 32 then word_of_nat len else - 1) :: u32 in
      if syn then (if n = - 1 then - 1 else n + 1) else n)"

definition segment_options :: "fake_tcp_carrier \<Rightarrow> tcp_flags \<Rightarrow> bytes option \<Rightarrow> tcp_options" where
  "segment_options c flags cookie = (if is_syn flags then for_syn_with_mss (fc_syn_mss c) cookie else default_options)"

definition carrier_encode_into ::
  "fake_tcp_carrier \<Rightarrow> ack_cells \<Rightarrow> bytes \<Rightarrow> tcp_flags \<Rightarrow> bytes option \<Rightarrow> bytes
     \<Rightarrow> (carrier_error + usize) \<times> fake_tcp_carrier \<times> bytes" where
  "carrier_encode_into c mem datagram flags cookie out =
     (if MAX_DATAGRAM_BYTES < length datagram then (Inl DatagramTooLarge, c, out)
      else
        (case encode_packet_into (ft_source (fc_tuple c)) (ft_destination (fc_tuple c)) (fc_send_sequence c)
            (mem (fc_acknowledgment c)) flags (- 1) (segment_options c flags cookie) datagram out (fc_pseudo_header_prefix c) of
           (Inl e, out') \<Rightarrow> (Inl e, c, out')
         | (Inr packet_length, out') \<Rightarrow>
             if unat (fc_outer_mtu c) < packet_length then (Inl PacketTooLarge, c, out')
             else (Inr packet_length,
               c\<lparr>fc_send_sequence := fc_send_sequence c + consumed (length datagram) (is_syn flags)\<rparr>, out')))"

text \<open>The allocating variant: a packet of the exact size, or an error.\<close>

definition carrier_encode ::
  "fake_tcp_carrier \<Rightarrow> ack_cells \<Rightarrow> bytes \<Rightarrow> tcp_flags \<Rightarrow> bytes option \<Rightarrow> (carrier_error + bytes) \<times> fake_tcp_carrier" where
  "carrier_encode c mem datagram flags cookie =
     (let options = segment_options c flags cookie in
      case (if options_is_empty options then Inr [] else options_encode options) of
        Inl e \<Rightarrow> (Inl e, c)
      | Inr option_bytes \<Rightarrow>
          let ip_header_length = (if is_ipv4 (ft_source (fc_tuple c)) then IPV4_HEADER_BYTES else IPV6_HEADER_BYTES) in
          case rbind (ok_or (checked_add ip_header_length TCP_HEADER_BYTES) PacketTooLarge) (\<lambda>n.
              rbind (ok_or (checked_add n (length option_bytes)) PacketTooLarge) (\<lambda>n.
              rbind (ok_or (checked_add n (length datagram)) PacketTooLarge) (\<lambda>capacity.
              if MAX_PACKET_BYTES < capacity then Inl PacketTooLarge else Inr capacity))) of
            Inl e \<Rightarrow> (Inl e, c)
          | Inr capacity \<Rightarrow>
              (case carrier_encode_into c mem datagram flags cookie (replicate capacity 0) of
                 (Inl e, c', _) \<Rightarrow> (Inl e, c')
               | (Inr len, c', packet) \<Rightarrow> (Inr (take len packet), c')))"

definition encode_datagram_into :: "fake_tcp_carrier \<Rightarrow> ack_cells \<Rightarrow> bytes \<Rightarrow> bytes \<Rightarrow> (carrier_error + usize) \<times> fake_tcp_carrier \<times> bytes" where
  "encode_datagram_into c mem datagram out = carrier_encode_into c mem datagram (ACK OR PSH) None out"

definition encode_datagram :: "fake_tcp_carrier \<Rightarrow> ack_cells \<Rightarrow> bytes \<Rightarrow> (carrier_error + bytes) \<times> fake_tcp_carrier" where
  "encode_datagram c mem datagram = carrier_encode c mem datagram (ACK OR PSH) None"

text \<open>The SYN and SYN-ACK encoders share their text up to the flags.\<close>

definition encode_first_into ::
  "tcp_flags \<Rightarrow> fake_tcp_carrier \<Rightarrow> ack_cells \<Rightarrow> bytes \<Rightarrow> bytes \<Rightarrow> (carrier_error + usize) \<times> fake_tcp_carrier \<times> bytes" where
  "encode_first_into flags c mem datagram out =
     (if fc_sent_syn c then (Inl CarrierInvalidState, c, out)
      else case fc_syn_data c of
        SynDisabled \<Rightarrow> (Inl SynDataDisabled, c, out)
      | Cookie cookie \<Rightarrow>
          (case carrier_encode_into c mem datagram flags (Some cookie) out of
             (Inl e, c', out') \<Rightarrow> (Inl e, c', out')
           | (Inr len, c', out') \<Rightarrow> (Inr len, c'\<lparr>fc_sent_syn := True\<rparr>, out')))"

definition encode_first :: "tcp_flags \<Rightarrow> fake_tcp_carrier \<Rightarrow> ack_cells \<Rightarrow> bytes \<Rightarrow> (carrier_error + bytes) \<times> fake_tcp_carrier" where
  "encode_first flags c mem datagram =
     (if fc_sent_syn c then (Inl CarrierInvalidState, c)
      else case fc_syn_data c of
        SynDisabled \<Rightarrow> (Inl SynDataDisabled, c)
      | Cookie cookie \<Rightarrow>
          (case carrier_encode c mem datagram flags (Some cookie) of
             (Inl e, c') \<Rightarrow> (Inl e, c')
           | (Inr packet, c') \<Rightarrow> (Inr packet, c'\<lparr>fc_sent_syn := True\<rparr>)))"

definition encode_syn_into :: "fake_tcp_carrier \<Rightarrow> ack_cells \<Rightarrow> bytes \<Rightarrow> bytes \<Rightarrow> (carrier_error + usize) \<times> fake_tcp_carrier \<times> bytes" where
  "encode_syn_into = encode_first_into SYN"

definition encode_syn_ack_into :: "fake_tcp_carrier \<Rightarrow> ack_cells \<Rightarrow> bytes \<Rightarrow> bytes \<Rightarrow> (carrier_error + usize) \<times> fake_tcp_carrier \<times> bytes" where
  "encode_syn_ack_into = encode_first_into (SYN OR ACK)"

definition encode_syn :: "fake_tcp_carrier \<Rightarrow> ack_cells \<Rightarrow> bytes \<Rightarrow> (carrier_error + bytes) \<times> fake_tcp_carrier" where
  "encode_syn = encode_first SYN"

definition encode_syn_ack :: "fake_tcp_carrier \<Rightarrow> ack_cells \<Rightarrow> bytes \<Rightarrow> (carrier_error + bytes) \<times> fake_tcp_carrier" where
  "encode_syn_ack = encode_first (SYN OR ACK)"

definition encode_next_datagram_into ::
  "fake_tcp_carrier \<Rightarrow> ack_cells \<Rightarrow> carrier_direction \<Rightarrow> bytes \<Rightarrow> bytes \<Rightarrow> (carrier_error + usize) \<times> fake_tcp_carrier \<times> bytes" where
  "encode_next_datagram_into c mem direction datagram out =
     (if fc_sent_syn c then encode_datagram_into c mem datagram out
      else case direction of
        ClientToServer \<Rightarrow> encode_syn_into c mem datagram out
      | ServerToClient \<Rightarrow> encode_syn_ack_into c mem datagram out)"

subsection \<open>Decoding\<close>

definition decode_datagram_borrowed ::
  "fake_tcp_carrier \<Rightarrow> ack_cells \<Rightarrow> bytes \<Rightarrow> (carrier_error + decoded_datagram) \<times> ack_cells" where
  "decode_datagram_borrowed c mem packet =
     (if unat (fc_outer_mtu c) < length packet then (Inl PacketTooLarge, mem)
      else case decode_packet_view packet (Some (fc_pseudo_header_prefix c)) of
        Inl e \<Rightarrow> (Inl e, mem)
      | Inr v \<Rightarrow>
          let expected = tuple_reverse (fc_tuple c) in
          if pv_source v \<noteq> ft_source expected \<or> pv_destination v \<noteq> ft_destination expected then (Inl WrongTuple, mem)
          else if is_rst (pv_flags v) then (Inl InvalidTcpHeader, mem)
          else if pv_payload v = [] then (Inl EmptyPayload, mem)
          else case (if is_syn (pv_flags v)
              then (case fc_syn_data c of
                  SynDisabled \<Rightarrow> Inl SynDataDisabled
                | Cookie expected_cookie \<Rightarrow>
                    if pv_fast_open_cookie v \<noteq> Some expected_cookie then Inl SynCookieRejected else Inr ())
              else Inr ()) of
            Inl e \<Rightarrow> (Inl e, mem)
          | Inr _ \<Rightarrow>
              let acknowledgment = pv_sequence v + consumed (length (pv_payload v)) (is_syn (pv_flags v));
                  previous = mem (fc_acknowledgment c) in
              (Inr \<lparr>dd_sequence = pv_sequence v, dd_was_syn = is_syn (pv_flags v), dd_payload = pv_payload v\<rparr>,
               if previous = 0 \<or> acknowledgment - previous < 0x80000000
               then mem(fc_acknowledgment c := acknowledgment) else mem))"

definition decode_datagram ::
  "fake_tcp_carrier \<Rightarrow> ack_cells \<Rightarrow> bytes \<Rightarrow> (carrier_error + decoded_datagram) \<times> ack_cells" where
  "decode_datagram c mem packet = decode_datagram_borrowed c mem packet"

subsection \<open>SYN cookies\<close>

text \<open>Socket addresses are compared by address family, address and port.\<close>

fun ip_rank :: "ip_addr \<Rightarrow> nat \<times> nat" where
  "ip_rank (IpV4 ip) = (0, unat ip)"
| "ip_rank (IpV6 ip) = (1, unat ip)"

definition addr_le :: "socket_addr \<Rightarrow> socket_addr \<Rightarrow> bool" where
  "addr_le a b \<longleftrightarrow>
     (let (fa, ia) = ip_rank (addr_ip a); (fb, ib) = ip_rank (addr_ip b) in
      fa < fb \<or> fa = fb \<and> (ia < ib \<or> ia = ib \<and> addr_port a \<le> addr_port b))"

definition cookie_tuple :: "four_tuple \<Rightarrow> four_tuple" where
  "cookie_tuple t = (if addr_le (ft_source t) (ft_destination t) then t else tuple_reverse t)"

definition cookie_message :: "four_tuple \<Rightarrow> u64 \<Rightarrow> bytes" where
  "cookie_message t epoch =
     (let t = cookie_tuple t in append_address (ft_source t) @ append_address (ft_destination t) @ be_bytes 8 epoch)"

definition issue_syn_cookie :: "(bytes \<Rightarrow> bytes \<Rightarrow> bytes) \<Rightarrow> bytes \<Rightarrow> four_tuple \<Rightarrow> u64 \<Rightarrow> bytes" where
  "issue_syn_cookie hmac secret t epoch = take 16 (hmac secret (cookie_message t epoch))"

subsection \<open>Carriers of a path\<close>

definition plain_addr :: "socket_addr \<Rightarrow> bool" where
  "plain_addr a \<longleftrightarrow> socket_addr_new (addr_ip a) (addr_port a) = a"

definition carrier_ok :: "fake_tcp_carrier \<Rightarrow> bool" where
  "carrier_ok c \<longleftrightarrow> validated_pseudo_header_prefix (fc_tuple c) = Inr (fc_pseudo_header_prefix c)
     \<and> (case fc_syn_data c of SynDisabled \<Rightarrow> True | Cookie k \<Rightarrow> length k = 16)"

definition syn_data_ok :: "syn_data_mode \<Rightarrow> bool" where
  "syn_data_ok m \<longleftrightarrow> (case m of SynDisabled \<Rightarrow> True | Cookie k \<Rightarrow> length k = 16)"

lemma carrier_new_with_mtu_ok:
  assumes "carrier_new_with_mtu crc rnd cell mem t dir m mss mtu = Inr (c, mem')" and "syn_data_ok m"
  shows "carrier_ok c \<and> fc_tuple c = t \<and> fc_syn_data c = m \<and> \<not> fc_sent_syn c \<and> mem' (fc_acknowledgment c) = 0
    \<and> unat (fc_syn_mss c) + (if is_ipv4 (ft_source t) then 40 else 60) \<le> unat (fc_outer_mtu c)"
  using assms by (auto simp: carrier_new_with_mtu_def carrier_ok_def syn_data_ok_def result_iff Let_def from_parts_def carrier_consts
      split: if_splits)

lemma prefix_reverse: "tcp_pseudo_header_prefix d s = tcp_pseudo_header_prefix s d"
  by (cases s; cases d) (simp_all add: tcp_pseudo_header_prefix_def add.commute)

lemma carrier_prefix:
  assumes "carrier_ok c"
  shows "tcp_pseudo_header_prefix (ft_source (fc_tuple c)) (ft_destination (fc_tuple c)) = Some (fc_pseudo_header_prefix c)"
    and "small_prefix (fc_pseudo_header_prefix c)"
  using assms by (auto simp: carrier_ok_def validated_pseudo_header_prefix_def result_iff intro: prefix_small)

lemma peer_prefix:
  assumes "carrier_ok a" "carrier_ok b" and "fc_tuple b = tuple_reverse (fc_tuple a)"
  shows "fc_pseudo_header_prefix b = fc_pseudo_header_prefix a"
  using carrier_prefix(1) [OF assms(1)] carrier_prefix(1) [OF assms(2)] assms(3) prefix_reverse
  by (simp add: tuple_reverse_def)

lemma flag_tests:
  "is_syn SYN" "is_syn (SYN OR ACK)" "\<not> is_syn (ACK OR PSH)" "\<not> is_rst SYN" "\<not> is_rst (SYN OR ACK)" "\<not> is_rst (ACK OR PSH)"
  by (simp_all add: is_syn_def is_rst_def flags_contains_def SYN_def ACK_def PSH_def RST_def)

lemma consumed_small: "n \<le> 65535 \<Longrightarrow> consumed n syn = word_of_nat (n + (if syn then 1 else 0))"
proof -
  assume n: "n \<le> 65535"
  have u: "unat (word_of_nat n :: u32) = n" using n by (intro unat_word_of_nat) simp
  have "word_of_nat n \<noteq> (- 1 :: u32)"
  proof
    assume "word_of_nat n = (- 1 :: u32)"
    then have "n = unat (- 1 :: u32)" using u by metis
    then show False using n by (simp add: unsigned_minus_1_eq_mask mask_eq_exp_minus_1)
  qed
  then show ?thesis using n by (simp add: consumed_def Let_def)
qed

text \<open>The packet one carrier writes is what the other reads, up to the tuple check.\<close>

lemma carrier_encode_into_Inr:
  assumes ok: "carrier_ok a" and e: "carrier_encode_into a mem dg flags cookie out = (Inr n, a', out')"
    and k: "cookie = None \<or> (\<exists>k. cookie = Some k \<and> length k = 16)"
  shows "length out' = length out \<and> n \<le> length out \<and> drop n out' = drop n out \<and> n \<le> unat (fc_outer_mtu a)
    \<and> a' = a\<lparr>fc_send_sequence := fc_send_sequence a + word_of_nat (length dg + (if is_syn flags then 1 else 0))\<rparr> \<and> length dg \<le> 65535
    \<and> decode_packet_view (take n out') (Some (fc_pseudo_header_prefix a)) =
      Inr \<lparr>pv_source = socket_addr_new (addr_ip (ft_source (fc_tuple a))) (addr_port (ft_source (fc_tuple a))),
        pv_destination = socket_addr_new (addr_ip (ft_destination (fc_tuple a))) (addr_port (ft_destination (fc_tuple a))),
        pv_sequence = fc_send_sequence a, pv_flags = flags,
        pv_fast_open_cookie = (if is_syn flags then cookie else None), pv_payload = dg\<rparr>"
proof -
  have dl: "length dg \<le> 65535" using e by (auto simp: carrier_encode_into_def carrier_consts split: if_splits)
  have p: "encode_packet_into (ft_source (fc_tuple a)) (ft_destination (fc_tuple a)) (fc_send_sequence a)
      (mem (fc_acknowledgment a)) flags (- 1) (segment_options a flags cookie) dg out (fc_pseudo_header_prefix a) = (Inr n, out')"
    and a': "a' = a\<lparr>fc_send_sequence := fc_send_sequence a + consumed (length dg) (is_syn flags)\<rparr>"
    and mtu: "n \<le> unat (fc_outer_mtu a)"
    using e by (auto simp: carrier_encode_into_def split: if_splits prod.splits sum.splits)
  have ck: "(case to_fast_open_cookie (segment_options a flags cookie) of None \<Rightarrow> None
      | Some (b, j) \<Rightarrow> if j \<le> 16 then Some (take j b) else None) = (if is_syn flags then cookie else None)"
    using k by (auto simp: segment_options_def for_syn_with_mss_def default_options_def split: option.splits)
  show ?thesis
    using packet_roundtrip [OF p carrier_prefix(2) [OF ok]] a' mtu dl consumed_small [OF dl] unfolding ck by simp
qed

text \<open>The acknowledgment field of the TCP header.\<close>

definition ack_field :: "fake_tcp_carrier \<Rightarrow> bytes \<Rightarrow> bytes" where
  "ack_field c packet = take 4 (drop ((if is_ipv4 (ft_source (fc_tuple c)) then IPV4_HEADER_BYTES else IPV6_HEADER_BYTES) + 8) packet)"

lemma carrier_encode_into_ack:
  assumes "carrier_encode_into a mem dg flags cookie out = (Inr n, a', out')"
  shows "ack_field a (take n out') = be_bytes 4 (mem (fc_acknowledgment a))"
proof -
  let ?s = "ft_source (fc_tuple a)" and ?d = "ft_destination (fc_tuple a)"
  have "encode_packet_into ?s ?d (fc_send_sequence a) (mem (fc_acknowledgment a)) flags (- 1) (segment_options a flags cookie) dg out
      (fc_pseudo_header_prefix a) = (Inr n, out')"
    using assms by (auto simp: carrier_encode_into_def split: if_splits prod.splits sum.splits)
  from encode_packet_Inr [OF this] obtain ob where ob: "is_ipv4 ?s = is_ipv4 ?d"
      "n = (if is_ipv4 ?s then 20 else 40) + 20 + length ob + length dg"
      "out' = ip_header (addr_ip ?s) (addr_ip ?d) (20 + length ob + length dg)
        @ tcp_segment ?s ?d (fc_send_sequence a) (mem (fc_acknowledgment a)) flags (- 1) ob dg (fc_pseudo_header_prefix a) @ drop n out"
    by blast
  then show ?thesis using length_ip_header [OF ob(1), of "20 + length ob + length dg"]
    by (simp add: ack_field_def tcp_segment_def tcp_header_def Let_def carrier_consts)
qed

lemma decode_peer:
  assumes v: "decode_packet_view packet (Some (fc_pseudo_header_prefix b)) =
      Inr \<lparr>pv_source = ft_destination (fc_tuple b), pv_destination = ft_source (fc_tuple b), pv_sequence = q, pv_flags = flags,
        pv_fast_open_cookie = cookie, pv_payload = dg\<rparr>"
    and "length packet \<le> unat (fc_outer_mtu b)" and "\<not> is_rst flags" and "dg \<noteq> []"
    and "is_syn flags \<Longrightarrow> \<exists>k. fc_syn_data b = Cookie k \<and> cookie = Some k"
  shows "decode_datagram b mem packet =
    (Inr \<lparr>dd_sequence = q, dd_was_syn = is_syn flags, dd_payload = dg\<rparr>,
     let acknowledgment = q + consumed (length dg) (is_syn flags) in
     if mem (fc_acknowledgment b) = 0 \<or> acknowledgment - mem (fc_acknowledgment b) < 0x80000000
     then mem(fc_acknowledgment b := acknowledgment) else mem)"
  using assms by (auto simp: decode_datagram_def decode_datagram_borrowed_def tuple_reverse_def Let_def split: sum.splits)

lemma encode_next_cases:
  assumes "encode_next_datagram_into a mem dir dg out = (Inr n, a', out')"
  obtains (data) "fc_sent_syn a" "carrier_encode_into a mem dg (ACK OR PSH) None out = (Inr n, a', out')"
  | (first) k flags c where "\<not> fc_sent_syn a" "flags = SYN \<or> flags = SYN OR ACK" "fc_syn_data a = Cookie k"
      "carrier_encode_into a mem dg flags (Some k) out = (Inr n, c, out')" "a' = c\<lparr>fc_sent_syn := True\<rparr>"
proof (cases "fc_sent_syn a")
  case True
  then show ?thesis using assms by (intro data) (simp_all add: encode_next_datagram_into_def encode_datagram_into_def)
next
  case False
  obtain flags where f: "flags = SYN \<or> flags = SYN OR ACK" "encode_first_into flags a mem dg out = (Inr n, a', out')"
    using assms False by (cases dir) (auto simp: encode_next_datagram_into_def encode_syn_into_def encode_syn_ack_into_def)
  then obtain k where k: "fc_syn_data a = Cookie k" using False by (cases "fc_syn_data a") (auto simp: encode_first_into_def)
  obtain r c o' where c: "carrier_encode_into a mem dg flags (Some k) out = (r, c, o')" by (metis prod.exhaust)
  then have "r = Inr n" "a' = c\<lparr>fc_sent_syn := True\<rparr>" "o' = out'" using f(2) False k by (auto simp: encode_first_into_def split: sum.splits)
  then show ?thesis using first [OF False f(1) k] c by blast
qed

text \<open>C27: what one end of a path sends the other end receives.  Two carriers of a path with reversed tuples without scope
  identifiers and flow labels and with the same SYN data mode, whatever their sequence and acknowledgment numbers: the packet the sender writes for its
  next non-empty datagram, SYN, SYN-ACK or ordinary, if it fits the receiver's MTU, passes the header checksums, the tuple check and
  the cookie check of the receiver and yields exactly the datagram with the sender's sequence number.  Its acknowledgment field is the number the
  sender last acknowledged; the sender's sequence advances by what TCP would count, and that is what the receiver acknowledges unless it
  already acknowledged more.  The rest of the output buffer is untouched.\<close>

theorem carrier_roundtrip:
  assumes "carrier_ok a" and "carrier_ok b" and "fc_tuple b = tuple_reverse (fc_tuple a)" and "fc_syn_data b = fc_syn_data a"
    and "plain_addr (ft_source (fc_tuple a))" and "plain_addr (ft_destination (fc_tuple a))"
    and "dg \<noteq> []" and e: "encode_next_datagram_into a mem_a dir dg out = (Inr n, a', out')" and "n \<le> unat (fc_outer_mtu b)"
  shows "decode_datagram b mem_b (take n out') =
      (Inr \<lparr>dd_sequence = fc_send_sequence a, dd_was_syn = (\<not> fc_sent_syn a), dd_payload = dg\<rparr>,
       if mem_b (fc_acknowledgment b) = 0 \<or> fc_send_sequence a' - mem_b (fc_acknowledgment b) < 0x80000000
       then mem_b(fc_acknowledgment b := fc_send_sequence a') else mem_b)
    \<and> fc_send_sequence a' = fc_send_sequence a + word_of_nat (length dg + (if fc_sent_syn a then 0 else 1))
    \<and> ack_field a (take n out') = be_bytes 4 (mem_a (fc_acknowledgment a))
    \<and> fc_sent_syn a' \<and> drop n out' = drop n out \<and> length out' = length out"
proof -
  have pre: "fc_pseudo_header_prefix b = fc_pseudo_header_prefix a" by (rule peer_prefix [OF assms(1-3)])
  have ends: "ft_destination (fc_tuple b) = ft_source (fc_tuple a)" "ft_source (fc_tuple b) = ft_destination (fc_tuple a)"
    using assms(3) by (simp_all add: tuple_reverse_def)
  have plain: "socket_addr_new (addr_ip (ft_source (fc_tuple a))) (addr_port (ft_source (fc_tuple a))) = ft_source (fc_tuple a)"
      "socket_addr_new (addr_ip (ft_destination (fc_tuple a))) (addr_port (ft_destination (fc_tuple a))) = ft_destination (fc_tuple a)"
    using assms(5,6) by (simp_all add: plain_addr_def)
  have main: "decode_datagram b mem_b (take n out') =
      (Inr \<lparr>dd_sequence = fc_send_sequence a, dd_was_syn = is_syn flags, dd_payload = dg\<rparr>,
       if mem_b (fc_acknowledgment b) = 0 \<or> fc_send_sequence c - mem_b (fc_acknowledgment b) < 0x80000000
       then mem_b(fc_acknowledgment b := fc_send_sequence c) else mem_b)
    \<and> c = a\<lparr>fc_send_sequence := fc_send_sequence a + word_of_nat (length dg + (if is_syn flags then 1 else 0))\<rparr>
    \<and> drop n out' = drop n out \<and> length out' = length out"
    if enc: "carrier_encode_into a mem_a dg flags cookie out = (Inr n, c, out')" and "\<not> is_rst flags"
      and ck: "cookie = None \<and> \<not> is_syn flags \<or> (\<exists>k. cookie = Some k \<and> fc_syn_data a = Cookie k)"
    for flags cookie c
  proof -
    have "cookie = None \<or> (\<exists>k. cookie = Some k \<and> length k = 16)"
      using ck assms(1) by (auto simp: carrier_ok_def)
    note s = carrier_encode_into_Inr [OF assms(1) enc this]
    have len: "length (take n out') \<le> unat (fc_outer_mtu b)" using assms(9) by simp
    have "decode_packet_view (take n out') (Some (fc_pseudo_header_prefix b)) =
        Inr \<lparr>pv_source = ft_destination (fc_tuple b), pv_destination = ft_source (fc_tuple b), pv_sequence = fc_send_sequence a,
          pv_flags = flags, pv_fast_open_cookie = (if is_syn flags then cookie else None), pv_payload = dg\<rparr>"
      using s plain unfolding pre ends by simp
    from decode_peer [OF this len that(2) assms(7)] show ?thesis
      using s ck assms(4) consumed_small [of "length dg" "is_syn flags"] by (auto simp: Let_def)
  qed
  from e show ?thesis
  proof (cases rule: encode_next_cases)
    case data
    then show ?thesis using main [OF data(2)] carrier_encode_into_ack [OF data(2)] flag_tests by simp
  next
    case (first k flags c)
    then show ?thesis using main [OF first(4)] carrier_encode_into_ack [OF first(4)] flag_tests by auto
  qed
qed

subsection \<open>Both encoders agree\<close>

lemma encode_packet_out:
  assumes "encode_packet_into s d q a f w opts dg out p = (Inr n, out')" and "n \<le> length out2"
  shows "encode_packet_into s d q a f w opts dg out2 p = (Inr n, take n out' @ drop n out2)"
proof -
  obtain ob where ob: "encoded_options opts = Inr ob" and fam: "is_ipv4 s = is_ipv4 d"
    and n: "n = (if is_ipv4 s then 20 else 40) + 20 + length ob + length dg" "n \<le> 65535" "n \<le> length out"
    and out': "out' = ip_header (addr_ip s) (addr_ip d) (20 + length ob + length dg) @ tcp_segment s d q a f w ob dg p @ drop n out"
    using encode_packet_Inr [OF assms(1)] by (elim exE conjE) (rule that)
  have ports: "addr_port s \<noteq> 0" "addr_port d \<noteq> 0" using assms(1) by (auto simp: encode_packet_into_def split: if_splits)
  have ls: "length (tcp_segment s d q a f w ob dg p) = 20 + length ob + length dg" by (simp add: tcp_segment_def Let_def)
  have tk: "take n out' = ip_header (addr_ip s) (addr_ip d) (20 + length ob + length dg) @ tcp_segment s d q a f w ob dg p"
    unfolding out' using length_ip_header [OF fam] ls n by simp
  have ob': "(if options_is_empty opts then Inr [] else options_encode opts) = Inr ob" using ob by (simp add: encoded_options_def)
  define tl where "tl = 20 + length ob + length dg"
  have pl: "n = (if is_ipv4 s then 20 else 40) + tl" using n by (simp add: tl_def)
  have lens: "rbind (ok_or (checked_add TCP_HEADER_BYTES (length ob)) TcpOptionsTooLong) (\<lambda>header_length.
      rbind (ok_or (checked_add header_length (length dg)) PacketTooLarge) (\<lambda>tcp_length.
      if MAX_PACKET_BYTES < tcp_length then Inl PacketTooLarge
      else rbind (ok_or (checked_add (if is_ipv4 s then IPV4_HEADER_BYTES else IPV6_HEADER_BYTES) tcp_length) PacketTooLarge) (\<lambda>packet_length.
      if MAX_PACKET_BYTES < packet_length then Inl PacketTooLarge
      else if length out2 < packet_length then Inl (OutputTooSmall packet_length (length out2))
      else Inr (tcp_length, packet_length)))) = Inr (tl, n)"
    using n assms(2) by (cases "is_ipv4 s") (simp_all add: tl_def carrier_consts checked_add_def usize_max_def)
  have nf: "\<not> (is_ipv4 s \<noteq> is_ipv4 d \<or> addr_port s = 0 \<or> addr_port d = 0)" using fam ports by simp
  show ?thesis unfolding tk encode_packet_into_def ob' Let_def if_not_P [OF nf] sum.case lens prod.case tl_def [symmetric]
    using fam pl by (cases s; cases d) simp_all
qed

lemma encode_packet_length:
  assumes "encode_packet_into s d q a f w opts dg out p = (Inr n, out')"
  shows "length out' = length out \<and> n \<le> length out"
proof -
  obtain ob where fam: "is_ipv4 s = is_ipv4 d"
    and n: "n = (if is_ipv4 s then 20 else 40) + 20 + length ob + length dg" "n \<le> length out"
    and out': "out' = ip_header (addr_ip s) (addr_ip d) (20 + length ob + length dg) @ tcp_segment s d q a f w ob dg p @ drop n out"
    using encode_packet_Inr [OF assms] by (elim exE conjE) (rule that)
  show ?thesis unfolding out' using length_ip_header [OF fam] n by (simp add: tcp_segment_def Let_def)
qed

text \<open>C28: the allocating encoder and the encoder into caller-owned storage are the same function: whenever the first
  returns a packet, the second writes exactly its octets at the front of any buffer that can hold them, leaves the rest alone
  and moves the carrier to the same state.\<close>

theorem encoders_agree:
  assumes "carrier_encode c mem dg flags cookie = (Inr packet, c1)" and "length packet \<le> length out"
  shows "carrier_encode_into c mem dg flags cookie out = (Inr (length packet), c1, packet @ drop (length packet) out)"
proof -
  obtain ob where ob: "encoded_options (segment_options c flags cookie) = Inr ob"
    using assms(1) by (auto simp: carrier_encode_def encoded_options_def [symmetric] Let_def split: sum.splits)
  obtain cap len o1 where enc: "carrier_encode_into c mem dg flags cookie (replicate cap 0) = (Inr len, c1, o1)" and pk: "packet = take len o1"
    using assms(1) ob unfolding carrier_encode_def encoded_options_def [symmetric] Let_def ob
    by (auto split: sum.splits prod.splits)
  have dl: "\<not> MAX_DATAGRAM_BYTES < length dg" using enc by (auto simp: carrier_encode_into_def)
  have p: "encode_packet_into (ft_source (fc_tuple c)) (ft_destination (fc_tuple c)) (fc_send_sequence c)
      (mem (fc_acknowledgment c)) flags (- 1) (segment_options c flags cookie) dg (replicate cap 0) (fc_pseudo_header_prefix c) = (Inr len, o1)"
    and c1: "c1 = c\<lparr>fc_send_sequence := fc_send_sequence c + consumed (length dg) (is_syn flags)\<rparr>"
    and mtu: "\<not> unat (fc_outer_mtu c) < len"
    using enc dl by (auto simp: carrier_encode_into_def split: if_splits prod.splits sum.splits)
  have lo: "length o1 = cap" "len \<le> cap" using encode_packet_length [OF p] by simp_all
  have l: "length packet = len" using pk lo by simp
  have "encode_packet_into (ft_source (fc_tuple c)) (ft_destination (fc_tuple c)) (fc_send_sequence c)
      (mem (fc_acknowledgment c)) flags (- 1) (segment_options c flags cookie) dg out (fc_pseudo_header_prefix c) = (Inr len, packet @ drop len out)"
    using encode_packet_out [OF p] assms(2) l pk by simp
  then show ?thesis using dl c1 mtu l by (simp add: carrier_encode_into_def)
qed

subsection \<open>Cookies\<close>

lemma ip_rank_inj: "ip_rank a = ip_rank b \<longleftrightarrow> a = b"
  by (cases a; cases b) (auto simp: word_unat_eq_iff)

lemma append_address_inj:
  assumes "append_address a @ xs = append_address b @ ys"
  shows "addr_ip a = addr_ip b \<and> addr_port a = addr_port b \<and> xs = ys"
proof -
  have p: "be_bytes 2 x = be_bytes 2 y \<longleftrightarrow> x = y" for x y :: u16 by (metis be_bytes_roundtrip(1))
  have i4: "be_bytes 4 x = be_bytes 4 y \<longleftrightarrow> x = y" for x y :: u32 by (metis be_bytes_roundtrip(2))
  have i16: "be_bytes 16 x = be_bytes 16 y \<longleftrightarrow> x = y" for x y :: "128 word" by (metis be_16_roundtrip)
  show ?thesis
    using assms by (cases "addr_ip a"; cases "addr_ip b") (auto simp: append_address_def p i4 i16)
qed

text \<open>C29: the SYN cookie is bound to the path and the epoch and to nothing else: two cookie inputs are equal exactly when
  the epochs are equal and the tuples join the same two endpoints, in either direction, so both ends of a path derive the
  same cookie and no other path or epoch shares its input.\<close>

theorem cookie_binding:
  "cookie_message t e = cookie_message t' e' \<longleftrightarrow> e = e' \<and>
     (let ends = (\<lambda>a. (addr_ip a, addr_port a)) in
      {ends (ft_source t), ends (ft_destination t)} = {ends (ft_source t'), ends (ft_destination t')})"
proof -
  let ?k = "\<lambda>a. (addr_ip a, addr_port a)"
  have e8: "be_bytes 8 x = be_bytes 8 y \<longleftrightarrow> x = y" for x y :: u64 by (metis be_bytes_roundtrip(3))
  have eq: "cookie_message t e = cookie_message t' e' \<longleftrightarrow>
      ?k (ft_source (cookie_tuple t)) = ?k (ft_source (cookie_tuple t'))
      \<and> ?k (ft_destination (cookie_tuple t)) = ?k (ft_destination (cookie_tuple t')) \<and> e = e'"
  proof
    assume "cookie_message t e = cookie_message t' e'"
    then have m: "append_address (ft_source (cookie_tuple t)) @ append_address (ft_destination (cookie_tuple t)) @ be_bytes 8 e
        = append_address (ft_source (cookie_tuple t')) @ append_address (ft_destination (cookie_tuple t')) @ be_bytes 8 e'"
      by (simp add: cookie_message_def Let_def)
    note 1 = append_address_inj [OF m]
    note 2 = append_address_inj [of "ft_destination (cookie_tuple t)" "be_bytes 8 e" "ft_destination (cookie_tuple t')" "be_bytes 8 e'"]
    show "?k (ft_source (cookie_tuple t)) = ?k (ft_source (cookie_tuple t'))
      \<and> ?k (ft_destination (cookie_tuple t)) = ?k (ft_destination (cookie_tuple t')) \<and> e = e'" using 1 2 e8 by simp
  next
    assume h: "?k (ft_source (cookie_tuple t)) = ?k (ft_source (cookie_tuple t'))
      \<and> ?k (ft_destination (cookie_tuple t)) = ?k (ft_destination (cookie_tuple t')) \<and> e = e'"
    then have "append_address (ft_source (cookie_tuple t)) = append_address (ft_source (cookie_tuple t'))"
        "append_address (ft_destination (cookie_tuple t)) = append_address (ft_destination (cookie_tuple t'))"
      by (simp_all add: append_address_def)
    then show "cookie_message t e = cookie_message t' e'" using h by (simp add: cookie_message_def Let_def)
  qed
  define le where "le = (\<lambda>(i, p) (j, q). (let (fa, ia) = ip_rank i; (fb, ib) = ip_rank j in
      fa < fb \<or> fa = fb \<and> (ia < ib \<or> ia = ib \<and> (p :: u16) \<le> q)))"
  have le: "addr_le a b = le (?k a) (?k b)" for a b by (simp add: le_def addr_le_def)
  have tot: "le x y \<or> le y x" for x y by (cases x; cases y) (auto simp: le_def split: prod.splits)
  have anti: "x = y" if "le x y" "le y x" for x y
  proof (cases x; cases y)
    fix i p j q assume xy: "x = (i, p)" "y = (j, q)"
    obtain fa ia fb ib where r: "ip_rank i = (fa, ia)" "ip_rank j = (fb, ib)" by (metis prod.exhaust)
    have "fa = fb" "ia = ib" "p = q" using that unfolding le_def xy by (auto simp: r)
    then show "x = y" using r ip_rank_inj [of i j] xy by simp
  qed
  have src: "?k (ft_source (cookie_tuple u)) = (if le (?k (ft_source u)) (?k (ft_destination u)) then ?k (ft_source u) else ?k (ft_destination u))"
    and dst: "?k (ft_destination (cookie_tuple u)) = (if le (?k (ft_source u)) (?k (ft_destination u)) then ?k (ft_destination u) else ?k (ft_source u))"
    for u by (simp_all add: cookie_tuple_def tuple_reverse_def le)
  have pair: "(if le p q then p else q) = (if le p' q' then p' else q') \<and> (if le p q then q else p) = (if le p' q' then q' else p')
      \<longleftrightarrow> {p, q} = {p', q'}" for p q p' q'
    using tot [of p q] anti [of p q] by (auto simp: doubleton_eq_iff)
  show ?thesis unfolding eq src dst Let_def conj_assoc [symmetric] pair by (rule conj_commute)
qed

subsection \<open>Scoped addresses\<close>

lemma plain_new [simp]: "plain_addr (socket_addr_new i p)"
  by (cases i) (simp_all add: plain_addr_def)

lemma decode_tcp_view_plain: "decode_tcp_view s d input p = Inr v \<Longrightarrow> plain_addr (pv_source v) \<and> plain_addr (pv_destination v)"
  by (auto simp: decode_tcp_view_def Let_def result_iff split: if_splits)

lemma decode_packet_view_plain: "decode_packet_view packet p = Inr v \<Longrightarrow> plain_addr (pv_source v) \<and> plain_addr (pv_destination v)"
  by (auto simp: decode_packet_view_def Let_def split: if_splits dest!: decode_tcp_view_plain)

text \<open>C30: a carrier whose tuple has an IPv6 end with a scope or a flow label never receives anything: the decoder
  builds addresses without them and compares for equality, so every packet, also one the peer sent for this path, is refused,
  although the constructors accept such a tuple.\<close>

theorem scoped_path_receives_nothing:
  assumes "carrier_new_with_initial_sequence cell mem0 t m q = Inr (c, mem1)"
    and "\<not> plain_addr (ft_source t) \<or> \<not> plain_addr (ft_destination t)"
  shows "\<exists>e. decode_datagram c mem packet = (Inl e, mem)"
proof -
  have t: "fc_tuple c = t" using assms(1) by (auto simp: carrier_new_with_initial_sequence_def result_iff from_parts_def)
  show ?thesis
  proof (cases "decode_packet_view packet (Some (fc_pseudo_header_prefix c))")
    case (Inl e)
    then show ?thesis by (simp add: decode_datagram_def decode_datagram_borrowed_def)
  next
    case (Inr v)
    have "pv_source v \<noteq> ft_destination t \<or> pv_destination v \<noteq> ft_source t"
      using decode_packet_view_plain [OF Inr] assms(2) by auto
    then show ?thesis using Inr t by (auto simp: decode_datagram_def decode_datagram_borrowed_def tuple_reverse_def Let_def)
  qed
qed

text \<open>A link-local path.\<close>

definition demo_scoped :: four_tuple where
  "demo_scoped = \<lparr>ft_source = SocketV6 0xfe800000000000000000000000000001 4000 0 2, ft_destination = SocketV6 0xfe800000000000000000000000000002 443 0 2\<rparr>"

theorem scoped_path_receives_nothing_witness:
  "\<exists>c mem1. carrier_new_with_initial_sequence 0 (\<lambda>_. 0) demo_scoped SynDisabled 5 = Inr (c, mem1)
    \<and> (\<exists>e. decode_datagram c mem1 [0x60] = (Inl e, mem1))"
proof -
  have "\<exists>p. validated_pseudo_header_prefix demo_scoped = Inr p"
    by (simp add: validated_pseudo_header_prefix_def tuple_validate_def demo_scoped_def tcp_pseudo_header_prefix_def)
  then obtain c mem1 where c: "carrier_new_with_initial_sequence 0 (\<lambda>_. 0) demo_scoped SynDisabled 5 = Inr (c, mem1)"
    by (auto simp: carrier_new_with_initial_sequence_def)
  have "\<not> plain_addr (ft_source demo_scoped) \<or> \<not> plain_addr (ft_destination demo_scoped)"
    by (simp add: demo_scoped_def plain_addr_def)
  from scoped_path_receives_nothing [OF c this] c show ?thesis by blast
qed

subsection \<open>A path\<close>

definition demo_tuple :: four_tuple where
  "demo_tuple = \<lparr>ft_source = SocketV4 0x0a000001 4000, ft_destination = SocketV4 0x0a000002 443\<rparr>"

definition demo_prefix :: u32 where
  "demo_prefix = the (tcp_pseudo_header_prefix (ft_source demo_tuple) (ft_destination demo_tuple))"

definition demo_client :: fake_tcp_carrier where
  "demo_client = from_parts 0 demo_tuple demo_prefix (Cookie (replicate 16 3)) 0xffffffff DEFAULT_SYN_MSS (- 1)"

definition demo_server :: fake_tcp_carrier where
  "demo_server = from_parts 1 (tuple_reverse demo_tuple) demo_prefix (Cookie (replicate 16 3)) 77 DEFAULT_SYN_MSS (- 1)"

lemma demo_options:
  "options_encode (for_syn_with_mss DEFAULT_SYN_MSS (Some (replicate 16 3))) =
     Inr ([2, 4] @ be_bytes 2 DEFAULT_SYN_MSS @ [4, 2, 3, 3, 7, 34, 18] @ replicate 16 3 @ [1])"
proof -
  let ?o = "[2, 4] @ be_bytes 2 DEFAULT_SYN_MSS @ [4, 2, 3, 3, 7, 34, 18] @ replicate 16 3"
  have a: "append_option xs ys = Inr (xs @ ys)" if "length xs + length ys \<le> 40" for xs ys
    using that by (simp add: append_option_Inr)
  have pad: "pad_options ?o = Inr (?o @ [1])"
    by (subst pad_options.simps, simp add: a, subst pad_options.simps, simp)
  show ?thesis using pad
    by (simp add: options_encode_def for_syn_with_mss_def encode_fast_open_def a SYN_WINDOW_SCALE_def TFO_OPTION_KIND_def saturating_add_def usize_max_def)
qed

lemma demo_sent: "\<exists>a' out'. encode_next_datagram_into demo_client (\<lambda>_. 9) ClientToServer [5, 6, 7] (replicate 100 0) = (Inr 71, a', out')"
proof -
  have o: "(if options_is_empty (for_syn_with_mss DEFAULT_SYN_MSS (Some (replicate 16 3))) then Inr []
      else options_encode (for_syn_with_mss DEFAULT_SYN_MSS (Some (replicate 16 3)))) =
      Inr ([2, 4] @ be_bytes 2 DEFAULT_SYN_MSS @ [4, 2, 3, 3, 7, 34, 18] @ replicate 16 3 @ [1])"
    using demo_options by (simp add: options_is_empty_def for_syn_with_mss_def)
  show ?thesis
    by (simp add: encode_next_datagram_into_def encode_syn_into_def encode_first_into_def demo_client_def from_parts_def carrier_encode_into_def
        segment_options_def flag_tests encode_packet_into_def demo_tuple_def o Let_def carrier_consts checked_add_def usize_max_def
        unsigned_minus_1_eq_mask mask_eq_exp_minus_1)
qed

lemma demo_valid: "tuple_validate demo_tuple = Inr ()" "tuple_validate (tuple_reverse demo_tuple) = Inr ()"
  by (simp_all add: tuple_validate_def demo_tuple_def tuple_reverse_def)

lemma demo_prefixes:
  "tcp_pseudo_header_prefix (ft_source demo_tuple) (ft_destination demo_tuple) = Some demo_prefix"
  "tcp_pseudo_header_prefix (ft_destination demo_tuple) (ft_source demo_tuple) = Some demo_prefix"
proof -
  show p: "tcp_pseudo_header_prefix (ft_source demo_tuple) (ft_destination demo_tuple) = Some demo_prefix"
    unfolding demo_prefix_def by (simp add: demo_tuple_def tcp_pseudo_header_prefix_def)
  then show "tcp_pseudo_header_prefix (ft_destination demo_tuple) (ft_source demo_tuple) = Some demo_prefix"
    using prefix_reverse by metis
qed

lemma demo_carriers: "carrier_ok demo_client" "carrier_ok demo_server"
  by (simp_all add: carrier_ok_def demo_client_def demo_server_def from_parts_def validated_pseudo_header_prefix_def demo_valid
      demo_prefixes) (simp_all add: tuple_reverse_def demo_prefixes)

theorem carrier_roundtrip_witness:
  "\<exists>a' out'. encode_next_datagram_into demo_client (\<lambda>_. 9) ClientToServer [5, 6, 7] (replicate 100 0) = (Inr 71, a', out')
     \<and> fst (decode_datagram demo_server (\<lambda>_. 0) (take 71 out')) = Inr \<lparr>dd_sequence = 0xffffffff, dd_was_syn = True, dd_payload = [5, 6, 7]\<rparr>
     \<and> fc_send_sequence a' = 3 \<and> ack_field demo_client (take 71 out') = [0, 0, 0, 9]"
proof -
  obtain a' out' where e: "encode_next_datagram_into demo_client (\<lambda>_. 9) ClientToServer [5, 6, 7] (replicate 100 0) = (Inr 71, a', out')"
    using demo_sent by blast
  have "fc_tuple demo_server = tuple_reverse (fc_tuple demo_client)" "fc_syn_data demo_server = fc_syn_data demo_client"
      "plain_addr (ft_source (fc_tuple demo_client))" "plain_addr (ft_destination (fc_tuple demo_client))" "[5, 6, 7 :: u8] \<noteq> []"
      "71 \<le> unat (fc_outer_mtu demo_server)"
    by (simp_all add: demo_client_def demo_server_def from_parts_def demo_tuple_def plain_addr_def unsigned_minus_1_eq_mask mask_eq_exp_minus_1)
  note r = carrier_roundtrip [OF demo_carriers this(1-5) e this(6), of "\<lambda>_. 0"]
  have "be_bytes 4 (9 :: u32) = [0, 0, 0, 9]" by (simp add: be_bytes_def upt_rec)
  then show ?thesis using r e by (intro exI [of _ a'] exI [of _ out']) (simp add: demo_client_def from_parts_def)
qed

theorem encoders_agree_witness:
  "\<exists>packet c1. carrier_encode demo_client (\<lambda>_. 0) [5] (ACK OR PSH) None = (Inr packet, c1)
     \<and> carrier_encode_into demo_client (\<lambda>_. 0) [5] (ACK OR PSH) None (replicate (length packet) 9) = (Inr (length packet), c1, packet)"
proof -
  have "\<exists>packet c1. carrier_encode demo_client (\<lambda>_. 0) [5] (ACK OR PSH) None = (Inr packet, c1)"
    by (simp add: carrier_encode_def segment_options_def flag_tests options_is_empty_def default_options_def demo_client_def from_parts_def
        demo_tuple_def Let_def carrier_consts checked_add_def usize_max_def carrier_encode_into_def encode_packet_into_def
        unsigned_minus_1_eq_mask mask_eq_exp_minus_1)
  then obtain packet c1 where e: "carrier_encode demo_client (\<lambda>_. 0) [5] (ACK OR PSH) None = (Inr packet, c1)" by blast
  show ?thesis using e encoders_agree [OF e, of "replicate (length packet) 9"] by simp
qed

end
