(* ===== verification/Flow_State.thy ===== *)
theory Flow_State
  imports Reassembler Replay_Admission
begin

section \<open>The shared state of a flow (src/flow.rs)\<close>

text \<open>
  \<open>FlowShared\<close> is the bounded state a TCP-like handle and its control task share under one mutex.  Every method takes the
  lock once, so each is one step here.  The state holds the send queue and its retention counters, the reassembler and
  the received offsets of the other direction, credit, flush and shutdown targets, and the three wakers.  A waker is an
  identifier; \<open>fs_woken\<close> logs the wake-ups in order, which is all the rest of the program sees of them.  Offsets are
  natural numbers with the checks of the code; an \<open>expect\<close> that fails is \<open>None\<close>.

  The last lemma says that a wake-up changes nothing else; what the state promises together with its task is shown in
  \<open>Flow_Sending\<close>.
\<close>

type_synonym waker = nat

datatype error_kind = ConnectionAborted | ConnectionResetKind | BrokenPipe | InvalidData | NotConnected

type_synonym io_error = "error_kind \<times> string"

datatype 'a poll = Pending | Ready 'a

record outbound =
  ob_offset :: nat
  ob_bytes :: bytes

record flow_shared =
  fs_outbound :: "outbound list"
  fs_retained_bytes :: usize
  fs_retained_chunks :: usize
  fs_replay_limit :: usize
  fs_replay_chunk_limit :: usize
  fs_next_send_offset :: nat
  fs_receive :: reassembler
  fs_receive_final_offset :: "nat option"
  fs_receive_window :: nat
  fs_max_receive_offset :: nat
  fs_credit_dirty :: bool
  fs_received :: ack_ranges
  fs_ack_pending :: u32
  fs_read_waker :: "waker option"
  fs_write_waker :: "waker option"
  fs_task_waker :: "waker option"
  fs_flush_target :: "nat option"
  fs_flushed_offset :: nat
  fs_peer_max_offset :: nat
  fs_shutdown_target :: "nat option"
  fs_shutdown_done :: bool
  fs_reset :: "u64 option"
  fs_locally_reset :: bool
  fs_handle_dropped :: bool
  fs_task_stopped :: bool
  fs_error :: "io_error option"
  fs_woken :: "waker list"

definition LOGICAL_ACK_THRESHOLD :: u32 where "LOGICAL_ACK_THRESHOLD = 16"

definition flow_state_new :: "u32 \<Rightarrow> u32 \<Rightarrow> usize \<Rightarrow> nat \<Rightarrow> flow_shared" where
  "flow_state_new reassembly_buffer_bytes replay_buffer_bytes max_ack_ranges initial_send_offset =
     \<lparr>fs_outbound = [], fs_retained_bytes = 0, fs_retained_chunks = 0,
      fs_replay_limit = unat replay_buffer_bytes, fs_replay_chunk_limit = replay_chunk_limit (unat replay_buffer_bytes),
      fs_next_send_offset = initial_send_offset, fs_receive = rx_with_budget (unat reassembly_buffer_bytes),
      fs_receive_final_offset = None, fs_receive_window = unat reassembly_buffer_bytes,
      fs_max_receive_offset = unat reassembly_buffer_bytes, fs_credit_dirty = True, fs_received = ack_new max_ack_ranges,
      fs_ack_pending = 0, fs_read_waker = None, fs_write_waker = None, fs_task_waker = None, fs_flush_target = None,
      fs_flushed_offset = initial_send_offset, fs_peer_max_offset = 0, fs_shutdown_target = None, fs_shutdown_done = False,
      fs_reset = None, fs_locally_reset = False, fs_handle_dropped = False, fs_task_stopped = False, fs_error = None,
      fs_woken = []\<rparr>"

subsection \<open>Wakers\<close>

definition wake_read :: "flow_shared \<Rightarrow> flow_shared" where
  "wake_read s = (case fs_read_waker s of None \<Rightarrow> s
     | Some w \<Rightarrow> s\<lparr>fs_read_waker := None, fs_woken := fs_woken s @ [w]\<rparr>)"

definition wake_write :: "flow_shared \<Rightarrow> flow_shared" where
  "wake_write s = (case fs_write_waker s of None \<Rightarrow> s
     | Some w \<Rightarrow> s\<lparr>fs_write_waker := None, fs_woken := fs_woken s @ [w]\<rparr>)"

definition wake_task :: "flow_shared \<Rightarrow> flow_shared" where
  "wake_task s = (case fs_task_waker s of None \<Rightarrow> s
     | Some w \<Rightarrow> s\<lparr>fs_task_waker := None, fs_woken := fs_woken s @ [w]\<rparr>)"

definition saturating_inc :: "u32 \<Rightarrow> u32" where
  "saturating_inc n = (if n = - 1 then - 1 else n + 1)"

subsection \<open>Receiving\<close>

text \<open>An early return drops the charge the caller handed over.\<close>

definition drop_charge :: "recovery_charge option \<Rightarrow> mem_budget \<Rightarrow> mem_budget" where
  "drop_charge c b = (case c of None \<Rightarrow> b | Some c \<Rightarrow> drop_foreign c b)"

definition insert_bytes_with_reservation ::
  "flow_shared \<Rightarrow> mem_budget \<Rightarrow> nat \<Rightarrow> bytes \<Rightarrow> bool \<Rightarrow> recovery_charge option
     \<Rightarrow> ((recovery_error + unit) \<times> flow_shared \<times> mem_budget) option" where
  "insert_bytes_with_reservation s b offset bs fin charge =
     (case checked_add offset (length bs) of
        None \<Rightarrow> Some (Inl OffsetOverflow, s, drop_charge charge b)
      | Some e \<Rightarrow>
          if fs_max_receive_offset s < e then Some (Inl FlowControl, s, drop_charge charge b)
          else case validate_insert (fs_received s) (offset, e) of
            Inl x \<Rightarrow> Some (Inl x, s, drop_charge charge b)
          | Inr _ \<Rightarrow>
              (case (case charge of
                  Some c \<Rightarrow> insert_record_precharged (fs_receive s) b offset bs fin c
                | None \<Rightarrow> insert_record (fs_receive s) b offset bs fin) of
                 (Inl x, r, b') \<Rightarrow> Some (Inl x, s\<lparr>fs_receive := r\<rparr>, b')
               | (Inr _, r, b') \<Rightarrow>
                   (case ack_insert (fs_received s) (offset, e) of
                      Inl _ \<Rightarrow> None
                    | Inr received \<Rightarrow>
                        let s1 = wake_read (s\<lparr>fs_receive := r, fs_received := received,
                              fs_receive_final_offset := (if fin then Some e else fs_receive_final_offset s),
                              fs_ack_pending := saturating_inc (fs_ack_pending s)\<rparr>) in
                        Some (Inr (),
                          if fs_ack_pending s1 = 1 \<or> LOGICAL_ACK_THRESHOLD \<le> fs_ack_pending s1 then wake_task s1 else s1,
                          b'))))"

definition insert_bytes ::
  "flow_shared \<Rightarrow> mem_budget \<Rightarrow> nat \<Rightarrow> bytes \<Rightarrow> bool \<Rightarrow> ((recovery_error + unit) \<times> flow_shared \<times> mem_budget) option" where
  "insert_bytes s b offset bs fin = insert_bytes_with_reservation s b offset bs fin None"

definition insert_bytes_precharged ::
  "flow_shared \<Rightarrow> mem_budget \<Rightarrow> nat \<Rightarrow> bytes \<Rightarrow> bool \<Rightarrow> recovery_charge
     \<Rightarrow> ((recovery_error + unit) \<times> flow_shared \<times> mem_budget) option" where
  "insert_bytes_precharged s b offset bs fin charge = insert_bytes_with_reservation s b offset bs fin (Some charge)"

definition flow_set_final_offset :: "flow_shared \<Rightarrow> nat \<Rightarrow> (recovery_error + unit) \<times> flow_shared" where
  "flow_set_final_offset s offset =
     (if fs_max_receive_offset s < offset then (Inl FlowControl, s)
      else case set_final_offset (fs_receive s) offset of
        Inl x \<Rightarrow> (Inl x, s)
      | Inr r \<Rightarrow> (Inr (), wake_task (wake_read (s\<lparr>fs_receive := r, fs_receive_final_offset := Some offset,
            fs_ack_pending := saturating_inc (fs_ack_pending s)\<rparr>))))"

definition flow_read ::
  "flow_shared \<Rightarrow> mem_budget \<Rightarrow> usize \<Rightarrow> waker \<Rightarrow> (io_error + bytes option) \<times> flow_shared \<times> mem_budget" where
  "flow_read s b wanted w =
     (case fs_error s of
        Some e \<Rightarrow> (Inl e, s, b)
      | None \<Rightarrow>
          let (out, r, b1) = rx_read (fs_receive s) b wanted;
              s1 = s\<lparr>fs_receive := r\<rparr>;
              maximum = min (saturating_add (rx_next_offset r) (fs_receive_window s)) wire_max;
              s2 = (if out \<noteq> [] \<and> fs_max_receive_offset s < maximum
                    then wake_task (s1\<lparr>fs_max_receive_offset := maximum, fs_credit_dirty := True\<rparr>) else s1) in
          if out \<noteq> [] \<or> is_finished r then (Inr (Some out), s2, b1)
          else (Inr None, s2\<lparr>fs_read_waker := Some w\<rparr>, b1))"

subsection \<open>Sending\<close>

definition enqueue_ready :: "flow_shared \<Rightarrow> usize \<Rightarrow> waker \<Rightarrow> (io_error + bool) \<times> flow_shared" where
  "enqueue_ready s len w =
     (case fs_error s of
        Some e \<Rightarrow> (Inl e, s)
      | None \<Rightarrow>
          if fs_shutdown_target s \<noteq> None then (Inl (BrokenPipe, ''QUICP flow is shut down''), s)
          else if fs_replay_limit s < saturating_add (fs_retained_bytes s) len
              \<or> fs_replay_chunk_limit s \<le> fs_retained_chunks s
          then (Inr False, s\<lparr>fs_write_waker := Some w\<rparr>)
          else (Inr True, s))"

definition enqueue :: "flow_shared \<Rightarrow> bytes \<Rightarrow> waker \<Rightarrow> (io_error + nat option) \<times> flow_shared" where
  "enqueue s bs w =
     (case enqueue_ready s (length bs) w of
        (Inl e, s1) \<Rightarrow> (Inl e, s1)
      | (Inr False, s1) \<Rightarrow> (Inr None, s1)
      | (Inr True, s1) \<Rightarrow>
          (case checked_add (fs_next_send_offset s1) (length bs) of
             None \<Rightarrow> (Inl (InvalidData, ''flow offset overflow''), s1)
           | Some e \<Rightarrow>
               (Inr (Some e), wake_task (s1\<lparr>fs_next_send_offset := e,
                  fs_retained_bytes := fs_retained_bytes s1 + length bs, fs_retained_chunks := fs_retained_chunks s1 + 1,
                  fs_outbound := fs_outbound s1 @ [\<lparr>ob_offset = fs_next_send_offset s1, ob_bytes = bs\<rparr>]\<rparr>))))"

definition can_enqueue :: "flow_shared \<Rightarrow> usize \<Rightarrow> waker \<Rightarrow> (io_error + bool) \<times> flow_shared" where
  "can_enqueue s len w = enqueue_ready s len w"

definition request_flush :: "flow_shared \<Rightarrow> waker \<Rightarrow> (io_error + bool) \<times> flow_shared" where
  "request_flush s w =
     (case fs_error s of
        Some e \<Rightarrow> (Inl e, s)
      | None \<Rightarrow>
          let target = fs_next_send_offset s;
              s1 = s\<lparr>fs_flush_target := Some (max (case fs_flush_target s of None \<Rightarrow> 0 | Some t \<Rightarrow> t) target)\<rparr> in
          if target \<le> fs_flushed_offset s then (Inr True, s1)
          else (Inr False, wake_task (s1\<lparr>fs_write_waker := Some w\<rparr>)))"

definition request_shutdown :: "flow_shared \<Rightarrow> waker \<Rightarrow> (io_error + bool) \<times> flow_shared" where
  "request_shutdown s w =
     (case fs_error s of
        Some e \<Rightarrow> (Inl e, s)
      | None \<Rightarrow>
          let s1 = s\<lparr>fs_shutdown_target := Some (case fs_shutdown_target s of None \<Rightarrow> fs_next_send_offset s | Some t \<Rightarrow> t)\<rparr> in
          if fs_shutdown_done s then (Inr True, s1)
          else (Inr False, wake_task (s1\<lparr>fs_write_waker := Some w\<rparr>)))"

subsection \<open>Reset and failure\<close>

definition outbound_bytes :: "outbound list \<Rightarrow> nat" where
  "outbound_bytes q = sum_list (map (length \<circ> ob_bytes) q)"

text \<open>\<open>None\<close> is a failed \<open>expect\<close> on the counters.\<close>

definition request_reset :: "flow_shared \<Rightarrow> application_error \<Rightarrow> (bool \<times> flow_shared) option" where
  "request_reset s error =
     (if fs_locally_reset s then Some (True, s)
      else if fs_task_stopped s \<or> fs_error s \<noteq> None then Some (False, s)
      else case (checked_sub (fs_retained_bytes s) (outbound_bytes (fs_outbound s)),
                 checked_sub (fs_retained_chunks s) (length (fs_outbound s))) of
        (Some n, Some k) \<Rightarrow>
          Some (True, wake_task (wake_write (wake_read (s\<lparr>fs_locally_reset := True, fs_reset := Some (application_error_code error),
            fs_retained_bytes := n, fs_retained_chunks := k, fs_outbound := [],
            fs_error := Some (ConnectionAborted, ''QUICP flow was reset'')\<rparr>))))
      | _ \<Rightarrow> None)"

definition reject_protocol :: "flow_shared \<Rightarrow> flow_shared option" where
  "reject_protocol s = map_option snd (request_reset s FlowProtocol)"

definition fail_with_kind :: "flow_shared \<Rightarrow> error_kind \<Rightarrow> string \<Rightarrow> flow_shared" where
  "fail_with_kind s kind message =
     wake_write (wake_read (s\<lparr>fs_error := (case fs_error s of None \<Rightarrow> Some (kind, message) | Some e \<Rightarrow> Some e)\<rparr>))"

definition flow_fail :: "flow_shared \<Rightarrow> string \<Rightarrow> flow_shared" where
  "flow_fail s message = fail_with_kind s ConnectionAborted message"

definition drop_handle :: "flow_shared \<Rightarrow> flow_shared" where
  "drop_handle s = wake_task (s\<lparr>fs_handle_dropped := True\<rparr>)"

definition discard_retained :: "flow_shared \<Rightarrow> flow_shared" where
  "discard_retained s = wake_write (s\<lparr>fs_outbound := [], fs_retained_bytes := 0, fs_retained_chunks := 0\<rparr>)"

definition mark_task_stopped :: "flow_shared \<Rightarrow> flow_shared" where
  "mark_task_stopped s = wake_write (wake_read (s\<lparr>fs_task_stopped := True\<rparr>))"

subsection \<open>The handle\<close>

text \<open>The buffered writes of \<open>QuicpFlow\<close>.  \<open>None\<close> is the underflow of the free space of the buffer.\<close>

record quicp_flow =
  qf_send_buffer :: bytes
  qf_nodelay :: bool
  qf_flow_buffer_bytes :: usize

definition poll_send_buffer :: "bytes \<Rightarrow> flow_shared \<Rightarrow> waker \<Rightarrow> (io_error + unit) poll \<times> bytes \<times> flow_shared" where
  "poll_send_buffer send_buffer s w =
     (if send_buffer = [] then (Ready (Inr ()), [], s)
      else case enqueue s send_buffer w of
        (Inr (Some _), s') \<Rightarrow> (Ready (Inr ()), [], s')
      | (Inr None, s') \<Rightarrow> (Pending, send_buffer, s')
      | (Inl e, s') \<Rightarrow> (Ready (Inl e), send_buffer, s'))"

text \<open>What follows once the buffer has room: the last two thirds of \<open>poll_buffered_write\<close>.\<close>

definition buffer_write ::
  "bytes \<Rightarrow> bool \<Rightarrow> usize \<Rightarrow> flow_shared \<Rightarrow> waker \<Rightarrow> bytes \<Rightarrow> ((io_error + usize) poll \<times> bytes \<times> flow_shared) option" where
  "buffer_write send_buffer nodelay flow_buffer_bytes s w buf =
     (case checked_sub flow_buffer_bytes (length send_buffer) of
        None \<Rightarrow> None
      | Some available \<Rightarrow>
          let len = min available (length buf);
              extended = send_buffer @ take len buf in
          case (if \<not> nodelay \<and> length send_buffer + len = flow_buffer_bytes then can_enqueue s flow_buffer_bytes w
                else (Inr True, s)) of
            (Inl e, s1) \<Rightarrow> Some (Ready (Inl e), send_buffer, s1)
          | (Inr False, s1) \<Rightarrow> Some (Pending, send_buffer, s1)
          | (Inr True, s1) \<Rightarrow>
              if nodelay \<or> length extended = flow_buffer_bytes
              then (case poll_send_buffer extended s1 w of
                  (Ready (Inl e), sb, s2) \<Rightarrow> Some (Ready (Inl e), sb, s2)
                | (_, sb, s2) \<Rightarrow> Some (Ready (Inr len), sb, s2))
              else Some (Ready (Inr len), extended, s1))"

definition poll_buffered_write ::
  "bytes \<Rightarrow> bool \<Rightarrow> usize \<Rightarrow> flow_shared \<Rightarrow> waker \<Rightarrow> bytes \<Rightarrow> ((io_error + usize) poll \<times> bytes \<times> flow_shared) option" where
  "poll_buffered_write send_buffer nodelay flow_buffer_bytes s w buf =
     (if buf = [] then Some (Ready (Inr 0), send_buffer, s)
      else if (nodelay \<and> send_buffer \<noteq> []) \<or> length send_buffer = flow_buffer_bytes
      then (case poll_send_buffer send_buffer s w of
          (Pending, sb, s1) \<Rightarrow> Some (Pending, sb, s1)
        | (Ready (Inl e), sb, s1) \<Rightarrow> Some (Ready (Inl e), sb, s1)
        | (Ready (Inr _), sb, s1) \<Rightarrow> buffer_write sb nodelay flow_buffer_bytes s1 w buf)
      else buffer_write send_buffer nodelay flow_buffer_bytes s w buf)"

definition poll_write :: "quicp_flow \<Rightarrow> flow_shared \<Rightarrow> waker \<Rightarrow> bytes \<Rightarrow> ((io_error + usize) poll \<times> quicp_flow \<times> flow_shared) option" where
  "poll_write h s w buf =
     map_option (\<lambda>(r, sb, s'). (r, h\<lparr>qf_send_buffer := sb\<rparr>, s'))
       (poll_buffered_write (qf_send_buffer h) (qf_nodelay h) (qf_flow_buffer_bytes h) s w buf)"

definition poll_of_bool :: "io_error + bool \<Rightarrow> (io_error + unit) poll" where
  "poll_of_bool r = (case r of Inl e \<Rightarrow> Ready (Inl e) | Inr True \<Rightarrow> Ready (Inr ()) | Inr False \<Rightarrow> Pending)"

definition poll_flush :: "quicp_flow \<Rightarrow> flow_shared \<Rightarrow> waker \<Rightarrow> (io_error + unit) poll \<times> quicp_flow \<times> flow_shared" where
  "poll_flush h s w =
     (case poll_send_buffer (qf_send_buffer h) s w of
        (Ready (Inr _), sb, s1) \<Rightarrow> (let (r, s2) = request_flush s1 w in (poll_of_bool r, h\<lparr>qf_send_buffer := sb\<rparr>, s2))
      | (r, sb, s1) \<Rightarrow> (r, h\<lparr>qf_send_buffer := sb\<rparr>, s1))"

definition poll_shutdown :: "quicp_flow \<Rightarrow> flow_shared \<Rightarrow> waker \<Rightarrow> (io_error + unit) poll \<times> quicp_flow \<times> flow_shared" where
  "poll_shutdown h s w =
     (case poll_send_buffer (qf_send_buffer h) s w of
        (Ready (Inr _), sb, s1) \<Rightarrow> (let (r, s2) = request_shutdown s1 w in (poll_of_bool r, h\<lparr>qf_send_buffer := sb\<rparr>, s2))
      | (r, sb, s1) \<Rightarrow> (r, h\<lparr>qf_send_buffer := sb\<rparr>, s1))"

definition poll_read ::
  "flow_shared \<Rightarrow> mem_budget \<Rightarrow> usize \<Rightarrow> waker \<Rightarrow> (io_error + bytes) poll \<times> flow_shared \<times> mem_budget" where
  "poll_read s b wanted w =
     (if wanted = 0 then (Ready (Inr []), s, b)
      else case flow_read s b wanted w of
        (Inr (Some out), s', b') \<Rightarrow> (Ready (Inr out), s', b')
      | (Inr None, s', b') \<Rightarrow> (Pending, s', b')
      | (Inl e, s', b') \<Rightarrow> (Ready (Inl e), s', b'))"

definition flow_reset :: "flow_shared \<Rightarrow> application_error \<Rightarrow> ((io_error + unit) \<times> flow_shared) option" where
  "flow_reset s error =
     map_option (\<lambda>(ok, s'). (if ok then Inr () else Inl (NotConnected, ''QUICP flow task is no longer active''), s'))
       (request_reset s error)"

subsection \<open>A wake-up touches only the waker\<close>

lemma wake_simps [simp]:
  "fs_outbound (wake_read s) = fs_outbound s" "fs_outbound (wake_write s) = fs_outbound s" "fs_outbound (wake_task s) = fs_outbound s"
  "fs_retained_bytes (wake_read s) = fs_retained_bytes s" "fs_retained_bytes (wake_write s) = fs_retained_bytes s" "fs_retained_bytes (wake_task s) = fs_retained_bytes s"
  "fs_retained_chunks (wake_read s) = fs_retained_chunks s" "fs_retained_chunks (wake_write s) = fs_retained_chunks s" "fs_retained_chunks (wake_task s) = fs_retained_chunks s"
  "fs_replay_limit (wake_read s) = fs_replay_limit s" "fs_replay_limit (wake_write s) = fs_replay_limit s" "fs_replay_limit (wake_task s) = fs_replay_limit s"
  "fs_replay_chunk_limit (wake_read s) = fs_replay_chunk_limit s" "fs_replay_chunk_limit (wake_write s) = fs_replay_chunk_limit s" "fs_replay_chunk_limit (wake_task s) = fs_replay_chunk_limit s"
  "fs_next_send_offset (wake_read s) = fs_next_send_offset s" "fs_next_send_offset (wake_write s) = fs_next_send_offset s" "fs_next_send_offset (wake_task s) = fs_next_send_offset s"
  "fs_peer_max_offset (wake_read s) = fs_peer_max_offset s" "fs_peer_max_offset (wake_write s) = fs_peer_max_offset s" "fs_peer_max_offset (wake_task s) = fs_peer_max_offset s"
  "fs_flushed_offset (wake_read s) = fs_flushed_offset s" "fs_flushed_offset (wake_write s) = fs_flushed_offset s" "fs_flushed_offset (wake_task s) = fs_flushed_offset s"
  "fs_error (wake_read s) = fs_error s" "fs_error (wake_write s) = fs_error s" "fs_error (wake_task s) = fs_error s"
  "fs_task_stopped (wake_read s) = fs_task_stopped s" "fs_task_stopped (wake_write s) = fs_task_stopped s" "fs_task_stopped (wake_task s) = fs_task_stopped s"
  by (simp_all add: wake_read_def wake_write_def wake_task_def split: option.splits)

end
