(* ===== verification/Connection_Recovery.thy ===== *)
theory Connection_Recovery
  imports Flow_State Fec_Soundness
begin

unbundle bit_operations_syntax

section \<open>The recovery state of a connection and its sending half (src/recovery.rs)\<close>

text \<open>
  \<open>ConnectionRecovery\<close> is shared by the flows of a connection and its DATAGRAM driver.  Each of its fields is an atomic
  or sits behind its own mutex; an operation of the model is one call.  Answers of the QUIC backend (packet statistics, round-trip
  times, the largest datagram) are arguments.  The flows are referenced weakly: \<open>cr_flows\<close> maps a stream to the address of its
  state and \<open>rw_heap\<close> holds the states that are still alive.  Instants and durations are nanoseconds.

  The last lemmas say what queueing a datagram changes and what the capabilities in force depend on; what the sending half promises is
  shown in \<open>Connection_Sender\<close>.
\<close>

subsection \<open>Configuration (src/config.rs)\<close>

datatype recovery_mode = Adaptive | ReliableOnly

record recovery_config =
  rc_mode :: recovery_mode
  rc_require_adaptive :: bool
  rc_max_repair_span :: u16
  rc_decoder_window :: u16
  rc_max_ack_ranges :: u8
  rc_replay_buffer_bytes :: u32
  rc_reassembly_buffer_bytes :: u32
  rc_pre_open_symbols :: u16
  rc_work_budget :: u16

datatype config_error = InvalidRecoveryPolicy | InvalidRecoveryLimit string u32 u32 u32

definition MAX_FLOW_BUFFER_BYTES :: u32 where "MAX_FLOW_BUFFER_BYTES = 16 * 1024 * 1024"

definition validate_recovery_limit :: "string \<Rightarrow> u32 \<Rightarrow> u32 \<Rightarrow> u32 \<Rightarrow> config_error + unit" where
  "validate_recovery_limit name value minimum maximum =
     (if \<not> (minimum \<le> value \<and> value \<le> maximum) then Inl (InvalidRecoveryLimit name value minimum maximum) else Inr ())"

definition recovery_config_default :: recovery_config where
  "recovery_config_default =
     \<lparr>rc_mode = Adaptive, rc_require_adaptive = False, rc_max_repair_span = 64, rc_decoder_window = 512, rc_max_ack_ranges = 16,
      rc_replay_buffer_bytes = 256 * 1024, rc_reassembly_buffer_bytes = 256 * 1024, rc_pre_open_symbols = 32, rc_work_budget = 128\<rparr>"

definition recovery_config_validate :: "recovery_config \<Rightarrow> u32 \<Rightarrow> config_error + unit" where
  "recovery_config_validate c flow_buffer_bytes =
     (if rc_require_adaptive c \<and> rc_mode c \<noteq> Adaptive then Inl InvalidRecoveryPolicy
      else rbind (validate_recovery_limit ''max_repair_span'' (ucast (rc_max_repair_span c)) 1 (ucast MAX_REPAIR_SPAN)) (\<lambda>_.
      rbind (validate_recovery_limit ''decoder_window'' (ucast (rc_decoder_window c)) 512 (ucast MAX_DECODER_WINDOW)) (\<lambda>_.
      if rc_decoder_window c < rc_max_repair_span c then Inl InvalidRecoveryPolicy
      else rbind (validate_recovery_limit ''max_ack_ranges'' (ucast (rc_max_ack_ranges c)) 1 32) (\<lambda>_.
      rbind (validate_recovery_limit ''replay_buffer_bytes'' (rc_replay_buffer_bytes c) flow_buffer_bytes MAX_FLOW_BUFFER_BYTES) (\<lambda>_.
      rbind (validate_recovery_limit ''reassembly_buffer_bytes'' (rc_reassembly_buffer_bytes c) flow_buffer_bytes MAX_FLOW_BUFFER_BYTES) (\<lambda>_.
      rbind (validate_recovery_limit ''pre_open_symbols'' (ucast (rc_pre_open_symbols c)) 0 256) (\<lambda>_.
      validate_recovery_limit ''work_budget'' (ucast (rc_work_budget c)) 1 4096)))))))"

subsection \<open>State\<close>

definition PRE_OPEN_TTL :: nat where "PRE_OPEN_TTL = 1000000000"

record recovery_counters =
  ct_source_sent :: u64
  ct_source_received :: u64
  ct_repair_sent :: u64
  ct_recovered :: u64
  ct_replayed :: u64
  ct_fallback :: u64
  ct_dropped :: u64
  ct_early_accepted :: u64
  ct_early_rejected :: u64

record pre_open_record =
  po_offset :: nat
  po_fin :: bool
  po_data :: bytes
  po_charge :: recovery_charge
  po_expires_at :: nat

datatype outbound_datagram = SourceOut u32 bytes | RepairOut bytes

record datagram_queue =
  dq_pending :: "outbound_datagram list"
  dq_capacity :: usize
  dq_driver_waker :: "waker option"
  dq_producer_waiters :: "waker list"
  dq_woken :: "waker list"

record connection_recovery =
  cr_flows :: "(u64 \<times> nat) list"
  cr_negotiated :: "capabilities option"
  cr_pre_open :: "(u64 \<times> pre_open_record list) list"
  cr_pre_open_count :: u32
  cr_decoder :: decoder
  cr_sources :: "(u32 \<times> bytes) list"
  cr_datagrams :: datagram_queue
  cr_datagram_enabled :: bool
  cr_config :: recovery_config
  cr_max_symbol_bytes :: usize
  cr_next_symbol :: u32
  cr_next_repair :: u32
  cr_observed_lost_packets :: u64
  cr_observed_tx_datagrams :: u64
  cr_delivered_bytes :: u64
  cr_observed_delivered_bytes :: u64
  cr_observed_replays :: u64
  cr_loss_burst :: u32
  cr_sampled_path_lost_packets :: u64
  cr_sampled_max_path_rtt_micros :: u64
  cr_queued_datagrams :: u32
  cr_retained_source_bytes :: u64
  cr_counters :: recovery_counters

text \<open>The connection, the memory budget its endpoint shares, and the flow states alive.\<close>

record recovery_world =
  rw_conn :: connection_recovery
  rw_budget :: mem_budget
  rw_heap :: "nat \<Rightarrow> flow_shared option"

definition recovery_counters_default :: recovery_counters where
  "recovery_counters_default =
     \<lparr>ct_source_sent = 0, ct_source_received = 0, ct_repair_sent = 0, ct_recovered = 0, ct_replayed = 0, ct_fallback = 0,
      ct_dropped = 0, ct_early_accepted = 0, ct_early_rejected = 0\<rparr>"

definition recovery_start :: "recovery_config \<Rightarrow> usize \<Rightarrow> connection_recovery" where
  "recovery_start config max_symbol_bytes =
     \<lparr>cr_flows = [], cr_negotiated = None, cr_pre_open = [], cr_pre_open_count = 0,
      cr_decoder = decoder_with_budget (unat (rc_decoder_window config)) (unat (rc_decoder_window config)) max_symbol_bytes,
      cr_sources = [],
      cr_datagrams = \<lparr>dq_pending = [], dq_capacity = unat (rc_decoder_window config), dq_driver_waker = None,
        dq_producer_waiters = [], dq_woken = []\<rparr>,
      cr_datagram_enabled = (rc_mode config = Adaptive), cr_config = config, cr_max_symbol_bytes = max_symbol_bytes,
      cr_next_symbol = 0, cr_next_repair = 0, cr_observed_lost_packets = 0, cr_observed_tx_datagrams = 0,
      cr_delivered_bytes = 0, cr_observed_delivered_bytes = 0, cr_observed_replays = 0, cr_loss_burst = 0,
      cr_sampled_path_lost_packets = 0, cr_sampled_max_path_rtt_micros = 0, cr_queued_datagrams = 0,
      cr_retained_source_bytes = 0, cr_counters = recovery_counters_default\<rparr>"

subsection \<open>Capabilities\<close>

text \<open>\<open>None\<close>: the symbol size does not fit 16 bits.\<close>

definition recovery_capabilities :: "connection_recovery \<Rightarrow> capabilities option" where
  "recovery_capabilities c =
     (if 65535 < max (cr_max_symbol_bytes c) 64 then None
      else Some ((capabilities_local (rc_mode (cr_config c) = Adaptive))
        \<lparr>cap_max_symbol := word_of_nat (max (cr_max_symbol_bytes c) 64), cap_max_span := rc_max_repair_span (cr_config c),
         cap_decoder_window := rc_decoder_window (cr_config c), cap_max_ack_ranges := rc_max_ack_ranges (cr_config c)\<rparr>))"

definition active_capabilities :: "connection_recovery \<Rightarrow> capabilities option" where
  "active_capabilities c = (case cr_negotiated c of Some caps \<Rightarrow> Some caps | None \<Rightarrow> recovery_capabilities c)"

definition capability_fingerprint :: "connection_recovery \<Rightarrow> u64 option" where
  "capability_fingerprint c = map_option (\<lambda>caps.
     push_bit 56 (ucast (cap_flags caps)) OR push_bit 40 (ucast (cap_max_symbol caps)) OR push_bit 24 (ucast (cap_max_span caps))
       OR push_bit 8 (ucast (cap_decoder_window caps)) OR ucast (cap_max_ack_ranges caps)) (cr_negotiated c)"

text \<open>\<open>disable_datagrams\<close> wakes the task of every flow that is still alive.\<close>

definition wake_flows :: "(u64 \<times> nat) list \<Rightarrow> (nat \<Rightarrow> flow_shared option) \<Rightarrow> nat \<Rightarrow> flow_shared option" where
  "wake_flows flows heap = fold (\<lambda>(_, a) h. h(a := map_option wake_task (h a))) flows heap"

definition disable_datagrams :: "recovery_world \<Rightarrow> recovery_world" where
  "disable_datagrams w =
     (let c = rw_conn w in
      w\<lparr>rw_conn := c\<lparr>cr_datagram_enabled := False, cr_datagrams := (cr_datagrams c)\<lparr>dq_pending := []\<rparr>, cr_queued_datagrams := 0,
           cr_sources := [], cr_retained_source_bytes := 0\<rparr>,
        rw_heap := wake_flows (cr_flows c) (rw_heap w)\<rparr>)"

definition negotiate_capabilities :: "recovery_world \<Rightarrow> capabilities \<Rightarrow> (bool \<times> recovery_world) option" where
  "negotiate_capabilities w peer =
     (case recovery_capabilities (rw_conn w) of
        None \<Rightarrow> None
      | Some caps \<Rightarrow>
          let negotiated = capabilities_intersect caps peer in
          if rc_require_adaptive (cr_config (rw_conn w)) \<and> \<not> supports_adaptive negotiated then Some (False, w)
          else
            let current = (case cr_negotiated (rw_conn w) of None \<Rightarrow> negotiated | Some current \<Rightarrow> current);
                w1 = w\<lparr>rw_conn := (rw_conn w)\<lparr>cr_negotiated := Some current\<rparr>\<rparr> in
            if current \<noteq> negotiated then Some (False, w1)
            else Some (True, if supports_adaptive current then w1 else disable_datagrams w1))"

definition max_ack_ranges :: "connection_recovery \<Rightarrow> usize option" where
  "max_ack_ranges c = map_option (\<lambda>caps. unat (cap_max_ack_ranges caps)) (active_capabilities c)"

definition max_source_payload :: "connection_recovery \<Rightarrow> usize option \<Rightarrow> usize option" where
  "max_source_payload c max_datagram_size =
     map_option (\<lambda>caps.
       (case max_datagram_size of
          None \<Rightarrow> min (cr_max_symbol_bytes c) (unat (cap_max_symbol caps))
        | Some maximum \<Rightarrow> min (min (cr_max_symbol_bytes c) (unat (cap_max_symbol caps))) (maximum - REPAIR_DATAGRAM_HEADER_BYTES))
       - SINGLE_SOURCE_MAX_OVERHEAD) (active_capabilities c)"

definition max_stream_payload :: "connection_recovery \<Rightarrow> usize option" where
  "max_stream_payload c =
     map_option (\<lambda>caps.
       max (min (cr_max_symbol_bytes c) (unat (cap_max_symbol caps)) - REPAIR_DATAGRAM_HEADER_BYTES - SINGLE_SOURCE_MAX_OVERHEAD) 1)
       (active_capabilities c)"

subsection \<open>Timing and the repair budget\<close>

definition duration_max :: nat where "duration_max = 2 ^ 64 * 1000000000 - 1"

definition replay_delay :: "connection_recovery \<Rightarrow> nat option list \<Rightarrow> nat \<times> connection_recovery" where
  "replay_delay c path_rtts =
     (let rtts = concat (map (\<lambda>r. case r of None \<Rightarrow> [] | Some x \<Rightarrow> [x]) path_rtts) in
      if rtts = [] then (50000000, c\<lparr>cr_sampled_max_path_rtt_micros := 0\<rparr>)
      else let rtt = Max (set rtts) in
        (max (min (2 * rtt) duration_max) 50000000,
         c\<lparr>cr_sampled_max_path_rtt_micros := (if rtt div 1000 < 2 ^ 64 then word_of_nat (rtt div 1000) else - 1)\<rparr>))"

definition repair_seed :: "u32 \<Rightarrow> u32" where
  "repair_seed first_symbol_id = first_symbol_id"

definition repair_budget :: "u64 \<Rightarrow> u64 \<Rightarrow> bool \<Rightarrow> bool \<Rightarrow> u32 \<Rightarrow> usize \<Rightarrow> usize \<Rightarrow> usize" where
  "repair_budget lost sent delivered replayed burst outstanding max_span =
     (if lost = 0 then 0
      else
        let budget = max (div_ceil (saturating_mul (unat lost) outstanding) (max (unat sent) 1)) 1;
            budget = saturating_add budget (min (unat burst - 1) 2);
            budget = saturating_add budget (if delivered then 0 else 1);
            budget = saturating_add budget (if replayed then 1 else 0) in
        min (min budget outstanding) max_span)"

definition repair_span_is_negotiated :: "u16 \<Rightarrow> u16 \<Rightarrow> bool" where
  "repair_span_is_negotiated span max_span \<longleftrightarrow> span \<le> max_span"

definition saturating_sub_u64 :: "u64 \<Rightarrow> u64 \<Rightarrow> u64" where
  "saturating_sub_u64 a b = (if b \<le> a then a - b else 0)"

text \<open>\<open>fetch_add\<close> wraps the stored burst; the returned value is incremented with saturation.\<close>

definition take_repair_budget :: "connection_recovery \<Rightarrow> u64 \<Rightarrow> u64 \<Rightarrow> usize \<Rightarrow> (usize \<times> connection_recovery) option" where
  "take_repair_budget c lost_packets tx_datagrams outstanding =
     (let lost = saturating_sub_u64 lost_packets (cr_observed_lost_packets c);
          sent = saturating_sub_u64 tx_datagrams (cr_observed_tx_datagrams c);
          delivered = saturating_sub_u64 (cr_delivered_bytes c) (cr_observed_delivered_bytes c);
          replayed = saturating_sub_u64 (ct_replayed (cr_counters c)) (cr_observed_replays c);
          c1 = c\<lparr>cr_sampled_path_lost_packets := lost_packets, cr_observed_lost_packets := lost_packets,
                 cr_observed_tx_datagrams := tx_datagrams, cr_observed_delivered_bytes := cr_delivered_bytes c,
                 cr_observed_replays := ct_replayed (cr_counters c)\<rparr> in
      if lost = 0 then Some (0, c1\<lparr>cr_loss_burst := 0\<rparr>)
      else
        let burst = saturating_inc (cr_loss_burst c) in
        map_option (\<lambda>caps.
          (repair_budget lost sent (delivered \<noteq> 0) (replayed \<noteq> 0) burst outstanding (unat (cap_max_span caps)),
           c1\<lparr>cr_loss_burst := cr_loss_burst c + 1\<rparr>)) (active_capabilities c))"

subsection \<open>Sending\<close>

datatype send_datagram_error = UnsupportedByPeer | Disabled | DatagramTooLargeForPath | ConnectionLost

definition wake_driver :: "datagram_queue \<Rightarrow> datagram_queue" where
  "wake_driver q = (case dq_driver_waker q of None \<Rightarrow> q
     | Some w \<Rightarrow> q\<lparr>dq_driver_waker := None, dq_woken := dq_woken q @ [w]\<rparr>)"

definition register_producer :: "datagram_queue \<Rightarrow> waker \<Rightarrow> datagram_queue" where
  "register_producer q w =
     (if w \<in> set (dq_producer_waiters q) \<or> length (dq_producer_waiters q) = dq_capacity q then q
      else q\<lparr>dq_producer_waiters := dq_producer_waiters q @ [w]\<rparr>)"

definition push_datagram :: "connection_recovery \<Rightarrow> outbound_datagram \<Rightarrow> connection_recovery" where
  "push_datagram c d =
     c\<lparr>cr_datagrams := wake_driver ((cr_datagrams c)\<lparr>dq_pending := dq_pending (cr_datagrams c) @ [d]\<rparr>),
       cr_queued_datagrams := cr_queued_datagrams c + 1\<rparr>"

text \<open>\<open>None\<close> is a failed \<open>expect\<close>.\<close>

definition send_source ::
  "connection_recovery \<Rightarrow> u64 \<Rightarrow> nat \<Rightarrow> bytes \<Rightarrow> bool \<Rightarrow> waker \<Rightarrow> ((send_datagram_error + bool) \<times> connection_recovery) option" where
  "send_source c flow_id offset data fin w =
     (if \<not> cr_datagram_enabled c then Some (Inl Disabled, c)
      else if length (dq_pending (cr_datagrams c)) = dq_capacity (cr_datagrams c)
      then Some (Inr False, c\<lparr>cr_datagrams := register_producer (cr_datagrams c) w\<rparr>)
      else
        let symbol_id = cr_next_symbol c;
            record = \<lparr>sr_flow_id = flow_id, sr_offset = word_of_nat offset, sr_fin = fin, sr_data = data\<rparr> in
        case encode_source symbol_id [record] [] of
          (Inl _, _) \<Rightarrow> None
        | (Inr _, encoded) \<Rightarrow>
            Some (Inr True, push_datagram (c\<lparr>cr_next_symbol := symbol_id + 1\<rparr>) (SourceOut symbol_id encoded)))"

text \<open>One repair symbol over the window, and the loop that queues up to \<open>limit\<close> of them.\<close>

definition repair_frame :: "u32 \<Rightarrow> u32 \<Rightarrow> bytes list \<Rightarrow> bytes option" where
  "repair_frame first repair_id payloads =
     (case repair_symbol first repair_id (repair_seed first) payloads of
        Inl _ \<Rightarrow> None
      | Inr coded \<Rightarrow>
          if 65535 < length payloads \<or> 65535 < length coded then None
          else case encode_repair \<lparr>rp_repair_id = repair_id, rp_first_symbol_id = first, rp_span = word_of_nat (length payloads),
              rp_symbol_size = word_of_nat (length coded), rp_seed = repair_seed first, rp_coded = coded\<rparr> [] of
            (Inl _, _) \<Rightarrow> None
          | (Inr _, encoded) \<Rightarrow> Some encoded)"

fun queue_repairs ::
  "nat \<Rightarrow> u32 \<Rightarrow> bytes list \<Rightarrow> waker \<Rightarrow> usize \<Rightarrow> connection_recovery \<Rightarrow> ((send_datagram_error + usize) \<times> connection_recovery) option" where
  "queue_repairs 0 first payloads w sent c = Some (Inr sent, c)"
| "queue_repairs (Suc n) first payloads w sent c =
     (let repair_id = cr_next_repair c; c1 = c\<lparr>cr_next_repair := repair_id + 1\<rparr> in
      case repair_frame first repair_id payloads of
        None \<Rightarrow> None
      | Some encoded \<Rightarrow>
          if \<not> cr_datagram_enabled c1 then Some (Inl Disabled, c1)
          else if length (dq_pending (cr_datagrams c1)) = dq_capacity (cr_datagrams c1)
          then Some (Inr sent, c1\<lparr>cr_datagrams := register_producer (cr_datagrams c1) w\<rparr>)
          else queue_repairs n first payloads w (sent + 1) (push_datagram c1 (RepairOut encoded)))"

definition send_tail_repairs ::
  "connection_recovery \<Rightarrow> usize \<Rightarrow> waker \<Rightarrow> ((send_datagram_error + usize) \<times> connection_recovery) option" where
  "send_tail_repairs c limit w =
     (if \<not> cr_datagram_enabled c then Some (Inl Disabled, c)
      else case checked_sub (dq_capacity (cr_datagrams c)) (length (dq_pending (cr_datagrams c))) of
        None \<Rightarrow> None
      | Some available \<Rightarrow>
          let c1 = (if available = 0 then c\<lparr>cr_datagrams := register_producer (cr_datagrams c) w\<rparr> else c);
              limit = min limit available in
          if limit = 0 then Some (Inr 0, c1)
          else if length (cr_sources c1) < 2 then Some (Inr 0, c1)
          else case active_capabilities c1 of
            None \<Rightarrow> None
          | Some caps \<Rightarrow>
              let span = min (unat (cap_max_span caps)) (length (cr_sources c1));
                  window = drop (length (cr_sources c1) - span) (cr_sources c1) in
              if window = [] then None
              else queue_repairs limit (fst (hd window)) (map snd window) w 0 c1)"

definition take_datagram :: "connection_recovery \<Rightarrow> waker \<Rightarrow> outbound_datagram option \<times> connection_recovery" where
  "take_datagram c w =
     (let q = cr_datagrams c in
      case dq_pending q of
        d # rest \<Rightarrow>
          let q1 = q\<lparr>dq_pending := rest\<rparr>;
              q2 = (if length rest \<le> dq_capacity q div 2
                    then (case dq_producer_waiters q1 of [] \<Rightarrow> q1
                          | p # ps \<Rightarrow> q1\<lparr>dq_producer_waiters := ps, dq_woken := dq_woken q1 @ [p]\<rparr>)
                    else q1) in
          (Some d, c\<lparr>cr_datagrams := q2, cr_queued_datagrams := cr_queued_datagrams c - 1\<rparr>)
      | [] \<Rightarrow> (None, c\<lparr>cr_datagrams := q\<lparr>dq_driver_waker := Some w\<rparr>\<rparr>))"

definition record_sent :: "connection_recovery \<Rightarrow> outbound_datagram \<Rightarrow> connection_recovery option" where
  "record_sent c d =
     (case d of
        RepairOut _ \<Rightarrow> Some (c\<lparr>cr_counters := (cr_counters c)\<lparr>ct_repair_sent := ct_repair_sent (cr_counters c) + 1\<rparr>\<rparr>)
      | SourceOut symbol_id bs \<Rightarrow>
          let c1 = c\<lparr>cr_counters := (cr_counters c)\<lparr>ct_source_sent := ct_source_sent (cr_counters c) + 1\<rparr>\<rparr> in
          if \<not> cr_datagram_enabled c1 then Some c1
          else
            let c2 = c1\<lparr>cr_retained_source_bytes := cr_retained_source_bytes c1 + word_of_nat (length bs),
                         cr_sources := cr_sources c1 @ [(symbol_id, bs)]\<rparr> in
            case active_capabilities c2 of
              None \<Rightarrow> None
            | Some caps \<Rightarrow>
                if unat (cap_max_span caps) < length (cr_sources c2)
                then (case cr_sources c2 of
                    [] \<Rightarrow> Some c2
                  | (_, removed) # rest \<Rightarrow>
                      Some (c2\<lparr>cr_sources := rest,
                        cr_retained_source_bytes := cr_retained_source_bytes c2 - word_of_nat (length removed)\<rparr>))
                else Some c2)"

definition handle_send_error :: "recovery_world \<Rightarrow> send_datagram_error \<Rightarrow> bool \<times> recovery_world" where
  "handle_send_error w error =
     (if error \<noteq> ConnectionLost \<and> \<not> rc_require_adaptive (cr_config (rw_conn w)) then (False, disable_datagrams w)
      else if error = ConnectionLost then (False, w)
      else (True, w))"

definition record_replay :: "connection_recovery \<Rightarrow> connection_recovery" where
  "record_replay c = c\<lparr>cr_counters := (cr_counters c)\<lparr>ct_replayed := ct_replayed (cr_counters c) + 1\<rparr>\<rparr>"

definition record_delivery :: "connection_recovery \<Rightarrow> usize \<Rightarrow> connection_recovery" where
  "record_delivery c n = c\<lparr>cr_delivered_bytes := cr_delivered_bytes c + (if n < 2 ^ 64 then word_of_nat n else - 1)\<rparr>"

definition record_fallback :: "connection_recovery \<Rightarrow> connection_recovery" where
  "record_fallback c = c\<lparr>cr_counters := (cr_counters c)\<lparr>ct_fallback := ct_fallback (cr_counters c) + 1\<rparr>\<rparr>"

definition record_early_accepted :: "connection_recovery \<Rightarrow> connection_recovery" where
  "record_early_accepted c = c\<lparr>cr_counters := (cr_counters c)\<lparr>ct_early_accepted := ct_early_accepted (cr_counters c) + 1\<rparr>\<rparr>"

definition record_early_rejected :: "connection_recovery \<Rightarrow> connection_recovery" where
  "record_early_rejected c = c\<lparr>cr_counters := (cr_counters c)\<lparr>ct_early_rejected := ct_early_rejected (cr_counters c) + 1\<rparr>\<rparr>"

record recovery_snapshot =
  sn_counters :: recovery_counters
  sn_path_lost_packets :: u64
  sn_max_path_rtt_micros :: u64
  sn_queued_datagrams :: u64
  sn_retained_source_bytes :: u64

definition snapshot :: "connection_recovery \<Rightarrow> recovery_snapshot" where
  "snapshot c =
     \<lparr>sn_counters = cr_counters c, sn_path_lost_packets = cr_sampled_path_lost_packets c,
      sn_max_path_rtt_micros = cr_sampled_max_path_rtt_micros c, sn_queued_datagrams = ucast (cr_queued_datagrams c),
      sn_retained_source_bytes = cr_retained_source_bytes c\<rparr>"

subsection \<open>What queueing and capabilities depend on\<close>

lemma push_datagram_simps [simp]:
  "dq_pending (cr_datagrams (push_datagram c d)) = dq_pending (cr_datagrams c) @ [d]"
  "dq_capacity (cr_datagrams (push_datagram c d)) = dq_capacity (cr_datagrams c)"
  "cr_queued_datagrams (push_datagram c d) = cr_queued_datagrams c + 1"
  "cr_sources (push_datagram c d) = cr_sources c" "cr_datagram_enabled (push_datagram c d) = cr_datagram_enabled c"
  "cr_config (push_datagram c d) = cr_config c" "cr_negotiated (push_datagram c d) = cr_negotiated c"
  "cr_max_symbol_bytes (push_datagram c d) = cr_max_symbol_bytes c" "cr_next_symbol (push_datagram c d) = cr_next_symbol c"
  "cr_retained_source_bytes (push_datagram c d) = cr_retained_source_bytes c" "cr_next_repair (push_datagram c d) = cr_next_repair c"
  by (simp_all add: push_datagram_def wake_driver_def split: option.splits)

lemma register_producer_simps [simp]:
  "dq_pending (register_producer q w) = dq_pending q" "dq_capacity (register_producer q w) = dq_capacity q"
  by (simp_all add: register_producer_def)

lemma active_capabilities_cong:
  "cr_negotiated c' = cr_negotiated c \<Longrightarrow> cr_max_symbol_bytes c' = cr_max_symbol_bytes c \<Longrightarrow> cr_config c' = cr_config c
    \<Longrightarrow> active_capabilities c' = active_capabilities c"
  by (auto simp: active_capabilities_def recovery_capabilities_def split: option.split)

end
