(* ===== verification/Connection_Receiver.thy ===== *)
theory Connection_Receiver
  imports Connection_Recovery
begin

section \<open>The receiving half of a connection (src/recovery.rs)\<close>

text \<open>
  A received datagram is decoded, its records are reserved and dispatched to the flows they name, and it is given to the
  decoder, which may recover lost symbols whose records are dispatched the same way.  Records of a flow that is not registered
  yet wait in a bounded table for a limited time.  Every record carries a charge of the memory budget until it is stored by its flow or
  dropped.

  An operation takes and returns the connection, the budget and the flow states alive; \<open>now\<close> is the clock of the backend, the same
  throughout one call.  \<open>None\<close> is a failed \<open>expect\<close>.  A vector gets exactly the capacity it asks for, so that the branches for a larger one
  do not occur.  One call is one step: the driver task is the only caller of \<open>receive\<close>.
\<close>

record pending_source =
  ps_flow :: "nat option"
  ps_flow_id :: u64
  ps_offset :: nat
  ps_fin :: bool
  ps_data :: bytes
  ps_retained_bytes :: usize
  ps_charge :: "recovery_charge option"

text \<open>The size of a \<open>PendingSourceRecord\<close> on a 64-bit target.\<close>

definition size_of_pending_source :: usize where "size_of_pending_source = 88"

definition drop_datagrams :: "nat \<Rightarrow> recovery_world \<Rightarrow> recovery_world" where
  "drop_datagrams n w = w\<lparr>rw_conn := (rw_conn w)\<lparr>cr_counters := (cr_counters (rw_conn w))
     \<lparr>ct_dropped := ct_dropped (cr_counters (rw_conn w)) + word_of_nat n\<rparr>\<rparr>\<rparr>"

definition drop_datagram :: "recovery_world \<Rightarrow> recovery_world" where
  "drop_datagram w = drop_datagrams 1 w"

text \<open>Dropping values that own charges.\<close>

definition drop_all :: "recovery_charge list \<Rightarrow> mem_budget \<Rightarrow> mem_budget" where
  "drop_all cs b = fold drop_foreign cs b"

definition charges_of :: "pending_source list \<Rightarrow> recovery_charge list" where
  "charges_of rs = concat (map (\<lambda>r. case ps_charge r of None \<Rightarrow> [] | Some c \<Rightarrow> [c]) rs)"

definition drop_records :: "pending_source list \<Rightarrow> recovery_world \<Rightarrow> recovery_world" where
  "drop_records rs w = w\<lparr>rw_budget := drop_all (charges_of rs) (rw_budget w)\<rparr>"

subsection \<open>Flows\<close>

definition lookup_flow :: "recovery_world \<Rightarrow> u64 \<Rightarrow> nat option" where
  "lookup_flow w flow_id =
     (case map_of (cr_flows (rw_conn w)) flow_id of
        None \<Rightarrow> None
      | Some a \<Rightarrow> if rw_heap w a = None then None else Some a)"

text \<open>A record is handed to its flow with its charge; data that contradicts the flow resets it.\<close>

definition deliver ::
  "recovery_world \<Rightarrow> nat \<Rightarrow> nat \<Rightarrow> bytes \<Rightarrow> bool \<Rightarrow> recovery_charge \<Rightarrow> recovery_world option" where
  "deliver w a offset data fin charge =
     (case rw_heap w a of
        None \<Rightarrow> None
      | Some s \<Rightarrow>
          (case insert_bytes_precharged s (rw_budget w) offset data fin charge of
             None \<Rightarrow> None
           | Some (Inr _, s1, b) \<Rightarrow> Some (w\<lparr>rw_heap := (rw_heap w)(a \<mapsto> s1), rw_budget := b\<rparr>)
           | Some (Inl e, s1, b) \<Rightarrow>
               map_option (\<lambda>s2. drop_datagram (w\<lparr>rw_heap := (rw_heap w)(a \<mapsto> s2), rw_budget := b\<rparr>))
                 (if e = Capacity \<or> e = RangeCapacity then Some s1 else reject_protocol s1)))"

definition add_pre_open_count :: "u32 \<Rightarrow> recovery_world \<Rightarrow> recovery_world" where
  "add_pre_open_count n w = w\<lparr>rw_conn := (rw_conn w)\<lparr>cr_pre_open_count := cr_pre_open_count (rw_conn w) + n\<rparr>\<rparr>"

fun register_records :: "nat \<Rightarrow> nat \<Rightarrow> pre_open_record list \<Rightarrow> recovery_world \<Rightarrow> recovery_world option" where
  "register_records now a [] w = Some w"
| "register_records now a (r # rs) w =
     (if po_expires_at r \<le> now
      then register_records now a rs (drop_datagram (w\<lparr>rw_budget := drop_foreign (po_charge r) (rw_budget w)\<rparr>))
      else case deliver w a (po_offset r) (po_data r) (po_fin r) (po_charge r) of
        None \<Rightarrow> None
      | Some w1 \<Rightarrow> register_records now a rs w1)"

definition register_flow :: "recovery_world \<Rightarrow> nat \<Rightarrow> u64 \<Rightarrow> nat \<Rightarrow> recovery_world option" where
  "register_flow w now flow_id a =
     (let c = rw_conn w;
          records = (case map_of (cr_pre_open c) flow_id of None \<Rightarrow> [] | Some rs \<Rightarrow> rs) in
      if 2 ^ 32 \<le> length records then None
      else register_records now a records
        (w\<lparr>rw_conn := c\<lparr>cr_flows := AList.update flow_id a (cr_flows c),
             cr_pre_open := filter (\<lambda>(k, _). k \<noteq> flow_id) (cr_pre_open c),
             cr_pre_open_count := cr_pre_open_count c - word_of_nat (length records)\<rparr>\<rparr>))"

subsection \<open>Reservations\<close>

definition pre_open_records :: "(u64 \<times> pre_open_record list) list \<Rightarrow> pre_open_record list" where
  "pre_open_records m = concat (map snd m)"

definition prune_pre_open :: "nat \<Rightarrow> (u64 \<times> pre_open_record list) list \<Rightarrow> (u64 \<times> pre_open_record list) list" where
  "prune_pre_open now m =
     filter (\<lambda>(_, rs). rs \<noteq> []) (map (\<lambda>(k, rs). (k, filter (\<lambda>r. now < po_expires_at r) rs)) m)"

definition expired_records :: "nat \<Rightarrow> (u64 \<times> pre_open_record list) list \<Rightarrow> pre_open_record list" where
  "expired_records now m = filter (\<lambda>r. po_expires_at r \<le> now) (pre_open_records m)"

definition reserve_bounded :: "u32 \<Rightarrow> u32 \<Rightarrow> u32 \<Rightarrow> u32 option" where
  "reserve_bounded current limit amount =
     (if amount = 0 then Some current
      else if unat current + unat amount < 2 ^ 32 \<and> current + amount \<le> limit then Some (current + amount) else None)"

definition awaiting :: "pending_source list \<Rightarrow> nat" where
  "awaiting rs = length (filter (\<lambda>r. ps_flow r = None) rs)"

definition record_memory :: "pending_source \<Rightarrow> usize" where
  "record_memory r = (if ps_flow r = None then length (ps_data r) else ps_retained_bytes r)"

fun uncharged_bytes :: "usize \<Rightarrow> pending_source list \<Rightarrow> usize option" where
  "uncharged_bytes n [] = Some n"
| "uncharged_bytes n (r # rs) =
     (if ps_charge r \<noteq> None then uncharged_bytes n rs
      else case checked_add n (record_memory r) of None \<Rightarrow> None | Some m \<Rightarrow> uncharged_bytes m rs)"

fun split_charges :: "recovery_charge \<Rightarrow> pending_source list \<Rightarrow> bool \<times> pending_source list \<times> recovery_charge" where
  "split_charges charge [] = (True, [], charge)"
| "split_charges charge (r # rs) =
     (if ps_charge r \<noteq> None then (let (ok, rs', rest) = split_charges charge rs in (ok, r # rs', rest))
      else case charge_split charge (record_memory r) of
        Inl _ \<Rightarrow> (False, r # rs, charge)
      | Inr (rest, piece) \<Rightarrow>
          (let (ok, rs', rest') = split_charges rest rs in
           (ok, r\<lparr>ps_retained_bytes := record_memory r, ps_charge := Some piece\<rparr> # rs', rest')))"

text \<open>Expired records go first; the records of unknown flows need room in the table; then every record gets its charge.\<close>

definition prune_world :: "nat \<Rightarrow> recovery_world \<Rightarrow> recovery_world" where
  "prune_world now w =
     (let m = cr_pre_open (rw_conn w); gone = expired_records now m;
          w1 = w\<lparr>rw_conn := (rw_conn w)\<lparr>cr_pre_open := prune_pre_open now m\<rparr>, rw_budget := drop_all (map po_charge gone) (rw_budget w)\<rparr> in
      if gone = [] then w1 else drop_datagrams (length gone) (add_pre_open_count (- word_of_nat (length gone)) w1))"

definition reserve_source_records ::
  "recovery_world \<Rightarrow> nat \<Rightarrow> pending_source list \<Rightarrow> (bool \<times> pending_source list \<times> recovery_world) option" where
  "reserve_source_records w now records =
     (if 2 ^ 32 \<le> length (expired_records now (cr_pre_open (rw_conn w))) then None
      else
        let w1 = prune_world now w;
            rs = map (\<lambda>r. r\<lparr>ps_flow := lookup_flow w1 (ps_flow_id r)\<rparr>) records in
        if 2 ^ 32 \<le> awaiting rs then None
        else case reserve_bounded (cr_pre_open_count (rw_conn w1)) (ucast (rc_pre_open_symbols (cr_config (rw_conn w1)))) (word_of_nat (awaiting rs)) of
          None \<Rightarrow> Some (False, rs, w1)
        | Some n \<Rightarrow>
            let w2 = w1\<lparr>rw_conn := (rw_conn w1)\<lparr>cr_pre_open_count := n\<rparr>\<rparr>;
                undo = add_pre_open_count (- word_of_nat (awaiting rs)) in
            (case uncharged_bytes 0 rs of
               None \<Rightarrow> Some (False, rs, undo w2)
             | Some bytes \<Rightarrow>
                 (case charge_reserve (rw_budget w2) bytes of
                    Inl _ \<Rightarrow> Some (False, rs, undo w2)
                  | Inr (charge, b) \<Rightarrow>
                      let (ok, rs', rest) = split_charges charge rs;
                          w3 = w2\<lparr>rw_budget := drop_foreign rest b\<rparr> in
                      Some (ok, rs', if ok then w3 else undo w3))))"

definition release_source_reservations :: "pending_source list \<Rightarrow> recovery_world \<Rightarrow> recovery_world" where
  "release_source_reservations rs w = add_pre_open_count (- word_of_nat (awaiting rs)) w"

subsection \<open>Dispatch\<close>

definition push_pre_open ::
  "u64 \<Rightarrow> pre_open_record \<Rightarrow> (u64 \<times> pre_open_record list) list \<Rightarrow> (u64 \<times> pre_open_record list) list" where
  "push_pre_open flow_id r m =
     AList.update flow_id ((case map_of m flow_id of None \<Rightarrow> [] | Some rs \<Rightarrow> rs) @ [r]) m"

fun dispatch_reserved_source :: "nat \<Rightarrow> pending_source list \<Rightarrow> recovery_world \<Rightarrow> recovery_world option" where
  "dispatch_reserved_source now [] w = Some w"
| "dispatch_reserved_source now (r # rs) w =
     (case ps_charge r of
        None \<Rightarrow> None
      | Some charge \<Rightarrow>
          (case ps_flow r of
             Some a \<Rightarrow>
               (case deliver w a (ps_offset r) (ps_data r) (ps_fin r) charge of
                  None \<Rightarrow> None
                | Some w1 \<Rightarrow> dispatch_reserved_source now rs w1)
           | None \<Rightarrow>
               (case lookup_flow w (ps_flow_id r) of
                  None \<Rightarrow>
                    dispatch_reserved_source now rs (w\<lparr>rw_conn := (rw_conn w)\<lparr>cr_pre_open :=
                      push_pre_open (ps_flow_id r) \<lparr>po_offset = ps_offset r, po_fin = ps_fin r, po_data = ps_data r, po_charge = charge,
                        po_expires_at = now + PRE_OPEN_TTL\<rparr> (cr_pre_open (rw_conn w))\<rparr>\<rparr>)
                | Some a \<Rightarrow>
                    (case deliver (add_pre_open_count (- 1) w) a (ps_offset r) (ps_data r) (ps_fin r) charge of
                       None \<Rightarrow> None
                     | Some w1 \<Rightarrow> dispatch_reserved_source now rs w1))))"

definition pending_of :: "usize \<Rightarrow> recovery_charge option \<Rightarrow> source_record \<Rightarrow> pending_source" where
  "pending_of retained charge r =
     \<lparr>ps_flow = None, ps_flow_id = sr_flow_id r, ps_offset = unat (sr_offset r), ps_fin = sr_fin r, ps_data = sr_data r,
      ps_retained_bytes = retained, ps_charge = charge\<rparr>"

text \<open>The records of a recovered symbol, each with a piece of the charge of the batch.\<close>

fun charge_recovered :: "recovered_batch \<Rightarrow> source_record list \<Rightarrow> bool \<times> pending_source list \<times> recovered_batch" where
  "charge_recovered batch [] = (True, [], batch)"
| "charge_recovered batch (r # rs) =
     (case take_dispatch_charge batch (length (sr_data r)) of
        Inl _ \<Rightarrow> (False, [], batch)
      | Inr (charge, batch1) \<Rightarrow>
          (let (ok, ps, batch2) = charge_recovered batch1 rs in (ok, pending_of (length (sr_data r)) (Some charge) r # ps, batch2)))"

definition commit_symbol ::
  "nat \<Rightarrow> recovered_source \<Rightarrow> pending_source list \<Rightarrow> recovered_batch \<Rightarrow> recovery_world \<Rightarrow> (recovered_batch \<times> recovery_world) option" where
  "commit_symbol now source records batch w =
     (case reserve_source_records w now records of
        None \<Rightarrow> None
      | Some (False, rs, w1) \<Rightarrow> Some (batch, drop_datagram (drop_records rs w1))
      | Some (True, rs, w1) \<Rightarrow>
          (case take_retained_charge batch (rs_retained_bytes source) of
             Inl _ \<Rightarrow> Some (batch, drop_datagram (drop_records rs (release_source_reservations rs w1)))
           | Inr (charge, batch1) \<Rightarrow>
               (case commit_recovered_precharged (cr_decoder (rw_conn w1)) (rw_budget w1) (rs_symbol_id source)
                   \<lparr>bh_data = rs_bytes source, bh_unique = True, bh_capacity = rs_retained_bytes source\<rparr> charge of
                  (Inl _, d, b) \<Rightarrow>
                    Some (batch1, drop_datagram (drop_records rs (release_source_reservations rs
                      (w1\<lparr>rw_conn := (rw_conn w1)\<lparr>cr_decoder := d\<rparr>, rw_budget := b\<rparr>))))
                | (Inr _, d, b) \<Rightarrow>
                    map_option (\<lambda>w2. (batch1, w2)) (dispatch_reserved_source now rs
                      (w1\<lparr>rw_conn := (rw_conn w1)\<lparr>cr_decoder := d,
                         cr_counters := (cr_counters (rw_conn w1))\<lparr>ct_recovered := ct_recovered (cr_counters (rw_conn w1)) + 1\<rparr>\<rparr>,
                         rw_budget := b\<rparr>)))))"

text \<open>The symbols left in the batch, the last one first.  The records of a decoded source decode again, so that the error of
  \<open>source_records\<close> is dead code; it drops the symbol before a record is charged.\<close>

fun dispatch_symbols :: "nat \<Rightarrow> nat \<Rightarrow> recovered_batch \<Rightarrow> recovery_world \<Rightarrow> recovery_world option" where
  "dispatch_symbols now 0 batch w = Some (w\<lparr>rw_budget := drop_foreign (rb_scratch batch) (rw_budget w)\<rparr>)"
| "dispatch_symbols now (Suc n) batch w =
     (case batch_pop batch of
        (None, batch1) \<Rightarrow> Some (w\<lparr>rw_budget := drop_foreign (rb_scratch batch1) (rw_budget w)\<rparr>)
      | (Some source, batch1) \<Rightarrow>
          (case rbind (decode_source (rs_bytes source) MAX_SOURCE_RECORDS (cr_max_symbol_bytes (rw_conn w))) source_records of
             Inl _ \<Rightarrow> dispatch_symbols now n batch1 (drop_datagram w)
           | Inr records \<Rightarrow>
               (case charge_recovered batch1 records of
                  (False, ps, batch2) \<Rightarrow> dispatch_symbols now n batch2 (drop_datagram (drop_records ps w))
                | (True, ps, batch2) \<Rightarrow>
                    (case commit_symbol now source ps batch2 w of
                       None \<Rightarrow> None
                     | Some (batch3, w1) \<Rightarrow> dispatch_symbols now n batch3 w1))))"

fun symbol_bytes :: "usize \<Rightarrow> recovered_source list \<Rightarrow> usize option" where
  "symbol_bytes n [] = Some n"
| "symbol_bytes n (s # ss) = (case checked_add n (length (rs_bytes s)) of None \<Rightarrow> None | Some m \<Rightarrow> symbol_bytes m ss)"

definition dispatch_recovered :: "nat \<Rightarrow> recovered_batch \<Rightarrow> recovery_world \<Rightarrow> recovery_world option" where
  "dispatch_recovered now batch w =
     (let abandon = w\<lparr>rw_budget := drop_foreign (rb_scratch batch) (rw_budget w)\<rparr> in
      if rb_items batch = [] then Some abandon
      else case (case symbol_bytes 0 (rb_items batch) of None \<Rightarrow> None
                 | Some n \<Rightarrow> checked_add n (saturating_mul MAX_SOURCE_RECORDS size_of_pending_source)) of
        None \<Rightarrow> Some (drop_datagram abandon)
      | Some bytes \<Rightarrow>
          (case reserve_dispatch batch bytes (rw_budget w) of
             Inl _ \<Rightarrow> Some (drop_datagram abandon)
           | Inr (batch1, b) \<Rightarrow> dispatch_symbols now (length (rb_items batch1)) batch1 (w\<lparr>rw_budget := b\<rparr>)))"

subsection \<open>Reception\<close>

definition decoder_work :: "connection_recovery \<Rightarrow> usize" where
  "decoder_work c = unat (rc_work_budget (cr_config c)) * cr_max_symbol_bytes c"

text \<open>The records are returned with the charges they still own.\<close>

definition accept_source ::
  "recovery_world \<Rightarrow> nat \<Rightarrow> u32 \<Rightarrow> bytes_handle \<Rightarrow> pending_source list \<Rightarrow> (pending_source list \<times> recovery_world) option" where
  "accept_source w now symbol_id datagram records =
     (case source_status (cr_decoder (rw_conn w)) symbol_id (bh_data datagram) of
        None \<Rightarrow> None
      | Some (Inr Duplicate) \<Rightarrow> Some (records, w)
      | Some (Inl _) \<Rightarrow> Some (records, drop_datagram w)
      | Some (Inr New) \<Rightarrow>
          (case reserve_source_records w now records of
             None \<Rightarrow> None
           | Some (False, rs, w1) \<Rightarrow> Some (rs, drop_datagram w1)
           | Some (True, rs, w1) \<Rightarrow>
               let c = rw_conn w1 in
               (case source_status (cr_decoder c) symbol_id (bh_data datagram) of
                  None \<Rightarrow> None
                | Some (Inr Duplicate) \<Rightarrow> Some (rs, release_source_reservations rs w1)
                | Some (Inl _) \<Rightarrow> Some (rs, drop_datagram (release_source_reservations rs w1))
                | Some (Inr New) \<Rightarrow>
                    (case add_source (cr_decoder c) (rw_budget w1) symbol_id datagram (decoder_work c) of
                       None \<Rightarrow> None
                     | Some (Inl _, d, b) \<Rightarrow>
                         Some (rs, drop_datagram (release_source_reservations rs (w1\<lparr>rw_conn := c\<lparr>cr_decoder := d\<rparr>, rw_budget := b\<rparr>)))
                     | Some (Inr batch, d, b) \<Rightarrow>
                         (case dispatch_reserved_source now rs
                             (w1\<lparr>rw_conn := c\<lparr>cr_decoder := d,
                                cr_counters := (cr_counters c)\<lparr>ct_source_received := ct_source_received (cr_counters c) + 1\<rparr>\<rparr>,
                                rw_budget := b\<rparr>) of
                            None \<Rightarrow> None
                          | Some w2 \<Rightarrow> map_option (\<lambda>w3. ([], w3)) (dispatch_recovered now batch w2))))))"

fun split_records :: "recovery_charge \<Rightarrow> source_record list \<Rightarrow> bool \<times> pending_source list \<times> recovery_charge" where
  "split_records charge [] = (True, [], charge)"
| "split_records charge (r # rs) =
     (case charge_split charge (length (sr_data r)) of
        Inl _ \<Rightarrow> (False, [], charge)
      | Inr (rest, piece) \<Rightarrow>
          (let (ok, ps, rest') = split_records rest rs in (ok, pending_of (length (sr_data r)) (Some piece) r # ps, rest')))"

text \<open>The decoder gets a clone of the datagram, which is not the only handle of its storage.\<close>

definition receive_source :: "recovery_world \<Rightarrow> nat \<Rightarrow> bytes_handle \<Rightarrow> recovery_world option" where
  "receive_source w now datagram =
     (let c = rw_conn w; shared = datagram\<lparr>bh_unique := False\<rparr> in
      case decode_source (bh_data datagram) MAX_SOURCE_RECORDS (cr_max_symbol_bytes c) of
        Inl _ \<Rightarrow> Some (drop_datagram w)
      | Inr source \<Rightarrow>
          (case single_record source of
             Some r \<Rightarrow>
               map_option (\<lambda>(rs, w'). drop_records rs w')
                 (accept_source w now (sd_symbol_id source) shared
                   [pending_of (cr_max_symbol_bytes c + REPAIR_DATAGRAM_HEADER_BYTES) None r])
           | None \<Rightarrow>
               (case (case checked_mul (sd_record_count source) size_of_pending_source of None \<Rightarrow> None
                      | Some n \<Rightarrow> checked_add n (length (bh_data datagram))) of
                  None \<Rightarrow> Some (drop_datagram w)
                | Some bytes \<Rightarrow>
                    (case charge_reserve (rw_budget w) bytes of
                       Inl _ \<Rightarrow> Some (drop_datagram w)
                     | Inr (charge, b) \<Rightarrow>
                         let w1 = w\<lparr>rw_budget := b\<rparr> in
                         (case source_records source of
                            Inl _ \<Rightarrow> Some (drop_datagram (w1\<lparr>rw_budget := drop_foreign charge b\<rparr>))
                          | Inr records \<Rightarrow>
                              (case split_records charge records of
                                 (False, ps, rest) \<Rightarrow>
                                   Some (drop_datagram (drop_records ps (w1\<lparr>rw_budget := drop_foreign rest b\<rparr>)))
                               | (True, ps, rest) \<Rightarrow>
                                   map_option (\<lambda>(rs, w'). let w2 = drop_records rs w' in w2\<lparr>rw_budget := drop_foreign rest (rw_budget w2)\<rparr>)
                                     (accept_source w1 now (sd_symbol_id source) shared ps)))))))"

text \<open>\<open>True\<close>: the connection is closed because the decoder has no room for another equation.\<close>

definition receive :: "recovery_world \<Rightarrow> nat \<Rightarrow> bytes_handle \<Rightarrow> (bool \<times> recovery_world) option" where
  "receive w now datagram =
     (case bh_data datagram of
        [] \<Rightarrow> Some (False, drop_datagram w)
      | kind # _ \<Rightarrow>
          if kind = SOURCE_DATAGRAM then map_option (\<lambda>w'. (False, w')) (receive_source w now datagram)
          else if kind = REPAIR_DATAGRAM then
            (let c = rw_conn w in
             case decode_repair (bh_data datagram) (cr_max_symbol_bytes c) of
               Inl _ \<Rightarrow> Some (False, drop_datagram w)
             | Inr f \<Rightarrow>
                 (case active_capabilities c of
                    None \<Rightarrow> None
                  | Some caps \<Rightarrow>
                      if \<not> repair_span_is_negotiated (rp_span f) (cap_max_span caps) then Some (False, drop_datagram w)
                      else (case add_repair (cr_decoder c) (rw_budget w) (rp_first_symbol_id f) (rp_span f) (rp_repair_id f) (rp_seed f)
                          (rp_coded f) (decoder_work c) of
                        None \<Rightarrow> None
                      | Some (Inl e, d, b) \<Rightarrow>
                          let w1 = w\<lparr>rw_conn := c\<lparr>cr_decoder := d\<rparr>, rw_budget := b\<rparr> in
                          Some (if e = RowCapacity then (True, w1) else (False, drop_datagram w1))
                      | Some (Inr batch, d, b) \<Rightarrow>
                          map_option (\<lambda>w'. (False, w'))
                            (dispatch_recovered now batch (w\<lparr>rw_conn := c\<lparr>cr_decoder := d\<rparr>, rw_budget := b\<rparr>)))))
          else Some (False, drop_datagram w))"

end
