(* ===== verification/Connection_Accounting.thy ===== *)
theory Connection_Accounting
  imports Connection_Receiver
begin

section \<open>Accounting of the receiving half (src/recovery.rs)\<close>

text \<open>
  What the receiving half of a connection promises of one call.  The locale \<open>delivery\<close> states what it relies on of the symbols that arrive and of the
  decoder; inside it, the invariant \<open>recv_inv\<close> says that the memory budget is what the decoder, the flows and the table of early records
  hold, that the table is counted exactly, and that only acceptable octets are stored.  Every operation, from the reservation of a record to
  the reception of a datagram, ends without a failed \<open>expect\<close> and keeps it.
\<close>

subsection \<open>Memory\<close>

lemma acc_trans: "acc b0 b n \<Longrightarrow> acc b b' m \<Longrightarrow> acc b0 b' m"
  by (simp add: acc_def)

lemma acc_drop_foreign: "acc b0 b (n + ch_bytes c) \<Longrightarrow> ch_budget c = mb_id b0 \<Longrightarrow> acc b0 (drop_foreign c b) n"
  using acc_drop [of b0 b n c] by (simp add: drop_foreign_def belongs_to_def acc_def)

lemma acc_drop_all:
  "acc b0 b (n + sum_list (map ch_bytes cs)) \<Longrightarrow> list_all (\<lambda>c. ch_budget c = mb_id b0) cs \<Longrightarrow> acc b0 (drop_all cs b) n"
  unfolding drop_all_def
proof (induction cs arbitrary: b)
  case (Cons c cs)
  have "acc b0 (drop_foreign c b) (n + sum_list (map ch_bytes cs))"
    using acc_drop_foreign [of b0 b "n + sum_list (map ch_bytes cs)" c] Cons.prems by (simp add: algebra_simps)
  then show ?case using Cons by simp
qed simp

definition flow_mem :: "flow_shared \<Rightarrow> nat" where
  "flow_mem s = chunk_memory (rx_chunks (fs_receive s))"

definition heap_mem :: "(nat \<Rightarrow> flow_shared option) \<Rightarrow> nat" where
  "heap_mem h = (\<Sum>a \<in> dom h. flow_mem (the (h a)))"

lemma heap_mem_upd:
  assumes "finite (dom h)" and "h a = Some s"
  shows "heap_mem (h(a \<mapsto> s')) + flow_mem s = heap_mem h + flow_mem s'"
proof -
  have d: "dom h = insert a (dom h - {a})" "dom (h(a \<mapsto> s')) = insert a (dom h - {a})" using assms(2) by auto
  have "(\<Sum>x \<in> dom h - {a}. flow_mem (the ((h(a \<mapsto> s')) x))) = (\<Sum>x \<in> dom h - {a}. flow_mem (the (h x)))"
    by (rule sum.cong) auto
  moreover have "a \<in> dom h" using assms(2) by auto
  ultimately show ?thesis unfolding heap_mem_def d(2) using sum.remove [OF assms(1), of a "\<lambda>x. flow_mem (the (h x))"] assms
    by (subst sum.insert) auto
qed

lemma heap_mem_new: "finite (dom h) \<Longrightarrow> h a = None \<Longrightarrow> heap_mem (h(a \<mapsto> s)) = heap_mem h + flow_mem s"
proof -
  assume "finite (dom h)" "h a = None"
  then have a: "a \<notin> dom h" "finite (dom h)" by auto
  have "(\<Sum>x \<in> dom h. flow_mem (the ((h(a \<mapsto> s)) x))) = (\<Sum>x \<in> dom h. flow_mem (the (h x)))"
    by (rule sum.cong) (use a in auto)
  then show ?thesis unfolding heap_mem_def using a by simp
qed

definition pre_open_mem :: "(u64 \<times> pre_open_record list) list \<Rightarrow> nat" where
  "pre_open_mem m = sum_list (map (ch_bytes \<circ> po_charge) (pre_open_records m))"

definition record_mem :: "pending_source list \<Rightarrow> nat" where
  "record_mem rs = sum_list (map ch_bytes (charges_of rs))"

lemma charges_of_simps [simp]:
  "charges_of [] = []" "charges_of (r # rs) = (case ps_charge r of None \<Rightarrow> [] | Some c \<Rightarrow> [c]) @ charges_of rs"
  by (simp_all add: charges_of_def)

lemma record_mem_simps [simp]:
  "record_mem [] = 0" "record_mem (r # rs) = (case ps_charge r of None \<Rightarrow> 0 | Some c \<Rightarrow> ch_bytes c) + record_mem rs"
  by (simp_all add: record_mem_def split: option.split)

lemma awaiting_simps [simp]:
  "awaiting [] = 0" "awaiting (r # rs) = (if ps_flow r = None then 1 else 0) + awaiting rs"
  by (simp_all add: awaiting_def)

subsection \<open>The table of early records\<close>

lemma pre_open_records_simps [simp]: "pre_open_records [] = []" "pre_open_records ((k, rs) # m) = rs @ pre_open_records m"
  by (simp_all add: pre_open_records_def)

lemma pre_open_push:
  "mset (pre_open_records (push_pre_open k r m)) = add_mset r (mset (pre_open_records m))"
proof -
  have "mset (pre_open_records (AList.update k ((case map_of m k of None \<Rightarrow> [] | Some rs \<Rightarrow> rs) @ [r]) m))
      = add_mset r (mset (pre_open_records m))"
    by (induction m) auto
  then show ?thesis by (simp add: push_pre_open_def)
qed

lemma push_keys: "distinct (map fst m) \<Longrightarrow> distinct (map fst (push_pre_open k r m))"
  by (simp add: push_pre_open_def distinct_update)

lemma set_push_pre_open:
  assumes "distinct (map fst m)" and "(j, rs) \<in> set (push_pre_open k r m)" and "x \<in> set rs"
  shows "(j = k \<and> x = r) \<or> (\<exists>rs'. (j, rs') \<in> set m \<and> x \<in> set rs')"
proof -
  have "map_of (push_pre_open k r m) j = Some rs" using assms push_keys [OF assms(1)] by (simp add: map_of_eq_Some_iff)
  then show ?thesis using assms(3)
    by (auto simp: push_pre_open_def update_conv split: if_splits option.splits dest: map_of_SomeD)
qed

lemma prune_records: "pre_open_records (prune_pre_open now m) = filter (\<lambda>r. now < po_expires_at r) (pre_open_records m)"
  by (induction m) (auto simp: prune_pre_open_def)

lemma prune_keys: "distinct (map fst m) \<Longrightarrow> distinct (map fst (prune_pre_open now m))"
  by (induction m) (force simp: prune_pre_open_def)+

lemma set_prune: "(j, rs) \<in> set (prune_pre_open now m) \<Longrightarrow> x \<in> set rs \<Longrightarrow> \<exists>rs'. (j, rs') \<in> set m \<and> x \<in> set rs'"
  by (force simp: prune_pre_open_def)

lemma take_key:
  "distinct (map fst m) \<Longrightarrow> mset (pre_open_records m)
    = mset (case map_of m k of None \<Rightarrow> [] | Some rs \<Rightarrow> rs) + mset (pre_open_records (filter (\<lambda>(j, _). j \<noteq> k) m))"
proof (induction m)
  case (Cons p m)
  obtain j rs where p: "p = (j, rs)" by (cases p)
  have "filter (\<lambda>(i, _). i \<noteq> j) m = m" using Cons.prems p by (auto simp: filter_id_conv image_iff)
  then show ?case using Cons p by auto
qed simp

subsection \<open>A flow keeps its promises\<close>

text \<open>What the connection relies on of a flow: its reassembler and its table of received offsets are in order, and the counters of its
  send queue allow a reset.\<close>

definition flow_ok :: "nat \<Rightarrow> flow_shared \<Rightarrow> bool" where
  "flow_ok owner s \<longleftrightarrow> rx_inv owner (fs_receive s) \<and> ack_inv (fs_received s)
     \<and> outbound_bytes (fs_outbound s) \<le> fs_retained_bytes s \<and> length (fs_outbound s) \<le> fs_retained_chunks s"

lemma wake_receive [simp]:
  "fs_receive (wake_read s) = fs_receive s" "fs_receive (wake_write s) = fs_receive s" "fs_receive (wake_task s) = fs_receive s"
  "fs_received (wake_read s) = fs_received s" "fs_received (wake_write s) = fs_received s" "fs_received (wake_task s) = fs_received s"
  by (simp_all add: wake_read_def wake_write_def wake_task_def split: option.splits)

lemma flow_ok_reject:
  assumes "flow_ok owner s"
  shows "\<exists>s'. reject_protocol s = Some s' \<and> flow_ok owner s' \<and> fs_receive s' = fs_receive s"
  using assms by (auto simp: reject_protocol_def request_reset_def flow_ok_def outbound_bytes_def checked_sub_def)

lemma validate_insert_ok: "validate_insert a rng = Inr u \<Longrightarrow> \<exists>a'. ack_insert a rng = Inr a'"
  by (auto simp: ack_insert_def Let_def split: prod.splits)

lemma insert_flow_ok:
  assumes ok: "flow_ok (mb_id b) s" and a: "acc b0 b (n + flow_mem s + (case charge of None \<Rightarrow> 0 | Some c \<Rightarrow> ch_bytes c))"
    and own: "\<forall>c \<in> set_option charge. ch_budget c = mb_id b"
  shows "\<exists>r s' b'. insert_bytes_with_reservation s b offset bs fin charge = Some (r, s', b') \<and> flow_ok (mb_id b) s' \<and> acc b0 b' (n + flow_mem s')
    \<and> (fs_receive s' = fs_receive s \<or> (\<exists>m b1 b2. insert_result (fs_receive s) b1 m offset bs fin (Inr (), fs_receive s', b2)))"
proof -
  let ?r = "fs_receive s"
  have early: "acc b0 (drop_charge charge b) (n + flow_mem s)"
    using a own acc_drop_foreign [of b0 b "n + flow_mem s"] by (cases charge) (auto simp: drop_charge_def acc_def)
  let ?I = "case charge of Some c \<Rightarrow> insert_record_precharged ?r b offset bs fin c | None \<Rightarrow> insert_record ?r b offset bs fin"
  have h: "holds b (n + chunk_memory (rx_chunks ?r) + (case charge of None \<Rightarrow> 0 | Some c \<Rightarrow> ch_bytes c))"
    using a by (simp add: acc_def flow_mem_def)
  have res: "insert_result ?r b n offset bs fin ?I"
  proof (cases charge)
    case None
    then show ?thesis using insert_record_spec [of b ?r b n offset bs fin] ok h acc_refl by (auto simp: flow_ok_def)
  next
    case (Some c)
    then show ?thesis using insert_record_with_reservation_spec [of b ?r n c offset bs fin True] ok h own
      by (simp add: flow_ok_def insert_record_precharged_def belongs_to_def)
  qed
  obtain out r' b' where I: "?I = (out, r', b')" by (metis prod.exhaust)
  have r': "rx_inv (mb_id b) r'" "acc b0 b' (n + chunk_memory (rx_chunks r'))"
    using res a acc_trans unfolding I insert_result_def by auto
  show ?thesis
  proof (cases "checked_add offset (length bs)")
    case None
    then show ?thesis using ok early by (auto simp: insert_bytes_with_reservation_def)
  next
    case (Some e)
    show ?thesis
    proof (cases "fs_max_receive_offset s < e \<or> (\<exists>x. validate_insert (fs_received s) (offset, e) = Inl x)")
      case True
      then show ?thesis using ok early unfolding insert_bytes_with_reservation_def Some option.case by auto
    next
      case False
      then obtain u where v: "validate_insert (fs_received s) (offset, e) = Inr u"
        by (cases "validate_insert (fs_received s) (offset, e)") auto
      obtain a' where a': "ack_insert (fs_received s) (offset, e) = Inr a'" using validate_insert_ok [OF v] by blast
      have "ack_inv a'" using ack_insert_spec(1) [OF _ a'] ok by (simp add: flow_ok_def)
      then show ?thesis using False v a' I ok r' res unfolding insert_bytes_with_reservation_def Some option.case
        by (cases out) (auto simp: Let_def flow_ok_def flow_mem_def insert_result_def)
    qed
  qed
qed

lemma read_flow_ok:
  assumes ok: "flow_ok (mb_id b) s" and a: "acc b0 b (n + flow_mem s)" and r: "flow_read s b wanted wk = (out, s', b')"
  shows "flow_ok (mb_id b) s' \<and> acc b0 b' (n + flow_mem s')
    \<and> (\<exists>bs. rx_next_offset (fs_receive s') = rx_next_offset (fs_receive s) + length bs
        \<and> (\<forall>i < length bs. stream (fs_receive s) (rx_next_offset (fs_receive s) + i) = Some (bs ! i))
        \<and> (out = Inr (Some bs) \<or> bs = [] \<and> (\<forall>x. out \<noteq> Inr (Some x)))
        \<and> (\<forall>x. stream (fs_receive s') x = None \<or> stream (fs_receive s') x = stream (fs_receive s) x))"
proof (cases "fs_error s")
  case (Some e)
  then show ?thesis using assms by (intro conjI exI [of _ "[]"]) (auto simp: flow_read_def)
next
  case None
  obtain bs r' b1 where rd: "rx_read (fs_receive s) b wanted = (bs, r', b1)" by (metis prod.exhaust)
  note sp = rx_read_spec [OF _ a [unfolded flow_mem_def] rd]
  have s': "fs_receive s' = r'" "fs_received s' = fs_received s" "fs_outbound s' = fs_outbound s"
      "fs_retained_bytes s' = fs_retained_bytes s" "fs_retained_chunks s' = fs_retained_chunks s" "b' = b1"
      "out = Inr (Some bs) \<or> bs = [] \<and> out = Inr None"
    using r None rd by (auto simp: flow_read_def Let_def split: if_splits)
  then show ?thesis using sp ok by (intro conjI exI [of _ bs]) (auto simp: flow_ok_def flow_mem_def)
qed

lemma acknowledge_flow_ok:
  assumes ok: "flow_ok (mb_id b) s" and a: "acc b0 b (n + flow_mem s)" and r: "acknowledge_consumed (fs_receive s) b contiguous = (r', b')"
  shows "flow_ok (mb_id b) (s\<lparr>fs_receive := r'\<rparr>) \<and> acc b0 b' (n + flow_mem (s\<lparr>fs_receive := r'\<rparr>))
    \<and> rx_next_offset r' = rx_next_offset (fs_receive s) \<and> (\<forall>x. stream r' x = None \<or> stream r' x = stream (fs_receive s) x)"
  using acknowledge_consumed_spec [OF _ a [unfolded flow_mem_def] r] ok by (auto simp: flow_ok_def flow_mem_def)

subsection \<open>The contract of a delivery\<close>

text \<open>
  \<open>octet f x y\<close>: octet \<open>x\<close> of flow \<open>f\<close> may be \<open>y\<close>.  A receiver is handed symbols and equations; the records of an acceptable symbol hold acceptable octets,
  and a decoder in a good state only recovers acceptable symbols.
\<close>

locale delivery =
  fixes max_symbol :: nat
    and octet :: "u64 \<Rightarrow> nat \<Rightarrow> u8 \<Rightarrow> bool"
    and symbol :: "u32 \<Rightarrow> bytes \<Rightarrow> bool"
    and equation :: "repair_datagram \<Rightarrow> bool"
    and good :: "decoder \<Rightarrow> bool"
  assumes symbol_octet: "symbol j bs \<Longrightarrow> decode_source bs MAX_SOURCE_RECORDS max_symbol = Inr s \<Longrightarrow> source_records s = Inr rs
      \<Longrightarrow> x \<in> set rs \<Longrightarrow> i < length (sr_data x) \<Longrightarrow> octet (sr_flow_id x) (unat (sr_offset x) + i) (sr_data x ! i)"
    and good_source: "good d \<Longrightarrow> dec_inv d \<Longrightarrow> symbol j (bh_data src) \<Longrightarrow> handle_ok src
      \<Longrightarrow> add_source d b j src wb = Some (res, d', b')
      \<Longrightarrow> good d' \<and> (\<forall>batch. res = Inr batch \<longrightarrow> (\<forall>s \<in> set (rb_items batch). symbol (rs_symbol_id s) (rs_bytes s)))"
    and good_repair: "good d \<Longrightarrow> dec_inv d \<Longrightarrow> equation q
      \<Longrightarrow> add_repair d b (rp_first_symbol_id q) (rp_span q) (rp_repair_id q) (rp_seed q) (rp_coded q) wb = Some (res, d', b')
      \<Longrightarrow> good d' \<and> (\<forall>batch. res = Inr batch \<longrightarrow> (\<forall>s \<in> set (rb_items batch). symbol (rs_symbol_id s) (rs_bytes s)))"
    and good_commit: "good d \<Longrightarrow> dec_inv d \<Longrightarrow> symbol j (bh_data src) \<Longrightarrow> handle_ok src
      \<Longrightarrow> commit_recovered_precharged d b j src c = (res0, d', b') \<Longrightarrow> good d'"

text \<open>What a step of the receiver leaves alone: which flows are alive, how far they have been read, and what was negotiated.\<close>

definition positions :: "recovery_world \<Rightarrow> nat \<Rightarrow> nat option" where
  "positions w a = map_option (\<lambda>s. rx_next_offset (fs_receive s)) (rw_heap w a)"

lemma positions_simps [simp]: "positions (w\<lparr>rw_conn := c\<rparr>) = positions w" "positions (w\<lparr>rw_budget := b\<rparr>) = positions w"
  by (simp_all add: positions_def fun_eq_iff)

definition same_flows :: "recovery_world \<Rightarrow> recovery_world \<Rightarrow> bool" where
  "same_flows w w' \<longleftrightarrow> positions w' = positions w \<and> cr_flows (rw_conn w') = cr_flows (rw_conn w)
     \<and> cr_config (rw_conn w') = cr_config (rw_conn w) \<and> cr_max_symbol_bytes (rw_conn w') = cr_max_symbol_bytes (rw_conn w)
     \<and> cr_negotiated (rw_conn w') = cr_negotiated (rw_conn w)"

lemma same_flows_refl [simp]: "same_flows w w"
  by (simp add: same_flows_def)

lemma same_flows_trans: "same_flows u v \<Longrightarrow> same_flows v w \<Longrightarrow> same_flows u w"
  by (simp add: same_flows_def)

lemma same_flows_drop [simp]:
  "same_flows u (drop_datagrams m w) = same_flows u w" "same_flows u (drop_datagram w) = same_flows u w"
  "same_flows u (drop_records rs w) = same_flows u w" "same_flows u (release_source_reservations rs w) = same_flows u w"
  "same_flows u (add_pre_open_count x w) = same_flows u w" "same_flows u (w\<lparr>rw_budget := b\<rparr>) = same_flows u w"
  "same_flows (w\<lparr>rw_budget := b\<rparr>) u = same_flows w u"
  by (simp_all add: same_flows_def drop_datagrams_def drop_datagram_def drop_records_def release_source_reservations_def add_pre_open_count_def)

lemma same_flows_alive: "same_flows w w' \<Longrightarrow> rw_heap w' a = None \<longleftrightarrow> rw_heap w a = None"
  unfolding same_flows_def by (metis map_option_is_None positions_def)

lemma same_flows_lookup: "same_flows w w' \<Longrightarrow> lookup_flow w' f = lookup_flow w f"
  using same_flows_alive [of w w'] by (simp add: same_flows_def lookup_flow_def split: option.split)

text \<open>A record on its way: its charge, if it has one, is of this budget, and the flow found for it is alive.\<close>

definition owned :: "mem_budget \<Rightarrow> pending_source list \<Rightarrow> bool" where
  "owned b rs \<longleftrightarrow> list_all (\<lambda>c. ch_budget c = mb_id b) (charges_of rs)"

definition found :: "(nat \<Rightarrow> u64) \<Rightarrow> recovery_world \<Rightarrow> pending_source list \<Rightarrow> bool" where
  "found fid w rs \<longleftrightarrow> (\<forall>r \<in> set rs. \<forall>a. ps_flow r = Some a \<longrightarrow> fid a = ps_flow_id r \<and> rw_heap w a \<noteq> None)"

lemma found_same: "found fid w rs \<Longrightarrow> same_flows w w' \<Longrightarrow> found fid w' rs"
  using same_flows_alive [of w w'] by (auto simp: found_def)

lemma owned_simps [simp]:
  "owned b []" "owned b (r # rs) \<longleftrightarrow> (\<forall>c. ps_charge r = Some c \<longrightarrow> ch_budget c = mb_id b) \<and> owned b rs"
  by (auto simp: owned_def split: option.splits)

lemma found_simps [simp]:
  "found fid w []" "found fid w (r # rs) \<longleftrightarrow> (\<forall>a. ps_flow r = Some a \<longrightarrow> fid a = ps_flow_id r \<and> rw_heap w a \<noteq> None) \<and> found fid w rs"
  by (auto simp: found_def)

context delivery
begin

definition item :: "u64 \<Rightarrow> nat \<Rightarrow> bytes \<Rightarrow> bool" where
  "item f offset bs \<longleftrightarrow> (\<forall>i < length bs. octet f (offset + i) (bs ! i))"

definition stored :: "u64 \<Rightarrow> reassembler \<Rightarrow> bool" where
  "stored f r \<longleftrightarrow> (\<forall>x y. stream r x = Some y \<longrightarrow> octet f x y)"

lemma item_stored:
  assumes "stored f r" and "item f offset bs" and "insert_result r b m offset bs fin (Inr u, r', b')"
  shows "stored f r'"
proof -
  have "stream r' = merged r offset bs" using assms(3) by (simp add: insert_result_def)
  moreover have "octet f x (bs ! (x - offset))" if "offset \<le> x" "x < offset + length bs" for x
    using assms(2) that by (auto simp: item_def dest: spec [of _ "x - offset"])
  ultimately show ?thesis using assms(1) by (auto simp: stored_def merged_def split: if_splits)
qed

lemma stored_less: "stored f r \<Longrightarrow> \<forall>x. stream r' x = None \<or> stream r' x = stream r x \<Longrightarrow> stored f r'"
  unfolding stored_def by (metis option.distinct(1))

lemma symbol_item:
  "symbol j bs \<Longrightarrow> decode_source bs MAX_SOURCE_RECORDS max_symbol = Inr s \<Longrightarrow> source_records s = Inr rs \<Longrightarrow> x \<in> set rs
    \<Longrightarrow> item (sr_flow_id x) (unat (sr_offset x)) (sr_data x)"
  using symbol_octet by (simp add: item_def)

text \<open>\<open>n\<close> octets of the budget are held outside of the receiver, and \<open>k\<close> places of the table of early records are reserved.\<close>

definition recv_inv :: "(nat \<Rightarrow> u64) \<Rightarrow> mem_budget \<Rightarrow> nat \<Rightarrow> nat \<Rightarrow> recovery_world \<Rightarrow> bool" where
  "recv_inv fid b0 n k w \<longleftrightarrow> (let c = rw_conn w; h = rw_heap w; early = pre_open_records (cr_pre_open c) in
     acc b0 (rw_budget w) (n + dec_mem (cr_decoder c) + heap_mem h + pre_open_mem (cr_pre_open c))
     \<and> cr_max_symbol_bytes c = max_symbol \<and> dec_inv (cr_decoder c) \<and> good (cr_decoder c) \<and> finite (dom h)
     \<and> (\<forall>a s. h a = Some s \<longrightarrow> flow_ok (mb_id b0) s \<and> stored (fid a) (fs_receive s))
     \<and> (\<forall>(f, a) \<in> set (cr_flows c). fid a = f)
     \<and> distinct (map fst (cr_pre_open c))
     \<and> (\<forall>(f, rs) \<in> set (cr_pre_open c). \<forall>r \<in> set rs. ch_budget (po_charge r) = mb_id b0 \<and> item f (po_offset r) (po_data r))
     \<and> unat (cr_pre_open_count c) = k + length early \<and> k + length early \<le> unat (rc_pre_open_symbols (cr_config c)))"

definition items :: "pending_source list \<Rightarrow> bool" where
  "items rs \<longleftrightarrow> (\<forall>r \<in> set rs. item (ps_flow_id r) (ps_offset r) (ps_data r))"

lemma items_simps [simp]: "items []" "items (r # rs) \<longleftrightarrow> item (ps_flow_id r) (ps_offset r) (ps_data r) \<and> items rs"
  by (auto simp: items_def)

lemma inv_dropped [simp]:
  "recv_inv fid b0 n k (drop_datagrams m w) = recv_inv fid b0 n k w" "recv_inv fid b0 n k (drop_datagram w) = recv_inv fid b0 n k w"
  by (simp_all add: recv_inv_def Let_def drop_datagrams_def drop_datagram_def)

lemma inv_budget:
  assumes "recv_inv fid b0 n k w" and "\<And>m. acc b0 (rw_budget w) (n + m) \<Longrightarrow> acc b0 b (n' + m)"
  shows "recv_inv fid b0 n' k (w\<lparr>rw_budget := b\<rparr>)"
  using assms(1) assms(2) by (simp add: recv_inv_def Let_def add.assoc)

lemma inv_id: "recv_inv fid b0 n k w \<Longrightarrow> mb_id (rw_budget w) = mb_id b0"
  by (simp add: recv_inv_def Let_def acc_def)

lemma inv_charge:
  assumes inv: "recv_inv fid b0 n k w" and c: "charge_reserve (rw_budget w) bytes = Inr (c, b)"
  shows "recv_inv fid b0 (n + ch_bytes c) k (w\<lparr>rw_budget := b\<rparr>) \<and> ch_budget c = mb_id b0 \<and> ch_bytes c = bytes"
proof -
  have t: "try_reserve (rw_budget w) bytes = Some b" and c': "c = \<lparr>ch_budget = mb_id b0, ch_bytes = bytes\<rparr>"
    using c inv_id [OF inv] by (simp_all add: charge_reserve_Inr)
  have "acc b0 b (n + ch_bytes c + m)" if "acc b0 (rw_budget w) (n + m)" for m
    using acc_reserve [OF that t] c' by (simp add: ac_simps)
  from inv_budget [OF inv this] show ?thesis using c' by simp
qed

lemma inv_drop_charge:
  assumes "recv_inv fid b0 (n + ch_bytes c) k w" and "ch_budget c = mb_id b0"
  shows "recv_inv fid b0 n k (w\<lparr>rw_budget := drop_foreign c (rw_budget w)\<rparr>)"
  by (rule inv_budget [OF assms(1)], rule acc_drop_foreign [OF _ assms(2)]) (simp add: ac_simps)

lemma inv_drop_records:
  assumes "recv_inv fid b0 (n + record_mem rs) k w" and "owned b0 rs"
  shows "recv_inv fid b0 n k (drop_records rs w)"
  unfolding drop_records_def
  by (rule inv_budget [OF assms(1)], rule acc_drop_all) (use assms(2) in \<open>simp_all add: ac_simps record_mem_def owned_def\<close>)

lemma inv_release_places:
  assumes "recv_inv fid b0 n (k + j) w"
  shows "recv_inv fid b0 n k (add_pre_open_count (- word_of_nat j) w)"
proof -
  let ?c = "cr_pre_open_count (rw_conn w)"
  have "unat ?c = k + j + length (pre_open_records (cr_pre_open (rw_conn w)))" using assms by (simp add: recv_inv_def Let_def)
  moreover have "unat ?c < 2 ^ 32" using unsigned_less [of ?c, where 'a = nat] by simp
  ultimately have "unat (word_of_nat j :: u32) = j" and "j \<le> unat ?c" by (simp_all add: unsigned_of_nat take_bit_nat_eq_self)
  then have "unat (?c + - word_of_nat j) = unat ?c - j" using unat_sub [of "word_of_nat j" ?c] by (simp add: word_le_nat_alt)
  then show ?thesis using assms by (simp add: recv_inv_def Let_def add_pre_open_count_def)
qed

lemma inv_release: "recv_inv fid b0 n (k + awaiting rs) w \<Longrightarrow> recv_inv fid b0 n k (release_source_reservations rs w)"
  by (simp add: release_source_reservations_def inv_release_places)

subsection \<open>Handing over\<close>

lemma inv_flow:
  assumes inv: "recv_inv fid b0 n' k w" and s: "rw_heap w a = Some s" and t: "flow_ok (mb_id b0) t" "stored (fid a) (fs_receive t)"
    and acc: "\<And>m. acc b0 (rw_budget w) (n' + m + flow_mem s) \<Longrightarrow> acc b0 b (n + m + flow_mem t)"
  shows "recv_inv fid b0 n k (w\<lparr>rw_heap := (rw_heap w)(a \<mapsto> t), rw_budget := b\<rparr>)"
proof -
  let ?h = "rw_heap w" and ?c = "rw_conn w"
  let ?m = "dec_mem (cr_decoder ?c) + (heap_mem ?h - flow_mem s) + pre_open_mem (cr_pre_open ?c)"
  have fin: "finite (dom ?h)" using inv by (simp add: recv_inv_def Let_def)
  have le: "flow_mem s \<le> heap_mem ?h"
    using member_le_sum [OF _ _ fin, of a "\<lambda>x. flow_mem (the (?h x))"] s by (force simp: heap_mem_def)
  have "heap_mem (?h(a \<mapsto> t)) = heap_mem ?h - flow_mem s + flow_mem t" using heap_mem_upd [OF fin s, of t] le by simp
  moreover have "acc b0 b (n + ?m + flow_mem t)" by (rule acc) (use inv le in \<open>simp add: recv_inv_def Let_def ac_simps\<close>)
  ultimately show ?thesis using inv t by (simp add: recv_inv_def Let_def ac_simps)
qed

text \<open>The budget is the same when the flow holds as much as before.\<close>

lemma inv_flow_same:
  assumes "recv_inv fid b0 n k w" and "rw_heap w a = Some s" and "flow_ok (mb_id b0) t" and "stored (fid a) (fs_receive t)" and "flow_mem t = flow_mem s"
  shows "recv_inv fid b0 n k (w\<lparr>rw_heap := (rw_heap w)(a \<mapsto> t)\<rparr>)"
  using inv_flow [OF assms(1-4), of "rw_budget w" n] assms(5) by (simp add: recv_inv_def Let_def)

lemma inv_alive:
  assumes "recv_inv fid b0 n k w" and "rw_heap w a = Some s"
  shows "flow_ok (mb_id (rw_budget w)) s" and "flow_ok (mb_id b0) s" and "stored (fid a) (fs_receive s)"
  using assms inv_id [OF assms(1)] by (auto simp: recv_inv_def Let_def)

lemma inv_share:
  assumes inv: "recv_inv fid b0 n k w" and s: "rw_heap w a = Some s"
  obtains m where "acc b0 (rw_budget w) (n + m + flow_mem s)"
proof -
  have fin: "finite (dom (rw_heap w))" using inv by (simp add: recv_inv_def Let_def)
  have "flow_mem s \<le> heap_mem (rw_heap w)"
    using member_le_sum [OF _ _ fin, of a "\<lambda>x. flow_mem (the (rw_heap w x))"] s by (force simp: heap_mem_def)
  then show thesis using inv that [of "dec_mem (cr_decoder (rw_conn w)) + (heap_mem (rw_heap w) - flow_mem s) + pre_open_mem (cr_pre_open (rw_conn w))"]
    by (simp add: recv_inv_def Let_def ac_simps)
qed

lemma insert_ok:
  assumes inv: "recv_inv fid b0 (n + (case charge of None \<Rightarrow> 0 | Some c \<Rightarrow> ch_bytes c)) k w"
    and own: "\<forall>c \<in> set_option charge. ch_budget c = mb_id b0" and s: "rw_heap w a = Some s" and i: "item (fid a) offset data"
  shows "\<exists>r s' b'. insert_bytes_with_reservation s (rw_budget w) offset data fin charge = Some (r, s', b')
    \<and> recv_inv fid b0 n k (w\<lparr>rw_heap := (rw_heap w)(a \<mapsto> s'), rw_budget := b'\<rparr>) \<and> flow_ok (mb_id b0) s'
    \<and> rx_next_offset (fs_receive s') = rx_next_offset (fs_receive s)"
proof -
  let ?q = "case charge of None \<Rightarrow> 0 | Some c \<Rightarrow> ch_bytes c"
  note al = inv_alive [OF inv s] and id = inv_id [OF inv]
  have ins: "\<exists>r s' b'. insert_bytes_with_reservation s (rw_budget w) offset data fin charge = Some (r, s', b') \<and> flow_ok (mb_id (rw_budget w)) s'
      \<and> acc b0 b' (n + m + flow_mem s')
      \<and> (fs_receive s' = fs_receive s \<or> (\<exists>m b1 b2. insert_result (fs_receive s) b1 m offset data fin (Inr (), fs_receive s', b2)))"
    if "acc b0 (rw_budget w) (n + ?q + m + flow_mem s)" for m
    by (rule insert_flow_ok) (use that al(1) own id in \<open>simp_all add: ac_simps\<close>)
  obtain m where "acc b0 (rw_budget w) (n + ?q + m + flow_mem s)" by (rule inv_share [OF inv s])
  from ins [OF this] obtain r s' b' where r: "insert_bytes_with_reservation s (rw_budget w) offset data fin charge = Some (r, s', b')"
      "flow_ok (mb_id b0) s'" "fs_receive s' = fs_receive s \<or> (\<exists>m b1 b2. insert_result (fs_receive s) b1 m offset data fin (Inr (), fs_receive s', b2))"
    unfolding id by blast
  have "stored (fid a) (fs_receive s')" using r(3) item_stored [OF al(3) i] al(3) by auto
  moreover have "acc b0 b' (n + m + flow_mem s')" if "acc b0 (rw_budget w) (n + ?q + m + flow_mem s)" for m
    using ins [OF that] r(1) by auto
  moreover have "rx_next_offset (fs_receive s') = rx_next_offset (fs_receive s)" using r(3) by (auto simp: insert_result_def)
  ultimately show ?thesis using r(1,2) inv_flow [OF inv s r(2)] by blast
qed

lemma deliver_ok:
  assumes inv: "recv_inv fid b0 (n + ch_bytes c) k w" and own: "ch_budget c = mb_id b0"
    and a: "rw_heap w a \<noteq> None" and i: "item (fid a) offset data"
  shows "\<exists>w'. deliver w a offset data fin c = Some w' \<and> recv_inv fid b0 n k w' \<and> same_flows w w'"
proof -
  obtain s where s: "rw_heap w a = Some s" using a by blast
  have "\<exists>r s' b'. insert_bytes_with_reservation s (rw_budget w) offset data fin (Some c) = Some (r, s', b')
      \<and> recv_inv fid b0 n k (w\<lparr>rw_heap := (rw_heap w)(a \<mapsto> s'), rw_budget := b'\<rparr>) \<and> flow_ok (mb_id b0) s'
      \<and> rx_next_offset (fs_receive s') = rx_next_offset (fs_receive s)"
    by (rule insert_ok) (use inv own s i in simp_all)
  then obtain r s' b' where ins: "insert_bytes_precharged s (rw_budget w) offset data fin c = Some (r, s', b')"
    and w': "recv_inv fid b0 n k (w\<lparr>rw_heap := (rw_heap w)(a \<mapsto> s'), rw_budget := b'\<rparr>)" and ok: "flow_ok (mb_id b0) s'"
    and nx: "rx_next_offset (fs_receive s') = rx_next_offset (fs_receive s)"
    unfolding insert_bytes_precharged_def by blast
  obtain t where t: "reject_protocol s' = Some t" "flow_ok (mb_id b0) t" "fs_receive t = fs_receive s'"
    using flow_ok_reject [OF ok] by blast
  have "stored (fid a) (fs_receive t)" using inv_alive(3) [OF w', of a s'] t(3) by simp
  then have wt: "recv_inv fid b0 n k (w\<lparr>rw_heap := (rw_heap w)(a \<mapsto> t), rw_budget := b'\<rparr>)"
    using inv_flow [OF w', of a s' t b' n] t by (simp add: flow_mem_def)
  have same: "same_flows w (w\<lparr>rw_heap := (rw_heap w)(a \<mapsto> u), rw_budget := b'\<rparr>)" if "fs_receive u = fs_receive s'" for u
    using s nx that by (auto simp: same_flows_def positions_def fun_eq_iff)
  show ?thesis using s ins w' wt same [OF refl] same [OF t(3)] t(1) by (cases r) (auto simp: deliver_def)
qed

end

subsection \<open>Reservations\<close>

lemma sum_list_parts: "sum_list (map g xs) = sum_list (map g (filter P xs)) + sum_list (map (g :: 'a \<Rightarrow> nat) (filter (\<lambda>x. \<not> P x) xs))"
  by (induction xs) simp_all

lemma prune_mem:
  "pre_open_mem m = pre_open_mem (prune_pre_open now m) + sum_list (map ch_bytes (map po_charge (expired_records now m)))"
  using sum_list_parts [of "ch_bytes \<circ> po_charge" "pre_open_records m" "\<lambda>r. now < po_expires_at r"]
  by (simp add: pre_open_mem_def prune_records expired_records_def not_less)

lemma prune_length:
  "length (pre_open_records m) = length (pre_open_records (prune_pre_open now m)) + length (expired_records now m)"
  using sum_length_filter_compl [of "\<lambda>r. now < po_expires_at r" "pre_open_records m"]
  by (simp add: prune_records expired_records_def not_less)

lemma option_result_cases [case_names none full ok]:
  obtains "x = None" | y e where "x = Some y" "g y = Inl e" | y c b where "x = Some y" "g y = Inr (c, b)"
proof (cases x)
  case (Some y)
  then show ?thesis using that by (cases "g y") auto
qed (use that in simp)

definition charged :: "pending_source list \<Rightarrow> bool" where
  "charged rs \<longleftrightarrow> (\<forall>r \<in> set rs. ps_charge r \<noteq> None)"

lemma charged_simps [simp]: "charged []" "charged (r # rs) \<longleftrightarrow> ps_charge r \<noteq> None \<and> charged rs"
  by (auto simp: charged_def)

definition contents :: "pending_source list \<Rightarrow> (nat option \<times> u64 \<times> nat \<times> bytes) list" where
  "contents rs = map (\<lambda>r. (ps_flow r, ps_flow_id r, ps_offset r, ps_data r)) rs"

lemma contents_simps [simp]: "contents [] = []" "contents (r # rs) = (ps_flow r, ps_flow_id r, ps_offset r, ps_data r) # contents rs"
  by (simp_all add: contents_def)

lemma contents_cong:
  assumes "contents rs' = contents rs"
  shows "awaiting rs' = awaiting rs" and "found fid w rs' = found fid w rs"
proof -
  have "awaiting rs = length (filter (\<lambda>p. fst p = None) (contents rs))" for rs
    by (simp add: awaiting_def contents_def filter_map comp_def)
  then show "awaiting rs' = awaiting rs" by (simp add: assms)
  have "found fid w rs \<longleftrightarrow> (\<forall>(a, f, _) \<in> set (contents rs). \<forall>x. a = Some x \<longrightarrow> fid x = f \<and> rw_heap w x \<noteq> None)" for rs
    by (auto simp: found_def contents_def)
  then show "found fid w rs' = found fid w rs" by (simp add: assms)
qed

lemma split_charges_spec:
  assumes "split_charges c rs = (ok, rs', rest)" and "ch_budget c = mb_id b" and "owned b rs"
  shows "record_mem rs' + ch_bytes rest = record_mem rs + ch_bytes c \<and> owned b rs' \<and> ch_budget rest = mb_id b
    \<and> contents rs' = contents rs \<and> (ok \<longrightarrow> charged rs')"
  using assms
proof (induction rs arbitrary: c ok rs' rest)
  case (Cons r rs)
  show ?case
  proof (cases "ps_charge r")
    case (Some x)
    obtain ok1 rs1 rest1 where s: "split_charges c rs = (ok1, rs1, rest1)" by (metis prod.exhaust)
    then show ?thesis using Cons.IH [OF s] Cons.prems Some by auto
  next
    case None
    show ?thesis
    proof (cases "ch_bytes c < record_memory r")
      case True
      then show ?thesis using Cons.prems None by (auto simp: charge_split_def)
    next
      case False
      let ?c = "c\<lparr>ch_bytes := ch_bytes c - record_memory r\<rparr>"
      obtain ok1 rs1 rest1 where s: "split_charges ?c rs = (ok1, rs1, rest1)" by (metis prod.exhaust)
      then show ?thesis using Cons.IH [OF s] Cons.prems None False by (auto simp: charge_split_def)
    qed
  qed
qed auto

context delivery
begin

lemma items_cong: "contents rs' = contents rs \<Longrightarrow> items rs' = items rs"
proof -
  have "items rs \<longleftrightarrow> (\<forall>(_, f, o1, d) \<in> set (contents rs). item f o1 d)" for rs by (auto simp: items_def contents_def)
  then show "contents rs' = contents rs \<Longrightarrow> items rs' = items rs" by simp
qed

lemma prune_ok:
  assumes inv: "recv_inv fid b0 n k w"
  shows "recv_inv fid b0 n k (prune_world now w)" and "same_flows w (prune_world now w)"
    and "length (expired_records now (cr_pre_open (rw_conn w))) < 2 ^ 16"
proof -
  let ?c = "rw_conn w" and ?m = "cr_pre_open (rw_conn w)"
  let ?gone = "expired_records now ?m" and ?m' = "prune_pre_open now ?m"
  note len = prune_length [of ?m now]
  have early: "unat (cr_pre_open_count ?c) = k + length (pre_open_records ?m)"
      "k + length (pre_open_records ?m) \<le> unat (rc_pre_open_symbols (cr_config ?c))"
      "\<forall>(f, rs) \<in> set ?m. \<forall>r \<in> set rs. ch_budget (po_charge r) = mb_id b0 \<and> item f (po_offset r) (po_data r)"
      "distinct (map fst ?m)"
    using inv by (simp_all add: recv_inv_def Let_def)
  then have own: "list_all (\<lambda>c. ch_budget c = mb_id b0) (map po_charge ?gone)"
    by (fastforce simp: list_all_iff expired_records_def pre_open_records_def)
  show "length ?gone < 2 ^ 16" using len early(2) unsigned_less [of "rc_pre_open_symbols (cr_config ?c)", where 'a = nat] by simp
  let ?w = "w\<lparr>rw_conn := ?c\<lparr>cr_pre_open := ?m'\<rparr>, rw_budget := drop_all (map po_charge ?gone) (rw_budget w)\<rparr>"
  have "acc b0 (drop_all (map po_charge ?gone) (rw_budget w)) (n + dec_mem (cr_decoder ?c) + heap_mem (rw_heap w) + pre_open_mem ?m')"
    by (rule acc_drop_all [OF _ own]) (use inv prune_mem [of ?m now] in \<open>simp add: recv_inv_def Let_def add.assoc\<close>)
  moreover have "\<forall>(f, rs) \<in> set ?m'. \<forall>r \<in> set rs. ch_budget (po_charge r) = mb_id b0 \<and> item f (po_offset r) (po_data r)"
    using early(3) by (fastforce dest: set_prune)
  ultimately have "recv_inv fid b0 n (k + length ?gone) ?w"
    using inv len prune_keys [OF early(4)] by (simp add: recv_inv_def Let_def)
  from inv_release_places [OF this] this show "recv_inv fid b0 n k (prune_world now w)"
    by (cases "?gone = []") (simp_all add: prune_world_def Let_def)
  show "same_flows w (prune_world now w)" by (simp add: prune_world_def Let_def same_flows_def drop_datagrams_def add_pre_open_count_def)
qed

lemma inv_reserve_places:
  assumes inv: "recv_inv fid b0 n k w" and j: "j < 2 ^ 32"
    and r: "reserve_bounded (cr_pre_open_count (rw_conn w)) (ucast (rc_pre_open_symbols (cr_config (rw_conn w)))) (word_of_nat j) = Some x"
  shows "recv_inv fid b0 n (k + j) (w\<lparr>rw_conn := (rw_conn w)\<lparr>cr_pre_open_count := x\<rparr>\<rparr>)"
proof -
  let ?c = "cr_pre_open_count (rw_conn w)" and ?l = "rc_pre_open_symbols (cr_config (rw_conn w))"
  have uj: "unat (word_of_nat j :: u32) = j" using j by (simp add: unsigned_of_nat take_bit_nat_eq_self)
  have "unat ?l < 2 ^ 32" using unsigned_less [of ?l, where 'a = nat] by simp
  then have ul: "unat (ucast ?l :: u32) = unat ?l" by (simp add: unsigned_ucast_eq take_bit_nat_eq_self)
  have "unat x = unat ?c + j \<and> (j = 0 \<or> unat ?c + j \<le> unat ?l)"
  proof (cases "j = 0")
    case True
    then show ?thesis using r by (simp add: reserve_bounded_def)
  next
    case False
    then have nz: "word_of_nat j \<noteq> (0 :: u32)" using uj by (metis unsigned_0)
    then have x: "unat ?c + j < 2 ^ 32" "?c + word_of_nat j \<le> ucast ?l" "x = ?c + word_of_nat j"
      using r uj by (simp_all add: reserve_bounded_def split: if_splits)
    then have "unat x = unat ?c + j" using uj by (simp add: unat_add_lem [THEN iffD1])
    then show ?thesis using x ul by (simp add: word_le_nat_alt)
  qed
  then show ?thesis using inv by (auto simp: recv_inv_def Let_def)
qed

lemma look_up_ok:
  assumes "recv_inv fid b0 n k w" and "lookup_flow w f = Some a"
  shows "fid a = f \<and> rw_heap w a \<noteq> None"
  using assms map_of_SomeD [of "cr_flows (rw_conn w)" f a]
  by (auto simp: lookup_flow_def recv_inv_def Let_def split: option.splits if_splits)

lemma reserve_ok:
  assumes inv: "recv_inv fid b0 (n + record_mem rs) k w" and own: "owned b0 rs" and it: "items rs" and small: "length rs < 2 ^ 32"
  shows "\<exists>ok rs' w'. reserve_source_records w now rs = Some (ok, rs', w') \<and> same_flows w w' \<and> owned b0 rs' \<and> items rs' \<and> found fid w' rs'
    \<and> length rs' = length rs
    \<and> (if ok then recv_inv fid b0 (n + record_mem rs') (k + awaiting rs') w' \<and> charged rs' else recv_inv fid b0 (n + record_mem rs') k w')"
proof -
  let ?w1 = "prune_world now w"
  let ?rs = "map (\<lambda>r. r\<lparr>ps_flow := lookup_flow ?w1 (ps_flow_id r)\<rparr>) rs"
  note p = prune_ok [OF inv, of now]
  have gone: "\<not> 2 ^ 32 \<le> length (expired_records now (cr_pre_open (rw_conn w)))" using p(3) by simp
  have r1: "record_mem ?rs = record_mem rs" "owned b0 ?rs" "items ?rs" "found fid ?w1 ?rs"
    using own it look_up_ok [OF p(1)] by (simp_all add: record_mem_def charges_of_def owned_def items_def found_def comp_def)
  have "awaiting ?rs \<le> length ?rs" unfolding awaiting_def by (rule length_filter_le)
  then have aw: "awaiting ?rs < 2 ^ 32" using small by simp
  let ?rb = "reserve_bounded (cr_pre_open_count (rw_conn ?w1)) (ucast (rc_pre_open_symbols (cr_config (rw_conn ?w1)))) (word_of_nat (awaiting ?rs))"
  show ?thesis
  proof (cases ?rb)
    case None
    then have "reserve_source_records w now rs = Some (False, ?rs, ?w1)"
      using aw gone by (simp add: reserve_source_records_def Let_def)
    then show ?thesis using p r1 by auto
  next
    case (Some x)
    let ?w2 = "?w1\<lparr>rw_conn := (rw_conn ?w1)\<lparr>cr_pre_open_count := x\<rparr>\<rparr>"
    have w2: "recv_inv fid b0 (n + record_mem rs) (k + awaiting ?rs) ?w2" by (rule inv_reserve_places [OF p(1) aw Some])
    have s2: "same_flows w ?w2" using p(2) by (simp add: same_flows_def)
    have f2: "found fid ?w2 ?rs" using r1(4) by (simp add: found_def)
    let ?undo = "add_pre_open_count (- word_of_nat (awaiting ?rs))"
    have un: "recv_inv fid b0 (n + record_mem rs) k (?undo ?w2)" by (rule inv_release_places [OF w2])
    have fu: "found fid (?undo u) v = found fid u v" for u v by (simp add: found_def add_pre_open_count_def)
    have bad: ?thesis if "reserve_source_records w now rs = Some (False, ?rs, ?undo ?w2)" using that un s2 f2 r1 fu by auto
    show ?thesis
    proof (cases rule: option_result_cases [where x = "uncharged_bytes 0 ?rs" and g = "charge_reserve (rw_budget ?w2)", case_names none full ok])
      case none
      then show ?thesis by (intro bad) (use aw gone Some in \<open>simp add: reserve_source_records_def Let_def\<close>)
    next
      case full
      then show ?thesis by (intro bad) (use aw gone Some in \<open>simp add: reserve_source_records_def Let_def\<close>)
    next
      case (ok bytes c b)
      obtain flag rs' rest where s: "split_charges c ?rs = (flag, rs', rest)" by (cases "split_charges c ?rs") blast
      let ?w3 = "?w2\<lparr>rw_budget := drop_foreign rest b\<rparr>"
      note c = inv_charge [OF w2 ok(2)]
      note sp = split_charges_spec [OF s conjunct1 [OF conjunct2 [OF c]] r1(2)]
      have eq: "n + record_mem rs + ch_bytes c = n + record_mem rs' + ch_bytes rest" using sp r1(1) by simp
      have "recv_inv fid b0 (n + record_mem rs' + ch_bytes rest) (k + awaiting ?rs) (?w2\<lparr>rw_budget := b\<rparr>)"
        using conjunct1 [OF c] unfolding eq .
      from inv_drop_charge [OF this] sp have w3: "recv_inv fid b0 (n + record_mem rs') (k + awaiting ?rs) ?w3" by simp
      have res: "reserve_source_records w now rs = Some (flag, rs', if flag then ?w3 else ?undo ?w3)"
        using aw gone Some ok s by (simp add: reserve_source_records_def Let_def)
      have same: "same_flows w ?w3" "found fid ?w3 rs'" using s2 sp f2 contents_cong(2) [of rs' ?rs]
        by (simp_all add: found_def)
      have "length rs' = length rs" using arg_cong [where f = length, OF conjunct1 [OF conjunct2 [OF conjunct2 [OF conjunct2 [OF sp]]]]]
        by (simp add: contents_def)
      then show ?thesis using res same sp w3 inv_release_places [OF w3] items_cong [of rs' ?rs] contents_cong(1) [of rs' ?rs] r1(3) fu
        by auto
    qed
  qed
qed

end

subsection \<open>Dispatch\<close>

lemma push_mem: "pre_open_mem (push_pre_open f r m) = pre_open_mem m + ch_bytes (po_charge r)"
  and push_length: "length (pre_open_records (push_pre_open f r m)) = Suc (length (pre_open_records m))"
  by (simp_all add: pre_open_mem_def sum_mset_sum_list [symmetric] pre_open_push flip: size_mset)

context delivery
begin

lemma push_ok:
  assumes inv: "recv_inv fid b0 (n + ch_bytes (po_charge r)) (Suc k) w" and own: "ch_budget (po_charge r) = mb_id b0"
    and it: "item f (po_offset r) (po_data r)"
  shows "recv_inv fid b0 n k (w\<lparr>rw_conn := (rw_conn w)\<lparr>cr_pre_open := push_pre_open f r (cr_pre_open (rw_conn w))\<rparr>\<rparr>)"
proof -
  let ?m = "cr_pre_open (rw_conn w)"
  have d: "distinct (map fst ?m)"
    and old: "\<forall>(f, rs) \<in> set ?m. \<forall>r \<in> set rs. ch_budget (po_charge r) = mb_id b0 \<and> item f (po_offset r) (po_data r)"
    using inv by (simp_all add: recv_inv_def Let_def)
  have "\<forall>(g, rs) \<in> set (push_pre_open f r ?m). \<forall>x \<in> set rs. ch_budget (po_charge x) = mb_id b0 \<and> item g (po_offset x) (po_data x)"
    using set_push_pre_open [OF d] old own it by fastforce
  then show ?thesis using inv push_keys [OF d, of f r] by (simp add: recv_inv_def Let_def push_mem push_length algebra_simps)
qed

lemma dispatch_ok:
  assumes "recv_inv fid b0 (n + record_mem rs) (k + awaiting rs) w" and "owned b0 rs" and "items rs" and "found fid w rs" and "charged rs"
  shows "\<exists>w'. dispatch_reserved_source now rs w = Some w' \<and> recv_inv fid b0 n k w' \<and> same_flows w w'"
  using assms
proof (induction rs arbitrary: w)
  case Nil
  then show ?case by simp
next
  case (Cons r rs)
  obtain c where c: "ps_charge r = Some c" using Cons.prems(5) by auto
  have own: "ch_budget c = mb_id b0" and it: "item (ps_flow_id r) (ps_offset r) (ps_data r)"
    and rest: "owned b0 rs" "items rs" "found fid w rs" "charged rs"
    using Cons.prems c by simp_all
  have go: ?case
    if "dispatch_reserved_source now (r # rs) w = dispatch_reserved_source now rs w1"
      "recv_inv fid b0 (n + record_mem rs) (k + awaiting rs) w1" "same_flows w w1" for w1
    using Cons.IH [OF that(2) rest(1,2) found_same [OF rest(3) that(3)] rest(4)] that(1,3) by (auto intro: same_flows_trans)
  have hand: ?case
    if i: "recv_inv fid b0 (n + ch_bytes c + record_mem rs) (k + awaiting rs) u" and s: "same_flows w u"
      and a: "rw_heap u a \<noteq> None" "fid a = ps_flow_id r"
      and d: "\<And>w1. deliver u a (ps_offset r) (ps_data r) (ps_fin r) c = Some w1 \<Longrightarrow>
        dispatch_reserved_source now (r # rs) w = dispatch_reserved_source now rs w1" for u a
  proof -
    have i': "recv_inv fid b0 (n + record_mem rs + ch_bytes c) (k + awaiting rs) u" using i by (simp add: ac_simps)
    obtain w1 where w1: "deliver u a (ps_offset r) (ps_data r) (ps_fin r) c = Some w1"
        "recv_inv fid b0 (n + record_mem rs) (k + awaiting rs) w1" "same_flows u w1"
      using deliver_ok [OF i' own a(1), of "ps_offset r" "ps_data r" "ps_fin r"] it a(2) by auto
    show ?case by (rule go [OF d [OF w1(1)] w1(2) same_flows_trans [OF s w1(3)]])
  qed
  show ?case
  proof (cases "ps_flow r")
    case (Some a)
    have "recv_inv fid b0 (n + ch_bytes c + record_mem rs) (k + awaiting rs) w" using Cons.prems(1) c Some by (simp add: ac_simps)
    then show ?thesis by (rule hand [of w a]) (use Cons.prems(4) Some c in auto)
  next
    case None
    have i: "recv_inv fid b0 (n + ch_bytes c + record_mem rs) (k + awaiting rs + 1) w" using Cons.prems(1) c None by (simp add: ac_simps)
    show ?thesis
    proof (cases "lookup_flow w (ps_flow_id r)")
      case (Some a)
      have "recv_inv fid b0 (n + ch_bytes c + record_mem rs) (k + awaiting rs) (add_pre_open_count (- 1) w)"
        using inv_release_places [OF i] by simp
      then show ?thesis by (rule hand [of _ a]) (use look_up_ok [OF i Some] Some None c in \<open>auto simp: add_pre_open_count_def same_flows_def\<close>)
    next
      case l: None
      let ?r = "\<lparr>po_offset = ps_offset r, po_fin = ps_fin r, po_data = ps_data r, po_charge = c, po_expires_at = now + PRE_OPEN_TTL\<rparr>"
      show ?thesis
      proof (rule go)
        show "recv_inv fid b0 (n + record_mem rs) (k + awaiting rs)
            (w\<lparr>rw_conn := (rw_conn w)\<lparr>cr_pre_open := push_pre_open (ps_flow_id r) ?r (cr_pre_open (rw_conn w))\<rparr>\<rparr>)"
          by (rule push_ok) (use i own it in \<open>simp_all add: ac_simps\<close>)
      qed (use l None c in \<open>simp_all add: same_flows_def\<close>)
    qed
  qed
qed

lemma register_records_ok:
  assumes "recv_inv fid b0 (n + sum_list (map (ch_bytes \<circ> po_charge) rs)) k w" and "rw_heap w a \<noteq> None"
    and "\<forall>r \<in> set rs. ch_budget (po_charge r) = mb_id b0 \<and> item (fid a) (po_offset r) (po_data r)"
  shows "\<exists>w'. register_records now a rs w = Some w' \<and> recv_inv fid b0 n k w' \<and> same_flows w w'"
  using assms
proof (induction rs arbitrary: w)
  case Nil
  then show ?case by simp
next
  case (Cons r rs)
  let ?m = "sum_list (map (ch_bytes \<circ> po_charge) rs)"
  have i: "recv_inv fid b0 (n + ?m + ch_bytes (po_charge r)) k w" using Cons.prems(1) by (simp add: ac_simps comp_def)
  have r: "ch_budget (po_charge r) = mb_id b0" "item (fid a) (po_offset r) (po_data r)" using Cons.prems(3) by simp_all
  obtain w1 where w1: "deliver w a (po_offset r) (po_data r) (po_fin r) (po_charge r) = Some w1" "recv_inv fid b0 (n + ?m) k w1" "same_flows w w1"
    using deliver_ok [OF i r(1) Cons.prems(2) r(2)] by blast
  let ?w0 = "drop_datagram (w\<lparr>rw_budget := drop_foreign (po_charge r) (rw_budget w)\<rparr>)"
  have w0: "recv_inv fid b0 (n + ?m) k ?w0" "same_flows w ?w0" using inv_drop_charge [OF i r(1)] by simp_all
  have go: ?case if v: "register_records now a (r # rs) w = register_records now a rs v" "recv_inv fid b0 (n + ?m) k v" "same_flows w v" for v
  proof -
    have "rw_heap v a \<noteq> None" using same_flows_alive [OF v(3)] Cons.prems(2) by simp
    then obtain w' where "register_records now a rs v = Some w'" "recv_inv fid b0 n k w'" "same_flows v w'"
      using Cons.IH [OF v(2)] Cons.prems(3) by auto
    then show ?thesis using v(1,3) same_flows_trans by auto
  qed
  show ?case
  proof (cases "po_expires_at r \<le> now")
    case True
    then show ?thesis by (intro go [OF _ w0]) simp
  next
    case False
    then show ?thesis using w1(1) by (intro go [OF _ w1(2,3)]) simp
  qed
qed

end

subsection \<open>Symbols\<close>

lemma charge_recovered_split:
  "charge_recovered batch rs = (let (ok, ps, c) = split_records (rb_scratch batch) rs in (ok, ps, batch\<lparr>rb_scratch := c\<rparr>))"
proof (induction rs arbitrary: batch)
  case (Cons r rs)
  then show ?case
    by (cases "charge_split (rb_scratch batch) (length (sr_data r))")
      (auto simp: take_dispatch_charge_def scratch_take_def map_err_def Let_def split: prod.split)
qed simp

lemma split_records_spec:
  assumes "split_records c rs = (ok, ps, rest)" and "ch_budget c = mb_id b"
  shows "record_mem ps + ch_bytes rest = ch_bytes c \<and> owned b ps \<and> ch_budget rest = mb_id b \<and> length ps \<le> length rs
    \<and> (\<forall>p \<in> set ps. \<exists>r \<in> set rs. ps_flow_id p = sr_flow_id r \<and> ps_offset p = unat (sr_offset r) \<and> ps_data p = sr_data r)"
  using assms
proof (induction rs arbitrary: c ok ps rest)
  case (Cons r rs)
  show ?case
  proof (cases "ch_bytes c < length (sr_data r)")
    case True
    then show ?thesis using Cons.prems by (auto simp: charge_split_def)
  next
    case False
    let ?c = "c\<lparr>ch_bytes := ch_bytes c - length (sr_data r)\<rparr>"
    obtain ok1 ps1 rest1 where s: "split_records ?c rs = (ok1, ps1, rest1)" by (cases "split_records ?c rs") blast
    then show ?thesis using Cons.IH [OF s] Cons.prems False by (auto simp: charge_split_def pending_of_def)
  qed
qed auto

lemma decode_records_length: "decode_records n c = Inr (rs, d) \<Longrightarrow> length rs = n"
  by (induction n arbitrary: c rs) (auto simp: rbind_Inr_iff split: prod.splits)

lemma decoded_length:
  assumes "decode_source bs m M = Inr s" and "source_records s = Inr rs"
  shows "length rs < 2 ^ 32"
proof -
  have "sd_record_count s < 256"
    using assms(1) unsigned_less [where 'a = nat and 'b = 8]
    by (auto simp: decode_source_def decode_source_inner_def rbind_Inr_iff split: if_splits prod.splits)
  moreover have "length rs \<le> Suc (sd_record_count s)"
    using assms(2) by (auto simp: source_records_def rbind_Inr_iff dest: decode_records_length)
  ultimately show ?thesis by simp
qed

lemma single_record_records: "single_record s = Some r \<Longrightarrow> source_records s = Inr [r]"
  by (auto simp: single_record_def source_records_def split: if_splits)

context delivery
begin

lemma inv_decoder:
  assumes "recv_inv fid b0 n k w" and "dec_inv d" and "good d"
    and "\<And>m. acc b0 (rw_budget w) (n + m + dec_mem (cr_decoder (rw_conn w))) \<Longrightarrow> acc b0 b (n' + m + dec_mem d)"
  shows "recv_inv fid b0 n' k (w\<lparr>rw_conn := (rw_conn w)\<lparr>cr_decoder := d\<rparr>, rw_budget := b\<rparr>)"
    and "recv_inv fid b0 n' k (w\<lparr>rw_conn := (rw_conn w)\<lparr>cr_decoder := d, cr_counters := x\<rparr>, rw_budget := b\<rparr>)"
  using assms(1-3) assms(4) [of "heap_mem (rw_heap w) + pre_open_mem (cr_pre_open (rw_conn w))"]
  by (simp_all add: recv_inv_def Let_def ac_simps)

lemma commit_ok:
  assumes inv: "recv_inv fid b0 (n + ch_bytes c) k w" and own: "ch_budget c = mb_id b0" and sym: "symbol j data"
    and r: "commit_recovered_precharged (cr_decoder (rw_conn w)) (rw_budget w) j
      \<lparr>bh_data = data, bh_unique = True, bh_capacity = ch_bytes c\<rparr> c = (res0, d, b)"
  shows "dec_inv d \<and> good d \<and> (\<forall>m. acc b0 (rw_budget w) (n + ch_bytes c + m + dec_mem (cr_decoder (rw_conn w)))
    \<longrightarrow> acc b0 b (n + m + dec_mem d))"
proof -
  let ?d = "cr_decoder (rw_conn w)" and ?h = "\<lparr>bh_data = data, bh_unique = True, bh_capacity = ch_bytes c\<rparr>"
  have d: "dec_inv ?d" "good ?d" and id: "mb_id (rw_budget w) = mb_id b0" using inv inv_id [OF inv] by (simp_all add: recv_inv_def Let_def)
  show ?thesis
  proof (cases "length data \<le> ch_bytes c")
    case True
    then have ok: "handle_ok ?h" by (simp add: handle_ok_def)
    have "dec_inv d \<and> acc b0 b (n + m + dec_mem d)" if "acc b0 (rw_budget w) (n + ch_bytes c + m + dec_mem ?d)" for m
    proof -
      have "holds (rw_budget w) (n + m + dec_mem ?d + ch_bytes c)" using acc_holds [OF that] by (simp add: ac_simps)
      then show ?thesis
        using commit_recovered_safe [OF d(1) _ ok _ r, of "n + m"] own id acc_trans [OF that] by (simp add: belongs_to_def)
    qed
    moreover have "\<exists>m. acc b0 (rw_budget w) (n + ch_bytes c + m + dec_mem ?d)"
      using inv by (auto simp: recv_inv_def Let_def ac_simps intro!: exI [of _ "heap_mem (rw_heap w) + pre_open_mem (cr_pre_open (rw_conn w))"])
    ultimately show ?thesis using good_commit [OF d(2,1) _ ok r] sym by auto
  next
    case False
    then have "d = ?d" "b = drop_foreign c (rw_budget w)"
      using r by (auto simp: commit_recovered_precharged_def split: if_splits)
    moreover have "acc b0 (drop_foreign c (rw_budget w)) (n + m + dec_mem ?d)" if "acc b0 (rw_budget w) (n + ch_bytes c + m + dec_mem ?d)" for m
      by (rule acc_drop_foreign [OF _ own]) (use that in \<open>simp add: ac_simps\<close>)
    ultimately show ?thesis using d by simp
  qed
qed

lemma take_retained_Inr:
  "take_retained_charge batch n = Inr (c, batch') \<Longrightarrow> ch_bytes c = n \<and> ch_budget c = ch_budget (rb_scratch batch)
    \<and> ch_budget (rb_scratch batch') = ch_budget (rb_scratch batch) \<and> rb_items batch' = rb_items batch
    \<and> ch_bytes (rb_scratch batch) = ch_bytes (rb_scratch batch') + n"
  by (auto simp: take_retained_charge_def scratch_take_def charge_split_def rbind_Inr_iff map_err_Inr_iff split: if_splits)

lemma commit_symbol_ok:
  assumes inv: "recv_inv fid b0 (n + ch_bytes (rb_scratch batch) + record_mem ps) k w" and own: "owned b0 ps" "ch_budget (rb_scratch batch) = mb_id b0"
    and it: "items ps" and small: "length ps < 2 ^ 32" and sym: "symbol (rs_symbol_id source) (rs_bytes source)"
  shows "\<exists>batch' w'. commit_symbol now source ps batch w = Some (batch', w') \<and> recv_inv fid b0 (n + ch_bytes (rb_scratch batch')) k w'
    \<and> same_flows w w' \<and> ch_budget (rb_scratch batch') = mb_id b0 \<and> rb_items batch' = rb_items batch"
proof -
  obtain ok rs w1 where r: "reserve_source_records w now ps = Some (ok, rs, w1)" "same_flows w w1" "owned b0 rs" "items rs" "found fid w1 rs"
      "if ok then recv_inv fid b0 (n + ch_bytes (rb_scratch batch) + record_mem rs) (k + awaiting rs) w1 \<and> charged rs
        else recv_inv fid b0 (n + ch_bytes (rb_scratch batch) + record_mem rs) k w1"
    using reserve_ok [OF inv own(1) it small, of now] by blast
  show ?thesis
  proof (cases ok)
    case False
    then show ?thesis using r own inv_drop_records [OF _ r(3)] by (auto simp: commit_symbol_def)
  next
    case True
    then have w1: "recv_inv fid b0 (n + ch_bytes (rb_scratch batch) + record_mem rs) (k + awaiting rs) w1" "charged rs" using r(6) by simp_all
    show ?thesis
    proof (cases "take_retained_charge batch (rs_retained_bytes source)")
      case (Inl e)
      then show ?thesis using r True own inv_drop_records [OF inv_release [OF w1(1)] r(3)] by (auto simp: commit_symbol_def)
    next
      case (Inr p)
      obtain c batch' where t: "take_retained_charge batch (rs_retained_bytes source) = Inr (c, batch')" using Inr by (cases p) simp
      note tk = take_retained_Inr [OF t]
      let ?n = "n + ch_bytes (rb_scratch batch') + record_mem rs"
      have eq: "n + ch_bytes (rb_scratch batch) + record_mem rs = ?n + ch_bytes c" using tk by simp
      have w1': "recv_inv fid b0 (?n + ch_bytes c) (k + awaiting rs) w1" using w1(1) unfolding eq .
      let ?cm = "commit_recovered_precharged (cr_decoder (rw_conn w1)) (rw_budget w1) (rs_symbol_id source)
        \<lparr>bh_data = rs_bytes source, bh_unique = True, bh_capacity = rs_retained_bytes source\<rparr> c"
      obtain res0 d b where cm: "?cm = (res0, d, b)" by (cases ?cm) blast
      have "ch_budget c = mb_id b0" using tk own(2) by simp
      note ck = commit_ok [OF w1' this sym, of res0 d b]
      have d: "dec_inv d" "good d" "\<And>m. acc b0 (rw_budget w1) (?n + ch_bytes c + m + dec_mem (cr_decoder (rw_conn w1)))
          \<Longrightarrow> acc b0 b (?n + m + dec_mem d)"
        using ck cm tk by auto
      note w2 = inv_decoder [OF w1' d]
      let ?u = "\<lambda>x. w1\<lparr>rw_conn := (rw_conn w1)\<lparr>cr_decoder := d, cr_counters := x\<rparr>, rw_budget := b\<rparr>"
      have same: "same_flows w (?u x)" "found fid (?u x) rs" for x
        using r(2,5) by (simp_all add: same_flows_def found_def)
      have drop: "recv_inv fid b0 (n + ch_bytes (rb_scratch batch')) k (drop_records rs (release_source_reservations rs
          (w1\<lparr>rw_conn := (rw_conn w1)\<lparr>cr_decoder := d\<rparr>, rw_budget := b\<rparr>)))"
        by (rule inv_drop_records [OF inv_release [OF w2(1)] r(3)])
      have same0: "same_flows w (w1\<lparr>rw_conn := (rw_conn w1)\<lparr>cr_decoder := d\<rparr>, rw_budget := b\<rparr>)"
        using r(2) by (simp add: same_flows_def)
      show ?thesis
      proof (cases res0)
        case Inl
        then show ?thesis using r(1) True t cm drop same0 tk own(2) by (simp add: commit_symbol_def)
      next
        case (Inr u)
        let ?x = "(cr_counters (rw_conn w1))\<lparr>ct_recovered := ct_recovered (cr_counters (rw_conn w1)) + 1\<rparr>"
        obtain w' where "dispatch_reserved_source now rs (?u ?x) = Some w'" "recv_inv fid b0 (n + ch_bytes (rb_scratch batch')) k w'"
            "same_flows (?u ?x) w'"
          using dispatch_ok [OF w2(2) [of ?x] r(3,4) same(2) [of ?x] w1(2), of now] by blast
        then show ?thesis using r(1) True t cm Inr tk own(2) same_flows_trans [OF same(1)] by (simp add: commit_symbol_def)
      qed
    qed
  qed
qed

end

context delivery
begin

abbreviation symbols :: "recovered_source list \<Rightarrow> bool" where
  "symbols ss \<equiv> \<forall>s \<in> set ss. symbol (rs_symbol_id s) (rs_bytes s)"

lemma decoded_items:
  assumes "symbol j bs" and "decode_source bs MAX_SOURCE_RECORDS max_symbol = Inr s" and "source_records s = Inr rs"
    and "\<forall>p \<in> set ps. \<exists>r \<in> set rs. ps_flow_id p = sr_flow_id r \<and> ps_offset p = unat (sr_offset r) \<and> ps_data p = sr_data r"
  shows "items ps"
  using symbol_item [OF assms(1-3)] assms(4) unfolding items_def by metis

lemma inv_max: "recv_inv fid b0 n k w \<Longrightarrow> cr_max_symbol_bytes (rw_conn w) = max_symbol"
  by (simp add: recv_inv_def Let_def)

lemma dispatch_symbols_ok:
  assumes "recv_inv fid b0 (n + ch_bytes (rb_scratch batch)) k w" and "ch_budget (rb_scratch batch) = mb_id b0" and "symbols (rb_items batch)"
  shows "\<exists>w'. dispatch_symbols now m batch w = Some w' \<and> recv_inv fid b0 n k w' \<and> same_flows w w'"
  using assms
proof (induction m arbitrary: batch w)
  case 0
  then show ?case using inv_drop_charge [OF 0(1,2)] by simp
next
  case (Suc m)
  show ?case
  proof (cases "rb_items batch = []")
    case True
    then show ?thesis using inv_drop_charge [OF Suc.prems(1,2)] by (simp add: batch_pop_def)
  next
    case False
    let ?src = "last (rb_items batch)" and ?b1 = "batch\<lparr>rb_items := butlast (rb_items batch)\<rparr>"
    have pop: "batch_pop batch = (Some ?src, ?b1)" using False by (simp add: batch_pop_def)
    have sym: "symbol (rs_symbol_id ?src) (rs_bytes ?src)" "symbols (rb_items ?b1)"
      using Suc.prems(3) last_in_set [OF False] by (auto dest: in_set_butlastD)
    have go: ?thesis if v: "dispatch_symbols now (Suc m) batch w = dispatch_symbols now m b' v"
        "recv_inv fid b0 (n + ch_bytes (rb_scratch b')) k v" "ch_budget (rb_scratch b') = mb_id b0" "rb_items b' = rb_items ?b1"
        "same_flows w v" for b' v
      using Suc.IH [OF v(2,3)] v(1,4,5) sym(2) by (auto intro: same_flows_trans)
    let ?dec = "rbind (decode_source (rs_bytes ?src) MAX_SOURCE_RECORDS (cr_max_symbol_bytes (rw_conn w))) source_records"
    show ?thesis
    proof (cases ?dec)
      case (Inl e)
      then show ?thesis by (intro go [of ?b1 "drop_datagram w"]) (use Suc.prems pop in simp_all)
    next
      case (Inr rs)
      then obtain s where s: "decode_source (rs_bytes ?src) MAX_SOURCE_RECORDS max_symbol = Inr s" "source_records s = Inr rs"
        using inv_max [OF Suc.prems(1)] by (auto simp: rbind_Inr_iff)
      obtain ok ps c where sp: "split_records (rb_scratch batch) rs = (ok, ps, c)" by (cases "split_records (rb_scratch batch) rs") blast
      let ?b2 = "?b1\<lparr>rb_scratch := c\<rparr>"
      have cr: "charge_recovered ?b1 rs = (ok, ps, ?b2)" using sp by (simp add: charge_recovered_split)
      note ps = split_records_spec [OF sp Suc.prems(2)]
      have eq: "n + ch_bytes (rb_scratch batch) = n + ch_bytes (rb_scratch ?b2) + record_mem ps" using ps by simp
      have w: "recv_inv fid b0 (n + ch_bytes (rb_scratch ?b2) + record_mem ps) k w" using Suc.prems(1) unfolding eq .
      show ?thesis
      proof (cases ok)
        case False
        have "recv_inv fid b0 (n + ch_bytes (rb_scratch ?b2)) k (drop_records ps w)" by (rule inv_drop_records [OF w]) (use ps in simp)
        then show ?thesis by (intro go [of ?b2 "drop_datagram (drop_records ps w)"]) (use Inr cr False pop ps in simp_all)
      next
        case True
        have "items ps" by (rule decoded_items [OF sym(1) s]) (use ps in blast)
        moreover have "length ps < 2 ^ 32" using decoded_length [OF s] ps by simp
        ultimately obtain b' v where "commit_symbol now ?src ps ?b2 w = Some (b', v)" "recv_inv fid b0 (n + ch_bytes (rb_scratch b')) k v"
            "same_flows w v" "ch_budget (rb_scratch b') = mb_id b0" "rb_items b' = rb_items ?b2"
          using commit_symbol_ok [OF w _ _ _ _ sym(1), of now] ps by auto
        then show ?thesis by (intro go [of b' v]) (use Inr cr True pop in simp_all)
      qed
    qed
  qed
qed

lemma dispatch_recovered_ok:
  assumes inv: "recv_inv fid b0 (n + ch_bytes (rb_scratch batch)) k w" and own: "ch_budget (rb_scratch batch) = mb_id b0"
    and sym: "symbols (rb_items batch)"
  shows "\<exists>w'. dispatch_recovered now batch w = Some w' \<and> recv_inv fid b0 n k w' \<and> same_flows w w'"
proof -
  let ?abandon = "w\<lparr>rw_budget := drop_foreign (rb_scratch batch) (rw_budget w)\<rparr>"
  note ab = inv_drop_charge [OF inv own]
  let ?bytes = "case symbol_bytes 0 (rb_items batch) of None \<Rightarrow> None
     | Some n \<Rightarrow> checked_add n (saturating_mul MAX_SOURCE_RECORDS size_of_pending_source)"
  show ?thesis
  proof (cases "rb_items batch = []")
    case True
    then show ?thesis using ab by (simp add: dispatch_recovered_def)
  next
    case ne: False
    show ?thesis
    proof (cases rule: option_result_cases [where x = ?bytes and g = "\<lambda>bytes. reserve_dispatch batch bytes (rw_budget w)", case_names none full ok])
      case none
      then have "dispatch_recovered now batch w = Some (drop_datagram ?abandon)" using ne unfolding dispatch_recovered_def none by simp
      then show ?thesis using ab by simp
    next
      case (full bytes e)
      then have "dispatch_recovered now batch w = Some (drop_datagram ?abandon)" using ne unfolding dispatch_recovered_def full(1) by simp
      then show ?thesis using ab by simp
    next
      case (ok bytes batch1 b)
      then obtain req where g: "scratch_ensure (rb_scratch batch) req (rw_budget w) = Inr (rb_scratch batch1, b)" "rb_items batch1 = rb_items batch"
        by (auto simp: reserve_dispatch_def rbind_Inr_iff)
      have gr: "acc b0 b (n + ch_bytes (rb_scratch batch1) + m) \<and> ch_budget (rb_scratch batch1) = mb_id b0"
        if "acc b0 (rw_budget w) (n + ch_bytes (rb_scratch batch) + m)" for m
      proof -
        have "acc b0 (rw_budget w) (n + m + ch_bytes (rb_scratch batch))" using that by (simp add: ac_simps)
        from acc_ensure [OF this g(1)] have "acc b0 b (n + m + ch_bytes (rb_scratch batch1))" "ch_budget (rb_scratch batch1) = mb_id b0"
          using own by (metis)+
        then show ?thesis by (simp add: ac_simps)
      qed
      have w1: "recv_inv fid b0 (n + ch_bytes (rb_scratch batch1)) k (w\<lparr>rw_budget := b\<rparr>)" by (rule inv_budget [OF inv]) (use gr in blast)
      have "ch_budget (rb_scratch batch1) = mb_id b0"
        using gr [of "dec_mem (cr_decoder (rw_conn w)) + heap_mem (rw_heap w) + pre_open_mem (cr_pre_open (rw_conn w))"] inv
        by (simp add: recv_inv_def Let_def add.assoc)
      from dispatch_symbols_ok [OF w1 this, of now "length (rb_items batch1)"] sym g(2)
      show ?thesis using ne ok unfolding dispatch_recovered_def ok(1) by simp
    qed
  qed
qed

end

subsection \<open>Reception\<close>

context delivery
begin

text \<open>An operation of the decoder that succeeded hands its scratch memory to the batch.\<close>

lemma batch_ok:
  assumes inv: "recv_inv fid b0 n k w" and safe: "op_safe (cr_decoder (rw_conn w)) (rw_budget w) (n + heap_mem (rw_heap w)
      + pre_open_mem (cr_pre_open (rw_conn w))) (Some (Inr batch, d, b))" and g: "good d"
  shows "recv_inv fid b0 (n + ch_bytes (rb_scratch batch)) k (w\<lparr>rw_conn := (rw_conn w)\<lparr>cr_decoder := d\<rparr>, rw_budget := b\<rparr>)"
    and "recv_inv fid b0 (n + ch_bytes (rb_scratch batch)) k (w\<lparr>rw_conn := (rw_conn w)\<lparr>cr_decoder := d, cr_counters := x\<rparr>, rw_budget := b\<rparr>)"
proof -
  have "acc b0 b (n + heap_mem (rw_heap w) + pre_open_mem (cr_pre_open (rw_conn w)) + dec_mem d + ch_bytes (rb_scratch batch))" "dec_inv d"
    using safe inv acc_trans by (auto simp: op_safe_def recv_inv_def Let_def)
  then show "recv_inv fid b0 (n + ch_bytes (rb_scratch batch)) k (w\<lparr>rw_conn := (rw_conn w)\<lparr>cr_decoder := d\<rparr>, rw_budget := b\<rparr>)"
    and "recv_inv fid b0 (n + ch_bytes (rb_scratch batch)) k (w\<lparr>rw_conn := (rw_conn w)\<lparr>cr_decoder := d, cr_counters := x\<rparr>, rw_budget := b\<rparr>)"
    using inv g by (simp_all add: recv_inv_def Let_def ac_simps)
qed

lemma inv_holds:
  "recv_inv fid b0 n k w \<Longrightarrow> dec_inv (cr_decoder (rw_conn w)) \<and> good (cr_decoder (rw_conn w)) \<and>
    holds (rw_budget w) (n + heap_mem (rw_heap w) + pre_open_mem (cr_pre_open (rw_conn w)) + dec_mem (cr_decoder (rw_conn w)))"
  by (auto simp: recv_inv_def Let_def acc_def ac_simps)

lemma inv_same_decoder [simp]: "recv_inv fid b0 n k (w\<lparr>rw_conn := (rw_conn w)\<lparr>cr_decoder := cr_decoder (rw_conn w)\<rparr>, rw_budget := rw_budget w\<rparr>)
    = recv_inv fid b0 n k w"
  by simp

lemma add_source_ok:
  assumes inv: "recv_inv fid b0 (n + record_mem rs) (k + awaiting rs) w" and rs: "owned b0 rs" "items rs" "found fid w rs" "charged rs"
    and dg: "handle_ok dg" "symbol j (bh_data dg)"
    and a: "add_source (cr_decoder (rw_conn w)) (rw_budget w) j dg wb = Some (res, d, b)"
  shows "case res of
      Inl _ \<Rightarrow> w\<lparr>rw_conn := (rw_conn w)\<lparr>cr_decoder := d\<rparr>, rw_budget := b\<rparr> = w
    | Inr batch \<Rightarrow> \<exists>w2 w3. dispatch_reserved_source now rs (w\<lparr>rw_conn := (rw_conn w)\<lparr>cr_decoder := d, cr_counters := x\<rparr>, rw_budget := b\<rparr>) = Some w2
        \<and> dispatch_recovered now batch w2 = Some w3 \<and> recv_inv fid b0 n k w3 \<and> same_flows w w3"
proof -
  let ?m = "n + record_mem rs + heap_mem (rw_heap w) + pre_open_mem (cr_pre_open (rw_conn w))"
  have safe: "op_safe (cr_decoder (rw_conn w)) (rw_budget w) ?m (Some (res, d, b))"
    using add_source_safe [of _ _ ?m dg j wb] inv_holds [OF inv] dg(1) a by metis
  have g: "good d" "\<forall>batch. res = Inr batch \<longrightarrow> symbols (rb_items batch)"
    using good_source [OF _ _ dg(2,1) a] inv_holds [OF inv] by auto
  show ?thesis
  proof (cases res)
    case (Inl e)
    then show ?thesis using safe by (simp add: op_safe_def)
  next
    case (Inr batch)
    let ?u = "w\<lparr>rw_conn := (rw_conn w)\<lparr>cr_decoder := d, cr_counters := x\<rparr>, rw_budget := b\<rparr>"
    have u: "recv_inv fid b0 (n + record_mem rs + ch_bytes (rb_scratch batch)) (k + awaiting rs) ?u"
      by (rule batch_ok(2) [OF inv safe [unfolded Inr] g(1)])
    have "recv_inv fid b0 (n + ch_bytes (rb_scratch batch) + record_mem rs) (k + awaiting rs) ?u" using u by (simp add: ac_simps)
    moreover have s: "same_flows w ?u" "found fid ?u rs" using rs(3) by (simp_all add: same_flows_def found_def)
    ultimately obtain w2 where w2: "dispatch_reserved_source now rs ?u = Some w2" "recv_inv fid b0 (n + ch_bytes (rb_scratch batch)) k w2" "same_flows ?u w2"
      using dispatch_ok [OF _ rs(1,2) s(2) rs(4), where n = "n + ch_bytes (rb_scratch batch)" and k = k and now = now] by blast
    have own: "ch_budget (rb_scratch batch) = mb_id b0" using add_source_owned [OF a [unfolded Inr]] inv_id [OF inv] by simp
    obtain w3 where "dispatch_recovered now batch w2 = Some w3" "recv_inv fid b0 n k w3" "same_flows w2 w3"
      using dispatch_recovered_ok [OF w2(2) own, of now] g(2) Inr by blast
    moreover from this(3) have "same_flows w w3" using w2(3) s(1) same_flows_trans by blast
    ultimately show ?thesis using w2(1) Inr by simp
  qed
qed

lemma accept_ok:
  assumes inv: "recv_inv fid b0 (n + record_mem rs) k w" and rs: "owned b0 rs" "items rs" "length rs < 2 ^ 32"
    and dg: "handle_ok dg" "symbol j (bh_data dg)"
  shows "\<exists>rs' w'. accept_source w now j dg rs = Some (rs', w') \<and> recv_inv fid b0 (n + record_mem rs') k w' \<and> owned b0 rs' \<and> same_flows w w'"
proof -
  have st: "\<exists>st. source_status (cr_decoder (rw_conn v)) j (bh_data dg) = Some st" if "recv_inv fid b0 m l v" for m l v
    using source_status_total inv_holds [OF that] by blast
  obtain s1 where s1: "source_status (cr_decoder (rw_conn w)) j (bh_data dg) = Some s1" using st [OF inv] by blast
  show ?thesis
  proof (cases "s1 = Inr New")
    case False
    then consider e where "s1 = Inl e" | "s1 = Inr Duplicate" by (metis source_status_result.exhaust sum.exhaust)
    then show ?thesis using s1 inv rs by cases (simp_all add: accept_source_def)
  next
    case new: True
    obtain ok rs1 w1 where r: "reserve_source_records w now rs = Some (ok, rs1, w1)" "same_flows w w1" "owned b0 rs1" "items rs1" "found fid w1 rs1"
        "if ok then recv_inv fid b0 (n + record_mem rs1) (k + awaiting rs1) w1 \<and> charged rs1 else recv_inv fid b0 (n + record_mem rs1) k w1"
      using reserve_ok [OF inv rs, of now] by blast
    show ?thesis
    proof (cases ok)
      case False
      then show ?thesis using r s1 new by (simp add: accept_source_def)
    next
      case True
      then have w1: "recv_inv fid b0 (n + record_mem rs1) (k + awaiting rs1) w1" "charged rs1" using r(6) by simp_all
      note rel = inv_release [OF w1(1)]
      obtain s2 where s2: "source_status (cr_decoder (rw_conn w1)) j (bh_data dg) = Some s2" using st [OF w1(1)] by blast
      show ?thesis
      proof (cases "s2 = Inr New")
        case False
        then consider e where "s2 = Inl e" | "s2 = Inr Duplicate" by (metis source_status_result.exhaust sum.exhaust)
        then show ?thesis using s1 s2 new r True rel by cases (simp_all add: accept_source_def)
      next
        case new2: True
        let ?a = "add_source (cr_decoder (rw_conn w1)) (rw_budget w1) j dg (decoder_work (rw_conn w1))"
        obtain res d b where a: "?a = Some (res, d, b)"
          using add_source_safe [OF _ _ dg(1)] inv_holds [OF w1(1)] unfolding op_safe_def by blast
        show ?thesis
          using add_source_ok [OF w1(1) r(3-5) w1(2) dg a, of now "(cr_counters (rw_conn w1))\<lparr>ct_source_received := ct_source_received (cr_counters (rw_conn w1)) + 1\<rparr>"]
            s1 s2 new new2 r(1-3) True rel a same_flows_trans [OF r(2)]
          by (cases res) (auto simp: accept_source_def Let_def)
      qed
    qed
  qed
qed

end

lemma update_all: "\<forall>(j, x) \<in> set m. P j x \<Longrightarrow> P k v \<Longrightarrow> \<forall>(j, x) \<in> set (AList.update k v m). P j x"
  by (induction m) (auto split: if_splits)

context delivery
begin

text \<open>A datagram that may arrive: if it decodes at all, it is an acceptable symbol or equation.\<close>

definition datagram :: "bytes_handle \<Rightarrow> bool" where
  "datagram dg \<longleftrightarrow> handle_ok dg
     \<and> (\<forall>s. decode_source (bh_data dg) MAX_SOURCE_RECORDS max_symbol = Inr s \<longrightarrow> symbol (sd_symbol_id s) (bh_data dg))
     \<and> (\<forall>q. decode_repair (bh_data dg) max_symbol = Inr q \<longrightarrow> equation q)"

lemma accept_records:
  assumes inv: "recv_inv fid b0 (n + record_mem ps) k w" and ps: "owned b0 ps" "length ps \<le> length rs"
      "\<forall>p \<in> set ps. \<exists>r \<in> set rs. ps_flow_id p = sr_flow_id r \<and> ps_offset p = unat (sr_offset r) \<and> ps_data p = sr_data r"
    and s: "decode_source (bh_data dg) MAX_SOURCE_RECORDS max_symbol = Inr s" "source_records s = Inr rs" and dg: "datagram dg"
  shows "\<exists>rs' w'. accept_source w now (sd_symbol_id s) (dg\<lparr>bh_unique := False\<rparr>) ps = Some (rs', w')
    \<and> recv_inv fid b0 n k (drop_records rs' w') \<and> same_flows w w'"
proof -
  have sym: "symbol (sd_symbol_id s) (bh_data dg)" using dg s(1) by (simp add: datagram_def)
  have "items ps" by (rule decoded_items [OF sym s ps(3)])
  moreover have "length ps < 2 ^ 32" using decoded_length [OF s] ps(2) by simp
  moreover have "handle_ok (dg\<lparr>bh_unique := False\<rparr>)" using dg by (simp add: datagram_def handle_ok_def)
  ultimately obtain rs' w' where "accept_source w now (sd_symbol_id s) (dg\<lparr>bh_unique := False\<rparr>) ps = Some (rs', w')"
      "recv_inv fid b0 (n + record_mem rs') k w'" "owned b0 rs'" "same_flows w w'"
    using accept_ok [OF inv ps(1), of "dg\<lparr>bh_unique := False\<rparr>" "sd_symbol_id s" now] sym by auto
  then show ?thesis using inv_drop_records by blast
qed

lemma receive_source_ok:
  assumes inv: "recv_inv fid b0 n k w" and dg: "datagram dg"
  shows "\<exists>w'. receive_source w now dg = Some w' \<and> recv_inv fid b0 n k w' \<and> same_flows w w'"
proof (cases "decode_source (bh_data dg) MAX_SOURCE_RECORDS max_symbol")
  case (Inl e)
  then show ?thesis using inv inv_max [OF inv] by (simp add: receive_source_def)
next
  case (Inr s)
  note M = inv_max [OF inv]
  show ?thesis
  proof (cases "single_record s")
    case (Some r)
    let ?p = "pending_of (max_symbol + REPAIR_DATAGRAM_HEADER_BYTES) None r"
    have "\<exists>rs' w'. accept_source w now (sd_symbol_id s) (dg\<lparr>bh_unique := False\<rparr>) [?p] = Some (rs', w')
        \<and> recv_inv fid b0 n k (drop_records rs' w') \<and> same_flows w w'"
      by (rule accept_records [OF _ _ _ _ Inr single_record_records [OF Some] dg]) (use inv in \<open>simp_all add: pending_of_def\<close>)
    then show ?thesis using Inr Some M by (auto simp: receive_source_def)
  next
    case None
    let ?bytes = "case checked_mul (sd_record_count s) size_of_pending_source of None \<Rightarrow> None | Some m \<Rightarrow> checked_add m (length (bh_data dg))"
    have dropped: ?thesis if "receive_source w now dg = Some (drop_datagram w)" using that inv by simp
    show ?thesis
    proof (cases rule: option_result_cases [where x = ?bytes and g = "charge_reserve (rw_budget w)", case_names none full ok])
      case none
      show ?thesis by (rule dropped) (use Inr None M in \<open>simp add: receive_source_def none\<close>)
    next
      case (full bytes e)
      show ?thesis by (rule dropped) (use Inr None M in \<open>simp add: receive_source_def full\<close>)
    next
      case (ok bytes c b)
      note c = inv_charge [OF inv ok(2)]
      let ?w1 = "w\<lparr>rw_budget := b\<rparr>"
      have w1: "recv_inv fid b0 (n + ch_bytes c) k ?w1" and own: "ch_budget c = mb_id b0" using c by blast+
      show ?thesis
      proof (cases "source_records s")
        case (Inl e)
        then show ?thesis using Inr None M ok inv_drop_charge [OF w1 own] by (simp add: receive_source_def ok)
      next
        case rs: (Inr rs)
        obtain flag ps rest where sp: "split_records c rs = (flag, ps, rest)" by (cases "split_records c rs") blast
        note spec = split_records_spec [OF sp own]
        have eq: "n + ch_bytes c = n + ch_bytes rest + record_mem ps" using spec by simp
        have w1': "recv_inv fid b0 (n + ch_bytes rest + record_mem ps) k ?w1" using w1 unfolding eq .
        show ?thesis
        proof (cases flag)
          case False
          have "recv_inv fid b0 (n + record_mem ps) k (?w1\<lparr>rw_budget := drop_foreign rest (rw_budget ?w1)\<rparr>)"
            by (rule inv_drop_charge) (use w1' spec in \<open>simp_all add: ac_simps\<close>)
          from inv_drop_records [OF this] spec show ?thesis
            using False Inr None M rs sp by (simp add: receive_source_def ok)
        next
          case True
          obtain rs' w' where a: "accept_source ?w1 now (sd_symbol_id s) (dg\<lparr>bh_unique := False\<rparr>) ps = Some (rs', w')"
              "recv_inv fid b0 (n + ch_bytes rest) k (drop_records rs' w')" "same_flows ?w1 w'"
            using accept_records [OF w1' _ _ _ Inr rs dg, of now] spec by auto
          from inv_drop_charge [OF a(2)] spec show ?thesis
            using True Inr None M rs sp a(1,3) by (simp add: receive_source_def ok Let_def)
        qed
      qed
    qed
  qed
qed

lemma receive_ok:
  assumes inv: "recv_inv fid b0 n k w" and dg: "datagram dg" and caps: "active_capabilities (rw_conn w) \<noteq> None"
  shows "\<exists>closed w'. receive w now dg = Some (closed, w') \<and> recv_inv fid b0 n k w' \<and> same_flows w w'"
proof (cases "bh_data dg")
  case Nil
  then show ?thesis using inv by (auto simp: receive_def)
next
  case (Cons kind rest)
  have dropped: ?thesis if "receive w now dg = Some (False, drop_datagram w)" using that inv by auto
  let ?d = "cr_decoder (rw_conn w)"
  consider "kind = SOURCE_DATAGRAM" | (repair) "kind \<noteq> SOURCE_DATAGRAM" "kind = REPAIR_DATAGRAM" | "kind \<noteq> SOURCE_DATAGRAM" "kind \<noteq> REPAIR_DATAGRAM" by blast
  then show ?thesis
  proof cases
    case 1
    then show ?thesis using receive_source_ok [OF inv dg, of now] Cons by (auto simp: receive_def)
  next
    case 3
    then show ?thesis by (intro dropped) (simp add: receive_def Cons)
  next
    case repair
    obtain c where c: "active_capabilities (rw_conn w) = Some c" using caps by blast
    show ?thesis
    proof (cases "\<exists>q. decode_repair (bh_data dg) max_symbol = Inr q \<and> repair_span_is_negotiated (rp_span q) (cap_max_span c)")
      case False
      then show ?thesis
        by (intro dropped) (use repair Cons c inv_max [OF inv] in \<open>cases "decode_repair (bh_data dg) max_symbol"; auto simp: receive_def Let_def\<close>)
    next
      case True
      then obtain q where q: "decode_repair (bh_data dg) max_symbol = Inr q" "repair_span_is_negotiated (rp_span q) (cap_max_span c)" by blast
      let ?m = "n + heap_mem (rw_heap w) + pre_open_mem (cr_pre_open (rw_conn w))"
      let ?a = "add_repair ?d (rw_budget w) (rp_first_symbol_id q) (rp_span q) (rp_repair_id q) (rp_seed q) (rp_coded q) (decoder_work (rw_conn w))"
      have safe: "op_safe ?d (rw_budget w) ?m ?a" by (rule add_repair_safe) (use inv_holds [OF inv] in simp_all)
      then obtain res d b where a: "?a = Some (res, d, b)" unfolding op_safe_def by blast
      have g: "good d" "\<forall>batch. res = Inr batch \<longrightarrow> symbols (rb_items batch)"
        using good_repair [OF _ _ _ a] inv_holds [OF inv] dg q(1) by (auto simp: datagram_def)
      have rcv: "receive w now dg = (case res of
          Inl e \<Rightarrow> let w1 = w\<lparr>rw_conn := (rw_conn w)\<lparr>cr_decoder := d\<rparr>, rw_budget := b\<rparr> in
            Some (if e = RowCapacity then (True, w1) else (False, drop_datagram w1))
        | Inr batch \<Rightarrow> map_option (\<lambda>w'. (False, w')) (dispatch_recovered now batch (w\<lparr>rw_conn := (rw_conn w)\<lparr>cr_decoder := d\<rparr>, rw_budget := b\<rparr>)))"
        using repair Cons c q a inv_max [OF inv] by (simp add: receive_def Let_def split: sum.split)
      show ?thesis
      proof (cases res)
        case (Inl e)
        then have "w\<lparr>rw_conn := (rw_conn w)\<lparr>cr_decoder := d\<rparr>, rw_budget := b\<rparr> = w" using safe a by (simp add: op_safe_def)
        then show ?thesis using rcv Inl inv by (cases "e = RowCapacity") (auto simp: Let_def)
      next
        case (Inr batch)
        let ?u = "w\<lparr>rw_conn := (rw_conn w)\<lparr>cr_decoder := d\<rparr>, rw_budget := b\<rparr>"
        have u: "recv_inv fid b0 (n + ch_bytes (rb_scratch batch)) k ?u" by (rule batch_ok(1) [OF inv _ g(1)]) (use safe a Inr in simp)
        have own: "ch_budget (rb_scratch batch) = mb_id b0" using add_repair_owned a Inr inv_id [OF inv] by metis
        obtain w' where "dispatch_recovered now batch ?u = Some w'" "recv_inv fid b0 n k w'" "same_flows ?u w'"
          using dispatch_recovered_ok [OF u own, of now] g(2) Inr by blast
        moreover have "same_flows w ?u" by (simp add: same_flows_def)
        ultimately show ?thesis using rcv Inr same_flows_trans by auto
      qed
    qed
  qed
qed

lemma register_ok:
  assumes inv: "recv_inv fid b0 n k w" and a: "rw_heap w a \<noteq> None" and f: "fid a = flow_id"
  shows "\<exists>w'. register_flow w now flow_id a = Some w' \<and> recv_inv fid b0 n k w' \<and> positions w' = positions w
    \<and> cr_config (rw_conn w') = cr_config (rw_conn w)"
proof -
  let ?c = "rw_conn w" and ?m = "cr_pre_open (rw_conn w)"
  let ?rs = "case map_of ?m flow_id of None \<Rightarrow> [] | Some rs \<Rightarrow> rs" and ?m' = "filter (\<lambda>(k, _). k \<noteq> flow_id) (cr_pre_open (rw_conn w))"
  have d: "distinct (map fst ?m)" and old: "\<forall>(f, rs) \<in> set ?m. \<forall>r \<in> set rs. ch_budget (po_charge r) = mb_id b0 \<and> item f (po_offset r) (po_data r)"
    and cnt: "unat (cr_pre_open_count ?c) = k + length (pre_open_records ?m)"
    using inv by (simp_all add: recv_inv_def Let_def)
  note split = take_key [OF d, of flow_id]
  have len: "length (pre_open_records ?m) = length ?rs + length (pre_open_records ?m')"
    using arg_cong [where f = size, OF split] by simp
  have mem: "pre_open_mem ?m = sum_list (map (ch_bytes \<circ> po_charge) ?rs) + pre_open_mem ?m'"
    using arg_cong [where f = "\<lambda>M. sum_mset (image_mset (ch_bytes \<circ> po_charge) M)", OF split]
    by (simp add: pre_open_mem_def sum_mset_sum_list [symmetric])
  have rs: "\<forall>r \<in> set ?rs. ch_budget (po_charge r) = mb_id b0 \<and> item (fid a) (po_offset r) (po_data r)"
    using old f map_of_SomeD [of ?m flow_id] by (cases "map_of ?m flow_id") fastforce+
  have "length ?rs \<le> unat (cr_pre_open_count ?c)" using cnt len by simp
  moreover have "unat (cr_pre_open_count ?c) < 2 ^ 32" using unsigned_less [of "cr_pre_open_count ?c", where 'a = nat] by simp
  ultimately have small: "length ?rs < 2 ^ 32" by simp
  let ?w0 = "w\<lparr>rw_conn := ?c\<lparr>cr_flows := AList.update flow_id a (cr_flows ?c), cr_pre_open := ?m'\<rparr>\<rparr>"
  have keys: "\<forall>(g, x) \<in> set (AList.update flow_id a (cr_flows ?c)). fid x = g"
    by (rule update_all) (use inv f in \<open>simp_all add: recv_inv_def Let_def\<close>)
  have "distinct (map fst ?m')" using d by (rule distinct_map_filter)
  then have w0: "recv_inv fid b0 (n + sum_list (map (ch_bytes \<circ> po_charge) ?rs)) (k + length ?rs) ?w0"
    using inv old keys len mem by (auto simp: recv_inv_def Let_def ac_simps)
  have w1: "recv_inv fid b0 (n + sum_list (map (ch_bytes \<circ> po_charge) ?rs)) k (add_pre_open_count (- word_of_nat (length ?rs)) ?w0)"
    by (rule inv_release_places [OF w0])
  have "\<exists>w'. register_records now a ?rs (add_pre_open_count (- word_of_nat (length ?rs)) ?w0) = Some w' \<and> recv_inv fid b0 n k w'
      \<and> same_flows (add_pre_open_count (- word_of_nat (length ?rs)) ?w0) w'"
    by (rule register_records_ok [OF w1]) (use a rs in \<open>simp_all add: add_pre_open_count_def\<close>)
  then show ?thesis using small by (auto simp: register_flow_def Let_def add_pre_open_count_def same_flows_def)
qed

end

end
