(* ===== verification/Connection_Sender.thy ===== *)
theory Connection_Sender
  imports Connection_Recovery
begin

section \<open>What a connection sends\<close>

text \<open>
  The flows of a connection queue SOURCE and REPAIR datagrams, the driver takes one at a time, hands it to the backend and
  records it; capabilities are negotiated at any time.  \<open>sender_step\<close> interleaves these calls.  Two logs say what
  happened: \<open>ss_numbered\<close> lists the symbols in the order their numbers were given out and \<open>ss_emitted\<close> the datagrams
  the backend took.  A driver whose send failed has stopped.
\<close>

record sender_system =
  ss_world :: recovery_world
  ss_running :: bool
  ss_in_flight :: "outbound_datagram option"
  ss_numbered :: "(u32 \<times> bytes) list"
  ss_emitted :: "outbound_datagram list"

abbreviation ss_conn :: "sender_system \<Rightarrow> connection_recovery" where
  "ss_conn s \<equiv> rw_conn (ss_world s)"

definition with_conn :: "connection_recovery \<Rightarrow> sender_system \<Rightarrow> sender_system" where
  "with_conn c s = s\<lparr>ss_world := (ss_world s)\<lparr>rw_conn := c\<rparr>\<rparr>"

fun source_of :: "outbound_datagram \<Rightarrow> (u32 \<times> bytes) list" where
  "source_of (SourceOut k bs) = [(k, bs)]"
| "source_of (RepairOut bs) = []"

text \<open>What a flow may send: a chunk within the offsets of the wire that fits a symbol with its headers.\<close>

definition source_fits :: "connection_recovery \<Rightarrow> u64 \<Rightarrow> nat \<Rightarrow> bytes \<Rightarrow> bool" where
  "source_fits c flow_id offset data \<longleftrightarrow> flow_id \<le> MAX_WIRE_OFFSET \<and> data \<noteq> [] \<and> offset + length data \<le> wire_max
     \<and> length data + SINGLE_SOURCE_MAX_OVERHEAD \<le> cr_max_symbol_bytes c"

inductive sender_step :: "sender_system \<Rightarrow> sender_system \<Rightarrow> bool" where
  queue_source: "source_fits (ss_conn s) flow_id offset data
    \<Longrightarrow> send_source (ss_conn s) flow_id offset data fin w = Some (Inr True, c)
    \<Longrightarrow> sender_step s (with_conn c s\<lparr>ss_numbered := ss_numbered s @ source_of (last (dq_pending (cr_datagrams c)))\<rparr>)"
| refuse_source: "send_source (ss_conn s) flow_id offset data fin w = Some (r, c) \<Longrightarrow> r \<noteq> Inr True
    \<Longrightarrow> sender_step s (with_conn c s)"
| queue_repair: "send_tail_repairs (ss_conn s) limit w = Some (r, c) \<Longrightarrow> sender_step s (with_conn c s)"
| take_next: "ss_running s \<Longrightarrow> ss_in_flight s = None \<Longrightarrow> take_datagram (ss_conn s) w = (d, c)
    \<Longrightarrow> sender_step s (with_conn c s\<lparr>ss_in_flight := d\<rparr>)"
| sent: "ss_running s \<Longrightarrow> ss_in_flight s = Some d \<Longrightarrow> record_sent (ss_conn s) d = Some c
    \<Longrightarrow> sender_step s (with_conn c s\<lparr>ss_in_flight := None, ss_emitted := ss_emitted s @ [d]\<rparr>)"
| failed: "ss_running s \<Longrightarrow> ss_in_flight s = Some d \<Longrightarrow> handle_send_error (ss_world s) e = (close, w')
    \<Longrightarrow> sender_step s (s\<lparr>ss_world := w', ss_running := False, ss_in_flight := None\<rparr>)"
| negotiate: "\<not> capabilities_rejected peer \<Longrightarrow> negotiate_capabilities (ss_world s) peer = Some (ok, w')
    \<Longrightarrow> sender_step s (s\<lparr>ss_world := w'\<rparr>)"

definition sender_start :: "recovery_config \<Rightarrow> usize \<Rightarrow> mem_budget \<Rightarrow> (nat \<Rightarrow> flow_shared option) \<Rightarrow> sender_system" where
  "sender_start config M b heap =
     \<lparr>ss_world = \<lparr>rw_conn = recovery_start config M, rw_budget = b, rw_heap = heap\<rparr>, ss_running = True, ss_in_flight = None,
      ss_numbered = [], ss_emitted = []\<rparr>"

subsection \<open>Invariant\<close>

text \<open>A repair datagram over consecutive symbols of the log.\<close>

definition repair_over :: "(u32 \<times> bytes) list \<Rightarrow> bytes \<Rightarrow> bool" where
  "repair_over log bs \<longleftrightarrow> (\<exists>pre window post f. log = pre @ window @ post \<and> window \<noteq> [] \<and> length window \<le> 256
     \<and> repair_ok f \<and> bs = repair_wire f \<and> rp_first_symbol_id f = fst (hd window) \<and> unat (rp_span f) = length window
     \<and> repair_symbol (rp_first_symbol_id f) (rp_repair_id f) (rp_seed f) (map snd window) = Inr (rp_coded f))"

definition datagram_ok :: "(u32 \<times> bytes) list \<Rightarrow> outbound_datagram \<Rightarrow> bool" where
  "datagram_ok log d \<longleftrightarrow> (case d of SourceOut k bs \<Rightarrow> (k, bs) \<in> set log | RepairOut bs \<Rightarrow> repair_over log bs)"

definition numbered_ok :: "nat \<Rightarrow> (u32 \<times> bytes) list \<Rightarrow> bool" where
  "numbered_ok M log \<longleftrightarrow> (\<forall>i < length log. fst (log ! i) = word_of_nat i \<and> length (snd (log ! i)) \<le> M
     \<and> (\<exists>r. record_ok r \<and> snd (log ! i) = source_wire (word_of_nat i) [r]))"

definition sources_of :: "outbound_datagram list \<Rightarrow> (u32 \<times> bytes) list" where
  "sources_of ds = concat (map source_of ds)"

definition window_ok :: "sender_system \<Rightarrow> bool" where
  "window_ok s \<longleftrightarrow> (let c = ss_conn s; pending = dq_pending (cr_datagrams c) in
     (if cr_datagram_enabled c
      then \<exists>pre mid. ss_numbered s = pre @ cr_sources c @ mid @ sources_of pending
        \<and> (ss_running s \<longrightarrow> mid = (case ss_in_flight s of None \<Rightarrow> [] | Some d \<Rightarrow> source_of d))
      else pending = [] \<and> cr_sources c = [])
     \<and> set (cr_sources c) \<subseteq> set (sources_of (ss_emitted s)))"

definition gauges_ok :: "connection_recovery \<Rightarrow> bool" where
  "gauges_ok c \<longleftrightarrow> length (dq_pending (cr_datagrams c)) \<le> dq_capacity (cr_datagrams c)
     \<and> cr_queued_datagrams c = word_of_nat (length (dq_pending (cr_datagrams c)))
     \<and> cr_retained_source_bytes c = word_of_nat (sum_list (map (length \<circ> snd) (cr_sources c)))"

definition span_ok :: "recovery_config \<Rightarrow> nat \<Rightarrow> connection_recovery \<Rightarrow> bool" where
  "span_ok config M c \<longleftrightarrow> cr_config c = config \<and> cr_max_symbol_bytes c = M
     \<and> (case cr_negotiated c of None \<Rightarrow> True | Some caps \<Rightarrow> 1 \<le> unat (cap_max_span caps) \<and> unat (cap_max_span caps) \<le> 256)"

definition sender_inv :: "recovery_config \<Rightarrow> nat \<Rightarrow> sender_system \<Rightarrow> bool" where
  "sender_inv config M s \<longleftrightarrow> span_ok config M (ss_conn s) \<and> gauges_ok (ss_conn s) \<and> window_ok s
     \<and> numbered_ok M (ss_numbered s) \<and> cr_next_symbol (ss_conn s) = word_of_nat (length (ss_numbered s))
     \<and> list_all (datagram_ok (ss_numbered s)) (dq_pending (cr_datagrams (ss_conn s)))
     \<and> list_all (datagram_ok (ss_numbered s)) (ss_emitted s)
     \<and> (\<forall>d \<in> set_option (ss_in_flight s). datagram_ok (ss_numbered s) d)"

text \<open>What configuration validation and the transport guarantee of a connection.\<close>

definition sender_limits :: "recovery_config \<Rightarrow> nat \<Rightarrow> bool" where
  "sender_limits config M \<longleftrightarrow> 1 \<le> unat (rc_max_repair_span config) \<and> unat (rc_max_repair_span config) \<le> 256 \<and> M \<le> 65535"

lemma sources_of_simps [simp]:
  "sources_of [] = []" "sources_of (d # ds) = source_of d @ sources_of ds" "sources_of (ds @ es) = sources_of ds @ sources_of es"
  by (simp_all add: sources_of_def)

lemma repair_over_append: "repair_over log bs \<Longrightarrow> repair_over (log @ ext) bs"
  unfolding repair_over_def by (metis append.assoc)

lemma datagram_ok_append: "datagram_ok log d \<Longrightarrow> datagram_ok (log @ ext) d"
  by (auto simp: datagram_ok_def repair_over_append split: outbound_datagram.splits)

lemma list_all_datagram_ok_append: "list_all (datagram_ok log) ds \<Longrightarrow> list_all (datagram_ok (log @ ext)) ds"
  by (auto simp: list_all_iff datagram_ok_append)

lemma active_capabilities_ok:
  assumes "sender_limits config M" and "span_ok config M c"
  shows "\<exists>caps. active_capabilities c = Some caps \<and> 1 \<le> unat (cap_max_span caps) \<and> unat (cap_max_span caps) \<le> 256"
  using assms
  by (auto simp: active_capabilities_def span_ok_def sender_limits_def recovery_capabilities_def split: option.splits)

subsection \<open>Steps\<close>

lemma send_source_fits:
  assumes "source_fits c flow_id offset data"
  shows "\<exists>r. record_ok r \<and> length (source_wire k [r]) \<le> cr_max_symbol_bytes c
    \<and> encode_source k [\<lparr>sr_flow_id = flow_id, sr_offset = word_of_nat offset, sr_fin = fin, sr_data = data\<rparr>] [] = (Inr (), source_wire k [r])"
proof -
  let ?r = "\<lparr>sr_flow_id = flow_id, sr_offset = word_of_nat offset, sr_fin = fin, sr_data = data\<rparr>"
  have off: "unat (word_of_nat offset :: u64) = offset"
    using assms by (simp add: source_fits_def wire_max_value unsigned_of_nat take_bit_nat_eq_self)
  then have ok: "record_ok ?r" using assms by (simp add: record_ok_def source_fits_def wire_max_value)
  have "length (source_wire k [?r]) \<le> length data + SINGLE_SOURCE_MAX_OVERHEAD"
    using encode_varint_le_8 [of flow_id] encode_varint_le_8 [of "word_of_nat offset"]
      encode_varint_le_8 [of "word_of_nat (length data)"]
    by (simp add: source_wire_def record_wire_def SINGLE_SOURCE_MAX_OVERHEAD_def)
  moreover have "encode_source k [?r] [] = (Inr (), source_wire k [?r])"
    using encode_source_ok [of 1 "[?r]" k "[]"] ok by (simp add: source_ok_def)
  ultimately show ?thesis using ok assms by (intro exI [of _ ?r]) (auto simp: source_fits_def)
qed

lemma length_repair_accumulate:
  "\<forall>p \<in> set ps. length p \<le> length buf \<Longrightarrow> length (repair_accumulate first rid seed i ps buf) = length buf"
  by (induction first rid seed i ps buf rule: repair_accumulate.induct) (auto simp: Let_def)

lemma repair_frame_over:
  assumes "window \<noteq> []" and "length window \<le> 256" and "\<forall>p \<in> set window. snd p \<noteq> [] \<and> length (snd p) \<le> 65535"
  shows "\<exists>bs. repair_frame (fst (hd window)) rid (map snd window) = Some bs \<and> repair_over (pre @ window @ post) bs"
proof -
  let ?ps = "map snd window" and ?first = "fst (hd window)"
  let ?m = "Max (set (map length ?ps))"
  define coded where "coded = repair_accumulate ?first rid (repair_seed ?first) 0 ?ps (replicate ?m 0)"
  have ne: "set (map length ?ps) \<noteq> {}" using assms(1) by simp
  have m: "0 < ?m" "?m \<le> 65535"
  proof -
    have "?m \<in> set (map length ?ps)" by (rule Max_in [OF _ ne]) simp
    then show "0 < ?m" "?m \<le> 65535" using assms(3) by auto
  qed
  have "\<forall>p \<in> set ?ps. length p \<le> length (replicate ?m (0 :: u8))" by simp
  then have l: "length coded = ?m" unfolding coded_def using length_repair_accumulate by (metis length_replicate)
  have s: "repair_symbol ?first rid (repair_seed ?first) ?ps = Inr coded"
    using m assms(1,2) by (simp add: repair_symbol_def MAX_REPAIR_SPAN_def Let_def coded_def not_less)
  let ?f = "\<lparr>rp_repair_id = rid, rp_first_symbol_id = ?first, rp_span = word_of_nat (length ?ps),
              rp_symbol_size = word_of_nat (length coded), rp_seed = repair_seed ?first, rp_coded = coded\<rparr>"
  have u: "unat (word_of_nat (length window) :: u16) = length window" "unat (word_of_nat (length coded) :: u16) = length coded"
    using assms(2) m l by (simp_all add: unsigned_of_nat take_bit_nat_eq_self)
  have "word_of_nat (length window) \<noteq> (0 :: u16)" "word_of_nat (length coded) \<noteq> (0 :: u16)"
    using u assms(1) m(1) l by (metis length_0_conv unsigned_0, metis less_irrefl unsigned_0)
  then have ok: "repair_ok ?f"
    using u assms(2) by (simp add: repair_ok_def MAX_REPAIR_SPAN_def word_le_nat_alt)
  have "repair_frame ?first rid ?ps = Some (repair_wire ?f)"
    using s ok assms(2) m(2) l by (simp add: repair_frame_def encode_repair_iff not_less)
  moreover have "repair_over (pre @ window @ post) (repair_wire ?f)"
    unfolding repair_over_def using assms(1,2) ok s u by (intro exI [of _ pre] exI [of _ window] exI [of _ post] exI [of _ ?f]) simp
  ultimately show ?thesis by blast
qed

text \<open>Queueing repairs only appends to the queue and counts.\<close>

definition queued_more :: "connection_recovery \<Rightarrow> outbound_datagram list \<Rightarrow> connection_recovery \<Rightarrow> bool" where
  "queued_more c ds c' \<longleftrightarrow> dq_pending (cr_datagrams c') = dq_pending (cr_datagrams c) @ ds
     \<and> dq_capacity (cr_datagrams c') = dq_capacity (cr_datagrams c) \<and> cr_queued_datagrams c' = cr_queued_datagrams c + word_of_nat (length ds)
     \<and> cr_sources c' = cr_sources c \<and> cr_datagram_enabled c' = cr_datagram_enabled c \<and> cr_config c' = cr_config c
     \<and> cr_negotiated c' = cr_negotiated c \<and> cr_max_symbol_bytes c' = cr_max_symbol_bytes c \<and> cr_next_symbol c' = cr_next_symbol c
     \<and> cr_retained_source_bytes c' = cr_retained_source_bytes c"

lemma queue_repairs_spec:
  assumes "cr_datagram_enabled c" and "length (dq_pending (cr_datagrams c)) \<le> dq_capacity (cr_datagrams c)"
    and "\<And>rid. \<exists>bs. repair_frame first rid payloads = Some bs \<and> repair_over log bs"
  shows "\<exists>r ds c'. queue_repairs n first payloads w k c = Some (Inr r, c') \<and> queued_more c (map RepairOut ds) c'
    \<and> list_all (repair_over log) ds \<and> length (dq_pending (cr_datagrams c')) \<le> dq_capacity (cr_datagrams c')"
  using assms(1,2)
proof (induction n arbitrary: k c)
  case 0
  then show ?case by (intro exI [of _ k] exI [of _ "[]"] exI [of _ c]) (simp add: queued_more_def)
next
  case (Suc n)
  let ?c1 = "c\<lparr>cr_next_repair := cr_next_repair c + 1\<rparr>"
  obtain bs where bs: "repair_frame first (cr_next_repair c) payloads = Some bs" "repair_over log bs" using assms(3) by blast
  show ?case
  proof (cases "length (dq_pending (cr_datagrams c)) = dq_capacity (cr_datagrams c)")
    case True
    then show ?thesis using Suc.prems bs
      by (intro exI [of _ k] exI [of _ "[]"] exI [of _ "?c1\<lparr>cr_datagrams := register_producer (cr_datagrams c) w\<rparr>"])
        (simp add: queued_more_def)
  next
    case False
    have "cr_datagram_enabled (push_datagram ?c1 (RepairOut bs))" using Suc.prems by simp
    moreover have "length (dq_pending (cr_datagrams (push_datagram ?c1 (RepairOut bs))))
        \<le> dq_capacity (cr_datagrams (push_datagram ?c1 (RepairOut bs)))" using Suc.prems False by simp
    ultimately obtain r ds c' where q: "queue_repairs n first payloads w (k + 1) (push_datagram ?c1 (RepairOut bs)) = Some (Inr r, c')"
        and m: "queued_more (push_datagram ?c1 (RepairOut bs)) (map RepairOut ds) c'"
        and ds: "list_all (repair_over log) ds" and l: "length (dq_pending (cr_datagrams c')) \<le> dq_capacity (cr_datagrams c')"
      using Suc.IH by blast
    have "queue_repairs (Suc n) first payloads w k c = Some (Inr r, c')" using q bs Suc.prems False by simp
    moreover have "queued_more c (map RepairOut (bs # ds)) c'" using m by (simp add: queued_more_def)
    ultimately show ?thesis using ds l bs by (intro exI [of _ r] exI [of _ "bs # ds"] exI [of _ c']) simp
  qed
qed

lemma window_payloads:
  assumes "numbered_ok M log" and "log = pre @ window @ post" and "M \<le> 65535"
  shows "\<forall>p \<in> set window. snd p \<noteq> [] \<and> length (snd p) \<le> 65535"
proof
  fix p assume "p \<in> set window"
  then have "p \<in> set log" using assms(2) by simp
  then obtain i where "i < length log" "p = log ! i" by (metis in_set_conv_nth)
  then show "snd p \<noteq> [] \<and> length (snd p) \<le> 65535"
    using assms(1,3) by (auto simp: numbered_ok_def source_wire_def)
qed

lemma with_conn_simps [simp]:
  "ss_conn (with_conn c s) = c" "ss_running (with_conn c s) = ss_running s" "ss_in_flight (with_conn c s) = ss_in_flight s"
  "ss_numbered (with_conn c s) = ss_numbered s" "ss_emitted (with_conn c s) = ss_emitted s"
  by (simp_all add: with_conn_def)

lemma send_tail_repairs_spec:
  assumes l: "sender_limits config M" and i: "sender_inv config M s"
  shows "\<exists>r ds c. send_tail_repairs (ss_conn s) limit w = Some (r, c) \<and> queued_more (ss_conn s) (map RepairOut ds) c
    \<and> list_all (repair_over (ss_numbered s)) ds \<and> length (dq_pending (cr_datagrams c)) \<le> dq_capacity (cr_datagrams c)
    \<and> (ds = [] \<or> cr_datagram_enabled (ss_conn s))"
proof -
  let ?c = "ss_conn s"
  let ?a = "dq_capacity (cr_datagrams ?c) - length (dq_pending (cr_datagrams ?c))"
  have cap: "length (dq_pending (cr_datagrams ?c)) \<le> dq_capacity (cr_datagrams ?c)"
    using i by (simp add: sender_inv_def gauges_ok_def)
  obtain caps where caps: "active_capabilities ?c = Some caps" "1 \<le> unat (cap_max_span caps)" "unat (cap_max_span caps) \<le> 256"
    using active_capabilities_ok [OF l] i by (auto simp: sender_inv_def)
  define c1 where "c1 = (if ?a = 0 then ?c\<lparr>cr_datagrams := register_producer (cr_datagrams ?c) w\<rparr> else ?c)"
  have c1: "queued_more ?c [] c1" "length (dq_pending (cr_datagrams c1)) \<le> dq_capacity (cr_datagrams c1)"
    "active_capabilities c1 = Some caps" "cr_sources c1 = cr_sources ?c" "cr_datagram_enabled c1 = cr_datagram_enabled ?c"
    using cap caps active_capabilities_cong [of c1 ?c] by (simp_all add: c1_def queued_more_def)
  have eq: "send_tail_repairs ?c limit w =
     (if \<not> cr_datagram_enabled ?c then Some (Inl Disabled, ?c)
      else if min limit ?a = 0 then Some (Inr 0, c1)
      else if length (cr_sources c1) < 2 then Some (Inr 0, c1)
      else let span = min (unat (cap_max_span caps)) (length (cr_sources c1));
               window = drop (length (cr_sources c1) - span) (cr_sources c1) in
           if window = [] then None else queue_repairs (min limit ?a) (fst (hd window)) (map snd window) w 0 c1)"
    unfolding send_tail_repairs_def checked_sub_def Let_def using cap c1(3)
    by (simp only: if_True option.case c1_def [symmetric])
  show ?thesis
  proof (cases "cr_datagram_enabled ?c \<and> min limit ?a \<noteq> 0 \<and> \<not> length (cr_sources ?c) < 2")
    case False
    then have "send_tail_repairs ?c limit w = Some (Inl Disabled, ?c) \<or> send_tail_repairs ?c limit w = Some (Inr 0, c1)"
      unfolding eq c1(4) by argo
    then show ?thesis
    proof
      assume "send_tail_repairs ?c limit w = Some (Inl Disabled, ?c)"
      then show ?thesis using cap by (intro exI [of _ "Inl Disabled"] exI [of _ "[]"] exI [of _ ?c]) (simp add: queued_more_def)
    next
      assume "send_tail_repairs ?c limit w = Some (Inr 0, c1)"
      then show ?thesis using c1(1,2) by (intro exI [of _ "Inr 0"] exI [of _ "[]"] exI [of _ c1]) simp
    qed
  next
    case True
    define window where "window = drop (length (cr_sources ?c) - min (unat (cap_max_span caps)) (length (cr_sources ?c))) (cr_sources ?c)"
    have w: "window \<noteq> []" "length window \<le> 256" using True caps by (auto simp: window_def)
    obtain pre mid where p: "ss_numbered s = pre @ cr_sources ?c @ mid"
      using i True by (auto simp: sender_inv_def window_ok_def Let_def)
    have "\<exists>pre post. ss_numbered s = pre @ window @ post"
      unfolding p window_def by (metis append.assoc append_take_drop_id)
    then obtain pre' post where n: "ss_numbered s = pre' @ window @ post" by blast
    have "M \<le> 65535" "numbered_ok M (ss_numbered s)" using l i by (simp_all add: sender_limits_def sender_inv_def)
    note pl = window_payloads [OF this(2) n this(1)]
    have f: "\<exists>bs. repair_frame (fst (hd window)) rid (map snd window) = Some bs \<and> repair_over (ss_numbered s) bs" for rid
      unfolding n by (rule repair_frame_over [OF w pl])
    have en: "cr_datagram_enabled c1" using True c1 by simp
    obtain r ds c' where q: "queue_repairs (min limit ?a) (fst (hd window)) (map snd window) w 0 c1 = Some (Inr r, c')"
      "queued_more c1 (map RepairOut ds) c'" "list_all (repair_over (ss_numbered s)) ds"
      "length (dq_pending (cr_datagrams c')) \<le> dq_capacity (cr_datagrams c')"
      using queue_repairs_spec [OF en c1(2) f, of "min limit ?a" w 0] by blast
    have "send_tail_repairs ?c limit w = Some (Inr r, c')"
      using True q(1) w(1) unfolding eq c1(4) Let_def window_def [symmetric] by argo
    moreover have "queued_more ?c (map RepairOut ds) c'" using c1(1) q(2) by (simp add: queued_more_def)
    ultimately show ?thesis using q(3,4) True by blast
  qed
qed

lemma sources_of_repairs [simp]: "sources_of (map RepairOut ds) = []"
  by (induction ds) simp_all

lemma list_all_repairs [simp]: "list_all (datagram_ok log) (map RepairOut ds) \<longleftrightarrow> list_all (repair_over log) ds"
  by (induction ds) (simp_all add: datagram_ok_def)

lemma inv_queued_more:
  assumes "sender_inv config M s" and "queued_more (ss_conn s) (map RepairOut ds) c"
    and "list_all (repair_over (ss_numbered s)) ds" and "length (dq_pending (cr_datagrams c)) \<le> dq_capacity (cr_datagrams c)"
    and "ds = [] \<or> cr_datagram_enabled (ss_conn s)"
  shows "sender_inv config M (with_conn c s)"
proof -
  have "window_ok (with_conn c s)"
    using assms(1,2,5) by (auto simp: sender_inv_def window_ok_def queued_more_def Let_def gauges_ok_def
        split: if_splits)
  moreover have "span_ok config M c" "gauges_ok c" "cr_next_symbol c = cr_next_symbol (ss_conn s)"
    "dq_pending (cr_datagrams c) = dq_pending (cr_datagrams (ss_conn s)) @ map RepairOut ds"
    using assms(1,2,4) by (simp_all add: sender_inv_def queued_more_def span_ok_def gauges_ok_def)
  ultimately show ?thesis using assms(1,3) by (simp add: sender_inv_def)
qed

lemma numbered_ok_snoc:
  assumes "numbered_ok M log" and "record_ok r" and "length (source_wire (word_of_nat (length log)) [r]) \<le> M"
  shows "numbered_ok M (log @ [(word_of_nat (length log), source_wire (word_of_nat (length log)) [r])])"
  using assms by (auto simp: numbered_ok_def nth_append less_Suc_eq)

lemma inv_queue_source:
  assumes i: "sender_inv config M s" and f: "source_fits (ss_conn s) flow_id offset data"
    and c: "send_source (ss_conn s) flow_id offset data fin w = Some (Inr True, c)"
  shows "sender_inv config M (with_conn c s\<lparr>ss_numbered := ss_numbered s @ source_of (last (dq_pending (cr_datagrams c)))\<rparr>)"
proof -
  let ?c = "ss_conn s"
  let ?k = "cr_next_symbol ?c"
  have M: "cr_max_symbol_bytes ?c = M" and k: "?k = word_of_nat (length (ss_numbered s))"
    using i by (simp_all add: sender_inv_def span_ok_def)
  obtain r where r: "record_ok r" "length (source_wire ?k [r]) \<le> M"
    "encode_source ?k [\<lparr>sr_flow_id = flow_id, sr_offset = word_of_nat offset, sr_fin = fin, sr_data = data\<rparr>] [] = (Inr (), source_wire ?k [r])"
    using send_source_fits [OF f] M by blast
  have en: "cr_datagram_enabled ?c" "length (dq_pending (cr_datagrams ?c)) \<noteq> dq_capacity (cr_datagrams ?c)"
    and c': "c = push_datagram (?c\<lparr>cr_next_symbol := ?k + 1\<rparr>) (SourceOut ?k (source_wire ?k [r]))"
    using c r(3) by (auto simp: send_source_def Let_def split: if_splits)
  have n: "numbered_ok M (ss_numbered s @ [(?k, source_wire ?k [r])])"
    using numbered_ok_snoc [of M "ss_numbered s" r] i r(1,2) by (simp add: sender_inv_def k)
  have w: "window_ok (with_conn c s\<lparr>ss_numbered := ss_numbered s @ [(?k, source_wire ?k [r])]\<rparr>)"
    using i en(1) by (auto simp: sender_inv_def window_ok_def c' Let_def)
  have "datagram_ok (ss_numbered s @ [(?k, source_wire ?k [r])]) (SourceOut ?k (source_wire ?k [r]))" by (simp add: datagram_ok_def)
  then show ?thesis
    using i n w en(2)
    by (auto simp: sender_inv_def c' span_ok_def gauges_ok_def k list_all_datagram_ok_append datagram_ok_append split: option.splits)
qed

lemma inv_refuse_source:
  assumes "sender_inv config M s" and "send_source (ss_conn s) flow_id offset data fin w = Some (r, c)" and "r \<noteq> Inr True"
  shows "sender_inv config M (with_conn c s)"
proof -
  have "queued_more (ss_conn s) (map RepairOut []) c"
    using assms(2,3) by (auto simp: send_source_def queued_more_def Let_def split: if_splits prod.splits sum.splits)
  moreover have "length (dq_pending (cr_datagrams c)) \<le> dq_capacity (cr_datagrams c)"
    using calculation assms(1) by (simp add: queued_more_def sender_inv_def gauges_ok_def)
  ultimately show ?thesis using inv_queued_more [OF assms(1), of "[]" c] by simp
qed

lemma inv_take_next:
  assumes i: "sender_inv config M s" and r: "ss_running s" "ss_in_flight s = None" and t: "take_datagram (ss_conn s) w = (d, c)"
  shows "sender_inv config M (with_conn c s\<lparr>ss_in_flight := d\<rparr>)"
proof (cases "dq_pending (cr_datagrams (ss_conn s))")
  case Nil
  then have "queued_more (ss_conn s) (map RepairOut []) c" "d = None"
    using t by (auto simp: take_datagram_def Let_def queued_more_def)
  moreover have "sender_inv config M (with_conn c s)"
    by (rule inv_queued_more [OF i calculation(1)])
      (use calculation i in \<open>simp_all add: queued_more_def sender_inv_def gauges_ok_def\<close>)
  moreover have "with_conn c s\<lparr>ss_in_flight := None\<rparr> = with_conn c s" using r(2) by (simp add: with_conn_def)
  ultimately show ?thesis by simp
next
  case (Cons e rest)
  let ?c = "ss_conn s"
  have d: "d = Some e" and c: "dq_pending (cr_datagrams c) = rest" "dq_capacity (cr_datagrams c) = dq_capacity (cr_datagrams ?c)"
    "cr_queued_datagrams c = cr_queued_datagrams ?c - 1" "cr_sources c = cr_sources ?c" "cr_datagram_enabled c = cr_datagram_enabled ?c"
    "cr_config c = cr_config ?c" "cr_negotiated c = cr_negotiated ?c" "cr_max_symbol_bytes c = cr_max_symbol_bytes ?c"
    "cr_next_symbol c = cr_next_symbol ?c" "cr_retained_source_bytes c = cr_retained_source_bytes ?c"
    using t Cons by (auto simp: take_datagram_def Let_def split: list.splits if_splits)
  have en: "cr_datagram_enabled ?c" using i Cons by (auto simp: sender_inv_def window_ok_def Let_def split: if_splits)
  have "window_ok (with_conn c s\<lparr>ss_in_flight := d\<rparr>)"
    using i en r Cons by (auto simp: sender_inv_def window_ok_def Let_def c d)
  moreover have "span_ok config M c" "gauges_ok c"
    using i Cons by (simp_all add: sender_inv_def span_ok_def gauges_ok_def c)
  ultimately show ?thesis using i Cons by (simp add: sender_inv_def c d)
qed

lemma record_sent_source:
  assumes l: "sender_limits config M" and c: "span_ok config M c" and e: "cr_datagram_enabled c"
  shows "\<exists>c' gone. record_sent c (SourceOut k bs) = Some c' \<and> gone @ cr_sources c' = cr_sources c @ [(k, bs)]
    \<and> cr_retained_source_bytes c' + word_of_nat (sum_list (map (length \<circ> snd) gone)) = cr_retained_source_bytes c + word_of_nat (length bs)
    \<and> cr_datagrams c' = cr_datagrams c \<and> cr_queued_datagrams c' = cr_queued_datagrams c \<and> cr_datagram_enabled c'
    \<and> cr_next_symbol c' = cr_next_symbol c \<and> span_ok config M c'"
proof -
  let ?c1 = "c\<lparr>cr_counters := (cr_counters c)\<lparr>ct_source_sent := ct_source_sent (cr_counters c) + 1\<rparr>\<rparr>"
  let ?c2 = "?c1\<lparr>cr_retained_source_bytes := cr_retained_source_bytes ?c1 + word_of_nat (length bs), cr_sources := cr_sources ?c1 @ [(k, bs)]\<rparr>"
  have s2: "span_ok config M ?c2" using c by (simp add: span_ok_def)
  obtain caps where caps: "active_capabilities ?c2 = Some caps" using active_capabilities_ok [OF l s2] by blast
  obtain k0 b0 rest where x: "cr_sources ?c2 = (k0, b0) # rest" by (cases "cr_sources ?c2") auto
  have eq: "record_sent c (SourceOut k bs) = (if unat (cap_max_span caps) < length (cr_sources ?c2)
      then Some (?c2\<lparr>cr_sources := rest, cr_retained_source_bytes := cr_retained_source_bytes ?c2 - word_of_nat (length b0)\<rparr>) else Some ?c2)"
    using e caps x by (simp add: record_sent_def Let_def)
  show ?thesis
  proof (cases "unat (cap_max_span caps) < length (cr_sources ?c2)")
    case True
    let ?c3 = "?c2\<lparr>cr_sources := rest, cr_retained_source_bytes := cr_retained_source_bytes ?c2 - word_of_nat (length b0)\<rparr>"
    have "record_sent c (SourceOut k bs) = Some ?c3" using eq True by simp
    moreover have "span_ok config M ?c3" using s2 by (simp add: span_ok_def)
    ultimately show ?thesis using x e by (intro exI [of _ ?c3] exI [of _ "[(k0, b0)]"]) simp
  next
    case False
    then have "record_sent c (SourceOut k bs) = Some ?c2" using eq by simp
    then show ?thesis using s2 e by (intro exI [of _ ?c2] exI [of _ "[]"]) simp
  qed
qed

lemma record_sent_total:
  assumes "sender_limits config M" and "span_ok config M c"
  shows "record_sent c d \<noteq> None"
proof (cases d)
  case (SourceOut k bs)
  show ?thesis
  proof (cases "cr_datagram_enabled c")
    case True
    then show ?thesis using record_sent_source [OF assms True, of k bs] SourceOut by auto
  qed (simp add: SourceOut record_sent_def)
qed (simp add: record_sent_def)

lemma inv_sent:
  assumes l: "sender_limits config M" and i: "sender_inv config M s" and r: "ss_running s" "ss_in_flight s = Some d"
    and c: "record_sent (ss_conn s) d = Some c"
  shows "sender_inv config M (with_conn c s\<lparr>ss_in_flight := None, ss_emitted := ss_emitted s @ [d]\<rparr>)"
proof (cases "cr_datagram_enabled (ss_conn s) \<and> source_of d \<noteq> []")
  case False
  let ?c = "ss_conn s"
  have c': "cr_datagrams c = cr_datagrams ?c" "cr_queued_datagrams c = cr_queued_datagrams ?c" "cr_sources c = cr_sources ?c"
    "cr_datagram_enabled c = cr_datagram_enabled ?c" "cr_config c = cr_config ?c" "cr_negotiated c = cr_negotiated ?c"
    "cr_max_symbol_bytes c = cr_max_symbol_bytes ?c" "cr_next_symbol c = cr_next_symbol ?c"
    "cr_retained_source_bytes c = cr_retained_source_bytes ?c"
    using c False by (auto simp: record_sent_def Let_def split: outbound_datagram.splits)
  have "window_ok (with_conn c s\<lparr>ss_in_flight := None, ss_emitted := ss_emitted s @ [d]\<rparr>)"
    using i False r by (auto simp: sender_inv_def window_ok_def Let_def c')
  moreover have "span_ok config M c" "gauges_ok c" using i by (simp_all add: sender_inv_def span_ok_def gauges_ok_def c')
  ultimately show ?thesis using i r by (simp add: sender_inv_def c')
next
  case True
  let ?c = "ss_conn s"
  obtain k bs where d: "d = SourceOut k bs" using True by (cases d) auto
  have sp: "span_ok config M ?c" using i by (simp add: sender_inv_def)
  obtain gone where g: "gone @ cr_sources c = cr_sources ?c @ [(k, bs)]"
    "cr_retained_source_bytes c + word_of_nat (sum_list (map (length \<circ> snd) gone)) = cr_retained_source_bytes ?c + word_of_nat (length bs)"
    "cr_datagrams c = cr_datagrams ?c" "cr_queued_datagrams c = cr_queued_datagrams ?c" "cr_datagram_enabled c"
    "cr_next_symbol c = cr_next_symbol ?c" "span_ok config M c"
    using record_sent_source [OF l sp, of k bs] True c d by auto
  obtain pre where p: "ss_numbered s = pre @ cr_sources ?c @ [(k, bs)] @ sources_of (dq_pending (cr_datagrams ?c))"
    using i True r d by (auto simp: sender_inv_def window_ok_def Let_def)
  have p': "ss_numbered s = (pre @ gone) @ cr_sources c @ sources_of (dq_pending (cr_datagrams c))"
    unfolding p using g(1,3) by (metis append.assoc)
  have "set (cr_sources c) \<subseteq> set (gone @ cr_sources c)" by simp
  then have sub: "set (cr_sources c) \<subseteq> set (sources_of (ss_emitted s @ [d]))"
    unfolding g(1) using i d by (auto simp: sender_inv_def window_ok_def Let_def)
  have "window_ok (with_conn c s\<lparr>ss_in_flight := None, ss_emitted := ss_emitted s @ [d]\<rparr>)"
  proof -
    have "\<exists>pre' mid. ss_numbered s = pre' @ cr_sources c @ mid @ sources_of (dq_pending (cr_datagrams c)) \<and> (ss_running s \<longrightarrow> mid = [])"
      using p' by (intro exI [of _ "pre @ gone"] exI [of _ "[]"]) simp
    then show ?thesis using g(5) sub by (simp add: window_ok_def Let_def)
  qed
  moreover have "gauges_ok c"
  proof -
    have "sum_list (map (length \<circ> snd) (gone @ cr_sources c)) = sum_list (map (length \<circ> snd) (cr_sources ?c)) + length bs"
      unfolding g(1) by simp
    then have "(word_of_nat (sum_list (map (length \<circ> snd) gone)) + word_of_nat (sum_list (map (length \<circ> snd) (cr_sources c))) :: u64)
        = cr_retained_source_bytes ?c + word_of_nat (length bs)"
      using i by (simp add: sender_inv_def gauges_ok_def flip: of_nat_add)
    then have "cr_retained_source_bytes c = word_of_nat (sum_list (map (length \<circ> snd) (cr_sources c)))"
      using g(2) by (metis add.commute add_left_cancel)
    then show ?thesis using i g(3,4) by (simp add: sender_inv_def gauges_ok_def)
  qed
  ultimately show ?thesis using i r g(3,6,7) by (simp add: sender_inv_def)
qed
lemma inv_disable:
  assumes "sender_inv config M s"
  shows "sender_inv config M (s\<lparr>ss_world := disable_datagrams (ss_world s)\<rparr>)"
proof -
  let ?c = "rw_conn (disable_datagrams (ss_world s))"
  have "window_ok (s\<lparr>ss_world := disable_datagrams (ss_world s)\<rparr>)"
    by (simp add: window_ok_def disable_datagrams_def Let_def)
  moreover have "span_ok config M ?c" "gauges_ok ?c"
    using assms by (simp_all add: sender_inv_def span_ok_def gauges_ok_def disable_datagrams_def Let_def)
  ultimately show ?thesis using assms by (simp add: sender_inv_def disable_datagrams_def Let_def)
qed

lemma window_stop: "window_ok s \<Longrightarrow> window_ok (s\<lparr>ss_running := False, ss_in_flight := None\<rparr>)"
  by (cases "cr_datagram_enabled (ss_conn s)") (simp_all add: window_ok_def Let_def, blast)

lemma inv_stop: "sender_inv config M s \<Longrightarrow> sender_inv config M (s\<lparr>ss_running := False, ss_in_flight := None\<rparr>)"
  by (simp add: sender_inv_def window_stop)

lemma inv_failed:
  assumes "sender_inv config M s" and "handle_send_error (ss_world s) e = (close, w')"
  shows "sender_inv config M (s\<lparr>ss_world := w', ss_running := False, ss_in_flight := None\<rparr>)"
proof -
  have "w' = disable_datagrams (ss_world s) \<or> w' = ss_world s" using assms(2) by (auto simp: handle_send_error_def split: if_splits)
  then have "sender_inv config M (s\<lparr>ss_world := w'\<rparr>)" using inv_disable [OF assms(1)] assms(1) by auto
  from inv_stop [OF this] show ?thesis by simp
qed

lemma inv_negotiated:
  assumes "sender_inv config M s" and "1 \<le> unat (cap_max_span caps)" and "unat (cap_max_span caps) \<le> 256"
  shows "sender_inv config M (s\<lparr>ss_world := (ss_world s)\<lparr>rw_conn := (ss_conn s)\<lparr>cr_negotiated := Some caps\<rparr>\<rparr>\<rparr>)"
proof -
  let ?s = "s\<lparr>ss_world := (ss_world s)\<lparr>rw_conn := (ss_conn s)\<lparr>cr_negotiated := Some caps\<rparr>\<rparr>\<rparr>"
  have "window_ok ?s" using assms(1) by (simp add: sender_inv_def window_ok_def Let_def)
  moreover have "span_ok config M (ss_conn ?s)" "gauges_ok (ss_conn ?s)"
    using assms by (simp_all add: sender_inv_def span_ok_def gauges_ok_def)
  ultimately show ?thesis using assms(1) by (simp add: sender_inv_def)
qed

lemma negotiated_span:
  assumes l: "sender_limits config M" and s: "span_ok config M c" and p: "\<not> capabilities_rejected peer"
    and r: "recovery_capabilities c = Some caps"
  shows "1 \<le> unat (cap_max_span (capabilities_intersect caps peer)) \<and> unat (cap_max_span (capabilities_intersect caps peer)) \<le> 256"
proof -
  have "cap_max_span caps = rc_max_repair_span config"
    using r s by (auto simp: recovery_capabilities_def span_ok_def split: if_splits)
  moreover have "cap_max_span peer \<noteq> 0" "\<not> MAX_REPAIR_SPAN < cap_max_span peer" using p by (auto simp: capabilities_rejected_def)
  moreover have "0 < unat (cap_max_span peer)" using calculation(2) by (simp add: word_eq_iff_unsigned [where 'a = nat])
  ultimately show ?thesis
    using l by (auto simp: capabilities_intersect_def sender_limits_def min_def MAX_REPAIR_SPAN_def word_less_nat_alt word_le_nat_alt
        Suc_le_eq)
qed

lemma inv_negotiate:
  assumes l: "sender_limits config M" and i: "sender_inv config M s" and p: "\<not> capabilities_rejected peer"
    and n: "negotiate_capabilities (ss_world s) peer = Some (ok, w')"
  shows "sender_inv config M (s\<lparr>ss_world := w'\<rparr>)"
proof -
  obtain caps where caps: "recovery_capabilities (ss_conn s) = Some caps"
    using n by (auto simp: negotiate_capabilities_def split: option.splits)
  define current where "current = (case cr_negotiated (ss_conn s) of None \<Rightarrow> capabilities_intersect caps peer | Some current \<Rightarrow> current)"
  let ?w1 = "(ss_world s)\<lparr>rw_conn := (ss_conn s)\<lparr>cr_negotiated := Some current\<rparr>\<rparr>"
  have s: "span_ok config M (ss_conn s)" using i by (simp add: sender_inv_def)
  have "1 \<le> unat (cap_max_span current) \<and> unat (cap_max_span current) \<le> 256"
    using negotiated_span [OF l s p caps] s by (auto simp: current_def span_ok_def split: option.splits)
  then have i1: "sender_inv config M (s\<lparr>ss_world := ?w1\<rparr>)" using inv_negotiated [OF i] by blast
  have "w' = ss_world s \<or> w' = ?w1 \<or> w' = disable_datagrams ?w1"
    using n caps by (auto simp: negotiate_capabilities_def Let_def current_def [symmetric] split: if_splits)
  then show ?thesis using i i1 inv_disable [OF i1] by auto
qed

lemma inv_step:
  assumes l: "sender_limits config M" and "sender_step s t" and "sender_inv config M s"
  shows "sender_inv config M t"
  using assms(2,3)
proof cases
  case (queue_source flow_id offset data fin w c)
  then show ?thesis using inv_queue_source [OF assms(3)] by blast
next
  case (refuse_source flow_id offset data fin w r c)
  then show ?thesis using inv_refuse_source [OF assms(3)] by blast
next
  case (queue_repair limit w r c)
  obtain r' ds c' where q: "send_tail_repairs (ss_conn s) limit w = Some (r', c')" "queued_more (ss_conn s) (map RepairOut ds) c'"
    "list_all (repair_over (ss_numbered s)) ds" "length (dq_pending (cr_datagrams c')) \<le> dq_capacity (cr_datagrams c')"
    "ds = [] \<or> cr_datagram_enabled (ss_conn s)"
    using send_tail_repairs_spec [OF l assms(3), of limit w] by blast
  then show ?thesis using inv_queued_more [OF assms(3) q(2-5)] queue_repair by simp
next
  case (take_next w d c)
  then show ?thesis using inv_take_next [OF assms(3)] by blast
next
  case (sent d c)
  then show ?thesis using inv_sent [OF l assms(3)] by blast
next
  case (failed d e close w')
  then show ?thesis using inv_failed [OF assms(3)] by blast
next
  case (negotiate peer ok w')
  then show ?thesis using inv_negotiate [OF l assms(3)] by blast
qed

lemma inv_start: "sender_inv config M (sender_start config M b heap)"
  by (simp add: sender_inv_def sender_start_def recovery_start_def span_ok_def gauges_ok_def window_ok_def numbered_ok_def Let_def)

lemma inv_reachable:
  assumes "sender_limits config M" and "sender_step\<^sup>*\<^sup>* (sender_start config M b heap) s"
  shows "sender_inv config M s"
  using assms(2) by induction (auto intro: inv_start inv_step [OF assms(1)])

subsection \<open>The window of a repair\<close>

text \<open>\<open>G\<close> gives the symbol of every number of the log.\<close>

definition names_log :: "(u32 \<Rightarrow> bytes) \<Rightarrow> (u32 \<times> bytes) list \<Rightarrow> bool" where
  "names_log G log \<longleftrightarrow> (\<forall>k. unat k < length log \<longrightarrow> G k = snd (log ! unat k))"

lemma numbered_symbol:
  assumes "numbered_ok M log" and "length log \<le> 2 ^ 32" and "i < length log" and "names_log G log"
  shows "unat (fst (log ! i)) = i" and "genuine_symbol M G (word_of_nat i)" and "G (word_of_nat i) = snd (log ! i)"
proof -
  have u: "unat (word_of_nat i :: u32) = i" using assms(2,3) by (simp add: unsigned_of_nat take_bit_nat_eq_self)
  then show "unat (fst (log ! i)) = i" using assms by (simp add: numbered_ok_def)
  show G: "G (word_of_nat i) = snd (log ! i)" using u assms(3,4) by (simp add: names_log_def)
  obtain r where "record_ok r" "snd (log ! i) = source_wire (word_of_nat i) [r]" "length (snd (log ! i)) \<le> M"
    using assms by (auto simp: numbered_ok_def)
  then show "genuine_symbol M G (word_of_nat i)"
    using G by (auto simp: genuine_symbol_def source_ok_def MAX_SOURCE_RECORDS_def intro!: exI [of _ "[r]"])
qed

lemma repair_over_genuine:
  assumes n: "numbered_ok M log" and l: "length log \<le> 2 ^ 32" and G: "names_log G log" and r: "repair_over log bs"
  shows "\<exists>f. decode_repair bs M = Inr f
    \<and> repair_symbol (rp_first_symbol_id f) (rp_repair_id f) (rp_seed f)
        (map (\<lambda>i. G (repair_id_at (rp_first_symbol_id f) i)) [0..<unat (rp_span f)]) = Inr (rp_coded f)
    \<and> (\<forall>i < unat (rp_span f). genuine_symbol M G (repair_id_at (rp_first_symbol_id f) i))"
proof -
  obtain pre window post f where p: "log = pre @ window @ post" "window \<noteq> []" and f: "repair_ok f" "bs = repair_wire f"
      "rp_first_symbol_id f = fst (hd window)" "unat (rp_span f) = length window"
      "repair_symbol (rp_first_symbol_id f) (rp_repair_id f) (rp_seed f) (map snd window) = Inr (rp_coded f)"
    using r by (auto simp: repair_over_def)
  have at: "log ! (length pre + i) = window ! i" "length pre + i < length log" if "i < length window" for i
    using that p(1) by (auto simp: nth_append)
  have "fst (log ! length pre) = word_of_nat (length pre)" using n at(2) [of 0] p(2) by (simp add: numbered_ok_def)
  then have first: "rp_first_symbol_id f = word_of_nat (length pre)"
    using at(1) [of 0] p(2) f(3) by (simp add: hd_conv_nth)
  have id: "repair_id_at (rp_first_symbol_id f) i = word_of_nat (length pre + i)" for i by (simp add: repair_id_at_def first)
  have g: "genuine_symbol M G (repair_id_at (rp_first_symbol_id f) i)" if "i < length window" for i
    unfolding id using at [OF that] by (intro numbered_symbol(2) [OF n l _ G])
  have "G (repair_id_at (rp_first_symbol_id f) i) = snd (window ! i)" if "i < length window" for i
    unfolding id using numbered_symbol(3) [OF n l at(2) [OF that] G] at(1) [OF that] by simp
  then have m: "map (\<lambda>i. G (repair_id_at (rp_first_symbol_id f) i)) [0..<unat (rp_span f)] = map snd window"
    unfolding f(4) by (intro nth_equalityI) simp_all
  have c: "repair_symbol (rp_first_symbol_id f) (rp_repair_id f) (rp_seed f)
        (map (\<lambda>i. G (repair_id_at (rp_first_symbol_id f) i)) [0..<unat (rp_span f)]) = Inr (rp_coded f)"
    unfolding m by (rule f(5))
  obtain i where "i < unat (rp_span f)" "length (rp_coded f) = length (G (repair_id_at (rp_first_symbol_id f) i))"
    using repair_symbol_Inr(6) [OF c] by blast
  then have "unat (rp_symbol_size f) \<le> M" using g [of i] f(1,4) by (simp add: genuine_symbol_def repair_ok_def)
  then show ?thesis using decode_repair_complete [OF f(1)] c g f(2,4) by auto
qed

lemma datagram_genuine:
  assumes n: "numbered_ok M log" and l: "length log \<le> 2 ^ 32" and G: "names_log G log" and d: "datagram_ok log d"
  shows "case d of
      SourceOut k bs \<Rightarrow> bs = G k \<and> genuine_symbol M G k
    | RepairOut bs \<Rightarrow> (\<exists>f. decode_repair bs M = Inr f
        \<and> repair_symbol (rp_first_symbol_id f) (rp_repair_id f) (rp_seed f)
            (map (\<lambda>i. G (repair_id_at (rp_first_symbol_id f) i)) [0..<unat (rp_span f)]) = Inr (rp_coded f)
        \<and> (\<forall>i < unat (rp_span f). genuine_symbol M G (repair_id_at (rp_first_symbol_id f) i)))"
proof (cases d)
  case (SourceOut k bs)
  then obtain i where i: "i < length log" "log ! i = (k, bs)" using d by (auto simp: datagram_ok_def in_set_conv_nth)
  have "k = word_of_nat i" using numbered_symbol(1) [OF n l i(1) G] i(2) by auto
  then show ?thesis using numbered_symbol(2,3) [OF n l i(1) G] i(2) SourceOut by simp
next
  case (RepairOut bs)
  then show ?thesis using repair_over_genuine [OF n l G, of bs] d by (simp add: datagram_ok_def)
qed

subsection \<open>Properties\<close>

text \<open>C32: whatever a connection sends is honest.  As long as the 32-bit symbol numbers have not wrapped, every SOURCE datagram the
  backend took is the encoding of the symbol its number names, and every REPAIR datagram it took decodes to a frame whose octets are
  the combination, over consecutive symbols that fit the symbol size, that its header announces.  This is what the
  receiving decoder relies on; it holds under any interleaving of writes, repairs, sends, send failures and
  negotiation.\<close>

theorem sender_honest:
  assumes "sender_limits config M" and "sender_step\<^sup>*\<^sup>* (sender_start config M b heap) s"
    and "length (ss_numbered s) \<le> 2 ^ 32" and "d \<in> set (ss_emitted s)"
  defines "G \<equiv> \<lambda>k. snd (ss_numbered s ! unat k)"
  shows "case d of
      SourceOut k bs \<Rightarrow> bs = G k \<and> genuine_symbol M G k
    | RepairOut bs \<Rightarrow> (\<exists>f. decode_repair bs M = Inr f
        \<and> repair_symbol (rp_first_symbol_id f) (rp_repair_id f) (rp_seed f)
            (map (\<lambda>i. G (repair_id_at (rp_first_symbol_id f) i)) [0..<unat (rp_span f)]) = Inr (rp_coded f)
        \<and> (\<forall>i < unat (rp_span f). genuine_symbol M G (repair_id_at (rp_first_symbol_id f) i)))"
proof -
  have i: "sender_inv config M s" by (rule inv_reachable [OF assms(1,2)])
  then have n: "numbered_ok M (ss_numbered s)" and ok: "datagram_ok (ss_numbered s) d"
    using assms(4) by (auto simp: sender_inv_def list_all_iff)
  show ?thesis by (rule datagram_genuine [OF n assms(3) _ ok]) (simp add: names_log_def G_def)
qed

text \<open>C33: the sending half never panics and its gauges are exact.  In every reachable state a chunk that fits is encoded or refused,
  repairs are computed or refused, a sent datagram is recorded and capabilities are compared, none of them hitting an
  \<open>expect\<close>; the gauges count exactly the queued datagrams, which never exceed the capacity of the queue, and the octets of the retained
  window.\<close>

theorem sender_total:
  assumes "sender_limits config M" and "sender_step\<^sup>*\<^sup>* (sender_start config M b heap) s"
  shows "(source_fits (ss_conn s) flow_id offset data \<longrightarrow> send_source (ss_conn s) flow_id offset data fin w \<noteq> None)
    \<and> send_tail_repairs (ss_conn s) limit w \<noteq> None \<and> record_sent (ss_conn s) d \<noteq> None
    \<and> negotiate_capabilities (ss_world s) peer \<noteq> None
    \<and> cr_queued_datagrams (ss_conn s) = word_of_nat (length (dq_pending (cr_datagrams (ss_conn s))))
    \<and> length (dq_pending (cr_datagrams (ss_conn s))) \<le> dq_capacity (cr_datagrams (ss_conn s))
    \<and> cr_retained_source_bytes (ss_conn s) = word_of_nat (sum_list (map (length \<circ> snd) (cr_sources (ss_conn s))))"
proof -
  have i: "sender_inv config M s" by (rule inv_reachable [OF assms])
  have sp: "span_ok config M (ss_conn s)" using i by (simp add: sender_inv_def)
  have "send_source (ss_conn s) flow_id offset data fin w \<noteq> None" if "source_fits (ss_conn s) flow_id offset data"
    using send_source_fits [OF that, of "cr_next_symbol (ss_conn s)" fin] by (auto simp: send_source_def Let_def)
  moreover have "send_tail_repairs (ss_conn s) limit w \<noteq> None"
    using send_tail_repairs_spec [OF assms(1) i, of limit w] by auto
  moreover have "negotiate_capabilities (ss_world s) peer \<noteq> None"
    using sp assms(1) by (auto simp: negotiate_capabilities_def Let_def recovery_capabilities_def span_ok_def sender_limits_def)
  ultimately show ?thesis
    using record_sent_total [OF assms(1) sp] i by (simp add: sender_inv_def gauges_ok_def)
qed

text \<open>A connection that sends one chunk.\<close>

definition demo_chunk :: bytes where
  "demo_chunk = source_wire 0 [\<lparr>sr_flow_id = 4, sr_offset = 0, sr_fin = False, sr_data = [7]\<rparr>]"

definition demo_idle :: connection_recovery where
  "demo_idle = recovery_start recovery_config_default 100"

definition demo_queued :: connection_recovery where
  "demo_queued = push_datagram (demo_idle\<lparr>cr_next_symbol := 1\<rparr>) (SourceOut 0 demo_chunk)"

lemma demo_limits: "sender_limits recovery_config_default 100"
  by (simp add: sender_limits_def recovery_config_default_def)

lemma demo_fits: "source_fits demo_idle 4 0 [7]"
  by (simp add: source_fits_def demo_idle_def recovery_start_def MAX_WIRE_OFFSET_def wire_max_value SINGLE_SOURCE_MAX_OVERHEAD_def)

lemma demo_send: "send_source demo_idle 4 0 [7] False 1 = Some (Inr True, demo_queued)"
proof -
  have "encode_source 0 [\<lparr>sr_flow_id = 4, sr_offset = 0, sr_fin = False, sr_data = [7]\<rparr>] [] = (Inr (), demo_chunk)"
    using encode_source_ok [of 1 "[\<lparr>sr_flow_id = 4, sr_offset = 0, sr_fin = False, sr_data = [7]\<rparr>]" 0 "[]"]
    by (simp add: demo_chunk_def source_ok_def record_ok_def MAX_WIRE_OFFSET_def)
  then show ?thesis
    by (simp add: send_source_def demo_queued_def Let_def demo_idle_def recovery_start_def recovery_config_default_def)
qed

lemma demo_sender_run:
  "\<exists>s. sender_step\<^sup>*\<^sup>* (sender_start recovery_config_default 100 b heap) s \<and> ss_emitted s = [SourceOut 0 demo_chunk] \<and> length (ss_numbered s) = 1"
proof -
  let ?s0 = "sender_start recovery_config_default 100 b heap"
  let ?s1 = "with_conn demo_queued ?s0\<lparr>ss_numbered := ss_numbered ?s0 @ source_of (last (dq_pending (cr_datagrams demo_queued)))\<rparr>"
  have c0: "ss_conn ?s0 = demo_idle" by (simp add: sender_start_def demo_idle_def)
  have s1: "sender_step ?s0 ?s1" using queue_source [of ?s0 4 0 "[7]" False 1 demo_queued] demo_fits demo_send by (simp only: c0)
  obtain c2 where t: "take_datagram demo_queued 2 = (Some (SourceOut 0 demo_chunk), c2)"
    by (simp add: take_datagram_def Let_def demo_queued_def demo_idle_def recovery_start_def)
  let ?s2 = "with_conn c2 ?s1\<lparr>ss_in_flight := Some (SourceOut 0 demo_chunk)\<rparr>"
  have s2: "sender_step ?s1 ?s2" by (rule take_next [of _ 2]) (use t in \<open>simp_all add: sender_start_def\<close>)
  have "sender_inv recovery_config_default 100 ?s2"
    by (rule inv_step [OF demo_limits s2 inv_step [OF demo_limits s1 inv_start]])
  then obtain c3 where r: "record_sent c2 (SourceOut 0 demo_chunk) = Some c3"
    using record_sent_total [OF demo_limits, of c2 "SourceOut 0 demo_chunk"] by (auto simp: sender_inv_def)
  let ?s3 = "with_conn c3 ?s2\<lparr>ss_in_flight := None, ss_emitted := ss_emitted ?s2 @ [SourceOut 0 demo_chunk]\<rparr>"
  have s3: "sender_step ?s2 ?s3" by (rule sent) (use r in \<open>simp_all add: sender_start_def\<close>)
  have "ss_emitted ?s3 = [SourceOut 0 demo_chunk]" "length (ss_numbered ?s3) = 1"
    by (simp_all add: sender_start_def demo_queued_def demo_idle_def recovery_start_def)
  moreover have "sender_step\<^sup>*\<^sup>* ?s0 ?s3"
    using s1 s2 s3 by (rule converse_rtranclp_into_rtranclp [OF _ converse_rtranclp_into_rtranclp [OF _ r_into_rtranclp]])
  ultimately show ?thesis by - (rule exI [of _ ?s3], simp)
qed

theorem sender_honest_witness:
  "\<exists>s :: sender_system. ss_emitted s = [SourceOut 0 demo_chunk] \<and> snd (ss_numbered s ! 0) = demo_chunk
     \<and> genuine_symbol 100 (\<lambda>k. snd (ss_numbered s ! unat k)) 0"
proof -
  obtain s where s: "sender_step\<^sup>*\<^sup>* (sender_start recovery_config_default 100 (budget_new 1 9) (\<lambda>_. None)) s"
    "ss_emitted s = [SourceOut 0 demo_chunk]" "length (ss_numbered s) = 1"
    using demo_sender_run by blast
  show ?thesis using sender_honest [OF demo_limits s(1), of "SourceOut 0 demo_chunk"] s(2,3) by - (rule exI [of _ s], simp)
qed

theorem sender_total_witness:
  "\<exists>s :: sender_system. ss_emitted s = [SourceOut 0 demo_chunk] \<and> send_tail_repairs (ss_conn s) 3 1 \<noteq> None"
proof -
  obtain s where s: "sender_step\<^sup>*\<^sup>* (sender_start recovery_config_default 100 (budget_new 1 9) (\<lambda>_. None)) s"
    "ss_emitted s = [SourceOut 0 demo_chunk]"
    using demo_sender_run by blast
  show ?thesis using sender_total [OF demo_limits s(1), where limit = 3 and w = 1] s(2) by blast
qed

end
