(* ===== verification/Flow_Task.thy ===== *)
theory Flow_Task
  imports Connection_Recovery
begin

section \<open>The control task of a flow (src/flow.rs)\<close>

text \<open>
  \<open>FlowTask\<close> owns the reliable stream of a flow: it applies the control frames of the peer, sends queued octets as datagrams or as
  STREAM_DATA, replays what is not acknowledged, and writes the control frames in turn.  An operation takes and returns the
  task, the shared state of the flow, the connection and the memory budget.  What the backend answers is an argument: the time,
  the path statistics and the largest datagram in \<open>backend_view\<close>, the outcome of a stream read, and the outcomes of the
  successive stream writes of one call.  A timer is its deadline.  \<open>None\<close> is a failed \<open>expect\<close>.  An operation that takes the lock of the
  shared state several times is one step here.
\<close>

datatype replay_stage = RepairStage | SourceReplay | ReliableFallback

datatype flow_task_error =
    TaskCodec codec_error
  | FinishedEarly
  | ControlLimit
  | UnexpectedControl
  | PeerReset application_error
  | TaskRead
  | TaskWrite
  | TaskFinish
  | WriteZero
  | TaskDatagram send_datagram_error
  | TaskConnection
  | TaskRecovery recovery_error

definition is_protocol_violation :: "flow_task_error \<Rightarrow> bool" where
  "is_protocol_violation e \<longleftrightarrow> (case e of
     TaskCodec _ \<Rightarrow> True | FinishedEarly \<Rightarrow> True | ControlLimit \<Rightarrow> True | UnexpectedControl \<Rightarrow> True
   | TaskRecovery x \<Rightarrow> x \<noteq> Capacity | _ \<Rightarrow> False)"

type_synonym wire_frame = "bytes \<times> nat option \<times> nat option"

record flow_task =
  tk_flow_id :: u64
  tk_replay :: replay_buffer
  tk_ack_timer :: "nat option"
  tk_wire_queue :: "wire_frame list"
  tk_wire_current :: "wire_frame option"
  tk_pending_ack :: "(nat \<times> u64_range list) option"
  tk_pending_credit :: "nat option"
  tk_input :: bytes
  tk_scratch :: usize
  tk_max_input :: usize
  tk_datagram_enabled :: bool
  tk_replay_stage :: replay_stage
  tk_replay_cursor :: "nat option"
  tk_replay_timer :: "nat option"
  tk_fin_queued :: bool
  tk_send_finished :: bool
  tk_acked_receive_offset :: nat

record task_world =
  tw_task :: flow_task
  tw_shared :: flow_shared
  tw_conn :: connection_recovery
  tw_budget :: mem_budget

record backend_view =
  bv_now :: nat
  bv_path_rtts :: "nat option list"
  bv_max_datagram_size :: "usize option"
  bv_lost_packets :: u64
  bv_tx_datagrams :: u64

definition CONTROL_DECODE_BATCH :: nat where "CONTROL_DECODE_BATCH = 128"
definition CONTROL_READ_CHUNK :: usize where "CONTROL_READ_CHUNK = 4 * 1024"
definition LOGICAL_ACK_DELAY :: nat where "LOGICAL_ACK_DELAY = 1000000"

definition control_input_limit :: "usize \<Rightarrow> usize \<Rightarrow> usize" where
  "control_input_limit max_payload max_ranges =
     max (saturating_add max_payload 16) (saturating_add (saturating_mul max_ranges 16) 16)"

definition flow_task_new :: "u64 \<Rightarrow> connection_recovery \<Rightarrow> flow_task option" where
  "flow_task_new flow_id c =
     (case (max_stream_payload c, max_ack_ranges c) of
        (Some payload, Some ranges) \<Rightarrow>
          let max_input = control_input_limit payload ranges in
          Some \<lparr>tk_flow_id = flow_id, tk_replay = rp_new (unat (rc_replay_buffer_bytes (cr_config c))), tk_ack_timer = None,
            tk_wire_queue = [], tk_wire_current = None, tk_pending_ack = None, tk_pending_credit = None, tk_input = [],
            tk_scratch = min (max max_input 1) CONTROL_READ_CHUNK, tk_max_input = max_input,
            tk_datagram_enabled = (rc_mode (cr_config c) = Adaptive), tk_replay_stage = RepairStage, tk_replay_cursor = None,
            tk_replay_timer = None, tk_fin_queued = False, tk_send_finished = False, tk_acked_receive_offset = 0\<rparr>
      | _ \<Rightarrow> None)"

subsection \<open>Feedback to the peer\<close>

definition queue_control :: "flow_task \<Rightarrow> control_frame \<Rightarrow> flow_task option" where
  "queue_control t frame =
     map_option (\<lambda>encoded. t\<lparr>tk_wire_queue := tk_wire_queue t @ [(encoded, None, None)]\<rparr>) (encode_control frame [])"

definition queue_pending_feedback :: "task_world \<Rightarrow> backend_view \<Rightarrow> task_world" where
  "queue_pending_feedback w v =
     (let s = tw_shared w; t = tw_task w;
          timer = (case tk_ack_timer t of None \<Rightarrow> bv_now v + LOGICAL_ACK_DELAY | Some d \<Rightarrow> d);
          waits = fs_ack_pending s \<noteq> 0 \<and> fs_ack_pending s < LOGICAL_ACK_THRESHOLD;
          ack_due = (if waits then timer \<le> bv_now v else fs_ack_pending s \<noteq> 0);
          t1 = t\<lparr>tk_ack_timer := (if fs_ack_pending s = 0 \<or> ack_due then None else Some timer)\<rparr>;
          t2 = (if ack_due then t1\<lparr>tk_pending_ack := Some (ak_contiguous (fs_received s), ak_ranges (fs_received s))\<rparr> else t1);
          t3 = (if fs_credit_dirty s then t2\<lparr>tk_pending_credit := Some (fs_max_receive_offset s)\<rparr> else t2) in
      w\<lparr>tw_task := t3, tw_shared := s\<lparr>fs_ack_pending := (if ack_due then 0 else fs_ack_pending s), fs_credit_dirty := False\<rparr>\<rparr>)"

subsection \<open>Replay timer\<close>

definition arm_replay_timer :: "task_world \<Rightarrow> backend_view \<Rightarrow> task_world" where
  "arm_replay_timer w v =
     (if tk_replay_timer (tw_task w) \<noteq> None then w
      else let (delay, c) = replay_delay (tw_conn w) (bv_path_rtts v) in
        w\<lparr>tw_task := (tw_task w)\<lparr>tk_replay_timer := Some (bv_now v + delay)\<rparr>, tw_conn := c\<rparr>)"

definition restart_replay_timer :: "task_world \<Rightarrow> backend_view \<Rightarrow> task_world" where
  "restart_replay_timer w v =
     (let (delay, c) = replay_delay (tw_conn w) (bv_path_rtts v); t = tw_task w in
      w\<lparr>tw_conn := c,
        tw_task := (if tk_replay_timer t \<noteq> None \<or> (rp_bytes (tk_replay t) \<noteq> 0 \<and> tk_datagram_enabled t)
                    then t\<lparr>tk_replay_timer := Some (bv_now v + delay)\<rparr> else t)\<rparr>)"

subsection \<open>Control frames of the peer\<close>

text \<open>The part of an ACK that follows a successful \<open>AckRanges::from_wire\<close>.\<close>

definition apply_ack :: "task_world \<Rightarrow> backend_view \<Rightarrow> ack_ranges \<Rightarrow> task_world option" where
  "apply_ack w v ack =
     (let ((released_bytes, released_chunks), replay) = rp_acknowledge (tk_replay (tw_task w)) ack;
          w1 = w\<lparr>tw_task := (tw_task w)\<lparr>tk_replay := replay\<rparr>\<rparr> in
      case (if released_bytes = 0 then Some w1
            else case (checked_sub (fs_retained_bytes (tw_shared w)) released_bytes,
                       checked_sub (fs_retained_chunks (tw_shared w)) released_chunks) of
              (Some n, Some k) \<Rightarrow>
                Some (restart_replay_timer
                  (w1\<lparr>tw_conn := record_delivery (tw_conn w) released_bytes,
                      tw_shared := wake_write ((tw_shared w)\<lparr>fs_retained_bytes := n, fs_retained_chunks := k\<rparr>),
                      tw_task := (tw_task w1)\<lparr>tk_replay_stage := RepairStage, tk_replay_cursor := None\<rparr>\<rparr>) v)
            | _ \<Rightarrow> None) of
        None \<Rightarrow> None
      | Some w2 \<Rightarrow>
          Some (if rp_bytes (tk_replay (tw_task w2)) = 0
            then w2\<lparr>tw_task := (tw_task w2)\<lparr>tk_replay_stage := RepairStage, tk_replay_cursor := None, tk_replay_timer := None\<rparr>\<rparr>
            else w2))"

definition apply_control :: "task_world \<Rightarrow> backend_view \<Rightarrow> control_frame \<Rightarrow> ((flow_task_error + unit) \<times> task_world) option" where
  "apply_control w v frame =
     (case frame of
        CfAck contiguous ranges \<Rightarrow>
          (case max_ack_ranges (tw_conn w) of
             None \<Rightarrow> None
           | Some limit \<Rightarrow>
               (case ack_from_wire (unat contiguous) (map (\<lambda>(s, e). (unat s, unat e)) ranges) limit (fs_next_send_offset (tw_shared w)) of
                  Inl e \<Rightarrow> Some (Inl (TaskRecovery e), w)
                | Inr ack \<Rightarrow> map_option (\<lambda>w'. (Inr (), w')) (apply_ack w v ack)))
      | CfMaxOffset maximum \<Rightarrow>
          if unat maximum < fs_peer_max_offset (tw_shared w) then Some (Inl (TaskRecovery InvalidRange), w)
          else Some (Inr (), w\<lparr>tw_shared := wake_task ((tw_shared w)\<lparr>fs_peer_max_offset := unat maximum\<rparr>)\<rparr>)
      | CfFin offset \<Rightarrow>
          (case flow_set_final_offset (tw_shared w) (unat offset) of
             (Inl e, s) \<Rightarrow> Some (Inl (TaskRecovery e), w\<lparr>tw_shared := s\<rparr>)
           | (Inr _, s) \<Rightarrow> Some (Inr (), w\<lparr>tw_shared := s\<rparr>))
      | CfStreamData offset fin data \<Rightarrow>
          (case max_stream_payload (tw_conn w) of
             None \<Rightarrow> None
           | Some limit \<Rightarrow>
               if limit < length data then Some (Inl (TaskCodec Limit), w)
               else case insert_bytes (tw_shared w) (tw_budget w) (unat offset) data fin of
                 None \<Rightarrow> None
               | Some (Inl e, s, b) \<Rightarrow> Some (Inl (TaskRecovery e), w\<lparr>tw_shared := s, tw_budget := b\<rparr>)
               | Some (Inr _, s, b) \<Rightarrow> Some (Inr (), w\<lparr>tw_shared := s, tw_budget := b\<rparr>))
      | _ \<Rightarrow> Some (Inl UnexpectedControl, w))"

text \<open>The decoding loop: \<open>True\<close> when the batch was used up, and what is left of the input.\<close>

fun decode_batch ::
  "nat \<Rightarrow> bytes \<Rightarrow> task_world \<Rightarrow> backend_view \<Rightarrow> ((flow_task_error + bool \<times> bytes) \<times> task_world) option" where
  "decode_batch 0 input w v = Some (Inr (True, input), w)"
| "decode_batch (Suc n) input w v =
     (case max_ack_ranges (tw_conn w) of
        None \<Rightarrow> None
      | Some ranges \<Rightarrow>
          (case decode_control input ranges (tk_max_input (tw_task w)) of
             Inl Truncated \<Rightarrow> Some (Inr (False, input), w)
           | Inl e \<Rightarrow> Some (Inl (TaskCodec e), w)
           | Inr (frame, consumed) \<Rightarrow>
               (case apply_control w v frame of
                  None \<Rightarrow> None
                | Some (Inl e, w') \<Rightarrow> Some (Inl e, w')
                | Some (Inr _, w') \<Rightarrow> decode_batch n (drop consumed input) w' v)))"

text \<open>A read of no octets is the end of the stream.\<close>

datatype stream_read = ReadPending | ReadData bytes | ReadReset u64 | ReadError

definition poll_receive ::
  "task_world \<Rightarrow> backend_view \<Rightarrow> stream_read \<Rightarrow> ((flow_task_error + unit) poll \<times> task_world) option" where
  "poll_receive w v answer =
     (case decode_batch CONTROL_DECODE_BATCH (tk_input (tw_task w)) (w\<lparr>tw_task := (tw_task w)\<lparr>tk_input := []\<rparr>\<rparr>) v of
        None \<Rightarrow> None
      | Some (Inl e, w1) \<Rightarrow> Some (Ready (Inl e), w1)
      | Some (Inr (hit_limit, input), w1) \<Rightarrow>
          let w2 = w1\<lparr>tw_task := (tw_task w1)\<lparr>tk_input := input\<rparr>\<rparr>;
              remaining = tk_max_input (tw_task w2) - length input in
          if hit_limit then Some (Ready (Inr ()), w2)
          else if remaining = 0 then Some (Ready (Inl ControlLimit), w2)
          else (case answer of
            ReadData bs \<Rightarrow>
              let read = take (min remaining (tk_scratch (tw_task w2))) bs in
              if read \<noteq> [] then Some (Ready (Inr ()), w2\<lparr>tw_task := (tw_task w2)\<lparr>tk_input := input @ read\<rparr>\<rparr>)
              else if rx_final_offset (fs_receive (tw_shared w2)) \<noteq> None then Some (Pending, w2)
              else Some (Ready (Inl FinishedEarly), w2)
          | ReadReset code \<Rightarrow> Some (Ready (Inl (PeerReset (from_peer_code code))), w2)
          | ReadError \<Rightarrow> Some (Ready (Inl TaskRead), w2)
          | ReadPending \<Rightarrow> Some (Pending, w2)))"

subsection \<open>Sending\<close>

definition set_task :: "(flow_task \<Rightarrow> flow_task) \<Rightarrow> task_world \<Rightarrow> task_world" where
  "set_task f w = w\<lparr>tw_task := f (tw_task w)\<rparr>"

definition push_front :: "outbound \<Rightarrow> task_world \<Rightarrow> task_world" where
  "push_front ob w = w\<lparr>tw_shared := (tw_shared w)\<lparr>fs_outbound := ob # fs_outbound (tw_shared w)\<rparr>\<rparr>"

definition queue_stream_data :: "flow_task \<Rightarrow> nat \<Rightarrow> bytes \<Rightarrow> bool \<Rightarrow> nat \<Rightarrow> flow_task option" where
  "queue_stream_data t offset data fin flushed_offset =
     map_option (\<lambda>encoded. t\<lparr>tk_wire_queue := tk_wire_queue t @ [(encoded, Some flushed_offset, None)]\<rparr>)
       (encode_control (CfStreamData (word_of_nat offset) fin data) [])"

text \<open>The chunk is retained, framed on the stream and counted as a fallback.\<close>

definition send_fallback :: "task_world \<Rightarrow> outbound \<Rightarrow> nat \<Rightarrow> ((flow_task_error + bool) \<times> task_world) option" where
  "send_fallback w ob e =
     (case rp_retain (tk_replay (tw_task w)) (ob_offset ob) (ob_bytes ob) of
        Inl x \<Rightarrow> Some (Inl (TaskRecovery x), w)
      | Inr replay \<Rightarrow>
          map_option (\<lambda>t. (Inr False, w\<lparr>tw_task := t, tw_conn := record_fallback (tw_conn w)\<rparr>))
            (queue_stream_data ((tw_task w)\<lparr>tk_replay := replay\<rparr>) (ob_offset ob) (ob_bytes ob) False e))"

text \<open>One chunk, as a datagram or on the stream: \<open>Inr (Some flushed)\<close> when it was taken, \<open>Inr None\<close> when the datagram queue is
  full and the chunk went back to the queue.\<close>

definition send_chunk ::
  "task_world \<Rightarrow> backend_view \<Rightarrow> outbound \<Rightarrow> nat \<Rightarrow> waker \<Rightarrow> ((flow_task_error + bool option) \<times> task_world) option" where
  "send_chunk w v ob e wk =
     (if \<not> tk_datagram_enabled (tw_task w) then map_option (\<lambda>(r, w'). (map_sum id Some r, w')) (send_fallback w ob e)
      else case send_source (tw_conn w) (tk_flow_id (tw_task w)) (ob_offset ob) (ob_bytes ob) False wk of
        None \<Rightarrow> None
      | Some (Inr True, c) \<Rightarrow>
          (case rp_retain (tk_replay (tw_task w)) (ob_offset ob) (ob_bytes ob) of
             Inl x \<Rightarrow> Some (Inl (TaskRecovery x), w\<lparr>tw_conn := c\<rparr>)
           | Inr replay \<Rightarrow>
               Some (Inr (Some True), arm_replay_timer (w\<lparr>tw_conn := c, tw_task := (tw_task w)\<lparr>tk_replay := replay\<rparr>\<rparr>) v))
      | Some (Inr False, c) \<Rightarrow> Some (Inr None, push_front ob (w\<lparr>tw_conn := c\<rparr>))
      | Some (Inl x, c) \<Rightarrow>
          if x = ConnectionLost then Some (Inl TaskConnection, w\<lparr>tw_conn := c\<rparr>)
          else if rc_require_adaptive (cr_config c) then Some (Inl (TaskDatagram x), w\<lparr>tw_conn := c\<rparr>)
          else map_option (\<lambda>(r, w'). (map_sum id Some r, w'))
            (send_fallback (set_task (\<lambda>t. t\<lparr>tk_datagram_enabled := False\<rparr>) (w\<lparr>tw_conn := c\<rparr>)) ob e))"

definition sync_datagram_enabled :: "task_world \<Rightarrow> task_world" where
  "sync_datagram_enabled w =
     (if tk_datagram_enabled (tw_task w) \<and> \<not> cr_datagram_enabled (tw_conn w)
      then set_task (\<lambda>t. t\<lparr>tk_datagram_enabled := False\<rparr>) w else w)"

text \<open>After the chunk has its final length: send it and complete a flush it reaches.\<close>

definition send_outbound ::
  "task_world \<Rightarrow> backend_view \<Rightarrow> outbound \<Rightarrow> waker \<Rightarrow> ((flow_task_error + bool) \<times> task_world) option" where
  "send_outbound w v ob wk =
     (case checked_add (ob_offset ob) (length (ob_bytes ob)) of
        None \<Rightarrow> Some (Inl (TaskRecovery OffsetOverflow), w)
      | Some e \<Rightarrow>
          (case send_chunk w v ob e wk of
             None \<Rightarrow> None
           | Some (Inl x, w1) \<Rightarrow> Some (Inl x, w1)
           | Some (Inr None, w1) \<Rightarrow> Some (Inr False, w1)
           | Some (Inr (Some flushed), w1) \<Rightarrow>
               let s = tw_shared w1 in
               Some (Inr True,
                 if flushed \<and> (case fs_flush_target s of None \<Rightarrow> False | Some target \<Rightarrow> target \<le> e) \<and> fs_outbound s = []
                 then w1\<lparr>tw_shared := wake_write (s\<lparr>fs_flushed_offset := e\<rparr>)\<rparr> else w1)))"

text \<open>At most the payload limit and the credit of the peer are sent; the rest of the chunk goes back as a chunk of its own, if there
  is room for one more.\<close>

definition send_limited ::
  "task_world \<Rightarrow> backend_view \<Rightarrow> outbound \<Rightarrow> usize \<Rightarrow> waker \<Rightarrow> ((flow_task_error + bool) \<times> task_world) option" where
  "send_limited w v ob payload_limit wk =
     (let s = tw_shared w;
          send_length = min (min payload_limit (fs_peer_max_offset s - ob_offset ob)) (length (ob_bytes ob)) in
      if length (ob_bytes ob) \<le> send_length then send_outbound w v ob wk
      else case checked_add (ob_offset ob) send_length of
        None \<Rightarrow> Some (Inl (TaskRecovery OffsetOverflow), w)
      | Some remaining_offset \<Rightarrow>
          if fs_replay_chunk_limit s \<le> fs_retained_chunks s then Some (Inr False, push_front ob w)
          else send_outbound
            (push_front \<lparr>ob_offset = remaining_offset, ob_bytes = drop send_length (ob_bytes ob)\<rparr>
              (w\<lparr>tw_shared := s\<lparr>fs_retained_chunks := fs_retained_chunks s + 1\<rparr>\<rparr>))
            v (ob\<lparr>ob_bytes := take send_length (ob_bytes ob)\<rparr>) wk)"

definition process_outbound ::
  "task_world \<Rightarrow> backend_view \<Rightarrow> waker \<Rightarrow> ((flow_task_error + bool) \<times> task_world) option" where
  "process_outbound w0 v wk =
     (let w = sync_datagram_enabled w0; s = tw_shared w in
      case fs_outbound s of
        [] \<Rightarrow> Some (Inr False, w)
      | ob # rest \<Rightarrow>
          let w1 = w\<lparr>tw_shared := s\<lparr>fs_outbound := rest\<rparr>\<rparr> in
          if fs_peer_max_offset s \<le> ob_offset ob then Some (Inr False, push_front ob w1)
          else
            (case max_source_payload (tw_conn w1) (bv_max_datagram_size v) of
               None \<Rightarrow> None
             | Some source_payload \<Rightarrow>
                 if tk_datagram_enabled (tw_task w1) \<and> source_payload = 0 \<and> rc_require_adaptive (cr_config (tw_conn w1))
                 then Some (Inl (TaskDatagram DatagramTooLargeForPath), w1)
                 else
                   let w2 = (if tk_datagram_enabled (tw_task w1) \<and> source_payload = 0
                             then set_task (\<lambda>t. t\<lparr>tk_datagram_enabled := False\<rparr>) w1 else w1) in
                   case (if tk_datagram_enabled (tw_task w2) then Some source_payload else max_stream_payload (tw_conn w2)) of
                     None \<Rightarrow> None
                   | Some payload_limit \<Rightarrow> send_limited w2 v ob payload_limit wk))"

subsection \<open>Replay\<close>

definition reset_replay_timer :: "task_world \<Rightarrow> backend_view \<Rightarrow> task_world" where
  "reset_replay_timer w v =
     (let (delay, c) = replay_delay (tw_conn w) (bv_path_rtts v) in
      w\<lparr>tw_conn := c, tw_task := (tw_task w)\<lparr>tk_replay_timer := Some (bv_now v + delay)\<rparr>\<rparr>)"

text \<open>The repair stage: \<open>Inr True\<close> when this turn is over.\<close>

definition replay_repair ::
  "task_world \<Rightarrow> backend_view \<Rightarrow> waker \<Rightarrow> ((flow_task_error + bool) \<times> task_world) option" where
  "replay_repair w v wk =
     (case take_repair_budget (tw_conn w) (bv_lost_packets v) (bv_tx_datagrams v) (length (rp_chunks (tk_replay (tw_task w)))) of
        None \<Rightarrow> None
      | Some (budget, c) \<Rightarrow>
          let w1 = w\<lparr>tw_conn := c\<rparr> in
          if budget = 0 then Some (Inr True, reset_replay_timer (set_task (\<lambda>t. t\<lparr>tk_replay_stage := SourceReplay\<rparr>) w1) v)
          else case send_tail_repairs c budget wk of
            None \<Rightarrow> None
          | Some (Inr sent, c1) \<Rightarrow>
              let w2 = w1\<lparr>tw_conn := c1\<rparr> in
              if sent \<noteq> 0 then Some (Inr True, reset_replay_timer (set_task (\<lambda>t. t\<lparr>tk_replay_stage := SourceReplay\<rparr>) w2) v)
              else Some (Inr False, w2)
          | Some (Inl x, c1) \<Rightarrow>
              let w2 = w1\<lparr>tw_conn := c1\<rparr> in
              if x \<noteq> ConnectionLost \<and> \<not> rc_require_adaptive (cr_config c1)
              then Some (Inr False, set_task (\<lambda>t. t\<lparr>tk_datagram_enabled := False\<rparr>) w2)
              else Some (Inl (TaskDatagram x), w2))"

text \<open>The stages after repair: replay the sources once, then move to the stream.\<close>

definition replay_sources ::
  "task_world \<Rightarrow> backend_view \<Rightarrow> waker \<Rightarrow> ((flow_task_error + bool) \<times> task_world) option" where
  "replay_sources w v wk =
     (case rp_next_chunk_after (tk_replay (tw_task w)) (tk_replay_cursor (tw_task w)) of
        Some (offset, bs) \<Rightarrow>
          (case send_source (tw_conn w) (tk_flow_id (tw_task w)) offset bs False wk of
             None \<Rightarrow> None
           | Some (Inl x, c) \<Rightarrow> Some (Inl (TaskDatagram x), w\<lparr>tw_conn := c\<rparr>)
           | Some (Inr False, c) \<Rightarrow> Some (Inr False, w\<lparr>tw_conn := c\<rparr>)
           | Some (Inr True, c) \<Rightarrow>
               Some (Inr True, set_task (\<lambda>t. t\<lparr>tk_replay_cursor := Some offset\<rparr>) (w\<lparr>tw_conn := record_replay c\<rparr>)))
      | None \<Rightarrow>
          Some (Inr True, reset_replay_timer
            (set_task (\<lambda>t. t\<lparr>tk_replay_stage := ReliableFallback, tk_replay_cursor := None\<rparr>) w) v))"

definition replay_stream :: "task_world \<Rightarrow> ((flow_task_error + bool) \<times> task_world) option" where
  "replay_stream w =
     (if tk_wire_current (tw_task w) \<noteq> None \<or> tk_wire_queue (tw_task w) \<noteq> [] then Some (Inr False, w)
      else case rp_next_chunk_after (tk_replay (tw_task w)) (tk_replay_cursor (tw_task w)) of
        Some (offset, bs) \<Rightarrow>
          (case checked_add offset (length bs) of
             None \<Rightarrow> Some (Inl (TaskRecovery OffsetOverflow), w)
           | Some e \<Rightarrow>
               map_option (\<lambda>t. (Inr True, w\<lparr>tw_task := t\<lparr>tk_replay_cursor := Some offset\<rparr>, tw_conn := record_fallback (tw_conn w)\<rparr>))
                 (queue_stream_data (tw_task w) offset bs False e))
      | None \<Rightarrow>
          Some (Inr True, set_task (\<lambda>t. t\<lparr>tk_datagram_enabled := False, tk_replay_stage := RepairStage, tk_replay_cursor := None,
            tk_replay_timer := None\<rparr>) w))"

definition replay_later ::
  "task_world \<Rightarrow> backend_view \<Rightarrow> waker \<Rightarrow> ((flow_task_error + bool) \<times> task_world) option" where
  "replay_later w v wk =
     (if tk_replay_stage (tw_task w) \<noteq> ReliableFallback \<and> tk_datagram_enabled (tw_task w)
      then replay_sources w v wk else replay_stream w)"

definition poll_replay ::
  "task_world \<Rightarrow> backend_view \<Rightarrow> waker \<Rightarrow> ((flow_task_error + bool) \<times> task_world) option" where
  "poll_replay w0 v wk =
     (let w = sync_datagram_enabled w0 in
      case tk_replay_timer (tw_task w) of
        None \<Rightarrow> Some (Inr False, w)
      | Some deadline \<Rightarrow>
          if bv_now v < deadline then Some (Inr False, w)
          else if rp_bytes (tk_replay (tw_task w)) = 0
          then Some (Inr True, set_task (\<lambda>t. t\<lparr>tk_replay_timer := None, tk_replay_stage := RepairStage, tk_replay_cursor := None\<rparr>) w)
          else if tk_replay_stage (tw_task w) = RepairStage \<and> tk_datagram_enabled (tw_task w)
          then (case replay_repair w v wk of
              None \<Rightarrow> None
            | Some (Inl x, w1) \<Rightarrow> Some (Inl x, w1)
            | Some (Inr True, w1) \<Rightarrow> Some (Inr True, w1)
            | Some (Inr False, w1) \<Rightarrow> replay_later w1 v wk)
          else replay_later w v wk)"

subsection \<open>Writing the stream\<close>

datatype stream_write = WritePending | Wrote usize | WriteError

text \<open>The frame to write next: queued frames first, then an acknowledgement, then credit.\<close>

definition next_frame :: "flow_task \<Rightarrow> flow_task option" where
  "next_frame t =
     (if tk_wire_current t \<noteq> None then Some t
      else case tk_wire_queue t of
        f # rest \<Rightarrow> Some (t\<lparr>tk_wire_current := Some f, tk_wire_queue := rest\<rparr>)
      | [] \<Rightarrow>
          (case tk_pending_ack t of
             Some (contiguous, ranges) \<Rightarrow>
               map_option (\<lambda>encoded. t\<lparr>tk_pending_ack := None, tk_wire_current := Some (encoded, None, Some contiguous)\<rparr>)
                 (encode_control (CfAck (word_of_nat contiguous) (map (\<lambda>(s, e). (word_of_nat s, word_of_nat e)) ranges)) [])
           | None \<Rightarrow>
               (case tk_pending_credit t of
                  Some maximum \<Rightarrow>
                    map_option (\<lambda>encoded. t\<lparr>tk_pending_credit := None, tk_wire_current := Some (encoded, None, None)\<rparr>)
                      (encode_control (CfMaxOffset (word_of_nat maximum)) [])
                | None \<Rightarrow> Some t)))"

definition frame_written :: "task_world \<Rightarrow> nat option \<Rightarrow> nat option \<Rightarrow> task_world" where
  "frame_written w flushed_offset acked_offset =
     (let w1 = set_task (\<lambda>t. t\<lparr>tk_wire_current := None\<rparr>) w;
          w2 = (case flushed_offset of
              None \<Rightarrow> w1
            | Some f \<Rightarrow> w1\<lparr>tw_shared := wake_write ((tw_shared w1)\<lparr>fs_flushed_offset := max (fs_flushed_offset (tw_shared w1)) f\<rparr>)\<rparr>) in
      case acked_offset of
        None \<Rightarrow> w2
      | Some a \<Rightarrow>
          let (r, b) = acknowledge_consumed (fs_receive (tw_shared w2)) (tw_budget w2) a in
          set_task (\<lambda>t. t\<lparr>tk_acked_receive_offset := max (tk_acked_receive_offset t) a\<rparr>)
            (w2\<lparr>tw_shared := (tw_shared w2)\<lparr>fs_receive := r\<rparr>, tw_budget := b\<rparr>))"

fun poll_wire :: "task_world \<Rightarrow> stream_write list \<Rightarrow> ((flow_task_error + unit) poll \<times> task_world) option" where
  "poll_wire w answers =
     (case next_frame (tw_task w) of
        None \<Rightarrow> None
      | Some t \<Rightarrow>
          let w1 = w\<lparr>tw_task := t\<rparr> in
          (case tk_wire_current t of
             None \<Rightarrow> Some (Ready (Inr ()), w1)
           | Some (current, flushed, acked) \<Rightarrow>
               (case answers of
                  [] \<Rightarrow> Some (Pending, w1)
                | WritePending # _ \<Rightarrow> Some (Pending, w1)
                | WriteError # _ \<Rightarrow> Some (Ready (Inl TaskWrite), w1)
                | Wrote n # rest \<Rightarrow>
                    if n = 0 then Some (Ready (Inl WriteZero), w1)
                    else if n = length current then poll_wire (frame_written w1 flushed acked) rest
                    else poll_wire (set_task (\<lambda>t. t\<lparr>tk_wire_current := Some (drop n current, flushed, acked)\<rparr>) w1) rest)))"

declare poll_wire.simps [simp del]

subsection \<open>Termination of the flow\<close>

definition queue_terminal_frames :: "task_world \<Rightarrow> backend_view \<Rightarrow> task_world option" where
  "queue_terminal_frames w v =
     (case fs_shutdown_target (tw_shared w) of
        None \<Rightarrow> Some w
      | Some final_offset \<Rightarrow>
          if tk_fin_queued (tw_task w) \<or> fs_outbound (tw_shared w) \<noteq> [] then Some w
          else if rp_bytes (tk_replay (tw_task w)) = 0
          then map_option (\<lambda>t. w\<lparr>tw_task := t\<lparr>tk_fin_queued := True\<rparr>\<rparr>) (queue_control (tw_task w) (CfFin (word_of_nat final_offset)))
          else Some (if tk_datagram_enabled (tw_task w) then arm_replay_timer w v else w))"

definition final_ack_written :: "flow_shared \<Rightarrow> nat \<Rightarrow> bool" where
  "final_ack_written s acked_receive_offset \<longleftrightarrow>
     (case fs_receive_final_offset s of
        None \<Rightarrow> False
      | Some final_offset \<Rightarrow> ak_contiguous (fs_received s) = final_offset \<and> final_offset \<le> acked_receive_offset)
     \<and> fs_ack_pending s = 0"

definition finish_send_if_ready :: "task_world \<Rightarrow> bool \<Rightarrow> (flow_task_error + unit) \<times> task_world" where
  "finish_send_if_ready w finish_ok =
     (let t = tw_task w in
      if tk_fin_queued t \<and> tk_wire_current t = None \<and> tk_wire_queue t = [] \<and> tk_pending_ack t = None \<and> tk_pending_credit t = None
      then
        let s = (if fs_shutdown_done (tw_shared w) then tw_shared w else wake_write ((tw_shared w)\<lparr>fs_shutdown_done := True\<rparr>));
            w1 = w\<lparr>tw_shared := s\<rparr> in
        if \<not> tk_send_finished t \<and> final_ack_written s (tk_acked_receive_offset t)
        then (if finish_ok then (Inr (), set_task (\<lambda>t. t\<lparr>tk_send_finished := True\<rparr>) w1) else (Inl TaskFinish, w1))
        else (Inr (), w1)
      else (Inr (), w))"

text \<open>How a poll leaves the task: still running, having woken itself or not; ended by a local reset, which resets and stops the
  stream with the code; ended because the handle is gone; or failed, the flag telling whether both directions of the stream are
  reset with \<open>FlowProtocol\<close>.  \<open>display\<close> renders an error.\<close>

datatype task_exit = TaskRunning bool | TaskReset u64 | TaskAbandoned | TaskFailed bool

definition fail_task :: "(flow_task_error \<Rightarrow> string) \<Rightarrow> task_world \<Rightarrow> flow_task_error \<Rightarrow> task_exit \<times> task_world" where
  "fail_task display w e =
     (TaskFailed (is_protocol_violation e),
      w\<lparr>tw_shared := fail_with_kind (tw_shared w)
         (case e of PeerReset _ \<Rightarrow> ConnectionResetKind | _ \<Rightarrow> ConnectionAborted) (display e)\<rparr>)"

text \<open>What the backend answers during one turn of the task.\<close>

record turn_answers =
  ta_view :: backend_view
  ta_read :: stream_read
  ta_writes :: "stream_write list"
  ta_finish_ok :: bool

text \<open>One iteration of the loop of \<open>FlowTask::poll\<close>: progress, or the error that ends the task.\<close>

definition flow_turn :: "task_world \<Rightarrow> turn_answers \<Rightarrow> waker \<Rightarrow> ((flow_task_error + bool) \<times> task_world) option" where
  "flow_turn w a wk =
     (case poll_receive w (ta_view a) (ta_read a) of
        None \<Rightarrow> None
      | Some (Ready (Inl e), w1) \<Rightarrow> Some (Inl e, w1)
      | Some (received, w1) \<Rightarrow>
          (case process_outbound (queue_pending_feedback w1 (ta_view a)) (ta_view a) wk of
             None \<Rightarrow> None
           | Some (Inl e, w2) \<Rightarrow> Some (Inl e, w2)
           | Some (Inr sent, w2) \<Rightarrow>
               (case poll_replay w2 (ta_view a) wk of
                  None \<Rightarrow> None
                | Some (Inl e, w3) \<Rightarrow> Some (Inl e, w3)
                | Some (Inr replayed, w3) \<Rightarrow>
                    (case queue_terminal_frames w3 (ta_view a) of
                       None \<Rightarrow> None
                     | Some w4 \<Rightarrow>
                         (case poll_wire w4 (ta_writes a) of
                            None \<Rightarrow> None
                          | Some (Ready (Inl e), w5) \<Rightarrow> Some (Inl e, w5)
                          | Some (_, w5) \<Rightarrow>
                              (case finish_send_if_ready w5 (ta_finish_ok a) of
                                 (Inl e, w6) \<Rightarrow> Some (Inl e, w6)
                               | (Inr _, w6) \<Rightarrow> Some (Inr (received \<noteq> Pending \<or> sent \<or> replayed), w6)))))))"

definition FLOW_TASK_TURN_BUDGET :: nat where "FLOW_TASK_TURN_BUDGET = 32"

text \<open>The turns left, the answers of the backend being given for each turn; a task that still progresses on its last turn wakes
  itself.\<close>

fun flow_turns ::
  "(flow_task_error \<Rightarrow> string) \<Rightarrow> (nat \<Rightarrow> turn_answers) \<Rightarrow> nat \<Rightarrow> task_world \<Rightarrow> waker \<Rightarrow> (task_exit \<times> task_world) option" where
  "flow_turns display as 0 w wk = Some (TaskRunning False, w)"
| "flow_turns display as (Suc n) w wk =
     (case flow_turn w (as (FLOW_TASK_TURN_BUDGET - Suc n)) wk of
        None \<Rightarrow> None
      | Some (Inl e, w1) \<Rightarrow> Some (fail_task display w1 e)
      | Some (Inr False, w1) \<Rightarrow> Some (TaskRunning False, w1)
      | Some (Inr True, w1) \<Rightarrow> if n = 0 then Some (TaskRunning True, w1) else flow_turns display as n w1 wk)"

text \<open>\<open>None\<close>: a reset code that is no QUIC variable-length integer.\<close>

definition flow_task_poll ::
  "(flow_task_error \<Rightarrow> string) \<Rightarrow> (nat \<Rightarrow> turn_answers) \<Rightarrow> task_world \<Rightarrow> waker \<Rightarrow> (task_exit \<times> task_world) option" where
  "flow_task_poll display as w wk =
     (let s = tw_shared w; w1 = w\<lparr>tw_shared := s\<lparr>fs_task_waker := Some wk, fs_reset := None\<rparr>\<rparr> in
      case fs_reset s of
        Some code \<Rightarrow> if 2 ^ 62 \<le> unat code then None else Some (TaskReset code, w1)
      | None \<Rightarrow>
          if fs_handle_dropped s then Some (TaskAbandoned, w1)
          else flow_turns display as FLOW_TASK_TURN_BUDGET w1 wk)"

definition unregister_flow :: "connection_recovery \<Rightarrow> u64 \<Rightarrow> connection_recovery" where
  "unregister_flow c flow_id = c\<lparr>cr_flows := filter (\<lambda>(k, _). k \<noteq> flow_id) (cr_flows c)\<rparr>"

definition flow_task_drop :: "bool \<Rightarrow> task_world \<Rightarrow> task_world" where
  "flow_task_drop runtime_stopped w =
     (let s = discard_retained (tw_shared w);
          s1 = (if runtime_stopped then flow_fail s ''QUICP host runtime stopped'' else s) in
      w\<lparr>tw_shared := mark_task_stopped s1,
        tw_conn := unregister_flow (tw_conn w) (tk_flow_id (tw_task w))\<rparr>)"

end
