(* ===== verification/Connection_Delivery.thy ===== *)
theory Connection_Delivery
  imports Connection_Accounting Connection_Sender Flow_Task
begin

section \<open>What a connection delivers (src/recovery.rs)\<close>

text \<open>
  The receiving half of a connection as a transition system: datagrams arrive, flows are created, registered, read, acknowledged and dropped, data
  comes in on streams, and the rest of the program uses the same memory budget.  The first property holds whatever arrives;
  the second composes the receiver with the sending half of the peer.
\<close>

subsection \<open>The system\<close>

text \<open>The world, the octets of the budget held by the rest of the program, and what the application has read from the flow at an address.\<close>

record receiver_system =
  sy_world :: recovery_world
  sy_held :: nat
  sy_read :: "nat \<Rightarrow> bytes"

definition with_flow :: "nat \<Rightarrow> flow_shared \<Rightarrow> mem_budget \<Rightarrow> receiver_system \<Rightarrow> receiver_system" where
  "with_flow a s b y = y\<lparr>sy_world := (sy_world y)\<lparr>rw_heap := (rw_heap (sy_world y))(a \<mapsto> s), rw_budget := b\<rparr>\<rparr>"

text \<open>The memory of the stored chunks goes back when the last reference to a flow is dropped.\<close>

definition drop_flow :: "nat \<Rightarrow> flow_shared \<Rightarrow> recovery_world \<Rightarrow> recovery_world" where
  "drop_flow a s w = w\<lparr>rw_heap := (rw_heap w)(a := None),
     rw_budget := fold (\<lambda>(k, c). charge_drop (bc_charge c)) (rx_chunks (fs_receive s)) (rw_budget w)\<rparr>"

text \<open>\<open>fid a\<close> is the stream of the flow at address \<open>a\<close>.  \<open>send_side\<close> stands for whatever the handle and the task do to the sending side of a
  flow, \<open>elsewhere\<close> for the sending half and the negotiation of the connection.\<close>

inductive receiver_step ::
  "(nat \<Rightarrow> u64) \<Rightarrow> (bytes \<Rightarrow> bool) \<Rightarrow> (u64 \<Rightarrow> nat \<Rightarrow> bytes \<Rightarrow> bool) \<Rightarrow> receiver_system \<Rightarrow> receiver_system \<Rightarrow> bool"
  for fid arrives carried where
  arrive: "handle_ok dg \<Longrightarrow> arrives (bh_data dg) \<Longrightarrow> receive (sy_world y) now dg = Some (closed, w')
    \<Longrightarrow> receiver_step fid arrives carried y (y\<lparr>sy_world := w'\<rparr>)"
| create: "rw_heap (sy_world y) a = None
    \<Longrightarrow> receiver_step fid arrives carried y (y\<lparr>sy_world := (sy_world y)\<lparr>rw_heap := (rw_heap (sy_world y))
      (a \<mapsto> flow_state_new reassembly_buffer replay_buffer ranges initial)\<rparr>, sy_read := (sy_read y)(a := [])\<rparr>)"
| register: "rw_heap (sy_world y) a \<noteq> None \<Longrightarrow> register_flow (sy_world y) now (fid a) a = Some w'
    \<Longrightarrow> receiver_step fid arrives carried y (y\<lparr>sy_world := w'\<rparr>)"
| unregister: "receiver_step fid arrives carried y
    (y\<lparr>sy_world := (sy_world y)\<lparr>rw_conn := unregister_flow (rw_conn (sy_world y)) f\<rparr>\<rparr>)"
| stream_data: "rw_heap (sy_world y) a = Some s \<Longrightarrow> carried (fid a) offset bs
    \<Longrightarrow> insert_bytes s (rw_budget (sy_world y)) offset bs fin = Some (r, s', b)
    \<Longrightarrow> receiver_step fid arrives carried y (with_flow a s' b y)"
| final_offset: "rw_heap (sy_world y) a = Some s \<Longrightarrow> flow_set_final_offset s offset = (r, s')
    \<Longrightarrow> receiver_step fid arrives carried y (with_flow a s' (rw_budget (sy_world y)) y)"
| application_read: "rw_heap (sy_world y) a = Some s \<Longrightarrow> flow_read s (rw_budget (sy_world y)) wanted wk = (out, s', b)
    \<Longrightarrow> receiver_step fid arrives carried y (with_flow a s' b y
      \<lparr>sy_read := (sy_read y)(a := sy_read y a @ (case out of Inr (Some bs) \<Rightarrow> bs | _ \<Rightarrow> []))\<rparr>)"
| ack_written: "rw_heap (sy_world y) a = Some s
    \<Longrightarrow> acknowledge_consumed (fs_receive s) (rw_budget (sy_world y)) contiguous = (r, b)
    \<Longrightarrow> receiver_step fid arrives carried y (with_flow a (s\<lparr>fs_receive := r\<rparr>) b y)"
| send_side: "rw_heap (sy_world y) a = Some s \<Longrightarrow> fs_receive s' = fs_receive s \<Longrightarrow> fs_received s' = fs_received s
    \<Longrightarrow> outbound_bytes (fs_outbound s') \<le> fs_retained_bytes s' \<Longrightarrow> length (fs_outbound s') \<le> fs_retained_chunks s'
    \<Longrightarrow> receiver_step fid arrives carried y (with_flow a s' (rw_budget (sy_world y)) y)"
| forget: "rw_heap (sy_world y) a = Some s \<Longrightarrow> receiver_step fid arrives carried y (y\<lparr>sy_world := drop_flow a s (sy_world y)\<rparr>)"
| elsewhere: "cr_flows c = cr_flows (rw_conn (sy_world y)) \<Longrightarrow> cr_decoder c = cr_decoder (rw_conn (sy_world y))
    \<Longrightarrow> cr_pre_open c = cr_pre_open (rw_conn (sy_world y)) \<Longrightarrow> cr_pre_open_count c = cr_pre_open_count (rw_conn (sy_world y))
    \<Longrightarrow> cr_config c = cr_config (rw_conn (sy_world y)) \<Longrightarrow> cr_max_symbol_bytes c = cr_max_symbol_bytes (rw_conn (sy_world y))
    \<Longrightarrow> receiver_step fid arrives carried y (y\<lparr>sy_world := (sy_world y)\<lparr>rw_conn := c\<rparr>\<rparr>)"
| hold: "try_reserve (rw_budget (sy_world y)) n = Some b
    \<Longrightarrow> receiver_step fid arrives carried y (y\<lparr>sy_world := (sy_world y)\<lparr>rw_budget := b\<rparr>, sy_held := sy_held y + n\<rparr>)"
| give_back: "n \<le> sy_held y
    \<Longrightarrow> receiver_step fid arrives carried y
      (y\<lparr>sy_world := (sy_world y)\<lparr>rw_budget := release (rw_budget (sy_world y)) n\<rparr>, sy_held := sy_held y - n\<rparr>)"

definition receiver_start :: "recovery_config \<Rightarrow> usize \<Rightarrow> mem_budget \<Rightarrow> receiver_system" where
  "receiver_start config M b =
     \<lparr>sy_world = \<lparr>rw_conn = recovery_start config M, rw_budget = b, rw_heap = (\<lambda>_. None)\<rparr>, sy_held = 0, sy_read = (\<lambda>_. [])\<rparr>"

subsection \<open>Invariant\<close>

lemma capabilities_known: "cr_max_symbol_bytes c \<le> 65535 \<Longrightarrow> active_capabilities c \<noteq> None"
  by (auto simp: active_capabilities_def recovery_capabilities_def Let_def split: option.splits)

context delivery
begin

definition receiver_ok :: "recovery_config \<Rightarrow> (nat \<Rightarrow> u64) \<Rightarrow> mem_budget \<Rightarrow> receiver_system \<Rightarrow> bool" where
  "receiver_ok config fid b0 y \<longleftrightarrow> recv_inv fid b0 (sy_held y) 0 (sy_world y) \<and> cr_config (rw_conn (sy_world y)) = config
     \<and> (\<forall>a p. positions (sy_world y) a = Some p \<longrightarrow> length (sy_read y a) = p \<and> item (fid a) 0 (sy_read y a))"

lemma receiver_ok_start:
  assumes "0 < unat (rc_decoder_window config)" and "holds b 0" and "good (cr_decoder (recovery_start config max_symbol))"
  shows "receiver_ok config fid b (receiver_start config max_symbol b)"
  using assms acc_refl [OF assms(2)]
  by (simp add: receiver_ok_def receiver_start_def recv_inv_def recovery_start_def Let_def dec_inv_def dec_mem_def decoder_with_budget_def
      heap_mem_def pre_open_mem_def positions_def)

text \<open>A flow is replaced by one that holds acceptable octets and was read as far as the log says.\<close>

lemma receiver_ok_flow:
  assumes ok: "receiver_ok config fid b0 y" and s: "rw_heap (sy_world y) a = Some s"
    and t: "flow_ok (mb_id b0) t" "stored (fid a) (fs_receive t)"
    and acc: "\<And>m. acc b0 (rw_budget (sy_world y)) (sy_held y + m + flow_mem s) \<Longrightarrow> acc b0 b (sy_held y + m + flow_mem t)"
    and r: "length (rd a) = rx_next_offset (fs_receive t)" "item (fid a) 0 (rd a)" "\<And>x. x \<noteq> a \<Longrightarrow> rd x = sy_read y x"
  shows "receiver_ok config fid b0 (with_flow a t b y\<lparr>sy_read := rd\<rparr>)"
proof -
  have "recv_inv fid b0 (sy_held y) 0 (sy_world y)" using ok by (simp add: receiver_ok_def)
  from inv_flow [OF this s t acc] show ?thesis using ok r
    by (auto simp: receiver_ok_def with_flow_def positions_def split: if_splits)
qed

lemma receiver_ok_alive:
  assumes "receiver_ok config fid b0 y" and "rw_heap (sy_world y) a = Some s"
  shows "flow_ok (mb_id (rw_budget (sy_world y))) s" and "flow_ok (mb_id b0) s" and "stored (fid a) (fs_receive s)"
    and "mb_id (rw_budget (sy_world y)) = mb_id b0" and "length (sy_read y a) = rx_next_offset (fs_receive s)" and "item (fid a) 0 (sy_read y a)"
  using assms inv_alive [of fid b0 "sy_held y" 0 "sy_world y" a s] inv_id [of fid b0 "sy_held y" 0 "sy_world y"]
  by (auto simp: receiver_ok_def positions_def)

lemma receiver_ok_flow_same:
  assumes ok: "receiver_ok config fid b0 y" and s: "rw_heap (sy_world y) a = Some s" and t: "flow_ok (mb_id b0) t"
    and c: "rx_chunks (fs_receive t) = rx_chunks (fs_receive s)" "rx_next_offset (fs_receive t) = rx_next_offset (fs_receive s)"
  shows "receiver_ok config fid b0 (with_flow a t (rw_budget (sy_world y)) y)"
proof -
  note al = receiver_ok_alive [OF ok s]
  have "receiver_ok config fid b0 (with_flow a t (rw_budget (sy_world y)) y\<lparr>sy_read := sy_read y\<rparr>)"
    by (rule receiver_ok_flow [OF ok s t]) (use al c in \<open>simp_all add: stored_def flow_mem_def\<close>)
  then show ?thesis by (simp add: with_flow_def)
qed

end


lemma flow_mem_new: "flow_mem (flow_state_new reassembly_buffer replay_buffer ranges initial) = 0"
  by (simp add: flow_mem_def flow_state_new_def rx_with_budget_def chunk_memory_def)

lemma flow_ok_new: "flow_ok owner (flow_state_new reassembly_buffer replay_buffer ranges initial)"
  using rx_inv_new [of "unat reassembly_buffer" owner] unsigned_less [of reassembly_buffer, where 'a = nat]
  by (simp add: flow_ok_def flow_state_new_def ack_inv_def ack_new_def outbound_bytes_def usize_max_def)

lemma heap_mem_drop:
  assumes "finite (dom h)" and "h a = Some s"
  shows "heap_mem h = heap_mem (h(a := None)) + flow_mem s"
proof -
  have "heap_mem (h(a := None)) = (\<Sum>x \<in> dom h - {a}. flow_mem (the (h x)))" unfolding heap_mem_def by (rule sum.cong) auto
  moreover have "a \<in> dom h" using assms(2) by auto
  ultimately show ?thesis unfolding heap_mem_def using sum.remove [OF assms(1), of a "\<lambda>x. flow_mem (the (h x))"] assms(2) by simp
qed

lemma flow_ok_final:
  assumes "flow_ok owner s" and "flow_set_final_offset s offset = (r, s')"
  shows "flow_ok owner s' \<and> rx_chunks (fs_receive s') = rx_chunks (fs_receive s)
    \<and> rx_next_offset (fs_receive s') = rx_next_offset (fs_receive s)"
  using assms rx_inv_final [of owner "fs_receive s" offset]
  by (auto simp: flow_set_final_offset_def set_final_offset_def flow_ok_def split: if_splits)

context delivery
begin

lemma receiver_ok_world:
  assumes "receiver_ok config fid b0 y" and "recv_inv fid b0 (sy_held y) 0 w'" and "positions w' = positions (sy_world y)"
    and "cr_config (rw_conn w') = cr_config (rw_conn (sy_world y))"
  shows "receiver_ok config fid b0 (y\<lparr>sy_world := w'\<rparr>)"
  using assms by (simp add: receiver_ok_def)

lemma item_append: "item f 0 xs \<Longrightarrow> item f (length xs) ys \<Longrightarrow> item f 0 (xs @ ys)"
  unfolding item_def by (auto simp: nth_append) (metis add_diff_inverse_nat nat_add_left_cancel_less)

lemma read_step:
  assumes ok: "receiver_ok config fid b0 y" and s: "rw_heap (sy_world y) a = Some s"
    and r: "flow_read s (rw_budget (sy_world y)) wanted wk = (out, s', b)"
  shows "receiver_ok config fid b0 (with_flow a s' b y
      \<lparr>sy_read := (sy_read y)(a := sy_read y a @ (case out of Inr (Some bs) \<Rightarrow> bs | _ \<Rightarrow> []))\<rparr>)"
proof -
  note al = receiver_ok_alive [OF ok s]
  have inv: "recv_inv fid b0 (sy_held y) 0 (sy_world y)" using ok by (simp add: receiver_ok_def)
  obtain m where "acc b0 (rw_budget (sy_world y)) (sy_held y + m + flow_mem s)" by (rule inv_share [OF inv s])
  from read_flow_ok [OF al(1) this r] obtain bs where bs: "rx_next_offset (fs_receive s') = rx_next_offset (fs_receive s) + length bs"
      "\<forall>i < length bs. stream (fs_receive s) (rx_next_offset (fs_receive s) + i) = Some (bs ! i)"
      "out = Inr (Some bs) \<or> bs = [] \<and> (\<forall>x. out \<noteq> Inr (Some x))"
      "\<forall>x. stream (fs_receive s') x = None \<or> stream (fs_receive s') x = stream (fs_receive s) x"
    and s': "flow_ok (mb_id b0) s'"
    unfolding al(4) by blast
  have out: "(case out of Inr (Some bs) \<Rightarrow> bs | _ \<Rightarrow> []) = bs" using bs(3) by (auto split: sum.splits option.splits)
  have "item (fid a) (length (sy_read y a)) bs" using bs(2) al(3,5) by (simp add: item_def stored_def)
  from item_append [OF al(6) this] show ?thesis
    using read_flow_ok [OF al(1) _ r] stored_less [OF al(3) bs(4)] bs(1) al(5) out
    by (intro receiver_ok_flow [OF ok s s']) auto
qed

lemma receiver_ok_step:
  assumes step: "receiver_step fid arrives carried y y'" and ok: "receiver_ok config fid b0 y" and small: "max_symbol \<le> 65535"
    and dg: "\<And>dg. handle_ok dg \<Longrightarrow> arrives (bh_data dg) \<Longrightarrow> datagram dg" and it: "\<And>f offset bs. carried f offset bs \<Longrightarrow> item f offset bs"
  shows "receiver_ok config fid b0 y'"
  using step
proof cases
  case (arrive d now closed w')
  have inv: "recv_inv fid b0 (sy_held y) 0 (sy_world y)" using ok by (simp add: receiver_ok_def)
  have "active_capabilities (rw_conn (sy_world y)) \<noteq> None" using inv_max [OF inv] small by (simp add: capabilities_known)
  from receive_ok [OF inv dg [OF arrive(2,3)] this, of now] show ?thesis
    unfolding arrive(1) by (intro receiver_ok_world [OF ok]) (use arrive(4) in \<open>auto simp: same_flows_def\<close>)
next
  case (create a reassembly_buffer replay_buffer ranges initial)
  let ?s = "flow_state_new reassembly_buffer replay_buffer ranges initial"
  have r: "stored (fid a) (fs_receive ?s)" "rx_next_offset (fs_receive ?s) = 0"
    by (simp_all add: stored_def flow_state_new_def rx_with_budget_def)
  show ?thesis unfolding create(1) using ok create(2) heap_mem_new [of "rw_heap (sy_world y)" a ?s] flow_mem_new flow_ok_new r
    by (auto simp: receiver_ok_def recv_inv_def Let_def positions_def item_def split: if_splits)
next
  case (register a now w')
  have "recv_inv fid b0 (sy_held y) 0 (sy_world y)" using ok by (simp add: receiver_ok_def)
  from register_ok [OF this register(2) refl, of now] show ?thesis
    unfolding register(1) by (intro receiver_ok_world [OF ok]) (use register(3) in auto)
next
  case (unregister f)
  then show ?thesis using ok by (auto simp: receiver_ok_def recv_inv_def Let_def unregister_flow_def positions_def)
next
  case (stream_data a s offset bs fin r s' b)
  note al = receiver_ok_alive [OF ok stream_data(2)]
  have "recv_inv fid b0 (sy_held y) 0 (sy_world y)" using ok by (simp add: receiver_ok_def)
  from insert_ok [of fid b0 "sy_held y" None 0 "sy_world y" a s offset bs fin] this stream_data it [OF stream_data(3)]
  have w: "recv_inv fid b0 (sy_held y) 0 ((sy_world y)\<lparr>rw_heap := (rw_heap (sy_world y))(a \<mapsto> s'), rw_budget := b\<rparr>)"
      "rx_next_offset (fs_receive s') = rx_next_offset (fs_receive s)"
    by (auto simp: insert_bytes_def)
  show ?thesis unfolding stream_data(1) with_flow_def
    by (intro receiver_ok_world [OF ok w(1)]) (use w(2) stream_data(2) in \<open>auto simp: positions_def fun_eq_iff\<close>)
next
  case (final_offset a s offset r s')
  from flow_ok_final [OF receiver_ok_alive(2) [OF ok final_offset(2)] final_offset(3)]
  show ?thesis unfolding final_offset(1) by (intro receiver_ok_flow_same [OF ok final_offset(2)]) auto
next
  case (application_read a s wanted wk out s' b)
  then show ?thesis using read_step [OF ok] by simp
next
  case (ack_written a s contiguous r b)
  note al = receiver_ok_alive [OF ok ack_written(2)]
  have inv: "recv_inv fid b0 (sy_held y) 0 (sy_world y)" using ok by (simp add: receiver_ok_def)
  obtain m where "acc b0 (rw_budget (sy_world y)) (sy_held y + m + flow_mem s)" by (rule inv_share [OF inv ack_written(2)])
  note a = acknowledge_flow_ok [OF al(1) this ack_written(3)]
  have "receiver_ok config fid b0 (with_flow a (s\<lparr>fs_receive := r\<rparr>) b y\<lparr>sy_read := sy_read y\<rparr>)"
    using a acknowledge_flow_ok [OF al(1) _ ack_written(3)] al stored_less [OF al(3), of r]
    by (intro receiver_ok_flow [OF ok ack_written(2)]) auto
  then show ?thesis unfolding ack_written(1) by (simp add: with_flow_def)
next
  case (send_side a s s')
  have "flow_ok (mb_id b0) s'" using receiver_ok_alive(2) [OF ok send_side(2)] send_side by (simp add: flow_ok_def)
  then show ?thesis unfolding send_side(1) by (intro receiver_ok_flow_same [OF ok send_side(2)]) (use send_side in simp_all)
next
  case (forget a s)
  let ?w = "sy_world y"
  have inv: "recv_inv fid b0 (sy_held y) 0 ?w" using ok by (simp add: receiver_ok_def)
  have mem: "heap_mem (rw_heap ?w) = heap_mem ((rw_heap ?w)(a := None)) + flow_mem s"
    using inv forget(2) by (intro heap_mem_drop) (simp_all add: recv_inv_def Let_def)
  let ?n = "sy_held y + dec_mem (cr_decoder (rw_conn ?w)) + heap_mem ((rw_heap ?w)(a := None)) + pre_open_mem (cr_pre_open (rw_conn ?w))"
  have "acc b0 (fold (\<lambda>(k, c). charge_drop (bc_charge c)) (rx_chunks (fs_receive s)) (rw_budget ?w)) ?n"
    by (rule acc_fold_drop) (use inv mem in \<open>simp add: recv_inv_def Let_def flow_mem_def ac_simps\<close>)
  then show ?thesis unfolding forget(1) using ok
    by (auto simp: receiver_ok_def recv_inv_def Let_def drop_flow_def positions_def split: if_splits)
next
  case (elsewhere c)
  then show ?thesis using ok by (auto simp: receiver_ok_def recv_inv_def Let_def)
next
  case (hold n b)
  have "recv_inv fid b0 (sy_held y) 0 (sy_world y)" using ok by (simp add: receiver_ok_def)
  then have "recv_inv fid b0 (sy_held y + n) 0 ((sy_world y)\<lparr>rw_budget := b\<rparr>)"
    by (rule inv_budget) (use acc_reserve [OF _ hold(2)] in \<open>force simp: ac_simps\<close>)
  then show ?thesis unfolding hold(1) using ok by (simp add: receiver_ok_def)
next
  case (give_back n)
  have "recv_inv fid b0 (sy_held y) 0 (sy_world y)" using ok by (simp add: receiver_ok_def)
  then have "recv_inv fid b0 (sy_held y - n) 0 ((sy_world y)\<lparr>rw_budget := release (rw_budget (sy_world y)) n\<rparr>)"
    by (rule inv_budget) (use give_back(2) in \<open>auto intro: acc_release_eq\<close>)
  then show ?thesis unfolding give_back(1) using ok by (simp add: receiver_ok_def)
qed

lemma receiver_ok_reachable:
  assumes "(receiver_step fid arrives carried)\<^sup>*\<^sup>* y y'" and "receiver_ok config fid b0 y" and "max_symbol \<le> 65535"
    and "\<And>dg. handle_ok dg \<Longrightarrow> arrives (bh_data dg) \<Longrightarrow> datagram dg" and "\<And>f offset bs. carried f offset bs \<Longrightarrow> item f offset bs"
  shows "receiver_ok config fid b0 y'"
  using assms(1) by (induction rule: rtranclp_induct) (use assms(2) receiver_ok_step [OF _ _ assms(3-5)] in blast)+

end


subsection \<open>Whatever arrives\<close>

interpretation any: delivery M "\<lambda>_ _ _. True" "\<lambda>_ _. True" "\<lambda>_. True" "\<lambda>_. True" for M
  by unfold_locales simp_all

lemma valid_window: "recovery_config_validate config flow_buffer = Inr u \<Longrightarrow> 0 < unat (rc_decoder_window config)"
  by (auto simp: recovery_config_validate_def validate_recovery_limit_def rbind_Inr_iff unat_gt_0 split: if_splits)

lemma any_reachable:
  assumes "recovery_config_validate config flow_buffer = Inr ()" and "M \<le> 65535"
    and "(receiver_step fid (\<lambda>_. True) (\<lambda>_ _ _. True))\<^sup>*\<^sup>* (receiver_start config M (budget_new i limit)) y"
  shows "any.receiver_ok M config fid (budget_new i limit) y"
  by (rule any.receiver_ok_reachable [OF assms(3) any.receiver_ok_start assms(2)])
    (use valid_window [OF assms(1)] in \<open>simp_all add: holds_new any.datagram_def any.item_def\<close>)

subsection \<open>An honest peer\<close>

text \<open>The octets of a chunk are those of the stream at its offset.\<close>

definition piece :: "bytes \<Rightarrow> nat \<Rightarrow> bytes \<Rightarrow> bool" where
  "piece xs offset bs \<longleftrightarrow> offset + length bs \<le> length xs \<and> bs = take (length bs) (drop offset xs)"

definition octet_of :: "(u64 \<Rightarrow> bytes) \<Rightarrow> u64 \<Rightarrow> nat \<Rightarrow> u8 \<Rightarrow> bool" where
  "octet_of S f x y \<longleftrightarrow> x < length (S f) \<and> y = S f ! x"

lemma piece_octet: "piece (S f) offset bs \<longleftrightarrow> offset + length bs \<le> length (S f) \<and> (\<forall>i < length bs. octet_of S f (offset + i) (bs ! i))"
  by (auto simp: piece_def octet_of_def list_eq_iff_nth_eq)

text \<open>\<open>G\<close> gives the symbols of the peer and \<open>S\<close> the streams of its flows.\<close>

definition faithful :: "(u32 \<Rightarrow> bytes) \<Rightarrow> (u64 \<Rightarrow> bytes) \<Rightarrow> bool" where
  "faithful G S \<longleftrightarrow> (\<forall>k rs. source_ok MAX_SOURCE_RECORDS rs \<and> G k = source_wire k rs
     \<longrightarrow> (\<forall>r \<in> set rs. piece (S (sr_flow_id r)) (unat (sr_offset r)) (sr_data r)))"

definition honest_symbol :: "nat \<Rightarrow> (u32 \<Rightarrow> bytes) \<Rightarrow> (u64 \<Rightarrow> bytes) \<Rightarrow> u32 \<Rightarrow> bytes \<Rightarrow> bool" where
  "honest_symbol M G S k bs \<longleftrightarrow> bs = G k \<and> genuine_symbol M G k \<and> faithful G S \<and> M \<le> usize_max"

definition honest_equation :: "nat \<Rightarrow> (u32 \<Rightarrow> bytes) \<Rightarrow> repair_datagram \<Rightarrow> bool" where
  "honest_equation M G q \<longleftrightarrow> length (rp_coded q) \<le> M
     \<and> repair_symbol (rp_first_symbol_id q) (rp_repair_id q) (rp_seed q)
         (map (\<lambda>i. G (repair_id_at (rp_first_symbol_id q) i)) [0..<unat (rp_span q)]) = Inr (rp_coded q)
     \<and> (\<forall>i < unat (rp_span q). genuine_symbol M G (repair_id_at (rp_first_symbol_id q) i))"

definition honest_decoder :: "nat \<Rightarrow> (u32 \<Rightarrow> bytes) \<Rightarrow> (u64 \<Rightarrow> bytes) \<Rightarrow> decoder \<Rightarrow> bool" where
  "honest_decoder M G S d \<longleftrightarrow> genuine G d \<and> d_max_symbol_bytes d = M \<and> faithful G S \<and> M \<le> usize_max"

lemma decode_wire:
  assumes "source_ok MAX_SOURCE_RECORDS rs" and "length (source_wire k rs) \<le> M" and "M \<le> usize_max"
  shows "decode_source (source_wire k rs) MAX_SOURCE_RECORDS M = Inr (mk_source k rs)" and "source_records (mk_source k rs) = Inr rs"
proof -
  show "decode_source (source_wire k rs) MAX_SOURCE_RECORDS M = Inr (mk_source k rs)"
    using decode_source_inner_complete [OF assms(3,1), of "source_wire k rs" k "[]"] assms(2) by (simp add: decode_source_def)
  obtain r rest where "rs = r # rest" using assms(1) by (cases rs) (auto simp: source_ok_def)
  then have "length (records_wire (tl rs)) \<le> length (source_wire k rs)" by (simp add: source_wire_def)
  then show "source_records (mk_source k rs) = Inr rs" using assms by (intro source_records_mk) simp_all
qed

lemma genuine_outcome:
  assumes "genuine_result G d (Some (res, d', b'))" and "honest_decoder M G S d"
  shows "honest_decoder M G S d' \<and> (\<forall>batch. res = Inr batch \<longrightarrow> (\<forall>s \<in> set (rb_items batch). honest_symbol M G S (rs_symbol_id s) (rs_bytes s)))"
  using assms by (auto simp: genuine_result_def honest_decoder_def honest_symbol_def genuine_items_def split: sum.splits)

interpretation honest: delivery M "octet_of S" "honest_symbol M G S" "honest_equation M G" "honest_decoder M G S" for M G S
proof
  fix j bs s rs x i
  assume h: "honest_symbol M G S j bs" "decode_source bs MAX_SOURCE_RECORDS M = Inr s" "source_records s = Inr rs" "x \<in> set rs" "i < length (sr_data x)"
  then obtain rs' where rs': "source_ok MAX_SOURCE_RECORDS rs'" "bs = source_wire j rs'" "length bs \<le> M" "bs = G j" "M \<le> usize_max"
    by (auto simp: honest_symbol_def genuine_symbol_def)
  have "rs = rs'" using decode_wire [of rs' j M] rs' h(2,3) by simp
  then have "piece (S (sr_flow_id x)) (unat (sr_offset x)) (sr_data x)"
    using h(1,4) rs'(1) rs'(2) [unfolded rs'(4)] unfolding honest_symbol_def faithful_def by blast
  then show "octet_of S (sr_flow_id x) (unat (sr_offset x) + i) (sr_data x ! i)" using h(5) by (simp add: piece_octet)
next
  fix d j src b wb res d' b'
  assume h: "honest_decoder M G S d" "dec_inv d" "honest_symbol M G S j (bh_data src)" "handle_ok src" "add_source d b j src wb = Some (res, d', b')"
  have "genuine_result G d (add_source d b j src wb)"
    using h by (intro add_source_genuine) (simp_all add: honest_decoder_def honest_symbol_def)
  then show "honest_decoder M G S d' \<and> (\<forall>batch. res = Inr batch \<longrightarrow> (\<forall>s \<in> set (rb_items batch). honest_symbol M G S (rs_symbol_id s) (rs_bytes s)))"
    unfolding h(5) by (rule genuine_outcome [OF _ h(1)])
next
  fix d q b wb res d' b'
  assume h: "honest_decoder M G S d" "dec_inv d" "honest_equation M G q"
    "add_repair d b (rp_first_symbol_id q) (rp_span q) (rp_repair_id q) (rp_seed q) (rp_coded q) wb = Some (res, d', b')"
  have "genuine_result G d (add_repair d b (rp_first_symbol_id q) (rp_span q) (rp_repair_id q) (rp_seed q) (rp_coded q) wb)"
    using h by (intro add_repair_genuine) (simp_all add: honest_decoder_def honest_equation_def)
  then show "honest_decoder M G S d' \<and> (\<forall>batch. res = Inr batch \<longrightarrow> (\<forall>s \<in> set (rb_items batch). honest_symbol M G S (rs_symbol_id s) (rs_bytes s)))"
    unfolding h(4) by (rule genuine_outcome [OF _ h(1)])
next
  fix d j src b c res0 d' b'
  assume h: "honest_decoder M G S d" "dec_inv d" "honest_symbol M G S j (bh_data src)" "handle_ok src"
    "commit_recovered_precharged d b j src c = (res0, d', b')"
  then show "honest_decoder M G S d'"
    using commit_recovered_genuine [OF _ h(2) _ _ h(4,5), of G] by (simp add: honest_decoder_def honest_symbol_def)
qed

text \<open>\<open>OutboundDatagram::bytes\<close>.\<close>

fun outbound_datagram_bytes :: "outbound_datagram \<Rightarrow> bytes" where
  "outbound_datagram_bytes (SourceOut k bs) = bs"
| "outbound_datagram_bytes (RepairOut bs) = bs"

lemma wire_kinds: "source_wire k rs @ x \<noteq> repair_wire q"
  by (simp add: source_wire_def repair_wire_def SOURCE_DATAGRAM_def REPAIR_DATAGRAM_def)

lemma genuine_smaller: "genuine_symbol N G k \<Longrightarrow> length (G k) \<le> M \<Longrightarrow> genuine_symbol M G k"
  by (simp add: genuine_symbol_def)

text \<open>Whatever a peer emits is acceptable, even when the two ends have different symbol sizes.\<close>

lemma emitted_datagram:
  assumes n: "numbered_ok N log" "length log \<le> 2 ^ 32" and G: "names_log G log" and d: "datagram_ok log d"
    and small: "N \<le> 65535" "M \<le> 65535" and S: "faithful G S" and dg: "handle_ok dg" "bh_data dg = outbound_datagram_bytes d"
  shows "honest.datagram M G S dg"
proof -
  have um: "M \<le> usize_max" "N \<le> usize_max" using small by (simp_all add: usize_max_def)
  note g = datagram_genuine [OF n G d]
  show ?thesis
  proof (cases d)
    case (SourceOut k bs)
    then have b: "bs = G k" "genuine_symbol N G k" "bh_data dg = bs" using g dg by simp_all
    then obtain rs where rs: "source_ok MAX_SOURCE_RECORDS rs" "bs = source_wire k rs" "length bs \<le> N" by (auto simp: genuine_symbol_def)
    have "honest_symbol M G S (sd_symbol_id s) bs" if s: "decode_source bs MAX_SOURCE_RECORDS M = Inr s" for s
    proof -
      have le: "length bs \<le> M" using s by (auto simp: decode_source_def decode_source_inner_def rbind_Inr_iff split: if_splits)
      have "s = mk_source k rs" using decode_wire(1) [OF rs(1) _ um(1), of k] s rs(2) le by simp
      then show ?thesis using b le genuine_smaller [of N G k M] S um by (simp add: honest_symbol_def mk_source_def)
    qed
    moreover have "decode_repair bs M \<noteq> Inr q" for q
      using decode_repair_sound [of bs M q] wire_kinds [of k rs "[]" q] rs um(2) by fastforce
    ultimately show ?thesis using b dg(1) by (simp add: honest.datagram_def)
  next
    case (RepairOut bs)
    then obtain f where f: "decode_repair bs N = Inr f" "bh_data dg = bs"
        "repair_symbol (rp_first_symbol_id f) (rp_repair_id f) (rp_seed f)
          (map (\<lambda>i. G (repair_id_at (rp_first_symbol_id f) i)) [0..<unat (rp_span f)]) = Inr (rp_coded f)"
        "\<forall>i < unat (rp_span f). genuine_symbol N G (repair_id_at (rp_first_symbol_id f) i)"
      using g dg by auto
    obtain f' where f': "repair_ok f'" "bs = repair_wire f'" using RepairOut d by (auto simp: datagram_ok_def repair_over_def)
    then have len: "length bs \<le> usize_max"
      using length_repair_wire [OF f'(1)] unsigned_less [of "rp_symbol_size f'", where 'a = nat]
      by (simp add: usize_max_def REPAIR_DATAGRAM_HEADER_BYTES_def)
    note fs = decode_repair_sound [OF len f(1)]
    have "honest_equation M G q" if q: "decode_repair bs M = Inr q" for q
    proof -
      note qs = decode_repair_sound [OF len q]
      have "decode_repair bs (max M N) = Inr q" "decode_repair bs (max M N) = Inr f"
        using decode_repair_complete [of q "max M N"] decode_repair_complete [of f "max M N"] qs fs by auto
      then have qf: "q = f" by simp
      have c: "length (rp_coded q) \<le> M" using qs by (simp add: repair_ok_def)
      have "genuine_symbol M G (repair_id_at (rp_first_symbol_id f) i)" if "i < unat (rp_span f)" for i
        using genuine_smaller [of N G _ M] f(4) that repair_symbol_Inr(5) [OF f(3) that] c qf by simp
      then show ?thesis using c f(3) qf by (simp add: honest_equation_def)
    qed
    moreover have "decode_source bs MAX_SOURCE_RECORDS M \<noteq> Inr s" for s
    proof
      assume "decode_source bs MAX_SOURCE_RECORDS M = Inr s"
      then obtain m where "decode_source_inner bs MAX_SOURCE_RECORDS M = Inr (s, m)"
        by (auto simp: decode_source_def rbind_Inr_iff split: if_splits)
      from decode_source_inner_sound [OF um(1) this] show False using f'(2) wire_kinds by metis
    qed
    ultimately show ?thesis using f(2) dg(1) by (simp add: honest.datagram_def)
  qed
qed


lemma log_names: "names_log (\<lambda>k. if unat k < length log then snd (log ! unat k) else []) log"
  by (simp add: names_log_def)

lemma log_faithful:
  assumes n: "numbered_ok N log"
    and p: "\<forall>(k, bs) \<in> set log. \<forall>rs. source_ok MAX_SOURCE_RECORDS rs \<and> bs = source_wire k rs
      \<longrightarrow> (\<forall>r \<in> set rs. piece (S (sr_flow_id r)) (unat (sr_offset r)) (sr_data r))"
  shows "faithful (\<lambda>k. if unat k < length log then snd (log ! unat k) else []) S"
  unfolding faithful_def
proof (intro allI impI)
  fix k rs
  assume a: "source_ok MAX_SOURCE_RECORDS rs \<and> (if unat k < length log then snd (log ! unat k) else []) = source_wire k rs"
  then have k: "unat k < length log" "snd (log ! unat k) = source_wire k rs" by (auto simp: source_wire_def split: if_splits)
  then have "log ! unat k = (k, source_wire k rs)" using n by (simp add: numbered_ok_def prod_eq_iff)
  then show "\<forall>r \<in> set rs. piece (S (sr_flow_id r)) (unat (sr_offset r)) (sr_data r)" using p a k(1) nth_mem by fastforce
qed

lemma prefix_by_octets:
  assumes "\<forall>x < length xs. x < length ys \<and> xs ! x = ys ! x"
  shows "\<exists>rest. ys = xs @ rest"
proof -
  have "length xs \<le> length ys" using assms by (metis less_irrefl not_le)
  then have "take (length xs) ys = xs" using assms by (intro nth_equalityI) simp_all
  then show ?thesis by (metis append_take_drop_id)
qed

lemma genuine_start: "M \<le> usize_max \<Longrightarrow> genuine G (cr_decoder (recovery_start config M))"
  by (simp add: genuine_def recovery_start_def decoder_with_budget_def solves_def)

subsection \<open>A sample receiver\<close>

text \<open>A flow is created, one octet arrives on its stream and is read.  Then the flow is registered and the source datagram of the
  sample sender, which carries the same octet, arrives.\<close>

definition demo_flow :: flow_shared where
  "demo_flow = flow_state_new 64 64 16 0"

definition demo_chunks :: "(nat \<times> buffered_chunk) list" where
  "demo_chunks = [(0, \<lparr>bc_bytes = [7], bc_charge = \<lparr>ch_budget = 1, ch_bytes = 1\<rparr>\<rparr>)]"

lemma demo_flow_insert:
  "\<exists>s. insert_bytes demo_flow (budget_new 1 1000) 0 [7] False = Some (Inr (), s, (budget_new 1 1000)\<lparr>mb_used := 1\<rparr>)
    \<and> fs_receive s = (rx_with_budget 64)\<lparr>rx_bytes := 1, rx_chunks := demo_chunks\<rparr> \<and> fs_error s = None"
proof -
  have r: "insert_record (rx_with_budget 64) (budget_new 1 1000) 0 [7] False
      = (Inr (), (rx_with_budget 64)\<lparr>rx_bytes := 1, rx_chunks := demo_chunks\<rparr>, (budget_new 1 1000)\<lparr>mb_used := 1\<rparr>)"
    by (simp add: insert_simps demo_simps demo_chunks_def)
  have v: "\<exists>a. validate_insert (ack_new 16) (0, 1) = Inr () \<and> ack_insert (ack_new 16) (0, 1) = Inr a"
    by (simp add: ack_insert_def validate_insert_def validate_range_def rbind_def ack_new_def Let_def wire_max_value)
  show ?thesis using v r
    by (auto simp: insert_bytes_def insert_bytes_with_reservation_def checked_add_def usize_max_def demo_flow_def flow_state_new_def Let_def)
qed

lemma demo_flow_read:
  assumes "fs_receive s = (rx_with_budget 64)\<lparr>rx_bytes := 1, rx_chunks := demo_chunks\<rparr>" and "fs_error s = None"
  shows "\<exists>s' b'. flow_read s b 1 1 = (Inr (Some [7]), s', b')"
proof -
  let ?c = "\<lparr>bc_bytes = [7], bc_charge = \<lparr>ch_budget = 1, ch_bytes = 1\<rparr>\<rparr>"
  have c: "read_candidate (fs_receive s) = Some (0, ?c)" by (simp add: assms(1) read_simps demo_chunks_def)
  obtain r1 b1 where s1: "read_step (fs_receive s) b 1 0 ?c = ([7], r1, b1)" by (simp add: assms(1) read_simps demo_chunks_def)
  have "rx_read (fs_receive s) b 1 = ([7] @ [], r1, b1)"
    by (rule rx_read_more [OF _ c s1]) (simp_all add: rx_read.simps [of r1 b1 0])
  then show ?thesis by (simp add: flow_read_def assms(2) Let_def)
qed

lemma demo_recovery_valid: "recovery_config_validate recovery_config_default (256 * 1024) = Inr ()"
  by (simp add: recovery_config_validate_def validate_recovery_limit_def recovery_config_default_def rbind_def
      MAX_FLOW_BUFFER_BYTES_def MAX_DECODER_WINDOW_def MAX_REPAIR_SPAN_def)

definition demo_received :: "receiver_system \<Rightarrow> bool" where
  "demo_received y \<longleftrightarrow> (\<exists>s. rw_heap (sy_world y) 0 = Some s) \<and> sy_read y 0 = [7]"

lemma demo_receiver_read:
  "\<exists>y. demo_received y \<and> (\<forall>fid arrives carried. (\<forall>f. carried f 0 [7])
    \<longrightarrow> (receiver_step fid arrives carried)\<^sup>*\<^sup>* (receiver_start recovery_config_default 100 (budget_new 1 1000)) y)"
proof -
  let ?y0 = "receiver_start recovery_config_default 100 (budget_new 1 1000)"
  let ?y1 = "?y0\<lparr>sy_world := (sy_world ?y0)\<lparr>rw_heap := (rw_heap (sy_world ?y0))(0 \<mapsto> demo_flow)\<rparr>, sy_read := (sy_read ?y0)(0 := [])\<rparr>"
  have s1: "receiver_step fid arrives carried ?y0 ?y1" for fid arrives carried unfolding demo_flow_def by (rule receiver_step.create) (simp add: receiver_start_def)
  obtain s b where i: "insert_bytes demo_flow (budget_new 1 1000) 0 [7] False = Some (Inr (), s, b)"
    and s: "fs_receive s = (rx_with_budget 64)\<lparr>rx_bytes := 1, rx_chunks := demo_chunks\<rparr>" "fs_error s = None"
    using demo_flow_insert by blast
  let ?y2 = "with_flow 0 s b ?y1"
  have s2: "receiver_step fid arrives carried ?y1 ?y2" if "\<forall>f. carried f 0 [7]" for fid arrives carried
    by (rule receiver_step.stream_data [of _ _ demo_flow _ _ 0 "[7]" False "Inr ()"]) (use that i in \<open>simp_all add: receiver_start_def\<close>)
  obtain s' b' where r: "flow_read s b 1 1 = (Inr (Some [7]), s', b')" using demo_flow_read [OF s] by blast
  let ?y3 = "with_flow 0 s' b' ?y2\<lparr>sy_read := (sy_read ?y2)(0 := sy_read ?y2 0 @ [7])\<rparr>"
  have s3: "receiver_step fid arrives carried ?y2 ?y3" for fid arrives carried
    using receiver_step.application_read [of ?y2 0 s 1 1 "Inr (Some [7])" s' b' fid arrives carried] r by (simp add: with_flow_def)
  have "(receiver_step fid arrives carried)\<^sup>*\<^sup>* ?y0 ?y3" if "\<forall>f. carried f 0 [7]" for fid arrives carried
    using s1 [of fid arrives carried] s2 [where carried = carried, OF that, of fid arrives] s3 [of fid arrives carried]
    by (rule converse_rtranclp_into_rtranclp [OF _ converse_rtranclp_into_rtranclp [OF _ r_into_rtranclp]])
  moreover have "demo_received ?y3" by (simp add: demo_received_def with_flow_def receiver_start_def)
  ultimately show ?thesis by blast
qed

lemma demo_numbered:
  assumes "sender_step\<^sup>*\<^sup>* (sender_start recovery_config_default 100 b heap) s" and "ss_emitted s = [SourceOut 0 demo_chunk]"
    and "length (ss_numbered s) = 1"
  shows "ss_numbered s = [(0, demo_chunk)]"
proof -
  have "sender_inv recovery_config_default 100 s" by (rule inv_reachable [OF demo_limits assms(1)])
  then have "(0, demo_chunk) \<in> set (ss_numbered s)" using assms(2) by (simp add: sender_inv_def datagram_ok_def)
  then show ?thesis using assms(3) by (cases "ss_numbered s") auto
qed

lemma demo_pieces:
  assumes "source_ok MAX_SOURCE_RECORDS rs" and "demo_chunk = source_wire 0 rs" and "r \<in> set rs"
  shows "piece [7, 8] (unat (sr_offset r)) (sr_data r)"
proof -
  let ?r = "\<lparr>sr_flow_id = 4, sr_offset = 0, sr_fin = False, sr_data = [7]\<rparr>"
  have ok: "source_ok MAX_SOURCE_RECORDS [?r]" by (simp add: source_ok_def record_ok_def MAX_WIRE_OFFSET_def MAX_SOURCE_RECORDS_def)
  have len: "length demo_chunk \<le> usize_max" by (simp add: demo_chunk_def source_wire_def records_wire_def record_wire_def encode_varint_def usize_max_def)
  have m: "mk_source 0 rs = mk_source 0 [?r]" "source_records (mk_source 0 rs) = Inr rs" "source_records (mk_source 0 [?r]) = Inr [?r]"
    using decode_wire [OF assms(1), of 0 usize_max] decode_wire [OF ok, of 0 usize_max] len
    unfolding assms(2) [symmetric] demo_chunk_def [symmetric] by simp_all
  have "rs = [?r]" using m(2,3) unfolding m(1) by simp
  then show ?thesis using assms(3) by (simp add: piece_def)
qed

definition demo_datagram :: bytes_handle where
  "demo_datagram = \<lparr>bh_data = demo_chunk, bh_unique = True, bh_capacity = length demo_chunk\<rparr>"

lemma demo_datagram_ok: "handle_ok demo_datagram"
  by (simp add: handle_ok_def demo_datagram_def)

lemma demo_receiver_arrival:
  assumes c: "\<And>f. carried f 0 [7]" and a: "arrives demo_chunk"
  shows "\<exists>y closed w. (receiver_step fid arrives carried)\<^sup>*\<^sup>* (receiver_start recovery_config_default 100 (budget_new 1 1000)) y
    \<and> receive (sy_world y) 5 demo_datagram = Some (closed, w)
    \<and> (receiver_step fid arrives carried)\<^sup>*\<^sup>* (receiver_start recovery_config_default 100 (budget_new 1 1000)) (y\<lparr>sy_world := w\<rparr>)
    \<and> demo_received (y\<lparr>sy_world := w\<rparr>)"
proof -
  let ?start = "receiver_start recovery_config_default 100 (budget_new 1 1000)"
  obtain y where y2: "demo_received y"
    and run: "\<forall>fid arrives carried. (\<forall>f. carried f 0 [7]) \<longrightarrow> (receiver_step fid arrives carried)\<^sup>*\<^sup>* ?start y"
    using demo_receiver_read by blast
  have y: "(receiver_step fid arrives carried)\<^sup>*\<^sup>* ?start y" "(receiver_step fid (\<lambda>_. True) (\<lambda>_ _ _. True))\<^sup>*\<^sup>* ?start y"
    by (rule run [rule_format], simp add: c)+
  from y(2) have "any.receiver_ok 100 recovery_config_default fid (budget_new 1 1000) y" by (rule any_reachable [OF demo_recovery_valid, rotated]) simp
  then have inv: "any.recv_inv 100 fid (budget_new 1 1000) (sy_held y) 0 (sy_world y)" by (simp add: any.receiver_ok_def)
  have "active_capabilities (rw_conn (sy_world y)) \<noteq> None" using any.inv_max [OF inv] by (simp add: capabilities_known)
  then obtain closed w where w: "receive (sy_world y) 5 demo_datagram = Some (closed, w)" "same_flows (sy_world y) w"
    using any.receive_ok [OF inv, of demo_datagram 5] demo_datagram_ok by (auto simp: any.datagram_def)
  have "receiver_step fid arrives carried y (y\<lparr>sy_world := w\<rparr>)"
    by (rule receiver_step.arrive [OF demo_datagram_ok _ w(1)]) (simp add: demo_datagram_def a)
  moreover have "positions w 0 = positions (sy_world y) 0" using w(2) by (simp add: same_flows_def)
  then have "demo_received (y\<lparr>sy_world := w\<rparr>)" using y2 by (auto simp: demo_received_def positions_def)
  ultimately show ?thesis using y(1) w(1) by (meson rtranclp.rtrancl_into_rtrancl)
qed

subsection \<open>Properties\<close>

text \<open>C38: the receiving half of a connection never fails an expectation and loses no memory, whatever datagrams and stream data arrive
  and however they interleave with flows that are created, registered, read, acknowledged and dropped; the configuration is valid, the symbol
  size at most 65535 and the budget fresh, and the sending side of a flow keeps at least what it has queued in its retention counters.
  In every reachable state the shared budget is exactly what the decoder, the flows, the early records and the rest of the program hold and is
  within its limit, the counter of early records is exact and within the configured number, and the next datagram is received and the next
  flow registered without a panic.\<close>

theorem receiver_accounting:
  assumes "recovery_config_validate config flow_buffer = Inr ()" and "M \<le> 65535"
    and "(receiver_step fid (\<lambda>_. True) (\<lambda>_ _ _. True))\<^sup>*\<^sup>* (receiver_start config M (budget_new i limit)) y"
  defines "w \<equiv> sy_world y"
  shows "mb_used (rw_budget w) = sy_held y + dec_mem (cr_decoder (rw_conn w)) + heap_mem (rw_heap w) + pre_open_mem (cr_pre_open (rw_conn w))
    \<and> mb_used (rw_budget w) \<le> unat limit
    \<and> unat (cr_pre_open_count (rw_conn w)) = length (pre_open_records (cr_pre_open (rw_conn w)))
    \<and> cr_pre_open_count (rw_conn w) \<le> ucast (rc_pre_open_symbols config)
    \<and> (handle_ok dg \<longrightarrow> receive w now dg \<noteq> None)
    \<and> (rw_heap w a \<noteq> None \<longrightarrow> register_flow w now (fid a) a \<noteq> None)"
proof -
  have ok: "any.receiver_ok M config fid (budget_new i limit) y" by (rule any_reachable [OF assms(1-3)])
  then have inv: "any.recv_inv M fid (budget_new i limit) (sy_held y) 0 w" by (simp add: any.receiver_ok_def w_def)
  have "active_capabilities (rw_conn w) \<noteq> None" using any.inv_max [OF inv] assms(2) by (simp add: capabilities_known)
  then have "handle_ok dg \<longrightarrow> receive w now dg \<noteq> None" using any.receive_ok [OF inv, of dg now] by (auto simp: any.datagram_def)
  moreover have "rw_heap w a \<noteq> None \<longrightarrow> register_flow w now (fid a) a \<noteq> None" using any.register_ok [OF inv _ refl] by force
  moreover have "unat (rc_pre_open_symbols config) < 2 ^ 32" using unsigned_less [of "rc_pre_open_symbols config", where 'a = nat] by simp
  then have "unat (ucast (rc_pre_open_symbols config) :: u32) = unat (rc_pre_open_symbols config)"
    by (simp add: unsigned_ucast_eq take_bit_nat_eq_self)
  ultimately show ?thesis using inv ok unfolding word_le_nat_alt
    by (auto simp: any.recv_inv_def any.receiver_ok_def Let_def acc_def holds_def budget_new_def w_def)
qed

theorem receiver_accounting_witness:
  "\<exists>y. (receiver_step (\<lambda>_. 4) (\<lambda>_. True) (\<lambda>_ _ _. True))\<^sup>*\<^sup>* (receiver_start recovery_config_default 100 (budget_new 1 1000)) y
    \<and> receive (sy_world y) 5 demo_datagram \<noteq> None \<and> register_flow (sy_world y) 5 4 0 \<noteq> None \<and> mb_used (rw_budget (sy_world y)) \<le> 1000"
proof -
  obtain y where y: "(receiver_step (\<lambda>_. 4) (\<lambda>_. True) (\<lambda>_ _ _. True))\<^sup>*\<^sup>* (receiver_start recovery_config_default 100 (budget_new 1 1000)) y"
    "demo_received y" using demo_receiver_arrival [of "\<lambda>_ _ _. True" "\<lambda>_. True"] by blast
  have "(100 :: nat) \<le> 65535" by simp
  from receiver_accounting [OF demo_recovery_valid this y(1), of demo_datagram 5 0] show ?thesis
    using y demo_datagram_ok by (auto simp: demo_received_def)
qed

text \<open>C39: what an application reads is what its peer wrote.  The datagrams that arrive are among those the sending half of the peer
  emitted in any run that numbered at most \<open>2 ^ 32\<close> symbols, in any order, with losses and repetitions; their records and the data on
  the streams are pieces of the streams \<open>S\<close> of the flows; the receiver has a valid configuration and a symbol size of at most 65535.  Then
  in every reachable state of the receiver the octets read so far from a flow are the beginning of its stream: lost symbols that
  were recovered, early records, duplicates and data that came twice never put a wrong octet there.\<close>

theorem peers_deliver:
  assumes "sender_limits peer_config N" and "sender_step\<^sup>*\<^sup>* (sender_start peer_config N peer_budget peer_heap) s"
    and "length (ss_numbered s) \<le> 2 ^ 32"
    and "\<forall>(k, bs) \<in> set (ss_numbered s). \<forall>rs. source_ok MAX_SOURCE_RECORDS rs \<and> bs = source_wire k rs
      \<longrightarrow> (\<forall>r \<in> set rs. piece (S (sr_flow_id r)) (unat (sr_offset r)) (sr_data r))"
    and "recovery_config_validate config flow_buffer = Inr ()" and "M \<le> 65535"
    and "(receiver_step fid (\<lambda>bs. bs \<in> outbound_datagram_bytes ` set (ss_emitted s)) (\<lambda>f offset bs. piece (S f) offset bs))\<^sup>*\<^sup>*
      (receiver_start config M (budget_new i limit)) y"
    and "rw_heap (sy_world y) a \<noteq> None"
  shows "\<exists>rest. S (fid a) = sy_read y a @ rest"
proof -
  let ?log = "ss_numbered s"
  let ?G = "\<lambda>k. if unat k < length ?log then snd (?log ! unat k) else []"
  have i: "sender_inv peer_config N s" by (rule inv_reachable [OF assms(1,2)])
  then have n: "numbered_ok N ?log" and em: "\<forall>d \<in> set (ss_emitted s). datagram_ok ?log d" by (auto simp: sender_inv_def list_all_iff)
  have f: "faithful ?G S" by (rule log_faithful [OF n assms(4)])
  have um: "M \<le> usize_max" using assms(6) by (simp add: usize_max_def)
  have "honest_decoder M ?G S (cr_decoder (recovery_start config M))"
    using genuine_start [OF um] f um by (simp add: honest_decoder_def recovery_start_def decoder_with_budget_def)
  then have "honest.receiver_ok M S ?G config fid (budget_new i limit) (receiver_start config M (budget_new i limit))"
    by (intro honest.receiver_ok_start valid_window [OF assms(5)] holds_new)
  moreover have "honest.datagram M ?G S dg" if dg: "handle_ok dg" "bh_data dg \<in> outbound_datagram_bytes ` set (ss_emitted s)" for dg
  proof -
    obtain d where "d \<in> set (ss_emitted s)" "bh_data dg = outbound_datagram_bytes d" using dg(2) by blast
    then show ?thesis using em assms(1,6) f dg(1) by (intro emitted_datagram [OF n assms(3) log_names]) (auto simp: sender_limits_def)
  qed
  moreover have "honest.item S f offset bs" if "piece (S f) offset bs" for f offset bs using that by (simp add: piece_octet honest.item_def)
  ultimately have ok: "honest.receiver_ok M S ?G config fid (budget_new i limit) y"
    using honest.receiver_ok_reachable [OF assms(7) _ assms(6)] by blast
  obtain fl where "rw_heap (sy_world y) a = Some fl" using assms(8) by blast
  from honest.receiver_ok_alive(6) [OF ok this] have "\<forall>x < length (sy_read y a). x < length (S (fid a)) \<and> sy_read y a ! x = S (fid a) ! x"
    by (simp add: honest.item_def octet_of_def)
  then show ?thesis by (rule prefix_by_octets)
qed

theorem peers_deliver_witness:
  "\<exists>(s :: sender_system) (y :: receiver_system) closed w. ss_emitted s = [SourceOut 0 demo_chunk]
    \<and> receive (sy_world y) 5 demo_datagram = Some (closed, w) \<and> sy_read y 0 = [7] \<and> (\<exists>rest. [7, 8] = sy_read (y\<lparr>sy_world := w\<rparr>) 0 @ rest)"
proof -
  obtain s where s: "sender_step\<^sup>*\<^sup>* (sender_start recovery_config_default 100 (budget_new 1 1000) (\<lambda>_. None)) s"
    "ss_emitted s = [SourceOut 0 demo_chunk]" "length (ss_numbered s) = 1" using demo_sender_run by blast
  let ?step = "receiver_step (\<lambda>_. 4) (\<lambda>bs. bs \<in> outbound_datagram_bytes ` set (ss_emitted s)) (\<lambda>f offset bs. piece ((\<lambda>_. [7, 8]) f) offset bs)"
  obtain y closed w where y: "receive (sy_world y) 5 demo_datagram = Some (closed, w)"
      "?step\<^sup>*\<^sup>* (receiver_start recovery_config_default 100 (budget_new 1 1000)) (y\<lparr>sy_world := w\<rparr>)" "demo_received (y\<lparr>sy_world := w\<rparr>)"
    using demo_receiver_arrival [of "\<lambda>f offset bs. piece ((\<lambda>_. [7, 8]) f) offset bs"
        "\<lambda>bs. bs \<in> outbound_datagram_bytes ` set (ss_emitted s)" "\<lambda>_. 4"] s(2) by (auto simp: piece_def)
  have n: "length (ss_numbered s) \<le> 2 ^ 32" "(100 :: nat) \<le> 65535" "rw_heap (sy_world (y\<lparr>sy_world := w\<rparr>)) 0 \<noteq> None"
    using s(3) y(3) by (auto simp: demo_received_def)
  have p: "\<forall>(k, bs) \<in> set (ss_numbered s). \<forall>rs. source_ok MAX_SOURCE_RECORDS rs \<and> bs = source_wire k rs
      \<longrightarrow> (\<forall>r \<in> set rs. piece ((\<lambda>_. [7, 8]) (sr_flow_id r)) (unat (sr_offset r)) (sr_data r))"
    using demo_numbered [OF s] demo_pieces by auto
  have "\<exists>rest. (\<lambda>_. [7, 8]) ((\<lambda>_. 4) (0 :: nat)) = sy_read (y\<lparr>sy_world := w\<rparr>) 0 @ rest"
    by (rule peers_deliver [OF demo_limits s(1) n(1) p demo_recovery_valid n(2) y(2) n(3)])
  then show ?thesis using s(2) y(1,3)
    by (intro exI [of _ s] exI [of _ y] exI [of _ closed] exI [of _ w]) (simp add: demo_received_def)
qed

end
