(* ===== verification/Flow_Sending.thy ===== *)
theory Flow_Sending
  imports Flow_Task
begin

section \<open>What a flow retains and sends\<close>

text \<open>
  The handle, the task and the connection of a flow as one system of interleaved operations.  The invariant says that the accepted octets
  are exactly those acknowledged, held for replay or queued; the properties say that none is lost before it is acknowledged
  and that the bookkeeping never fails.
\<close>

definition sending :: "flow_shared \<Rightarrow> outbound list \<times> usize \<times> usize \<times> usize \<times> usize \<times> nat \<times> nat \<times> io_error option \<times> bool" where
  "sending s = (fs_outbound s, fs_retained_bytes s, fs_retained_chunks s, fs_replay_limit s, fs_replay_chunk_limit s,
     fs_next_send_offset s, fs_peer_max_offset s, fs_error s, fs_task_stopped s)"

definition send_view where
  "send_view w = (tk_replay (tw_task w), sending (tw_shared w))"

lemma sending_wake [simp]: "sending (wake_read s) = sending s" "sending (wake_write s) = sending s" "sending (wake_task s) = sending s"
  by (simp_all add: sending_def)

lemma sending_insert:
  "insert_bytes_with_reservation s b offset bs fin charge = Some (r, s', b') \<Longrightarrow> sending s' = sending s"
  by (auto simp: insert_bytes_with_reservation_def Let_def sending_def split: option.splits if_splits sum.splits prod.splits)

lemma sending_final: "flow_set_final_offset s offset = (r, s') \<Longrightarrow> sending s' = sending s"
  by (auto simp: flow_set_final_offset_def sending_def split: if_splits sum.splits)

lemma sending_read: "flow_read s b n wk = (r, s', b') \<Longrightarrow> sending s' = sending s"
  by (auto simp: flow_read_def sending_def Let_def split: option.splits if_splits prod.splits)

lemma sending_flush: "request_flush s wk = (r, s') \<Longrightarrow> sending s' = sending s"
  by (auto simp: request_flush_def sending_def Let_def split: option.splits if_splits)

lemma sending_shutdown: "request_shutdown s wk = (r, s') \<Longrightarrow> sending s' = sending s"
  by (auto simp: request_shutdown_def sending_def Let_def split: option.splits if_splits)

lemma set_task_simps [simp]:
  "tw_shared (set_task f w) = tw_shared w" "tw_task (set_task f w) = f (tw_task w)" "tw_conn (set_task f w) = tw_conn w"
  by (simp_all add: set_task_def)

lemma view_feedback: "send_view (queue_pending_feedback w v) = send_view w"
  by (simp add: queue_pending_feedback_def send_view_def sending_def Let_def)

lemma view_arm [simp]: "send_view (arm_replay_timer w v) = send_view w"
  by (auto simp: arm_replay_timer_def send_view_def sending_def split: prod.splits)

lemma view_reset_timer [simp]: "send_view (reset_replay_timer w v) = send_view w"
  by (auto simp: reset_replay_timer_def send_view_def sending_def split: prod.splits)

lemma view_sync [simp]: "send_view (sync_datagram_enabled w) = send_view w"
  by (simp add: sync_datagram_enabled_def send_view_def)

lemma view_restart [simp]: "send_view (restart_replay_timer w v) = send_view w"
  by (auto simp: restart_replay_timer_def send_view_def sending_def Let_def split: prod.splits)

lemma view_stream_data: "queue_stream_data t offset bs fin e = Some t' \<Longrightarrow> tk_replay t' = tk_replay t"
  by (auto simp: queue_stream_data_def)

lemma view_task_conn [simp]:
  "send_view (w\<lparr>tw_conn := c\<rparr>) = send_view w" "send_view (w\<lparr>tw_budget := b\<rparr>) = send_view w"
  by (simp_all add: send_view_def)

lemma view_set_task: "tk_replay (f (tw_task w)) = tk_replay (tw_task w) \<Longrightarrow> send_view (set_task f w) = send_view w"
  by (simp add: send_view_def)

lemma view_replay_repair: "replay_repair w v wk = Some (r, w') \<Longrightarrow> send_view w' = send_view w"
  by (auto simp: replay_repair_def Let_def view_set_task split: option.splits prod.splits sum.splits if_splits)

lemma view_replay_sources: "replay_sources w v wk = Some (r, w') \<Longrightarrow> send_view w' = send_view w"
  by (auto simp: replay_sources_def view_set_task split: option.splits prod.splits sum.splits if_splits bool.splits)

lemma view_replay_stream: "replay_stream w = Some (r, w') \<Longrightarrow> send_view w' = send_view w"
  by (auto simp: replay_stream_def view_set_task send_view_def dest: view_stream_data split: option.splits prod.splits if_splits)

lemma view_replay_later: "replay_later w v wk = Some (r, w') \<Longrightarrow> send_view w' = send_view w"
  by (auto simp: replay_later_def dest: view_replay_sources view_replay_stream split: if_splits)

lemma view_poll_replay:
  assumes "poll_replay w v wk = Some (r, w')"
  shows "send_view w' = send_view w"
proof -
  define u where "u = sync_datagram_enabled w"
  have u: "send_view u = send_view w" by (simp add: u_def)
  from assms have "send_view w' = send_view u"
    unfolding poll_replay_def Let_def u_def [symmetric]
    by (auto simp: view_set_task dest: view_replay_later view_replay_repair split: option.splits prod.splits if_splits sum.splits bool.splits)
      (metis view_replay_later view_replay_repair)
  then show ?thesis using u by simp
qed

lemma view_next_frame: "next_frame t = Some t' \<Longrightarrow> tk_replay t' = tk_replay t"
  by (auto simp: next_frame_def split: option.splits list.splits if_splits)

lemma view_frame_written [simp]: "send_view (frame_written w f a) = send_view w"
  by (auto simp: frame_written_def send_view_def sending_def Let_def split: option.splits prod.splits)

lemma view_poll_wire: "poll_wire w as = Some (r, w') \<Longrightarrow> send_view w' = send_view w"
proof (induction as arbitrary: w)
  case Nil
  then show ?case
    by (subst (asm) poll_wire.simps) (auto simp: send_view_def Let_def dest: view_next_frame split: option.splits prod.splits)
next
  case (Cons a as)
  then show ?case
    by (subst (asm) poll_wire.simps)
      (auto simp: Let_def view_set_task dest!: Cons.IH dest: view_next_frame split: option.splits prod.splits stream_write.splits if_splits,
       auto simp: send_view_def dest: view_next_frame)
qed

lemma view_terminal: "queue_terminal_frames w v = Some w' \<Longrightarrow> send_view w' = send_view w"
  by (auto simp: queue_terminal_frames_def queue_control_def send_view_def [of "tw_task_update _ _"] split: option.splits if_splits)
    (auto simp: send_view_def)

lemma view_finish: "finish_send_if_ready w ok = (r, w') \<Longrightarrow> send_view w' = send_view w"
  by (auto simp: finish_send_if_ready_def send_view_def sending_def Let_def split: if_splits)
definition queue_chunks :: "outbound list \<Rightarrow> (nat \<times> bytes) list" where
  "queue_chunks q = map (\<lambda>ob. (ob_offset ob, ob_bytes ob)) q"

fun queued_from :: "nat \<Rightarrow> outbound list \<Rightarrow> bool" where
  "queued_from p [] \<longleftrightarrow> True"
| "queued_from p (ob # q) \<longleftrightarrow> ob_offset ob = p \<and> ob_bytes ob \<noteq> [] \<and> queued_from (p + length (ob_bytes ob)) q"

definition stream_ok :: "nat \<Rightarrow> bytes \<Rightarrow> nat set \<Rightarrow> (nat \<times> bytes) list \<Rightarrow> outbound list \<Rightarrow> bool" where
  "stream_ok base accepted acked chunks q \<longleftrightarrow> (\<exists>p. base \<le> p \<and> p \<le> base + length accepted \<and> queued_from p q
     \<and> concat (map ob_bytes q) = drop (p - base) accepted
     \<and> (\<forall>(k, c) \<in> set chunks. base \<le> k \<and> k + length c \<le> p \<and> c = take (length c) (drop (k - base) accepted))
     \<and> {base..<p} \<subseteq> acked \<union> cover octets chunks)"

definition counts_ok :: "replay_buffer \<Rightarrow> flow_shared \<Rightarrow> bool" where
  "counts_ok r s \<longleftrightarrow> rp_inv r \<and> rp_max_bytes r = fs_replay_limit s \<and> rp_max_chunks r = fs_replay_chunk_limit s
     \<and> fs_retained_bytes s = rp_bytes r + outbound_bytes (fs_outbound s)
     \<and> fs_retained_chunks s = length (rp_chunks r) + length (fs_outbound s)
     \<and> fs_retained_bytes s \<le> fs_replay_limit s \<and> fs_retained_chunks s \<le> fs_replay_chunk_limit s"

definition flow_inv :: "nat \<Rightarrow> bytes \<Rightarrow> nat set \<Rightarrow> task_world \<Rightarrow> bool" where
  "flow_inv base accepted acked w \<longleftrightarrow> stream_ok base accepted acked (rp_chunks (tk_replay (tw_task w))) (fs_outbound (tw_shared w))
     \<and> counts_ok (tk_replay (tw_task w)) (tw_shared w)
     \<and> fs_next_send_offset (tw_shared w) = base + length accepted \<and> fs_peer_max_offset (tw_shared w) \<le> wire_max"

lemma flow_inv_cong: "send_view w' = send_view w \<Longrightarrow> flow_inv base accepted acked w' \<longleftrightarrow> flow_inv base accepted acked w"
  by (simp add: flow_inv_def counts_ok_def send_view_def sending_def)

lemma outbound_bytes_simps [simp]:
  "outbound_bytes [] = 0" "outbound_bytes (ob # q) = length (ob_bytes ob) + outbound_bytes q"
  "outbound_bytes (q @ q') = outbound_bytes q + outbound_bytes q'"
  by (simp_all add: outbound_bytes_def)

lemma outbound_bytes_concat: "outbound_bytes q = length (concat (map ob_bytes q))"
  by (induction q) simp_all

lemma queued_from_snoc:
  "queued_from p (q @ [ob]) \<longleftrightarrow> queued_from p q \<and> ob_offset ob = p + outbound_bytes q \<and> ob_bytes ob \<noteq> []"
  by (induction q arbitrary: p) (auto simp: add.assoc)

subsection \<open>Steps on the retained stream\<close>

lemma stream_ok_write:
  assumes "stream_ok base accepted acked chunks q" and "bs \<noteq> []"
  shows "stream_ok base (accepted @ bs) acked chunks (q @ [\<lparr>ob_offset = base + length accepted, ob_bytes = bs\<rparr>])"
proof -
  obtain p where p: "base \<le> p" "p \<le> base + length accepted" "queued_from p q" "concat (map ob_bytes q) = drop (p - base) accepted"
      "{base..<p} \<subseteq> acked \<union> cover octets chunks"
    and c: "\<forall>(k, c) \<in> set chunks. base \<le> k \<and> k + length c \<le> p \<and> c = take (length c) (drop (k - base) accepted)"
    using assms(1) by (auto simp: stream_ok_def)
  have "outbound_bytes q = length accepted - (p - base)" using p(4) by (simp add: outbound_bytes_concat)
  then have "queued_from p (q @ [\<lparr>ob_offset = base + length accepted, ob_bytes = bs\<rparr>])"
    using p(1-3) assms(2) by (simp add: queued_from_snoc)
  moreover have "\<forall>(k, c) \<in> set chunks. base \<le> k \<and> k + length c \<le> p \<and> c = take (length c) (drop (k - base) (accepted @ bs))"
    using c p(1,2) by fastforce
  ultimately show ?thesis unfolding stream_ok_def using p by (intro exI [of _ p]) auto
qed

lemma stream_ok_split:
  assumes "stream_ok base accepted acked chunks (ob # q)" and "0 < n" and "n < length (ob_bytes ob)"
  shows "stream_ok base accepted acked chunks
    (ob\<lparr>ob_bytes := take n (ob_bytes ob)\<rparr> # \<lparr>ob_offset = ob_offset ob + n, ob_bytes = drop n (ob_bytes ob)\<rparr> # q)"
  using assms unfolding stream_ok_def by (elim exE) (rule_tac x = p in exI, auto simp flip: append_assoc)

lemma stream_ok_send:
  assumes "stream_ok base accepted acked chunks (ob # q)"
    and "set chunks' = insert (ob_offset ob, ob_bytes ob) (set chunks)"
  shows "stream_ok base accepted acked chunks' q"
proof -
  obtain p where p: "base \<le> p" "p \<le> base + length accepted" "queued_from p (ob # q)"
      "concat (map ob_bytes (ob # q)) = drop (p - base) accepted" "{base..<p} \<subseteq> acked \<union> cover octets chunks"
    and c: "\<forall>(k, c) \<in> set chunks. base \<le> k \<and> k + length c \<le> p \<and> c = take (length c) (drop (k - base) accepted)"
    using assms(1) by (auto simp: stream_ok_def)
  let ?n = "length (ob_bytes ob)"
  have d: "drop (p - base) accepted = ob_bytes ob @ concat (map ob_bytes q)" using p(4) by simp
  then have le: "?n \<le> length accepted - (p - base)" by (metis le_add1 length_append length_drop)
  have "concat (map ob_bytes q) = drop (p + ?n - base) accepted"
    using arg_cong [OF d, of "drop ?n"] p(1) by (simp add: add.commute)
  moreover have "take ?n (drop (p - base) accepted) = ob_bytes ob" using d by simp
  moreover have "cover octets chunks' = cover octets chunks \<union> {p..<p + ?n}"
    using p(3) unfolding cover_def assms(2) by auto
  moreover have "{base..<p + ?n} = {base..<p} \<union> {p..<p + ?n}" using p(1) by auto
  ultimately show ?thesis
    unfolding stream_ok_def assms(2) using p c le by (intro exI [of _ "p + ?n"]) fastforce
qed

lemma stream_ok_release:
  assumes "stream_ok base accepted acked chunks q"
    and "chunks' = filter (\<lambda>(k, c). \<not> {k..<k + length c} \<subseteq> covered) chunks"
  shows "stream_ok base accepted (acked \<union> covered) chunks' q"
proof -
  have "cover octets chunks \<subseteq> covered \<union> cover octets chunks'" unfolding assms(2) cover_def by auto
  then show ?thesis using assms unfolding stream_ok_def by (elim exE) (rule_tac x = p in exI, auto)
qed

lemma rp_retain_max: "rp_retain r offset bs = Inr r' \<Longrightarrow> rp_max_bytes r' = rp_max_bytes r \<and> rp_max_chunks r' = rp_max_chunks r
    \<and> rp_chunks r' = bt_insert offset bs (rp_chunks r)"
  by (auto simp: rp_retain_def rbind_Inr_iff split: if_splits)

lemma retain_accepts:
  assumes s: "stream_ok base accepted acked (rp_chunks r) (ob # q)" and c: "counts_ok r (s\<lparr>fs_outbound := ob # q\<rparr>)"
    and w: "ob_offset ob + length (ob_bytes ob) \<le> wire_max"
  shows "\<exists>r'. rp_retain r (ob_offset ob) (ob_bytes ob) = Inr r' \<and> stream_ok base accepted acked (rp_chunks r') q
    \<and> counts_ok r' (s\<lparr>fs_outbound := q\<rparr>)"
proof -
  have inv: "rp_inv r" using c by (simp add: counts_ok_def)
  obtain p where p: "ob_offset ob = p" "ob_bytes ob \<noteq> []" "\<forall>(k, c) \<in> set (rp_chunks r). k + length c \<le> p"
    using s by (auto simp: stream_ok_def)
  have free: "{ob_offset ob..<ob_offset ob + length (ob_bytes ob)} \<inter> cover octets (rp_chunks r) = {}"
    using p by (fastforce simp: cover_def)
  obtain r' where r': "rp_retain r (ob_offset ob) (ob_bytes ob) = Inr r'"
    using rp_retain_spec [OF inv, of "ob_offset ob" "ob_bytes ob"] c w p free
    by (cases "rp_retain r (ob_offset ob) (ob_bytes ob)") (auto simp: counts_ok_def)
  note sp = rp_retain_spec [OF inv, of "ob_offset ob" "ob_bytes ob", unfolded r', simplified]
  have ne: "octets (ob_bytes ob) \<noteq> []" and l: "laid octets 0 (rp_chunks r)" using p inv by (simp_all add: rp_inv_def)
  have "set (rp_chunks r') = insert (ob_offset ob, ob_bytes ob) (set (rp_chunks r))"
    using arg_cong [OF set_bt_insert [OF ne _ l], of "ob_offset ob" set_mset] free rp_retain_max [OF r'] by simp
  then have "stream_ok base accepted acked (rp_chunks r') q" by (rule stream_ok_send [OF s])
  moreover have "counts_ok r' (s\<lparr>fs_outbound := q\<rparr>)" using c sp rp_retain_max [OF r'] by (auto simp: counts_ok_def)
  ultimately show ?thesis using r' by blast
qed
subsection \<open>Operations of the task\<close>

text \<open>The errors of the path and of the connection: all that sending may end with.\<close>

definition path_error :: "flow_task_error \<Rightarrow> bool" where
  "path_error e \<longleftrightarrow> (case e of TaskDatagram _ \<Rightarrow> True | TaskConnection \<Rightarrow> True | _ \<Rightarrow> False)"

lemma flow_inv_retain:
  assumes "flow_inv base accepted acked (push_front ob w)" and "ob_offset ob + length (ob_bytes ob) \<le> wire_max"
  shows "\<exists>r'. rp_retain (tk_replay (tw_task w)) (ob_offset ob) (ob_bytes ob) = Inr r'
    \<and> flow_inv base accepted acked (w\<lparr>tw_task := (tw_task w)\<lparr>tk_replay := r'\<rparr>\<rparr>)"
proof -
  have "stream_ok base accepted acked (rp_chunks (tk_replay (tw_task w))) (ob # fs_outbound (tw_shared w))"
    "counts_ok (tk_replay (tw_task w)) ((tw_shared w)\<lparr>fs_outbound := ob # fs_outbound (tw_shared w)\<rparr>)"
    using assms(1) by (simp_all add: flow_inv_def push_front_def)
  from retain_accepts [OF this assms(2)] show ?thesis
    using assms(1) by (auto simp: flow_inv_def push_front_def)
qed

lemma view_push_front: "send_view w = send_view w' \<Longrightarrow> send_view (push_front ob w) = send_view (push_front ob w')"
  by (simp add: send_view_def sending_def push_front_def)

lemma send_fallback_spec:
  assumes i: "flow_inv base accepted acked (push_front ob w)" and l: "ob_offset ob + length (ob_bytes ob) \<le> wire_max"
    and r: "send_fallback w ob e = Some (r, w')"
  shows "r = Inr False \<and> flow_inv base accepted acked w'"
proof -
  obtain q where q: "rp_retain (tk_replay (tw_task w)) (ob_offset ob) (ob_bytes ob) = Inr q"
      "flow_inv base accepted acked (w\<lparr>tw_task := (tw_task w)\<lparr>tk_replay := q\<rparr>\<rparr>)"
    using flow_inv_retain [OF i l] by blast
  obtain t where t: "queue_stream_data ((tw_task w)\<lparr>tk_replay := q\<rparr>) (ob_offset ob) (ob_bytes ob) False e = Some t"
      "r = Inr False" "w' = w\<lparr>tw_task := t, tw_conn := record_fallback (tw_conn w)\<rparr>"
    using r q(1) by (auto simp: send_fallback_def)
  have "send_view w' = send_view (w\<lparr>tw_task := (tw_task w)\<lparr>tk_replay := q\<rparr>\<rparr>)"
    using view_stream_data [OF t(1)] t(3) by (simp add: send_view_def)
  then show ?thesis using q(2) t(2) flow_inv_cong by blast
qed

lemma send_chunk_spec:
  assumes i: "flow_inv base accepted acked (push_front ob w)" and l: "ob_offset ob + length (ob_bytes ob) \<le> wire_max"
    and r: "send_chunk w v ob e wk = Some (r, w')"
  shows "(\<forall>x. r = Inl x \<longrightarrow> path_error x) \<and> (\<forall>y. r = Inr y \<longrightarrow> flow_inv base accepted acked w')"
proof (cases "tk_datagram_enabled (tw_task w)")
  case False
  then obtain r' where "send_fallback w ob e = Some (r', w')" "r = map_sum id Some r'"
    using r by (auto simp: send_chunk_def)
  then show ?thesis using send_fallback_spec [OF i l] by fastforce
next
  case True
  obtain a c where s: "send_source (tw_conn w) (tk_flow_id (tw_task w)) (ob_offset ob) (ob_bytes ob) False wk = Some (a, c)"
    using r True by (auto simp: send_chunk_def split: option.splits)
  have vc: "flow_inv base accepted acked (push_front ob (f (w\<lparr>tw_conn := c\<rparr>)))"
    if "\<And>u. send_view (f u) = send_view u" for f
    using i flow_inv_cong [OF view_push_front [of "f (w\<lparr>tw_conn := c\<rparr>)" w]] that by simp
  note u = r [unfolded send_chunk_def s, simplified True not_True_eq_False if_False option.case prod.case]
  show ?thesis
  proof (cases a)
    case (Inr b)
    show ?thesis
    proof (cases b)
      case b: True
      obtain q where q: "rp_retain (tk_replay (tw_task w)) (ob_offset ob) (ob_bytes ob) = Inr q"
          "flow_inv base accepted acked (w\<lparr>tw_task := (tw_task w)\<lparr>tk_replay := q\<rparr>\<rparr>)"
        using flow_inv_retain [OF i l] by blast
      have "r = Inr (Some True)" "w' = arm_replay_timer (w\<lparr>tw_conn := c, tw_task := (tw_task w)\<lparr>tk_replay := q\<rparr>\<rparr>) v"
        using u Inr b q(1) by auto
      moreover have "send_view (w\<lparr>tw_conn := c, tw_task := (tw_task w)\<lparr>tk_replay := q\<rparr>\<rparr>) = send_view (w\<lparr>tw_task := (tw_task w)\<lparr>tk_replay := q\<rparr>\<rparr>)"
        by (simp add: send_view_def)
      ultimately show ?thesis using q(2) flow_inv_cong view_arm by (metis Inl_Inr_False)
    next
      case b: False
      then show ?thesis using u Inr vc [of id] by auto
    qed
  next
    case (Inl x)
    let ?u = "set_task (\<lambda>t. t\<lparr>tk_datagram_enabled := False\<rparr>) (w\<lparr>tw_conn := c\<rparr>)"
    have "flow_inv base accepted acked (push_front ob ?u)" by (rule vc) (simp add: view_set_task)
    then show ?thesis using u Inl send_fallback_spec [of base accepted acked ob ?u e, OF _ l]
      by (fastforce simp: path_error_def split: if_splits)
  qed
qed

lemma send_outbound_spec:
  assumes i: "flow_inv base accepted acked (push_front ob w)" and l: "ob_offset ob + length (ob_bytes ob) \<le> wire_max"
    and r: "send_outbound w v ob wk = Some (r, w')"
  shows "(\<forall>x. r = Inl x \<longrightarrow> path_error x) \<and> (\<forall>y. r = Inr y \<longrightarrow> flow_inv base accepted acked w')"
proof -
  let ?e = "ob_offset ob + length (ob_bytes ob)"
  have e: "checked_add (ob_offset ob) (length (ob_bytes ob)) = Some ?e"
    using l by (simp add: usize_max_def wire_max_value)
  obtain a u where s: "send_chunk w v ob ?e wk = Some (a, u)" using r e by (auto simp: send_outbound_def split: option.splits)
  note sp = send_chunk_spec [OF i l s]
  have wake: "send_view (u\<lparr>tw_shared := wake_write ((tw_shared u)\<lparr>fs_flushed_offset := ?e\<rparr>)\<rparr>) = send_view u"
    by (simp add: send_view_def) (simp add: sending_def)
  show ?thesis
  proof (cases a)
    case (Inl x)
    then show ?thesis using r e s sp by (auto simp: send_outbound_def)
  next
    case (Inr y)
    then have u: "flow_inv base accepted acked u" using sp by simp
    show ?thesis using r e s Inr u flow_inv_cong [OF wake]
      by (auto simp: send_outbound_def Let_def split: option.splits if_splits)
  qed
qed

lemma max_stream_payload_pos: "max_stream_payload c = Some n \<Longrightarrow> 0 < n"
  by (auto simp: max_stream_payload_def)

lemma flow_inv_split:
  assumes "flow_inv base accepted acked (push_front ob w)" and "0 < k" and "k < length (ob_bytes ob)"
    and "\<not> fs_replay_chunk_limit (tw_shared w) \<le> fs_retained_chunks (tw_shared w)"
  shows "flow_inv base accepted acked (push_front (ob\<lparr>ob_bytes := take k (ob_bytes ob)\<rparr>)
    (push_front \<lparr>ob_offset = ob_offset ob + k, ob_bytes = drop k (ob_bytes ob)\<rparr>
      (w\<lparr>tw_shared := (tw_shared w)\<lparr>fs_retained_chunks := fs_retained_chunks (tw_shared w) + 1\<rparr>\<rparr>)))"
  using assms stream_ok_split [of base accepted acked _ ob "fs_outbound (tw_shared w)" k]
  by (auto simp: flow_inv_def counts_ok_def push_front_def)

lemma send_limited_spec:
  assumes i: "flow_inv base accepted acked (push_front ob w)" and m: "0 < m" "ob_offset ob < fs_peer_max_offset (tw_shared w)"
    and r: "send_limited w v ob m wk = Some (r, w')"
  shows "(\<forall>x. r = Inl x \<longrightarrow> path_error x) \<and> (\<forall>y. r = Inr y \<longrightarrow> flow_inv base accepted acked w')"
proof -
  let ?s = "tw_shared w"
  define k where "k = min (min m (fs_peer_max_offset ?s - ob_offset ob)) (length (ob_bytes ob))"
  note r = r [unfolded send_limited_def Let_def k_def [symmetric]]
  have ne: "ob_bytes ob \<noteq> []" using i by (auto simp: flow_inv_def stream_ok_def push_front_def)
  have k: "0 < k" "k \<le> length (ob_bytes ob)" "ob_offset ob + k \<le> wire_max"
    using m ne i by (auto simp: k_def flow_inv_def push_front_def)
  show ?thesis
  proof (cases "length (ob_bytes ob) \<le> k")
    case True
    then show ?thesis using r send_outbound_spec [OF i] k by simp
  next
    case split: False
    have ca: "checked_add (ob_offset ob) k = Some (ob_offset ob + k)"
      using k by (simp add: usize_max_def wire_max_value)
    note r = r [unfolded if_not_P [OF split] ca option.case]
    show ?thesis
    proof (cases "fs_replay_chunk_limit ?s \<le> fs_retained_chunks ?s")
      case True
      then show ?thesis using r i by auto
    next
      case False
      let ?rest = "\<lparr>ob_offset = ob_offset ob + k, ob_bytes = drop k (ob_bytes ob)\<rparr>"
      let ?first = "ob\<lparr>ob_bytes := take k (ob_bytes ob)\<rparr>"
      let ?u = "push_front ?rest (w\<lparr>tw_shared := ?s\<lparr>fs_retained_chunks := fs_retained_chunks ?s + 1\<rparr>\<rparr>)"
      have "flow_inv base accepted acked (push_front ?first ?u)"
        using flow_inv_split [OF i k(1) _ False] split by simp
      then show ?thesis using r False send_outbound_spec [of base accepted acked ?first ?u] k by simp
    qed
  qed
qed

text \<open>Sending keeps the invariant; it only fails with an error of the path.\<close>

lemma process_outbound_spec:
  assumes i: "flow_inv base accepted acked w0" and r: "process_outbound w0 v wk = Some (r, w')"
  shows "(\<forall>x. r = Inl x \<longrightarrow> path_error x) \<and> (\<forall>y. r = Inr y \<longrightarrow> flow_inv base accepted acked w')"
proof -
  define w where "w = sync_datagram_enabled w0"
  have iw: "flow_inv base accepted acked w" using i flow_inv_cong [OF view_sync] by (simp add: w_def)
  note r = r [unfolded process_outbound_def Let_def w_def [symmetric]]
  show ?thesis
  proof (cases "fs_outbound (tw_shared w)")
    case Nil
    then show ?thesis using r iw by auto
  next
    case (Cons ob rest)
    define w1 where "w1 = w\<lparr>tw_shared := (tw_shared w)\<lparr>fs_outbound := rest\<rparr>\<rparr>"
    note r = r [unfolded Cons list.case w1_def [symmetric]]
    have restored: "flow_inv base accepted acked (push_front ob u)" if "send_view u = send_view w1" for u
    proof -
      have "send_view (push_front ob w1) = send_view w" by (simp add: send_view_def sending_def push_front_def w1_def Cons)
      then show ?thesis using iw flow_inv_cong view_push_front [OF that] by metis
    qed
    show ?thesis
    proof (cases "fs_peer_max_offset (tw_shared w) \<le> ob_offset ob")
      case True
      then show ?thesis using r restored [of w1] by auto
    next
      case credit: False
      obtain n where n: "max_source_payload (tw_conn w1) (bv_max_datagram_size v) = Some n"
        using r credit by (auto split: option.splits)
      define w2 where "w2 = (if tk_datagram_enabled (tw_task w1) \<and> n = 0 then set_task (\<lambda>t. t\<lparr>tk_datagram_enabled := False\<rparr>) w1 else w1)"
      note r = r [unfolded n option.case if_not_P [OF credit] w2_def [symmetric]]
      have v2: "send_view w2 = send_view w1" "fs_peer_max_offset (tw_shared w2) = fs_peer_max_offset (tw_shared w)"
        by (simp_all add: w2_def view_set_task w1_def)
      show ?thesis
      proof (cases "tk_datagram_enabled (tw_task w1) \<and> n = 0 \<and> rc_require_adaptive (cr_config (tw_conn w1))")
        case True
        then show ?thesis using r by (auto simp: path_error_def)
      next
        case False
        note r = r [unfolded if_not_P [OF False]]
        obtain m where m: "(if tk_datagram_enabled (tw_task w2) then Some n else max_stream_payload (tw_conn w2)) = Some m"
            "send_limited w2 v ob m wk = Some (r, w')"
          using r by (cases "if tk_datagram_enabled (tw_task w2) then Some n else max_stream_payload (tw_conn w2)") simp_all
        have "0 < m" using m(1) max_stream_payload_pos by (auto simp: w2_def split: if_splits)
        then show ?thesis using send_limited_spec [OF restored [OF v2(1)] _ _ m(2)] credit v2(2) by simp
      qed
    qed
  qed
qed

text \<open>The offsets an ACK frame reports.\<close>

fun reported :: "control_frame \<Rightarrow> nat set" where
  "reported (CfAck contiguous ranges) = {..<unat contiguous} \<union> range_set (map (\<lambda>(s, e). (unat s, unat e)) ranges)"
| "reported _ = {}"

lemma length_le_sum: "\<forall>x \<in> set xs. 0 < (g x :: nat) \<Longrightarrow> length xs \<le> sum_list (map g xs)"
  by (induction xs) (auto intro: add_mono)

lemma release_none:
  assumes inv: "rp_inv r" and a: "ack_inv a" and ack: "rp_acknowledge r a = ((0, nc), r')"
  shows "nc = 0 \<and> r' = r"
proof -
  let ?xs = "rp_chunks r"
  have ne: "\<forall>x \<in> set ?xs. 0 < (length \<circ> snd) x" and b: "rp_bytes r = sum_list (map (length \<circ> snd) ?xs)"
    using inv laid_above [of octets 0 ?xs] by (fastforce simp: rp_inv_def)+
  have "sum_list (map (length \<circ> snd) ?xs) = sum_list (map (length \<circ> snd) (filter (chunk_covered a) ?xs))
      + sum_list (map (length \<circ> snd) (filter (\<lambda>x. \<not> chunk_covered a x) ?xs))" by (rule sum_filter [symmetric])
  moreover have "rp_bytes r' = rp_bytes r" using rp_acknowledge_spec(3) [OF inv a ack] by simp
  moreover have "rp_bytes r' = rp_bytes r - sum_list (map (length \<circ> snd) (filter (chunk_covered a) ?xs))"
    using ack by (auto simp: rp_acknowledge_def Let_def)
  moreover have "length (filter (chunk_covered a) ?xs) \<le> sum_list (map (length \<circ> snd) (filter (chunk_covered a) ?xs))"
    by (rule length_le_sum) (use ne in auto)
  ultimately have "length (filter (chunk_covered a) ?xs) \<le> 0" using b by linarith
  then have "filter (chunk_covered a) ?xs = []" by simp
  then have "filter (\<lambda>x. \<not> chunk_covered a x) ?xs = ?xs" by (auto simp: filter_empty_conv filter_id_conv)
  then show ?thesis using ack \<open>rp_bytes r' = rp_bytes r\<close> by (auto simp: rp_acknowledge_def Let_def)
qed

lemma apply_ack_spec:
  assumes i: "flow_inv base accepted acked w" and a: "ack_inv a"
  shows "\<exists>w'. apply_ack w v a = Some w' \<and> flow_inv base accepted (acked \<union> ack_set a) w'"
proof -
  obtain nb nc r where r: "rp_acknowledge (tk_replay (tw_task w)) a = ((nb, nc), r)" by (metis prod.exhaust)
  have c: "counts_ok (tk_replay (tw_task w)) (tw_shared w)" and inv: "rp_inv (tk_replay (tw_task w))"
    using i by (simp_all add: flow_inv_def counts_ok_def)
  note sp = rp_acknowledge_spec [OF inv a r]
  let ?s = "(tw_shared w)\<lparr>fs_retained_bytes := fs_retained_bytes (tw_shared w) - nb,
      fs_retained_chunks := fs_retained_chunks (tw_shared w) - nc\<rparr>"
  define u where "u = (if nb = 0 then w\<lparr>tw_task := (tw_task w)\<lparr>tk_replay := r\<rparr>\<rparr>
      else restart_replay_timer (w\<lparr>tw_conn := record_delivery (tw_conn w) nb, tw_shared := wake_write ?s,
        tw_task := (tw_task w)\<lparr>tk_replay := r, tk_replay_stage := RepairStage, tk_replay_cursor := None\<rparr>\<rparr>) v)"
  have sub: "checked_sub (fs_retained_bytes (tw_shared w)) nb = Some (fs_retained_bytes ?s)"
    "checked_sub (fs_retained_chunks (tw_shared w)) nc = Some (fs_retained_chunks ?s)"
    using c sp(3,4) by (simp_all add: counts_ok_def)
  have "apply_ack w v a = Some (if rp_bytes (tk_replay (tw_task u)) = 0
      then u\<lparr>tw_task := (tw_task u)\<lparr>tk_replay_stage := RepairStage, tk_replay_cursor := None, tk_replay_timer := None\<rparr>\<rparr> else u)"
    unfolding apply_ack_def r Let_def prod.case sub option.case u_def by (cases "nb = 0") simp_all
  then obtain w' where w': "apply_ack w v a = Some w'" "send_view w' = send_view u" by (simp add: send_view_def)
  have "stream_ok base accepted (acked \<union> ack_set a) (rp_chunks r) (fs_outbound (tw_shared w))"
    using i stream_ok_release [OF _ sp(2)] by (simp add: flow_inv_def)
  moreover have "counts_ok r ?s" using c sp by (auto simp: counts_ok_def)
  moreover have "send_view u = (r, sending ?s)"
  proof (cases "nb = 0")
    case True
    then show ?thesis using release_none [OF inv a] r by (auto simp: u_def send_view_def sending_def)
  next
    case False
    then show ?thesis by (simp add: u_def) (simp add: send_view_def)
  qed
  ultimately have "flow_inv base accepted (acked \<union> ack_set a) w'"
    using i w'(2) by (simp add: flow_inv_def counts_ok_def send_view_def sending_def)
  then show ?thesis using w'(1) by blast
qed

lemma ack_range_set_reported:
  "ack_from_wire (unat c) (map (\<lambda>(s, e). (unat s, unat e)) rs) n sent = Inr a \<Longrightarrow> ack_inv a \<and> ack_set a = reported (CfAck c rs)"
  using ack_from_wire_inv by fastforce

lemma apply_control_spec:
  assumes i: "flow_inv base accepted acked w" and f: "frame_fields_ok n frame" and r: "apply_control w v frame = Some (Inr (), w')"
  shows "flow_inv base accepted (acked \<union> reported frame) w'"
proof (cases frame)
  case (CfAck c rs)
  then obtain m a where a: "ack_from_wire (unat c) (map (\<lambda>(s, e). (unat s, unat e)) rs) m (fs_next_send_offset (tw_shared w)) = Inr a"
      "apply_ack w v a = Some w'"
    using r by (auto simp: apply_control_def split: option.splits sum.splits)
  then show ?thesis using apply_ack_spec [OF i, of a v] ack_range_set_reported [OF a(1)] CfAck by auto
next
  case (CfMaxOffset m)
  then have w': "w' = w\<lparr>tw_shared := wake_task ((tw_shared w)\<lparr>fs_peer_max_offset := unat m\<rparr>)\<rparr>"
    using r by (auto simp: apply_control_def split: if_splits)
  have "unat m \<le> wire_max" using f CfMaxOffset by (simp add: wire_max_def word_le_nat_alt)
  then show ?thesis using i CfMaxOffset by (auto simp: w' flow_inv_def counts_ok_def)
next
  case (CfFin x)
  then have "send_view w' = send_view w"
    using r by (auto simp: apply_control_def send_view_def dest: sending_final split: prod.splits sum.splits)
  from flow_inv_cong [OF this] show ?thesis using i CfFin by simp
next
  case (CfStreamData x fin data)
  then have "send_view w' = send_view w"
    using r by (auto simp: apply_control_def send_view_def insert_bytes_def split: option.splits if_splits sum.splits) (erule sending_insert)
  from flow_inv_cong [OF this] show ?thesis using i CfStreamData by simp
qed (use r in \<open>simp_all add: apply_control_def\<close>)

lemma enqueue_spec:
  assumes i: "flow_inv base accepted acked w" and ne: "bs \<noteq> []" and r: "enqueue (tw_shared w) bs wk = (r, s')"
  shows "flow_inv base (accepted @ (case r of Inr (Some _) \<Rightarrow> bs | _ \<Rightarrow> [])) acked (w\<lparr>tw_shared := s'\<rparr>)"
proof (cases "\<exists>e. r = Inr (Some e)")
  case False
  then have "sending s' = sending (tw_shared w)"
    using r by (auto simp: enqueue_def enqueue_ready_def sending_def split: option.splits if_splits)
  then have "send_view (w\<lparr>tw_shared := s'\<rparr>) = send_view w" by (simp add: send_view_def)
  from flow_inv_cong [OF this] show ?thesis using i False by (auto split: sum.splits option.splits)
next
  case True
  let ?s = "tw_shared w"
  have u: "fs_retained_bytes ?s + length bs \<le> fs_replay_limit ?s" "fs_retained_chunks ?s < fs_replay_chunk_limit ?s"
    and s': "s' = wake_task (?s\<lparr>fs_next_send_offset := fs_next_send_offset ?s + length bs,
      fs_retained_bytes := fs_retained_bytes ?s + length bs, fs_retained_chunks := fs_retained_chunks ?s + 1,
      fs_outbound := fs_outbound ?s @ [\<lparr>ob_offset = fs_next_send_offset ?s, ob_bytes = bs\<rparr>]\<rparr>)"
    using r True i
    by (auto simp: enqueue_def enqueue_ready_def saturating_add_def flow_inv_def counts_ok_def rp_inv_def split: option.splits if_splits)
  then show ?thesis using i True stream_ok_write [of base accepted acked _ _ bs] ne
    by (auto simp: flow_inv_def counts_ok_def)
qed

subsection \<open>The flow as a system\<close>

text \<open>
  The handle of a flow, its task, the DATAGRAM driver and the rest of the connection interleave; between any two operations of the task
  the handle may act and the connection may change.  Two logs record what the application handed over (\<open>fy_accepted\<close>, from the initial
  offset on) and what the peer acknowledged (\<open>fy_acked\<close>).  Control frames are those the decoder accepts.  These are the
  regular operations; those that end a flow follow below.  The configuration and the symbol size of a connection never change.
\<close>

record flow_system =
  fy_world :: task_world
  fy_accepted :: bytes
  fy_acked :: "nat set"

definition with_world :: "task_world \<Rightarrow> flow_system \<Rightarrow> flow_system" where
  "with_world w y = y\<lparr>fy_world := w\<rparr>"

definition with_shared :: "flow_shared \<Rightarrow> flow_system \<Rightarrow> flow_system" where
  "with_shared s y = y\<lparr>fy_world := (fy_world y)\<lparr>tw_shared := s\<rparr>\<rparr>"

abbreviation fy_shared :: "flow_system \<Rightarrow> flow_shared" where
  "fy_shared y \<equiv> tw_shared (fy_world y)"

inductive flow_step :: "flow_system \<Rightarrow> flow_system \<Rightarrow> bool" where
  hand_over: "bs \<noteq> [] \<Longrightarrow> enqueue (fy_shared y) bs wk = (r, s)
    \<Longrightarrow> flow_step y (with_shared s y\<lparr>fy_accepted := fy_accepted y @ (case r of Inr (Some _) \<Rightarrow> bs | _ \<Rightarrow> [])\<rparr>)"
| flush: "request_flush (fy_shared y) wk = (r, s) \<Longrightarrow> flow_step y (with_shared s y)"
| shutdown: "request_shutdown (fy_shared y) wk = (r, s) \<Longrightarrow> flow_step y (with_shared s y)"
| read: "flow_read (fy_shared y) (tw_budget (fy_world y)) n wk = (r, s, b)
    \<Longrightarrow> flow_step y (with_world ((fy_world y)\<lparr>tw_shared := s, tw_budget := b\<rparr>) y)"
| datagram: "insert_bytes_precharged (fy_shared y) (tw_budget (fy_world y)) offset bs fin charge = Some (r, s, b)
    \<Longrightarrow> flow_step y (with_world ((fy_world y)\<lparr>tw_shared := s, tw_budget := b\<rparr>) y)"
| control: "m \<le> usize_max \<Longrightarrow> decode_control input n m = Inr (frame, k) \<Longrightarrow> apply_control (fy_world y) v frame = Some (Inr (), w)
    \<Longrightarrow> flow_step y (with_world w y\<lparr>fy_acked := fy_acked y \<union> reported frame\<rparr>)"
| feedback: "flow_step y (with_world (queue_pending_feedback (fy_world y) v) y)"
| send: "process_outbound (fy_world y) v wk = Some (Inr progress, w) \<Longrightarrow> flow_step y (with_world w y)"
| replay: "poll_replay (fy_world y) v wk = Some (Inr progress, w) \<Longrightarrow> flow_step y (with_world w y)"
| terminal: "queue_terminal_frames (fy_world y) v = Some w \<Longrightarrow> flow_step y (with_world w y)"
| wire: "poll_wire (fy_world y) answers = Some (r, w) \<Longrightarrow> flow_step y (with_world w y)"
| finish: "finish_send_if_ready (fy_world y) ok = (r, w) \<Longrightarrow> flow_step y (with_world w y)"
| connection: "cr_config c = cr_config (tw_conn (fy_world y)) \<Longrightarrow> cr_max_symbol_bytes c = cr_max_symbol_bytes (tw_conn (fy_world y))
    \<Longrightarrow> flow_step y (with_world ((fy_world y)\<lparr>tw_conn := c, tw_budget := b\<rparr>) y)"

text \<open>A flow starts with an empty queue and an empty replay buffer of the same limit.\<close>

definition flow_start :: "u64 \<Rightarrow> nat \<Rightarrow> connection_recovery \<Rightarrow> mem_budget \<Rightarrow> flow_system option" where
  "flow_start flow_id initial_offset c b =
     (case (flow_task_new flow_id c, max_ack_ranges c) of
        (Some t, Some ranges) \<Rightarrow>
          Some \<lparr>fy_world = \<lparr>tw_task = t,
              tw_shared = flow_state_new (rc_reassembly_buffer_bytes (cr_config c)) (rc_replay_buffer_bytes (cr_config c)) ranges initial_offset,
              tw_conn = c, tw_budget = b\<rparr>, fy_accepted = [], fy_acked = {}\<rparr>
      | _ \<Rightarrow> None)"

lemma with_simps [simp]:
  "fy_world (with_world w y) = w" "fy_accepted (with_world w y) = fy_accepted y" "fy_acked (with_world w y) = fy_acked y"
  "fy_world (with_shared s y) = (fy_world y)\<lparr>tw_shared := s\<rparr>" "fy_accepted (with_shared s y) = fy_accepted y"
  "fy_acked (with_shared s y) = fy_acked y"
  by (simp_all add: with_world_def with_shared_def)

abbreviation system_inv :: "nat \<Rightarrow> flow_system \<Rightarrow> bool" where
  "system_inv base y \<equiv> flow_inv base (fy_accepted y) (fy_acked y) (fy_world y)"

lemma flow_system_inv_start:
  assumes "flow_start flow_id base c b = Some y"
  shows "system_inv base y"
proof -
  have "unat (rc_replay_buffer_bytes (cr_config c)) < usize_max"
    using unsigned_less [of "rc_replay_buffer_bytes (cr_config c)", where 'a = nat] by (simp add: usize_max_def)
  then show ?thesis
    using assms by (auto simp: flow_start_def flow_task_new_def flow_state_new_def flow_inv_def counts_ok_def stream_ok_def
        rp_new_def rp_inv_def Let_def split: option.splits)
qed

lemma flow_inv_view: "flow_inv base accepted acked w \<Longrightarrow> send_view w' = send_view w \<Longrightarrow> flow_inv base accepted acked w'"
  using flow_inv_cong by blast

lemma flow_inv_shared:
  assumes "flow_inv base accepted acked w" and "sending s = sending (tw_shared w)"
  shows "flow_inv base accepted acked (w\<lparr>tw_shared := s\<rparr>)" "flow_inv base accepted acked (w\<lparr>tw_shared := s, tw_budget := b\<rparr>)"
  using assms(2) by (auto intro!: flow_inv_view [OF assms(1)] simp: send_view_def)

lemma flow_system_inv_step: "flow_step y y' \<Longrightarrow> system_inv base y \<Longrightarrow> system_inv base y'"
proof (induction rule: flow_step.induct)
  case (hand_over bs y wk r s)
  then show ?case using enqueue_spec by simp
next
  case (flush y wk r s)
  then show ?case using flow_inv_shared(1) [OF flush(2) sending_flush [OF flush(1)]] by simp
next
  case (shutdown y wk r s)
  then show ?case using flow_inv_shared(1) [OF shutdown(2) sending_shutdown [OF shutdown(1)]] by simp
next
  case (read y n wk r s b)
  then show ?case using flow_inv_shared(2) [OF read(2) sending_read [OF read(1)]] by simp
next
  case (datagram y offset bs fin charge r s b)
  then show ?case
    using flow_inv_shared(2) [OF datagram(2) sending_insert [OF datagram(1) [unfolded insert_bytes_precharged_def]]] by simp
next
  case (control m input n frame k y v w)
  then have "frame_fields_ok n frame" using decode_control_inv [OF control(1,2)] by (simp add: control_frame_ok_def)
  then show ?case using apply_control_spec [OF control(4) _ control(3)] by simp
next
  case (feedback y v)
  then show ?case using flow_inv_view [OF feedback view_feedback] by simp
next
  case (send y v wk progress w)
  then show ?case using process_outbound_spec [OF send(2,1)] by simp
next
  case (replay y v wk progress w)
  then show ?case using flow_inv_view [OF replay(2) view_poll_replay [OF replay(1)]] by simp
next
  case (terminal y v w)
  then show ?case using flow_inv_view [OF terminal(2) view_terminal [OF terminal(1)]] by simp
next
  case (wire y answers r w)
  then show ?case using flow_inv_view [OF wire(2) view_poll_wire [OF wire(1)]] by simp
next
  case (finish y ok r w)
  then show ?case using flow_inv_view [OF finish(2) view_finish [OF finish(1)]] by simp
next
  case (connection c y b)
  then show ?case by (auto intro!: flow_inv_view [OF connection(3)] simp: send_view_def)
qed

lemma flow_system_inv_reachable: "flow_step\<^sup>*\<^sup>* y0 y \<Longrightarrow> system_inv base y0 \<Longrightarrow> system_inv base y"
  by (induction rule: rtranclp_induct) (auto intro: flow_system_inv_step)

subsection \<open>How a flow ends\<close>

text \<open>
  Besides its regular operations the handle may reset the flow or be dropped, a malformed or inconsistent record of a datagram rejects the
  flow, an operation of the task may fail, which ends its poll in \<open>fail_task\<close>, and the task may be dropped at any time.  A
  flow has ended when its state shows an error or a stopped task.  \<open>woken\<close> is the start of a poll, which takes a requested reset.
\<close>

definition flow_ended :: "flow_shared \<Rightarrow> bool" where
  "flow_ended s \<longleftrightarrow> fs_error s \<noteq> None \<or> fs_task_stopped s"

inductive flow_event :: "flow_system \<Rightarrow> flow_system \<Rightarrow> bool" where
  working: "flow_step y y' \<Longrightarrow> flow_event y y'"
| woken: "flow_event y (with_shared ((fy_shared y)\<lparr>fs_task_waker := Some wk, fs_reset := None\<rparr>) y)"
| reset: "request_reset (fy_shared y) error = Some (ok, s) \<Longrightarrow> flow_event y (with_shared s y)"
| rejected: "reject_protocol (fy_shared y) = Some s \<Longrightarrow> flow_event y (with_shared s y)"
| handle_dropped: "flow_event y (with_shared (drop_handle (fy_shared y)) y)"
| control_fails: "apply_control (fy_world y) v frame = Some (Inl e, w) \<Longrightarrow> flow_event y (with_world (snd (fail_task display w e)) y)"
| send_fails: "process_outbound (fy_world y) v wk = Some (Inl e, w) \<Longrightarrow> flow_event y (with_world (snd (fail_task display w e)) y)"
| replay_fails: "poll_replay (fy_world y) v wk = Some (Inl e, w) \<Longrightarrow> flow_event y (with_world (snd (fail_task display w e)) y)"
| task_fails: "flow_event y (with_world (snd (fail_task display (fy_world y) e)) y)"
| task_dropped: "flow_event y (with_world (flow_task_drop runtime_stopped (fy_world y)) y)"

lemma flow_ended_sending: "sending s' = sending s \<Longrightarrow> flow_ended s' = flow_ended s"
  by (simp add: flow_ended_def sending_def)

lemma flow_ended_view: "send_view w' = send_view w \<Longrightarrow> flow_ended (tw_shared w') = flow_ended (tw_shared w)"
  by (rule flow_ended_sending) (simp add: send_view_def)

lemma flow_ended_updates [simp]:
  "flow_ended (wake_read s) = flow_ended s" "flow_ended (wake_write s) = flow_ended s" "flow_ended (wake_task s) = flow_ended s"
  "flow_ended (s\<lparr>fs_retained_bytes := n\<rparr>) = flow_ended s" "flow_ended (s\<lparr>fs_retained_chunks := k\<rparr>) = flow_ended s"
  "flow_ended (s\<lparr>fs_outbound := q\<rparr>) = flow_ended s" "flow_ended (s\<lparr>fs_peer_max_offset := m\<rparr>) = flow_ended s"
  "flow_ended (s\<lparr>fs_next_send_offset := m\<rparr>) = flow_ended s" "flow_ended (s\<lparr>fs_write_waker := wk\<rparr>) = flow_ended s" "flow_ended (s\<lparr>fs_flushed_offset := m\<rparr>) = flow_ended s"
  by (simp_all add: flow_ended_def)

lemma flow_ended_enqueue: "enqueue s bs wk = (r, s') \<Longrightarrow> flow_ended s' = flow_ended s"
  by (auto simp: enqueue_def enqueue_ready_def Let_def split: option.splits if_splits)

lemma flow_ended_restart [simp]: "flow_ended (tw_shared (restart_replay_timer w v)) = flow_ended (tw_shared w)"
  by (rule flow_ended_view) simp

lemma flow_ended_ack: "apply_ack w v a = Some w' \<Longrightarrow> flow_ended (tw_shared w') = flow_ended (tw_shared w)"
  by (auto simp: apply_ack_def Let_def split: option.splits if_splits prod.splits)

lemma flow_ended_control:
  assumes "apply_control w v frame = Some (r, w')"
  shows "flow_ended (tw_shared w') = flow_ended (tw_shared w)"
proof (cases frame)
  case (CfAck c rs)
  then show ?thesis using assms flow_ended_ack by (auto simp: apply_control_def split: option.splits sum.splits)
next
  case (CfMaxOffset m)
  then show ?thesis using assms by (auto simp: apply_control_def split: if_splits)
next
  case (CfFin x)
  then show ?thesis
    using assms by (auto simp: apply_control_def dest!: flow_ended_sending [OF sending_final] split: prod.splits sum.splits)
next
  case (CfStreamData x fin data)
  then show ?thesis using assms
    by (auto simp: apply_control_def insert_bytes_def split: option.splits if_splits sum.splits prod.splits) (metis sending_insert flow_ended_sending)+
qed (use assms in \<open>simp_all add: apply_control_def\<close>)

lemma flow_ended_push_front [simp]: "flow_ended (tw_shared (push_front ob w)) = flow_ended (tw_shared w)"
  by (simp add: push_front_def)

lemma flow_ended_arm [simp]: "flow_ended (tw_shared (arm_replay_timer w v)) = flow_ended (tw_shared w)"
  by (rule flow_ended_view) simp

lemma flow_ended_fallback: "send_fallback w ob e = Some (r, w') \<Longrightarrow> flow_ended (tw_shared w') = flow_ended (tw_shared w)"
  by (auto simp: send_fallback_def split: option.splits sum.splits)

lemma flow_ended_chunk: "send_chunk w v ob e wk = Some (r, w') \<Longrightarrow> flow_ended (tw_shared w') = flow_ended (tw_shared w)"
  by (auto simp: send_chunk_def dest!: flow_ended_fallback split: option.splits sum.splits prod.splits bool.splits if_splits)

lemma flow_ended_send_outbound: "send_outbound w v ob wk = Some (r, w') \<Longrightarrow> flow_ended (tw_shared w') = flow_ended (tw_shared w)"
  by (auto simp: send_outbound_def Let_def dest: flow_ended_chunk split: option.splits sum.splits prod.splits if_splits)

lemma flow_ended_limited: "send_limited w v ob m wk = Some (r, w') \<Longrightarrow> flow_ended (tw_shared w') = flow_ended (tw_shared w)"
  by (auto simp: send_limited_def Let_def dest!: flow_ended_send_outbound split: option.splits sum.splits prod.splits if_splits)

lemma flow_ended_sync [simp]: "flow_ended (tw_shared (sync_datagram_enabled w)) = flow_ended (tw_shared w)"
  by (rule flow_ended_view) simp

lemma flow_ended_outbound: "process_outbound w v wk = Some (r, w') \<Longrightarrow> flow_ended (tw_shared w') = flow_ended (tw_shared w)"
  by (auto simp: process_outbound_def Let_def dest!: flow_ended_limited split: option.splits list.splits if_splits prod.splits)

lemma flow_ended_step: "flow_step y y' \<Longrightarrow> flow_ended (fy_shared y') = flow_ended (fy_shared y)"
proof (induction rule: flow_step.induct)
  case (hand_over bs y wk r s)
  then show ?case using flow_ended_enqueue by simp
next
  case (flush y wk r s)
  then show ?case using flow_ended_sending [OF sending_flush] by simp
next
  case (shutdown y wk r s)
  then show ?case using flow_ended_sending [OF sending_shutdown] by simp
next
  case (read y n wk r s b)
  then show ?case using flow_ended_sending [OF sending_read] by simp
next
  case (datagram y offset bs fin charge r s b)
  then show ?case using flow_ended_sending [OF sending_insert] by (simp add: insert_bytes_precharged_def)
next
  case (control m input n frame k y v w)
  then show ?case using flow_ended_control by simp
next
  case (feedback y v)
  show ?case using flow_ended_view [OF view_feedback] by simp
next
  case (send y v wk progress w)
  then show ?case using flow_ended_outbound by simp
next
  case (replay y v wk progress w)
  then show ?case using flow_ended_view [OF view_poll_replay] by simp
next
  case (terminal y v w)
  then show ?case using flow_ended_view [OF view_terminal] by simp
next
  case (wire y answers r w)
  then show ?case using flow_ended_view [OF view_poll_wire] by simp
next
  case (finish y ok r w)
  then show ?case using flow_ended_view [OF view_finish] by simp
qed simp

lemma flow_ended_steps: "flow_step\<^sup>*\<^sup>* y y' \<Longrightarrow> flow_ended (fy_shared y') = flow_ended (fy_shared y)"
  by (induction rule: rtranclp_induct) (simp_all add: flow_ended_step)

lemma flow_ended_start: "flow_start flow_id base c b = Some y \<Longrightarrow> \<not> flow_ended (fy_shared y)"
  by (auto simp: flow_start_def flow_state_new_def flow_ended_def split: option.splits)

lemma request_reset_ends: "request_reset s error = Some (ok, s') \<Longrightarrow> s' = s \<or> flow_ended s'"
  by (auto simp: request_reset_def flow_ended_def split: if_splits option.splits)

lemma fail_task_ends: "flow_ended (tw_shared (snd (fail_task display w e)))"
  by (simp add: fail_task_def fail_with_kind_def flow_ended_def split: option.splits)

lemma task_drop_ends: "flow_ended (tw_shared (flow_task_drop runtime_stopped w))"
  by (simp add: flow_task_drop_def mark_task_stopped_def flow_ended_def Let_def)

lemma system_inv_frame:
  assumes "system_inv base y" and "sending s = sending (fy_shared y)"
  shows "system_inv base (with_shared s y)"
  using flow_inv_shared(1) [OF assms] by simp

lemma flow_event_inv: "flow_event y y' \<Longrightarrow> flow_ended (fy_shared y) \<or> system_inv base y \<Longrightarrow> flow_ended (fy_shared y') \<or> system_inv base y'"
proof (induction rule: flow_event.induct)
  case (working y y')
  then show ?case using flow_ended_step flow_system_inv_step by blast
next
  case (woken y wk)
  let ?s = "(fy_shared y)\<lparr>fs_task_waker := Some wk, fs_reset := None\<rparr>"
  have "sending ?s = sending (fy_shared y)" by (simp add: sending_def)
  then show ?case using woken system_inv_frame [of base y ?s] flow_ended_sending [of ?s] by auto
next
  case (reset y error ok s)
  then show ?case using request_reset_ends [OF reset(1)] by (auto simp: with_shared_def)
next
  case (rejected y s)
  then obtain ok where "request_reset (fy_shared y) FlowProtocol = Some (ok, s)" by (auto simp: reject_protocol_def)
  then show ?case using request_reset_ends rejected(2) by (fastforce simp: with_shared_def)
next
  case (handle_dropped y)
  have "sending (drop_handle (fy_shared y)) = sending (fy_shared y)" by (simp add: drop_handle_def) (simp add: sending_def)
  then show ?case using handle_dropped system_inv_frame [of base y "drop_handle (fy_shared y)"] flow_ended_sending [of "drop_handle (fy_shared y)"] by auto
qed (simp_all add: fail_task_ends task_drop_ends)

lemma flow_event_reachable:
  "flow_event\<^sup>*\<^sup>* y0 y \<Longrightarrow> system_inv base y0 \<Longrightarrow> flow_ended (fy_shared y) \<or> system_inv base y"
  by (induction rule: rtranclp_induct) (auto dest: flow_event_inv)

subsection \<open>What the buffers hold\<close>

lemma content_append: "content f (xs @ ys) x = (case content f xs x of None \<Rightarrow> content f ys x | Some b \<Rightarrow> Some b)"
  by (induction f xs x rule: content.induct) auto

lemma content_queue:
  "queued_from p q \<Longrightarrow> p \<le> x \<Longrightarrow> x < p + outbound_bytes q
    \<Longrightarrow> content octets (queue_chunks q) x = Some (concat (map ob_bytes q) ! (x - p))"
  by (induction q arbitrary: p) (auto simp: queue_chunks_def nth_append)

lemma content_agrees:
  assumes "\<forall>(k, c) \<in> set chunks. base \<le> k \<and> k + length c \<le> base + length accepted \<and> c = take (length c) (drop (k - base) accepted)"
    and "x \<in> cover octets chunks"
  shows "content octets chunks x = Some (accepted ! (x - base))"
proof -
  obtain y where y: "content octets chunks x = Some y" using assms(2) content_None_iff by fastforce
  then obtain k c where kc: "(k, c) \<in> set chunks" "k \<le> x" "x < k + length c" "y = c ! (x - k)"
    using content_SomeD by fastforce
  have k: "base \<le> k" "k + length c \<le> base + length accepted" and c: "c = take (length c) (drop (k - base) accepted)"
    using assms(1) kc(1) by auto
  have "c ! (x - k) = accepted ! (x - base)" using arg_cong [OF c, of "\<lambda>l. l ! (x - k)"] kc(2,3) k by simp
  then show ?thesis using y kc(4) by simp
qed

lemma stream_ok_content:
  assumes s: "stream_ok base accepted acked chunks q" and x: "base \<le> x" "x < base + length accepted"
  shows "x \<in> acked \<or> content octets (chunks @ queue_chunks q) x = Some (accepted ! (x - base))"
proof -
  obtain p where p: "base \<le> p" "p \<le> base + length accepted" "queued_from p q"
      "concat (map ob_bytes q) = drop (p - base) accepted" "{base..<p} \<subseteq> acked \<union> cover octets chunks"
    and c: "\<forall>(k, c) \<in> set chunks. base \<le> k \<and> k + length c \<le> p \<and> c = take (length c) (drop (k - base) accepted)"
    using s by (auto simp: stream_ok_def)
  show ?thesis
  proof (cases "x \<in> cover octets chunks")
    case True
    then show ?thesis using content_agrees [of chunks base accepted x] c p(2) by (force simp: content_append)
  next
    case out: False
    then have n: "content octets chunks x = None" by (simp add: content_None_iff)
    show ?thesis
    proof (cases "x < p")
      case True
      then show ?thesis using p(5) x out by auto
    next
      case False
      moreover have "outbound_bytes q = base + length accepted - p" using p by (simp add: outbound_bytes_concat)
      ultimately show ?thesis using content_queue [OF p(3), of x] p x n by (simp add: content_append)
    qed
  qed
qed

lemma queue_stream_data_total:
  assumes "offset \<le> wire_max"
  shows "queue_stream_data t offset bs fin e \<noteq> None"
proof -
  have "(word_of_nat offset :: u64) \<le> MAX_WIRE_OFFSET"
    using assms by (simp add: word_le_nat_alt unsigned_of_nat take_bit_nat_eq_self wire_max_def wire_max_value [unfolded wire_max_def])
  then have "frame_fields_ok 0 (CfStreamData (word_of_nat offset) fin bs)" by simp
  then obtain p where "encode_payload (CfStreamData (word_of_nat offset) fin bs) = Some p" by (rule encode_payload_total)
  then show ?thesis by (simp add: queue_stream_data_def encode_control_Some)
qed

lemma send_source_total:
  assumes "flow_id \<le> MAX_WIRE_OFFSET" and "data \<noteq> []" and "offset + length data \<le> wire_max"
  shows "send_source c flow_id offset data fin wk \<noteq> None"
proof -
  let ?r = "\<lparr>sr_flow_id = flow_id, sr_offset = word_of_nat offset, sr_fin = fin, sr_data = data\<rparr>"
  have "unat (word_of_nat offset :: u64) = offset"
    using assms(3) by (simp add: wire_max_value unsigned_of_nat take_bit_nat_eq_self)
  then have "record_ok ?r" using assms by (simp add: record_ok_def wire_max_value)
  then have "encode_source k [?r] [] = (Inr (), source_wire k [?r])" for k
    using encode_source_ok [of 1 "[?r]" k "[]"] by (simp add: source_ok_def)
  then show ?thesis by (simp add: send_source_def Let_def)
qed

lemma send_outbound_total:
  assumes "flow_inv base accepted acked (push_front ob w)" and "ob_offset ob + length (ob_bytes ob) \<le> wire_max"
    and "tk_flow_id (tw_task w) \<le> MAX_WIRE_OFFSET"
  shows "send_outbound w v ob wk \<noteq> None"
proof -
  have ne: "ob_bytes ob \<noteq> []" using assms(1) by (auto simp: flow_inv_def stream_ok_def push_front_def)
  have off: "ob_offset ob \<le> wire_max" using assms(2) by simp
  have f: "send_fallback u ob e \<noteq> None" for u e
    using queue_stream_data_total [OF off] by (auto simp: send_fallback_def split: sum.splits)
  have "send_source (tw_conn w) (tk_flow_id (tw_task w)) (ob_offset ob) (ob_bytes ob) False wk \<noteq> None"
    by (rule send_source_total [OF assms(3) ne assms(2)])
  then have c: "send_chunk w v ob e wk \<noteq> None" for e
    using f by (auto simp: send_chunk_def split: sum.splits bool.splits) blast+
  show ?thesis using c [of "ob_offset ob + length (ob_bytes ob)"] by (auto simp: send_outbound_def Let_def split: option.splits sum.splits)
qed

lemma send_limited_total:
  assumes i: "flow_inv base accepted acked (push_front ob w)" and m: "0 < m" "ob_offset ob < fs_peer_max_offset (tw_shared w)"
    and f: "tk_flow_id (tw_task w) \<le> MAX_WIRE_OFFSET"
  shows "send_limited w v ob m wk \<noteq> None"
proof -
  let ?s = "tw_shared w"
  define k where "k = min (min m (fs_peer_max_offset ?s - ob_offset ob)) (length (ob_bytes ob))"
  have ne: "ob_bytes ob \<noteq> []" using i by (auto simp: flow_inv_def stream_ok_def push_front_def)
  have k: "0 < k" "k \<le> length (ob_bytes ob)" "ob_offset ob + k \<le> wire_max"
    using m ne i by (auto simp: k_def flow_inv_def push_front_def)
  let ?rest = "\<lparr>ob_offset = ob_offset ob + k, ob_bytes = drop k (ob_bytes ob)\<rparr>"
  let ?first = "ob\<lparr>ob_bytes := take k (ob_bytes ob)\<rparr>"
  let ?u = "push_front ?rest (w\<lparr>tw_shared := ?s\<lparr>fs_retained_chunks := fs_retained_chunks ?s + 1\<rparr>\<rparr>)"
  have "flow_inv base accepted acked (push_front ?first ?u)"
    if "k < length (ob_bytes ob)" "\<not> fs_replay_chunk_limit ?s \<le> fs_retained_chunks ?s"
    by (rule flow_inv_split [OF i k(1) that])
  then show ?thesis unfolding send_limited_def Let_def k_def [symmetric]
    using send_outbound_total [OF i _ f] send_outbound_total [of base accepted acked ?first ?u] f k
    by (auto split: option.splits simp: push_front_def)
qed

lemma process_outbound_total:
  assumes i: "flow_inv base accepted acked w0" and f: "tk_flow_id (tw_task w0) \<le> MAX_WIRE_OFFSET"
    and c: "active_capabilities (tw_conn w0) \<noteq> None"
  shows "process_outbound w0 v wk \<noteq> None"
proof -
  define w where "w = sync_datagram_enabled w0"
  have iw: "flow_inv base accepted acked w" using i flow_inv_cong [OF view_sync] by (simp add: w_def)
  have same: "tk_flow_id (tw_task w) = tk_flow_id (tw_task w0)" "tw_conn w = tw_conn w0"
    by (simp_all add: w_def sync_datagram_enabled_def)
  show ?thesis
  proof (cases "fs_outbound (tw_shared w)")
    case Nil
    then show ?thesis unfolding process_outbound_def Let_def w_def [symmetric] by simp
  next
    case (Cons ob rest)
    define w1 where "w1 = w\<lparr>tw_shared := (tw_shared w)\<lparr>fs_outbound := rest\<rparr>\<rparr>"
    obtain n m where n: "max_source_payload (tw_conn w1) (bv_max_datagram_size v) = Some n"
      and m: "max_stream_payload (tw_conn w1) = Some m" "0 < m"
      using c same by (auto simp: w1_def max_source_payload_def max_stream_payload_def)
    define w2 where "w2 = (if tk_datagram_enabled (tw_task w1) \<and> n = 0 then set_task (\<lambda>t. t\<lparr>tk_datagram_enabled := False\<rparr>) w1 else w1)"
    have v2: "send_view (push_front ob w2) = send_view w" "fs_peer_max_offset (tw_shared w2) = fs_peer_max_offset (tw_shared w)"
      "tk_flow_id (tw_task w2) \<le> MAX_WIRE_OFFSET" "max_stream_payload (tw_conn w2) = Some m"
      using m f same by (simp_all add: w2_def w1_def Cons push_front_def send_view_def sending_def)
    have "flow_inv base accepted acked (push_front ob w2)" using iw flow_inv_cong [OF v2(1)] by simp
    note t = send_limited_total [OF this _ _ v2(3)]
    have "send_limited w2 v ob k wk \<noteq> None"
      if "ob_offset ob < fs_peer_max_offset (tw_shared w)" "(if tk_datagram_enabled (tw_task w2) then Some n else max_stream_payload (tw_conn w2)) = Some k" for k
      by (rule t) (use that v2 m in \<open>auto simp: w2_def split: if_splits\<close>)
    then show ?thesis
      unfolding process_outbound_def Let_def w_def [symmetric] Cons list.case w1_def [symmetric] n option.case w2_def [symmetric]
      using v2(4) by (auto split: option.splits)
  qed
qed

subsection \<open>A sample flow\<close>

lemma enqueue_accepts:
  assumes "fs_error s = None" and "fs_shutdown_target s = None" and "fs_retained_bytes s + length bs \<le> fs_replay_limit s"
    and "fs_replay_limit s \<le> usize_max" and "fs_retained_chunks s < fs_replay_chunk_limit s" and "fs_next_send_offset s + length bs \<le> usize_max"
  shows "enqueue s bs wk = (Inr (Some (fs_next_send_offset s + length bs)), wake_task (s\<lparr>fs_next_send_offset := fs_next_send_offset s + length bs,
      fs_retained_bytes := fs_retained_bytes s + length bs, fs_retained_chunks := fs_retained_chunks s + 1,
      fs_outbound := fs_outbound s @ [\<lparr>ob_offset = fs_next_send_offset s, ob_bytes = bs\<rparr>]\<rparr>))"
  using assms by (simp add: enqueue_def enqueue_ready_def saturating_add_def checked_add_def)

text \<open>A flow of a connection with the default configuration, the credit of the peer and the first write of the application.\<close>

definition sample_start :: flow_system where
  "sample_start = the (flow_start 4 0 (recovery_start recovery_config_default 1200) (budget_new 0 1000000))"

lemma sample_start: "flow_start 4 0 (recovery_start recovery_config_default 1200) (budget_new 0 1000000) = Some sample_start"
  by (simp add: sample_start_def flow_start_def flow_task_new_def max_stream_payload_def max_ack_ranges_def active_capabilities_def
      recovery_start_def recovery_capabilities_def Let_def)

lemma sample_shared: "fy_shared sample_start = flow_state_new (256 * 1024) (256 * 1024) 16 0" "fy_accepted sample_start = []" "fy_acked sample_start = {}"
  "tk_replay (tw_task (fy_world sample_start)) = rp_new (256 * 1024)" "tk_flow_id (tw_task (fy_world sample_start)) = 4"
  "tw_conn (fy_world sample_start) = recovery_start recovery_config_default 1200" "tk_datagram_enabled (tw_task (fy_world sample_start))"
  "tk_wire_queue (tw_task (fy_world sample_start)) = []" "tk_wire_current (tw_task (fy_world sample_start)) = None"
  by (simp_all add: sample_start_def flow_start_def flow_task_new_def max_stream_payload_def max_ack_ranges_def active_capabilities_def
      recovery_start_def recovery_capabilities_def Let_def recovery_config_default_def)

definition sample_write :: flow_system where
  "sample_write = with_shared (snd (enqueue (fy_shared sample_start) [7, 8] 1)) sample_start\<lparr>fy_accepted := [7, 8]\<rparr>"

lemma sample_write_step: "flow_step sample_start sample_write"
proof -
  have "\<exists>e s. enqueue (fy_shared sample_start) [7, 8] 1 = (Inr (Some e), s)"
    by (subst enqueue_accepts) (simp_all add: sample_shared flow_state_new_def replay_chunk_limit_def usize_max_def)
  then obtain e s where e: "enqueue (fy_shared sample_start) [7, 8] 1 = (Inr (Some e), s)" by blast
  from flow_step.hand_over [OF _ e] show ?thesis unfolding sample_write_def e snd_conv by (simp add: sample_shared(2))
qed

lemma sample_write_facts:
  "fy_shared sample_write = (flow_state_new (256 * 1024) (256 * 1024) 16 0)\<lparr>fs_next_send_offset := 2, fs_retained_bytes := 2,
     fs_retained_chunks := 1, fs_outbound := [\<lparr>ob_offset = 0, ob_bytes = [7, 8]\<rparr>]\<rparr>"
  "tw_task (fy_world sample_write) = tw_task (fy_world sample_start)" "tw_conn (fy_world sample_write) = tw_conn (fy_world sample_start)"
  "fy_accepted sample_write = [7, 8]" "fy_acked sample_write = {}"
proof -
  show "fy_shared sample_write = (flow_state_new (256 * 1024) (256 * 1024) 16 0)\<lparr>fs_next_send_offset := 2, fs_retained_bytes := 2,
     fs_retained_chunks := 1, fs_outbound := [\<lparr>ob_offset = 0, ob_bytes = [7, 8]\<rparr>]\<rparr>"
    unfolding sample_write_def with_simps flow_system.simps task_world.simps
    by (subst enqueue_accepts) (simp_all add: sample_shared flow_state_new_def replay_chunk_limit_def usize_max_def wake_task_def)
qed (simp_all add: sample_write_def sample_shared)

definition sample_view :: backend_view where
  "sample_view = \<lparr>bv_now = 0, bv_path_rtts = [], bv_max_datagram_size = Some 1200, bv_lost_packets = 0, bv_tx_datagrams = 0\<rparr>"

subsection \<open>Properties\<close>

text \<open>C34: what the application wrote is kept until it is acknowledged, unless the flow ends.  However the handle, the task and the
  connection interleave, resets, rejected records, a dropped handle, failing operations and a dropped task included, either the state
  of the flow shows an error or a stopped task, or every accepted octet that no ACK has reported is still in the send queue or
  the replay buffer, at its offset and with its value, and the two retention counters are exactly the octets and chunks held and
  within their limits.  The operations of \<open>flow_step\<close> alone never end the flow.\<close>

theorem unacked_octets_retained:
  assumes "flow_start flow_id base c b = Some y0" and "flow_event\<^sup>*\<^sup>* y0 y"
  shows "(flow_step\<^sup>*\<^sup>* y0 y \<longrightarrow> \<not> flow_ended (fy_shared y))
    \<and> (flow_ended (fy_shared y) \<or>
       (let s = fy_shared y; r = tk_replay (tw_task (fy_world y)); end_offset = base + length (fy_accepted y) in
        fs_next_send_offset s = end_offset
        \<and> fs_retained_bytes s = rp_bytes r + outbound_bytes (fs_outbound s) \<and> fs_retained_bytes s \<le> fs_replay_limit s
        \<and> fs_retained_chunks s = length (rp_chunks r) + length (fs_outbound s) \<and> fs_retained_chunks s \<le> fs_replay_chunk_limit s
        \<and> (\<forall>x. base \<le> x \<and> x < end_offset \<longrightarrow> x \<in> fy_acked y
             \<or> content octets (rp_chunks r @ queue_chunks (fs_outbound s)) x = Some (fy_accepted y ! (x - base)))))"
proof -
  have "flow_ended (fy_shared y) \<or> system_inv base y"
    by (rule flow_event_reachable [OF assms(2) flow_system_inv_start [OF assms(1)]])
  moreover have "let s = fy_shared y; r = tk_replay (tw_task (fy_world y)); end_offset = base + length (fy_accepted y) in
        fs_next_send_offset s = end_offset
        \<and> fs_retained_bytes s = rp_bytes r + outbound_bytes (fs_outbound s) \<and> fs_retained_bytes s \<le> fs_replay_limit s
        \<and> fs_retained_chunks s = length (rp_chunks r) + length (fs_outbound s) \<and> fs_retained_chunks s \<le> fs_replay_chunk_limit s
        \<and> (\<forall>x. base \<le> x \<and> x < end_offset \<longrightarrow> x \<in> fy_acked y
             \<or> content octets (rp_chunks r @ queue_chunks (fs_outbound s)) x = Some (fy_accepted y ! (x - base)))"
    if "system_inv base y"
  proof -
    have i: "stream_ok base (fy_accepted y) (fy_acked y) (rp_chunks (tk_replay (tw_task (fy_world y)))) (fs_outbound (fy_shared y))"
      and c: "counts_ok (tk_replay (tw_task (fy_world y))) (fy_shared y)" "fs_next_send_offset (fy_shared y) = base + length (fy_accepted y)"
      using that by (simp_all add: flow_inv_def)
    show ?thesis unfolding Let_def using c stream_ok_content [OF i] by (simp add: counts_ok_def)
  qed
  ultimately show ?thesis using flow_ended_steps flow_ended_start [OF assms(1)] by blast
qed

theorem unacked_octets_retained_witness:
  "flow_event\<^sup>*\<^sup>* sample_start (with_shared (drop_handle (fy_shared sample_write)) sample_write)
    \<and> fs_retained_bytes (drop_handle (fy_shared sample_write)) = 2
    \<and> content octets (queue_chunks (fs_outbound (drop_handle (fy_shared sample_write)))) 1 = Some 8"
proof -
  let ?y = "with_shared (drop_handle (fy_shared sample_write)) sample_write"
  have r: "flow_event\<^sup>*\<^sup>* sample_start ?y"
    using sample_write_step by (blast intro: flow_event.working flow_event.handle_dropped rtranclp.intros)
  note t = unacked_octets_retained [OF sample_start r, unfolded Let_def]
  have e: "\<not> flow_ended (fy_shared ?y)"
    by (simp add: drop_handle_def sample_write_facts) (simp add: flow_ended_def flow_state_new_def)
  have "content octets (rp_chunks (tk_replay (tw_task (fy_world ?y))) @ queue_chunks (fs_outbound (fy_shared ?y))) 1
      = Some (fy_accepted ?y ! (1 - 0))"
    using t e by (auto simp: sample_write_facts(4,5))
  then show ?thesis using r by (simp add: drop_handle_def sample_write_facts sample_shared rp_new_def)
qed

text \<open>C35: the bookkeeping of a flow never fails.  In every reachable state an acknowledgement is applied and a reset granted or
  refused without a failed \<open>expect\<close>, and sending, on a connection with capabilities, neither panics nor
  finds the replay buffer full, a chunk overlapping or an offset past the wire limit: its only errors are those of the path.\<close>

theorem sending_bookkeeping_total:
  assumes "flow_start flow_id base c b = Some y0" and "flow_step\<^sup>*\<^sup>* y0 y"
    and "tk_flow_id (tw_task (fy_world y)) \<le> MAX_WIRE_OFFSET" and "active_capabilities (tw_conn (fy_world y)) \<noteq> None"
  shows "(\<exists>r w. process_outbound (fy_world y) v wk = Some (r, w) \<and> (\<forall>e. r = Inl e \<longrightarrow> path_error e))
    \<and> (\<exists>ok s. request_reset (fy_shared y) error = Some (ok, s))
    \<and> (\<forall>a. ack_inv a \<longrightarrow> (\<exists>w. apply_ack (fy_world y) v a = Some w))"
proof -
  have i: "system_inv base y" using flow_system_inv_reachable [OF assms(2) flow_system_inv_start [OF assms(1)]] .
  then have "counts_ok (tk_replay (tw_task (fy_world y))) (fy_shared y)" by (simp add: flow_inv_def)
  then have "\<exists>ok s. request_reset (fy_shared y) error = Some (ok, s)" by (auto simp: request_reset_def counts_ok_def checked_sub_def)
  then show ?thesis using process_outbound_total [OF i assms(3,4)] process_outbound_spec [OF i] apply_ack_spec [OF i] by fastforce
qed

theorem sending_bookkeeping_total_witness:
  "\<exists>r w. process_outbound (fy_world sample_write) sample_view 1 = Some (r, w)"
proof -
  have "flow_step\<^sup>*\<^sup>* sample_start sample_write" using sample_write_step by (rule r_into_rtranclp)
  moreover have "tk_flow_id (tw_task (fy_world sample_write)) \<le> MAX_WIRE_OFFSET"
    by (simp add: sample_write_facts sample_shared MAX_WIRE_OFFSET_def)
  moreover have "active_capabilities (tw_conn (fy_world sample_write)) \<noteq> None"
    by (simp add: sample_write_facts sample_shared active_capabilities_def recovery_capabilities_def recovery_start_def)
  ultimately show ?thesis using sending_bookkeeping_total [OF sample_start, of sample_write sample_view 1] by blast
qed

end
