(* ===== verification/Flow_Stalls.thy ===== *)
theory Flow_Stalls
  imports Flow_Sending
begin

section \<open>Two ways to wait forever\<close>

text \<open>
  Two states a flow can reach from which one of its promises is never kept: a flush that no operation completes, and a send queue that
  no acknowledgement and no credit can move.  Both are reached by a flow of a connection with the default configuration.
\<close>

text \<open>With an empty replay buffer a replay, an acknowledgement and the end of the flow do nothing to the queues of the task and to
  the connection.\<close>

definition calm_view :: "task_world \<Rightarrow> replay_buffer \<times> wire_frame list \<times> wire_frame option \<times> connection_recovery" where
  "calm_view w = (tk_replay (tw_task w), tk_wire_queue (tw_task w), tk_wire_current (tw_task w), tw_conn w)"

definition replay_empty :: "task_world \<Rightarrow> bool" where
  "replay_empty w \<longleftrightarrow> rp_chunks (tk_replay (tw_task w)) = [] \<and> rp_bytes (tk_replay (tw_task w)) = 0"

lemma calm_sync [simp]: "calm_view (sync_datagram_enabled w) = calm_view w" "tw_shared (sync_datagram_enabled w) = tw_shared w"
  "replay_empty (sync_datagram_enabled w) \<longleftrightarrow> replay_empty w"
  by (simp_all add: sync_datagram_enabled_def calm_view_def replay_empty_def)

lemma calm_poll_replay:
  assumes "replay_empty w" and "poll_replay w v wk = Some (r, w')"
  shows "calm_view w' = calm_view w \<and> tw_shared w' = tw_shared w"
proof -
  define u where "u = sync_datagram_enabled w"
  have "rp_bytes (tk_replay (tw_task u)) = 0" using assms(1) calm_sync(3) [of w] by (simp add: u_def replay_empty_def)
  then have "calm_view w' = calm_view u \<and> tw_shared w' = tw_shared u"
    using assms(2) unfolding poll_replay_def Let_def u_def [symmetric]
    by (auto simp: calm_view_def split: option.splits if_splits)
  then show ?thesis by (simp add: u_def)
qed

text \<open>What \<open>apply_control\<close> may change of the shared state of a flow whose replay buffer is empty.\<close>

definition steady :: "flow_shared \<Rightarrow> flow_shared \<Rightarrow> bool" where
  "steady s s' \<longleftrightarrow> fs_outbound s' = fs_outbound s \<and> fs_retained_chunks s' = fs_retained_chunks s
     \<and> fs_replay_chunk_limit s' = fs_replay_chunk_limit s \<and> fs_next_send_offset s' = fs_next_send_offset s
     \<and> fs_flushed_offset s' = fs_flushed_offset s \<and> fs_error s' = fs_error s"

lemma steady_refl [simp]: "steady s s"
  by (simp add: steady_def)

lemma steady_insert: "insert_bytes_with_reservation s b offset bs fin charge = Some (r, s', b') \<Longrightarrow> steady s s'"
  by (auto simp: insert_bytes_with_reservation_def Let_def steady_def split: option.splits if_splits sum.splits prod.splits)

lemma steady_final: "flow_set_final_offset s offset = (r, s') \<Longrightarrow> steady s s'"
  by (auto simp: flow_set_final_offset_def steady_def split: if_splits sum.splits)

lemma steady_read: "flow_read s b n wk = (r, s', b') \<Longrightarrow> steady s s'"
  by (auto simp: flow_read_def steady_def Let_def split: option.splits if_splits prod.splits)

lemma steady_flush: "request_flush s wk = (r, s') \<Longrightarrow> steady s s'"
  by (auto simp: request_flush_def steady_def Let_def split: option.splits if_splits)

lemma steady_shutdown: "request_shutdown s wk = (r, s') \<Longrightarrow> steady s s'"
  by (auto simp: request_shutdown_def steady_def Let_def split: option.splits if_splits)

lemma steady_refused: "enqueue s bs wk = (r, s') \<Longrightarrow> \<forall>e. r \<noteq> Inr (Some e) \<Longrightarrow> steady s s'"
  by (auto simp: enqueue_def enqueue_ready_def steady_def split: option.splits if_splits)

lemma steady_feedback: "steady (tw_shared w) (tw_shared (queue_pending_feedback w v)) \<and> calm_view (queue_pending_feedback w v) = calm_view w"
  by (simp add: queue_pending_feedback_def steady_def calm_view_def Let_def)

lemma steady_apply_ack:
  assumes "replay_empty w" and "apply_ack w v a = Some w'"
  shows "calm_view w' = calm_view w \<and> tw_shared w' = tw_shared w"
proof -
  have "rp_acknowledge (tk_replay (tw_task w)) a = ((0, 0), tk_replay (tw_task w))"
    using assms(1) by (simp add: rp_acknowledge_def replay_empty_def Let_def)
  then show ?thesis using assms(2) by (auto simp: apply_ack_def Let_def calm_view_def)
qed

lemma steady_control:
  assumes e: "replay_empty w" and r: "apply_control w v frame = Some (Inr (), w')"
  shows "calm_view w' = calm_view w \<and> steady (tw_shared w) (tw_shared w')"
proof (cases frame)
  case (CfAck c rs)
  then obtain a where "apply_ack w v a = Some w'" using r by (auto simp: apply_control_def split: option.splits sum.splits)
  then show ?thesis using steady_apply_ack [OF e] by simp
next
  case (CfMaxOffset m)
  then show ?thesis using r by (auto simp: apply_control_def calm_view_def steady_def split: if_splits)
next
  case (CfFin x)
  then show ?thesis using r steady_final by (auto simp: apply_control_def calm_view_def split: prod.splits sum.splits)
next
  case (CfStreamData x fin data)
  then show ?thesis
    using r by (auto simp: apply_control_def calm_view_def insert_bytes_def split: option.splits if_splits sum.splits) (erule steady_insert)
qed (use r in \<open>simp_all add: apply_control_def\<close>)

text \<open>A flush that cannot complete: nothing is queued or to be replayed, the flushed offset lags, and no frame in the queues carries
  it further.\<close>

fun carries_at_most :: "nat \<Rightarrow> wire_frame \<Rightarrow> bool" where
  "carries_at_most m (_, f, _) \<longleftrightarrow> (case f of None \<Rightarrow> True | Some offset \<Rightarrow> offset \<le> m)"

definition frames_ok :: "nat \<Rightarrow> flow_task \<Rightarrow> bool" where
  "frames_ok m t \<longleftrightarrow> list_all (carries_at_most m) (tk_wire_queue t) \<and> pred_option (carries_at_most m) (tk_wire_current t)"

definition flush_lost :: "flow_system \<Rightarrow> bool" where
  "flush_lost y \<longleftrightarrow> replay_empty (fy_world y) \<and> fs_outbound (fy_shared y) = [] \<and> fs_error (fy_shared y) = None
     \<and> fs_flushed_offset (fy_shared y) < fs_next_send_offset (fy_shared y)
     \<and> frames_ok (fs_flushed_offset (fy_shared y)) (tw_task (fy_world y))"

lemma flush_lost_steady:
  assumes "flush_lost y" and "calm_view (fy_world y') = calm_view (fy_world y)" and "steady (fy_shared y) (fy_shared y')"
  shows "flush_lost y'"
  using assms by (simp add: flush_lost_def steady_def calm_view_def frames_ok_def replay_empty_def)

lemma next_frame_ok:
  assumes "next_frame t = Some t'" and "frames_ok m t"
  shows "frames_ok m t'"
  using assms by (auto simp: next_frame_def frames_ok_def split: if_splits list.splits option.splits prod.splits)

lemma frames_ok_drop: "frames_ok m t \<Longrightarrow> tk_wire_current t = Some (bs, f, a) \<Longrightarrow> frames_ok m (t\<lparr>tk_wire_current := Some (bs', f, a)\<rparr>)"
  by (simp add: frames_ok_def)

lemma steady_frame_written:
  assumes "frames_ok (fs_flushed_offset (tw_shared w)) (tw_task w)" and "tk_wire_current (tw_task w) = Some (bs, f, a)"
  shows "steady (tw_shared w) (tw_shared (frame_written w f a)) \<and> frames_ok (fs_flushed_offset (tw_shared w)) (tw_task (frame_written w f a))"
  using assms by (auto simp: frame_written_def steady_def frames_ok_def Let_def max_absorb1 split: option.splits prod.splits)

lemma steady_trans: "steady s s' \<Longrightarrow> steady s' s'' \<Longrightarrow> steady s s''"
  by (simp add: steady_def)

lemma steady_wire:
  "poll_wire w as = Some (r, w') \<Longrightarrow> frames_ok (fs_flushed_offset (tw_shared w)) (tw_task w)
    \<Longrightarrow> steady (tw_shared w) (tw_shared w') \<and> frames_ok (fs_flushed_offset (tw_shared w)) (tw_task w')"
proof (induction as arbitrary: w)
  case Nil
  then show ?case
    by (subst (asm) poll_wire.simps) (auto simp: Let_def next_frame_ok split: option.splits prod.splits)
next
  case (Cons x as)
  obtain t where t: "next_frame (tw_task w) = Some t" using Cons.prems(1) by (subst (asm) poll_wire.simps) (auto split: option.splits)
  let ?u = "w\<lparr>tw_task := t\<rparr>"
  have ok: "frames_ok (fs_flushed_offset (tw_shared ?u)) (tw_task ?u)" using next_frame_ok [OF t] Cons.prems(2) by simp
  show ?case
  proof (cases "\<exists>n bs f a. x = Wrote n \<and> n \<noteq> 0 \<and> tk_wire_current t = Some (bs, f, a)")
    case False
    then show ?thesis using Cons.prems(1) t ok
      by (subst (asm) poll_wire.simps) (auto simp: Let_def split: option.splits prod.splits stream_write.splits if_splits)
  next
    case True
    then obtain n bs f a where n: "x = Wrote n" "n \<noteq> 0" "tk_wire_current t = Some (bs, f, a)" by blast
    show ?thesis
    proof (cases "n = length bs")
      case True
      then have p: "poll_wire (frame_written ?u f a) as = Some (r, w')" using Cons.prems(1) t n by (subst (asm) poll_wire.simps) simp
      moreover have "steady (tw_shared ?u) (tw_shared (frame_written ?u f a))"
        "frames_ok (fs_flushed_offset (tw_shared ?u)) (tw_task (frame_written ?u f a))"
        using steady_frame_written [OF ok, of bs f a] n(3) by simp_all
      ultimately show ?thesis using Cons.IH [OF p] by (simp add: steady_def)
    next
      case False
      then have p: "poll_wire (set_task (\<lambda>t. t\<lparr>tk_wire_current := Some (drop n bs, f, a)\<rparr>) ?u) as = Some (r, w')"
        using Cons.prems(1) t n by (subst (asm) poll_wire.simps) simp
      then show ?thesis using Cons.IH [OF p] frames_ok_drop [OF ok, of bs f a] n(3) by simp
    qed
  qed
qed

lemma conn_poll_wire: "poll_wire w as = Some (r, w') \<Longrightarrow> tw_conn w' = tw_conn w"
proof (induction as arbitrary: w)
  case Nil
  then show ?case by (subst (asm) poll_wire.simps) (auto simp: Let_def split: option.splits prod.splits)
next
  case (Cons a as)
  have "tw_conn (frame_written u f a) = tw_conn u" for u f a
    by (auto simp: frame_written_def Let_def split: option.splits prod.splits)
  then show ?case using Cons.prems
    by (subst (asm) poll_wire.simps)
      (auto simp: Let_def dest!: Cons.IH split: option.splits prod.splits stream_write.splits if_splits)
qed

lemma calm_terminal:
  assumes "replay_empty w" and "queue_terminal_frames w v = Some w'"
  shows "tw_shared w' = tw_shared w \<and> tk_replay (tw_task w') = tk_replay (tw_task w) \<and> tw_conn w' = tw_conn w
    \<and> (frames_ok m (tw_task w) \<longrightarrow> frames_ok m (tw_task w'))"
  using assms by (auto simp: queue_terminal_frames_def queue_control_def frames_ok_def replay_empty_def split: option.splits if_splits)

lemma calm_finish: "finish_send_if_ready w ok = (r, w') \<Longrightarrow> calm_view w' = calm_view w \<and> steady (tw_shared w) (tw_shared w')"
  by (auto simp: finish_send_if_ready_def calm_view_def steady_def Let_def split: if_splits)

lemma flush_lost_step: "flow_step y y' \<Longrightarrow> flush_lost y \<Longrightarrow> fy_accepted y' = fy_accepted y \<Longrightarrow> flush_lost y'"
proof (induction rule: flow_step.induct)
  case (hand_over bs y wk r s)
  then have "steady (fy_shared y) s" using steady_refused by (fastforce split: sum.splits option.splits)
  then show ?case using flush_lost_steady [OF hand_over(3)] by (simp add: calm_view_def)
next
  case (flush y wk r s)
  then show ?case using flush_lost_steady [OF flush(2)] steady_flush by (simp add: calm_view_def)
next
  case (shutdown y wk r s)
  then show ?case using flush_lost_steady [OF shutdown(2)] steady_shutdown by (simp add: calm_view_def)
next
  case (read y n wk r s b)
  then show ?case using flush_lost_steady [OF read(2)] steady_read by (simp add: calm_view_def)
next
  case (datagram y offset bs fin charge r s b)
  then show ?case using flush_lost_steady [OF datagram(2)] steady_insert by (simp add: calm_view_def insert_bytes_precharged_def)
next
  case (control m input n frame k y v w)
  have "replay_empty (fy_world y)" using control(4) by (simp add: flush_lost_def)
  from steady_control [OF this control(3)] show ?case using flush_lost_steady [OF control(4)] by simp
next
  case (feedback y v)
  then show ?case using flush_lost_steady [OF feedback(1)] steady_feedback by simp
next
  case (send y v wk progress w)
  then have "w = sync_datagram_enabled (fy_world y)" by (simp add: process_outbound_def Let_def flush_lost_def)
  then show ?case using flush_lost_steady [OF send(2)] by simp
next
  case (replay y v wk progress w)
  have "replay_empty (fy_world y)" using replay(2) by (simp add: flush_lost_def)
  from calm_poll_replay [OF this replay(1)] show ?case using flush_lost_steady [OF replay(2)] by simp
next
  case (terminal y v w)
  have "replay_empty (fy_world y)" using terminal(2) by (simp add: flush_lost_def)
  from calm_terminal [OF this terminal(1)] show ?case using terminal(2) by (simp add: flush_lost_def replay_empty_def)
next
  case (wire y answers r w)
  have "tk_replay (tw_task w) = tk_replay (tw_task (fy_world y))" using view_poll_wire [OF wire(1)] by (simp add: send_view_def)
  then show ?case using steady_wire [OF wire(1)] wire(2) by (simp add: flush_lost_def steady_def replay_empty_def)
next
  case (finish y ok r w)
  then show ?case using flush_lost_steady [OF finish(2)] calm_finish [OF finish(1)] by simp
next
  case (connection c y b)
  then show ?case by (simp add: flush_lost_def replay_empty_def)
qed

lemma accepted_grows: "flow_step y y' \<Longrightarrow> \<exists>bs. fy_accepted y' = fy_accepted y @ bs"
  by (induction rule: flow_step.induct) simp_all

lemma accepted_grows_star: "flow_step\<^sup>*\<^sup>* y y' \<Longrightarrow> \<exists>bs. fy_accepted y' = fy_accepted y @ bs"
proof (induction rule: rtranclp_induct)
  case (step y' y'')
  obtain a b where "fy_accepted y' = fy_accepted y @ a" "fy_accepted y'' = fy_accepted y' @ b"
    using step.IH accepted_grows [OF step(2)] by blast
  then show ?case by simp
qed simp

lemma flush_lost_reachable: "flow_step\<^sup>*\<^sup>* y y' \<Longrightarrow> flush_lost y \<Longrightarrow> fy_accepted y' = fy_accepted y \<Longrightarrow> flush_lost y'"
proof (induction rule: rtranclp_induct)
  case (step y' y'')
  obtain a b where "fy_accepted y' = fy_accepted y @ a" "fy_accepted y'' = fy_accepted y' @ b"
    using accepted_grows_star [OF step(1)] accepted_grows [OF step(2)] by blast
  then have "fy_accepted y' = fy_accepted y" using step.prems(2) by simp
  then show ?case using step.IH [OF step.prems(1)] flush_lost_step [OF step(2)] step.prems(2) by simp
qed simp

text \<open>A queue that cannot move: the first chunk is longer than any payload, every chunk the flow may hold is in use, and none of them is
  in the replay buffer, where an acknowledgement could release it.\<close>

definition chunks_stuck :: "flow_system \<Rightarrow> bool" where
  "chunks_stuck y \<longleftrightarrow> replay_empty (fy_world y) \<and> fs_replay_chunk_limit (fy_shared y) \<le> fs_retained_chunks (fy_shared y)
     \<and> fs_outbound (fy_shared y) \<noteq> []
     \<and> max (cr_max_symbol_bytes (tw_conn (fy_world y))) 1 < length (ob_bytes (hd (fs_outbound (fy_shared y))))"

definition stuck_view :: "task_world \<Rightarrow> replay_buffer \<times> usize" where
  "stuck_view w = (tk_replay (tw_task w), cr_max_symbol_bytes (tw_conn w))"

lemma stuck_view_calm: "calm_view w' = calm_view w \<Longrightarrow> stuck_view w' = stuck_view w"
  by (simp add: calm_view_def stuck_view_def)

lemma chunks_stuck_steady:
  assumes "chunks_stuck y" and "stuck_view (fy_world y') = stuck_view (fy_world y)" and "steady (fy_shared y) (fy_shared y')"
    and "fy_accepted y' = fy_accepted y"
  shows "chunks_stuck y' \<and> fs_outbound (fy_shared y') = fs_outbound (fy_shared y) \<and> fy_accepted y' = fy_accepted y"
  using assms by (simp add: chunks_stuck_def steady_def stuck_view_def replay_empty_def)

lemma payloads_below_symbol:
  "max_source_payload c n = Some k \<Longrightarrow> k \<le> cr_max_symbol_bytes c"
  "max_stream_payload c = Some k \<Longrightarrow> k \<le> max (cr_max_symbol_bytes c) 1"
  by (auto simp: max_source_payload_def max_stream_payload_def split: option.splits)

lemma stuck_process_outbound:
  assumes st: "chunks_stuck y" and r: "process_outbound (fy_world y) v wk = Some (Inr p, w')"
  shows "stuck_view w' = stuck_view (fy_world y) \<and> steady (fy_shared y) (tw_shared w')"
proof -
  define w where "w = sync_datagram_enabled (fy_world y)"
  have w: "tw_shared w = fy_shared y" "stuck_view w = stuck_view (fy_world y)" "tw_conn w = tw_conn (fy_world y)"
    by (simp_all add: w_def stuck_view_def sync_datagram_enabled_def)
  obtain ob rest where q: "fs_outbound (tw_shared w) = ob # rest"
      and long: "max (cr_max_symbol_bytes (tw_conn w)) 1 < length (ob_bytes ob)"
    using st w by (cases "fs_outbound (tw_shared w)") (simp_all add: chunks_stuck_def)
  define w1 where "w1 = w\<lparr>tw_shared := (tw_shared w)\<lparr>fs_outbound := rest\<rparr>\<rparr>"
  note r = r [unfolded process_outbound_def Let_def w_def [symmetric] q list.case w1_def [symmetric]]
  have same: "stuck_view (push_front ob u) = stuck_view (fy_world y) \<and> steady (fy_shared y) (tw_shared (push_front ob u))"
    if "tw_shared u = tw_shared w1" "stuck_view u = stuck_view w1" for u
    using that w q by (simp add: push_front_def stuck_view_def steady_def w1_def)
  have full: "fs_replay_chunk_limit (tw_shared w1) \<le> fs_retained_chunks (tw_shared w1)" using st w(1) by (simp add: chunks_stuck_def w1_def)
  have lim: "w' = push_front ob u"
    if "tw_shared u = tw_shared w1" "k \<le> max (cr_max_symbol_bytes (tw_conn w)) 1" "send_limited u v ob k wk = Some (Inr p, w')" for u k
    using that long full by (auto simp: send_limited_def Let_def split: if_splits option.splits)
  show ?thesis
  proof (cases "fs_peer_max_offset (tw_shared w) \<le> ob_offset ob")
    case True
    then show ?thesis using r same [of w1] by simp
  next
    case False
    obtain n where n: "max_source_payload (tw_conn w1) (bv_max_datagram_size v) = Some n" using r False by (auto split: option.splits)
    define w2 where "w2 = (if tk_datagram_enabled (tw_task w1) \<and> n = 0 then set_task (\<lambda>t. t\<lparr>tk_datagram_enabled := False\<rparr>) w1 else w1)"
    note r = r [unfolded n option.case if_not_P [OF False] w2_def [symmetric]]
    obtain k where k: "(if tk_datagram_enabled (tw_task w2) then Some n else max_stream_payload (tw_conn w2)) = Some k"
        "send_limited w2 v ob k wk = Some (Inr p, w')"
      using r by (cases "if tk_datagram_enabled (tw_task w2) then Some n else max_stream_payload (tw_conn w2)") (simp_all split: if_splits)
    have w2: "tw_shared w2 = tw_shared w1" "stuck_view w2 = stuck_view w1" "tw_conn w2 = tw_conn w" "tw_conn w1 = tw_conn w"
      by (simp_all add: w2_def w1_def stuck_view_def)
    have "k \<le> max (cr_max_symbol_bytes (tw_conn w)) 1"
      using k(1) payloads_below_symbol(1) [OF n] payloads_below_symbol(2) [of "tw_conn w" k] w2 by (auto split: if_splits)
    then show ?thesis using lim [OF w2(1) _ k(2)] same [OF w2(1,2)] by simp
  qed
qed

lemma chunks_stuck_step:
  "flow_step y y' \<Longrightarrow> chunks_stuck y
    \<Longrightarrow> chunks_stuck y' \<and> fs_outbound (fy_shared y') = fs_outbound (fy_shared y) \<and> fy_accepted y' = fy_accepted y"
proof (induction rule: flow_step.induct)
  case (hand_over bs y wk r s)
  then have n: "\<forall>e. r \<noteq> Inr (Some e)" by (auto simp: chunks_stuck_def enqueue_def enqueue_ready_def split: option.splits if_splits)
  then have "(case r of Inr (Some _) \<Rightarrow> bs | _ \<Rightarrow> []) = []" by (auto split: sum.split option.split)
  then show ?case using steady_refused [OF hand_over(2) n] by (intro chunks_stuck_steady [OF hand_over(3)]) (simp_all add: stuck_view_def)
next
  case (flush y wk r s)
  then show ?case using steady_flush [OF flush(1)] by (intro chunks_stuck_steady [OF flush(2)]) (simp_all add: stuck_view_def)
next
  case (shutdown y wk r s)
  then show ?case using steady_shutdown [OF shutdown(1)] by (intro chunks_stuck_steady [OF shutdown(2)]) (simp_all add: stuck_view_def)
next
  case (read y n wk r s b)
  then show ?case using steady_read [OF read(1)] by (intro chunks_stuck_steady [OF read(2)]) (simp_all add: stuck_view_def)
next
  case (datagram y offset bs fin charge r s b)
  then show ?case using steady_insert [OF datagram(1) [unfolded insert_bytes_precharged_def]]
    by (intro chunks_stuck_steady [OF datagram(2)]) (simp_all add: stuck_view_def)
next
  case (control m input n frame k y v w)
  have "replay_empty (fy_world y)" using control(4) by (simp add: chunks_stuck_def)
  from steady_control [OF this control(3)] show ?case by (intro chunks_stuck_steady [OF control(4)] stuck_view_calm) simp_all
next
  case (feedback y v)
  then show ?case using steady_feedback by (intro chunks_stuck_steady [OF feedback] stuck_view_calm) simp_all
next
  case (send y v wk progress w)
  then show ?case using stuck_process_outbound [OF send(2,1)] by (intro chunks_stuck_steady [OF send(2)]) simp_all
next
  case (replay y v wk progress w)
  have "replay_empty (fy_world y)" using replay(2) by (simp add: chunks_stuck_def)
  from calm_poll_replay [OF this replay(1)] show ?case by (intro chunks_stuck_steady [OF replay(2)] stuck_view_calm) simp_all
next
  case (terminal y v w)
  have "replay_empty (fy_world y)" using terminal(2) by (simp add: chunks_stuck_def)
  from calm_terminal [OF this terminal(1)] show ?case by (intro chunks_stuck_steady [OF terminal(2)]) (simp_all add: stuck_view_def)
next
  case (wire y answers r w)
  have "send_view w = send_view (fy_world y)" by (rule view_poll_wire [OF wire(1)])
  then show ?case using wire(2) conn_poll_wire [OF wire(1)] by (simp add: chunks_stuck_def send_view_def sending_def replay_empty_def)
next
  case (finish y ok r w)
  then show ?case using calm_finish [OF finish(1)] by (intro chunks_stuck_steady [OF finish(2)] stuck_view_calm) simp_all
next
  case (connection c y b)
  then show ?case by (simp add: chunks_stuck_def replay_empty_def)
qed

subsection \<open>Both are reached\<close>

lemma control_step:
  assumes "m \<le> usize_max" and "control_frame_ok a m frame" and "apply_control (fy_world y) v frame = Some (Inr (), w)"
  shows "flow_step y (with_world w y\<lparr>fy_acked := fy_acked y \<union> reported frame\<rparr>)"
  by (rule flow_step.control [OF assms(1) decode_control_encode [OF assms(1,2), of "[]"] assms(3)])

lemma sample_frames_ok: "control_frame_ok 4 64 (CfMaxOffset 9)" "control_frame_ok 4 64 (CfAck 2 [])"
  by (simp_all add: control_frame_ok_def control_wire_def encode_control_def encode_varint_def MAX_WIRE_OFFSET_def
      encode_payload.simps u8_try_from_def encode_ack_ranges_def)

definition sample_credit :: flow_system where
  "sample_credit = with_world ((fy_world sample_write)\<lparr>tw_shared := (fy_shared sample_write)\<lparr>fs_peer_max_offset := 9\<rparr>\<rparr>) sample_write"

lemma sample_credit_step: "flow_step sample_write sample_credit"
proof -
  have "apply_control (fy_world sample_write) sample_view (CfMaxOffset 9)
      = Some (Inr (), (fy_world sample_write)\<lparr>tw_shared := (fy_shared sample_write)\<lparr>fs_peer_max_offset := 9\<rparr>\<rparr>)"
    by (simp add: apply_control_def sample_write_facts flow_state_new_def wake_task_def)
  from control_step [OF _ sample_frames_ok(1) this] show ?thesis by (simp add: usize_max_def sample_credit_def with_world_def)
qed

text \<open>Sending a chunk that fits as a datagram, when no flush is under way.\<close>

lemma process_outbound_datagram:
  assumes "fs_outbound (tw_shared w) = [ob]" and "tk_datagram_enabled (tw_task w)" and "cr_datagram_enabled (tw_conn w)"
    and "max_source_payload (tw_conn w) (bv_max_datagram_size v) = Some n" and "length (ob_bytes ob) \<le> n" and "ob_bytes ob \<noteq> []"
    and "ob_offset ob + length (ob_bytes ob) \<le> fs_peer_max_offset (tw_shared w)" and "fs_peer_max_offset (tw_shared w) \<le> wire_max"
    and "length (dq_pending (cr_datagrams (tw_conn w))) < dq_capacity (cr_datagrams (tw_conn w))" and "tk_flow_id (tw_task w) \<le> MAX_WIRE_OFFSET"
    and "rp_retain (tk_replay (tw_task w)) (ob_offset ob) (ob_bytes ob) = Inr r" and "fs_flush_target (tw_shared w) = None"
  shows "\<exists>w'. process_outbound w v wk = Some (Inr True, w') \<and> tw_shared w' = (tw_shared w)\<lparr>fs_outbound := []\<rparr>
    \<and> tk_replay (tw_task w') = r \<and> tk_wire_queue (tw_task w') = tk_wire_queue (tw_task w)
    \<and> tk_wire_current (tw_task w') = tk_wire_current (tw_task w)
    \<and> active_capabilities (tw_conn w') = active_capabilities (tw_conn w)"
proof -
  obtain q c where s: "send_source (tw_conn w) (tk_flow_id (tw_task w)) (ob_offset ob) (ob_bytes ob) False wk = Some (q, c)"
    using send_source_total [of "tk_flow_id (tw_task w)" "ob_bytes ob" "ob_offset ob"] assms(6-8,10) by force
  have q: "q = Inr True" using s assms(3,9) by (auto simp: send_source_def Let_def split: prod.splits sum.splits)
  let ?u = "w\<lparr>tw_shared := (tw_shared w)\<lparr>fs_outbound := []\<rparr>\<rparr>"
  let ?z = "?u\<lparr>tw_conn := c, tw_task := (tw_task w)\<lparr>tk_replay := r\<rparr>\<rparr>"
  obtain k where k: "length (ob_bytes ob) = Suc k" using assms(6) by (cases "ob_bytes ob") auto
  have n: "n \<noteq> 0" "sync_datagram_enabled w = w" "\<not> fs_peer_max_offset (tw_shared w) \<le> ob_offset ob"
    "checked_add (ob_offset ob) (length (ob_bytes ob)) = Some (ob_offset ob + length (ob_bytes ob))"
    "length (ob_bytes ob) \<le> fs_peer_max_offset (tw_shared w) - ob_offset ob"
    using assms k by (auto simp: sync_datagram_enabled_def usize_max_def wire_max_value)
  have c: "send_chunk ?u v ob e wk = Some (Inr (Some True), arm_replay_timer ?z v)" for e
    using assms(2,11) s q by (simp add: send_chunk_def)
  have "tw_shared (arm_replay_timer ?z v) = (tw_shared w)\<lparr>fs_outbound := []\<rparr>"
    by (auto simp: arm_replay_timer_def split: prod.splits)
  then have "send_outbound ?u v ob wk = Some (Inr True, arm_replay_timer ?z v)"
    unfolding send_outbound_def n(4) option.case c Let_def using assms(12) by simp
  then have "process_outbound w v wk = Some (Inr True, arm_replay_timer ?z v)"
    using assms n(1-3,5) by (simp add: process_outbound_def send_limited_def Let_def)
  moreover have "active_capabilities c = active_capabilities (tw_conn w)"
    by (rule active_capabilities_cong) (use s in \<open>auto simp: send_source_def Let_def split: if_splits prod.splits sum.splits\<close>)
  moreover have "active_capabilities (snd (replay_delay c rtts)) = active_capabilities c" for rtts
    by (rule active_capabilities_cong) (simp_all add: replay_delay_def Let_def)
  ultimately show ?thesis by (auto simp: arm_replay_timer_def split: prod.splits) (metis snd_conv)
qed

text \<open>An acknowledgement that releases everything.\<close>

lemma apply_ack_all:
  assumes "rp_acknowledge (tk_replay (tw_task w)) a = ((nb, nc), r)" and "nb \<noteq> 0" and "nb \<le> fs_retained_bytes (tw_shared w)"
    and "nc \<le> fs_retained_chunks (tw_shared w)"
  shows "\<exists>w'. apply_ack w v a = Some w' \<and> tk_replay (tw_task w') = r \<and> tk_wire_queue (tw_task w') = tk_wire_queue (tw_task w)
    \<and> tk_wire_current (tw_task w') = tk_wire_current (tw_task w)
    \<and> tw_shared w' = wake_write ((tw_shared w)\<lparr>fs_retained_bytes := fs_retained_bytes (tw_shared w) - nb,
        fs_retained_chunks := fs_retained_chunks (tw_shared w) - nc\<rparr>)"
  using assms by (auto simp: apply_ack_def Let_def checked_sub_def restart_replay_timer_def split: prod.splits)

lemma flush_lost_reached: "\<exists>y. flow_step\<^sup>*\<^sup>* sample_start y \<and> flush_lost y \<and> fy_accepted y = [7, 8] \<and> fy_acked y = {..<2}"
proof -
  let ?w = "fy_world sample_credit" and ?ob = "\<lparr>ob_offset = 0, ob_bytes = [7, 8 :: u8]\<rparr>"
  let ?r = "(rp_new (256 * 1024))\<lparr>rp_bytes := 2, rp_chunks := [(0, [7, 8])]\<rparr>"
  have caps: "\<exists>caps. active_capabilities (tw_conn ?w) = Some caps \<and> unat (cap_max_ack_ranges caps) = 16"
    "max_source_payload (tw_conn ?w) (Some 1200) = Some n \<Longrightarrow> 2 \<le> n" for n
    by (auto simp: sample_credit_def sample_write_facts sample_shared recovery_start_def active_capabilities_def recovery_capabilities_def
        recovery_config_default_def max_source_payload_def REPAIR_DATAGRAM_HEADER_BYTES_def SINGLE_SOURCE_MAX_OVERHEAD_def
        unsigned_of_nat take_bit_nat_eq_self)
  then obtain n where n: "max_source_payload (tw_conn ?w) (bv_max_datagram_size sample_view) = Some n" "2 \<le> n"
    by (auto simp: sample_view_def max_source_payload_def)
  have "rp_retain (tk_replay (tw_task ?w)) 0 [7, 8] = Inr ?r"
    by (simp add: sample_credit_def sample_write_facts sample_shared rp_retain_def rp_new_def checked_end_ok wire_max_value bt_below_def
        bt_last_def saturating_add_def usize_max_def replay_chunk_limit_def)
  then have "\<exists>w'. process_outbound ?w sample_view 1 = Some (Inr True, w') \<and> tw_shared w' = (tw_shared ?w)\<lparr>fs_outbound := []\<rparr>
    \<and> tk_replay (tw_task w') = ?r \<and> tk_wire_queue (tw_task w') = tk_wire_queue (tw_task ?w)
    \<and> tk_wire_current (tw_task w') = tk_wire_current (tw_task ?w) \<and> active_capabilities (tw_conn w') = active_capabilities (tw_conn ?w)"
    using n by (intro process_outbound_datagram [where ob = ?ob and n = n])
      (simp_all add: sample_credit_def sample_write_facts sample_shared recovery_start_def recovery_config_default_def wire_max_value
        MAX_WIRE_OFFSET_def flow_state_new_def)
  then obtain w' where w': "process_outbound ?w sample_view 1 = Some (Inr True, w')" "tw_shared w' = (tw_shared ?w)\<lparr>fs_outbound := []\<rparr>"
    "tk_replay (tw_task w') = ?r" "tk_wire_queue (tw_task w') = []" "tk_wire_current (tw_task w') = None"
    "active_capabilities (tw_conn w') = active_capabilities (tw_conn ?w)"
    by (auto simp: sample_credit_def sample_write_facts sample_shared)
  let ?y = "with_world w' sample_credit"
  have "max_ack_ranges (tw_conn w') = Some 16" using caps(1) w'(6) by (auto simp: max_ack_ranges_def)
  moreover have "fs_next_send_offset (tw_shared w') = 2" "fs_retained_bytes (tw_shared w') = 2" "fs_retained_chunks (tw_shared w') = 1"
    by (simp_all add: w'(2) sample_credit_def sample_write_facts)
  moreover have "ack_from_wire 2 [] 16 2 = Inr \<lparr>ak_contiguous = 2, ak_ranges = [], ak_max_ranges = 16\<rparr>"
    by (simp add: ack_from_wire_def ack_new_def)
  moreover have "rp_acknowledge ?r \<lparr>ak_contiguous = 2, ak_ranges = [], ak_max_ranges = 16\<rparr> = ((2, 1), rp_new (256 * 1024))"
    by (simp add: rp_acknowledge_def rp_new_def chunk_covered_def end_or_max_ok wire_max_value Let_def)
  ultimately have "\<exists>w. apply_control w' sample_view (CfAck 2 []) = Some (Inr (), w) \<and> tk_replay (tw_task w) = rp_new (256 * 1024)
      \<and> tk_wire_queue (tw_task w) = [] \<and> tk_wire_current (tw_task w) = None \<and> fs_outbound (tw_shared w) = [] \<and> fs_error (tw_shared w) = None \<and> fs_flushed_offset (tw_shared w) = 0 \<and> fs_next_send_offset (tw_shared w) = 2"
    using apply_ack_all [of w' "\<lparr>ak_contiguous = 2, ak_ranges = [], ak_max_ranges = 16\<rparr>" 2 1 "rp_new (256 * 1024)" sample_view] w'(3-5)
    by (auto simp: apply_control_def w'(2) sample_credit_def sample_write_facts flow_state_new_def)
  then obtain w where w: "apply_control (fy_world ?y) sample_view (CfAck 2 []) = Some (Inr (), w)" "tk_replay (tw_task w) = rp_new (256 * 1024)"
    "tk_wire_queue (tw_task w) = []" "tk_wire_current (tw_task w) = None" "fs_outbound (tw_shared w) = []" "fs_error (tw_shared w) = None"
    "fs_flushed_offset (tw_shared w) = 0" "fs_next_send_offset (tw_shared w) = 2" by auto
  let ?z = "with_world w ?y\<lparr>fy_acked := fy_acked ?y \<union> reported (CfAck 2 [])\<rparr>"
  have "flow_step ?y ?z" using control_step [OF _ sample_frames_ok(2) w(1)] by (simp add: usize_max_def)
  moreover have "flow_step sample_credit ?y" by (rule flow_step.send [OF w'(1)])
  ultimately have "flow_step\<^sup>*\<^sup>* sample_start ?z"
    using sample_write_step sample_credit_step by (meson converse_rtranclp_into_rtranclp r_into_rtranclp)
  moreover have "flush_lost ?z" using w by (simp add: flush_lost_def replay_empty_def frames_ok_def rp_new_def)
  moreover have "fy_accepted ?z = [7, 8]" "fy_acked ?z = {..<2}" by (simp_all add: sample_credit_def sample_write_facts range_set_def)
  ultimately show ?thesis by blast
qed

text \<open>A flow fills its chunks with small writes behind a large one.\<close>

lemma writes_reach:
  assumes "\<forall>bs \<in> set bss. bs \<noteq> []" and "fs_error (fy_shared y) = None" and "fs_shutdown_target (fy_shared y) = None"
    and "fs_retained_bytes (fy_shared y) + sum_list (map length bss) \<le> fs_replay_limit (fy_shared y)" and "fs_replay_limit (fy_shared y) \<le> usize_max"
    and "fs_retained_chunks (fy_shared y) + length bss \<le> fs_replay_chunk_limit (fy_shared y)"
    and "fs_next_send_offset (fy_shared y) + sum_list (map length bss) \<le> usize_max"
  shows "\<exists>y' q. flow_step\<^sup>*\<^sup>* y y' \<and> tw_task (fy_world y') = tw_task (fy_world y) \<and> tw_conn (fy_world y') = tw_conn (fy_world y)
    \<and> fs_outbound (fy_shared y') = fs_outbound (fy_shared y) @ q \<and> map ob_bytes q = bss
    \<and> fs_retained_chunks (fy_shared y') = fs_retained_chunks (fy_shared y) + length bss
    \<and> fs_replay_chunk_limit (fy_shared y') = fs_replay_chunk_limit (fy_shared y)"
  using assms
proof (induction bss arbitrary: y)
  case Nil
  then show ?case by (intro exI [of _ y] exI [of _ "[]"]) simp
next
  case (Cons bs bss)
  let ?s = "fy_shared y"
  let ?ob = "\<lparr>ob_offset = fs_next_send_offset ?s, ob_bytes = bs\<rparr>"
  have e: "enqueue ?s bs 0 = (Inr (Some (fs_next_send_offset ?s + length bs)), wake_task (?s\<lparr>fs_next_send_offset := fs_next_send_offset ?s + length bs,
      fs_retained_bytes := fs_retained_bytes ?s + length bs, fs_retained_chunks := fs_retained_chunks ?s + 1,
      fs_outbound := fs_outbound ?s @ [?ob]\<rparr>))"
    using Cons.prems by (intro enqueue_accepts) simp_all
  let ?y = "with_shared (snd (enqueue ?s bs 0)) y\<lparr>fy_accepted := fy_accepted y @ bs\<rparr>"
  have step: "flow_step y ?y" using flow_step.hand_over [OF _ e] Cons.prems(1) by (simp add: e)
  have "\<exists>y' q. flow_step\<^sup>*\<^sup>* ?y y' \<and> tw_task (fy_world y') = tw_task (fy_world ?y) \<and> tw_conn (fy_world y') = tw_conn (fy_world ?y)
    \<and> fs_outbound (fy_shared y') = fs_outbound (fy_shared ?y) @ q \<and> map ob_bytes q = bss
    \<and> fs_retained_chunks (fy_shared y') = fs_retained_chunks (fy_shared ?y) + length bss
    \<and> fs_replay_chunk_limit (fy_shared y') = fs_replay_chunk_limit (fy_shared ?y)"
    using Cons.prems by (intro Cons.IH) (simp_all add: e wake_task_def split: option.splits)
  then obtain y' q where y': "flow_step\<^sup>*\<^sup>* ?y y'" "tw_task (fy_world y') = tw_task (fy_world y)" "tw_conn (fy_world y') = tw_conn (fy_world y)"
    "fs_outbound (fy_shared y') = fs_outbound ?s @ [?ob] @ q" "map ob_bytes q = bss"
    "fs_retained_chunks (fy_shared y') = fs_retained_chunks ?s + 1 + length bss" "fs_replay_chunk_limit (fy_shared y') = fs_replay_chunk_limit ?s"
    by (auto simp: e)
  have "flow_step\<^sup>*\<^sup>* y y'" using converse_rtranclp_into_rtranclp [OF step y'(1)] .
  then show ?case using y' by (intro exI [of _ y'] exI [of _ "?ob # q"]) simp
qed

lemma chunks_stuck_reached: "\<exists>y. flow_step\<^sup>*\<^sup>* sample_start y \<and> chunks_stuck y"
proof -
  let ?bss = "replicate 1300 (0 :: u8) # replicate 4095 [0]"
  have "\<exists>y' q. flow_step\<^sup>*\<^sup>* sample_start y' \<and> tw_task (fy_world y') = tw_task (fy_world sample_start)
    \<and> tw_conn (fy_world y') = tw_conn (fy_world sample_start) \<and> fs_outbound (fy_shared y') = fs_outbound (fy_shared sample_start) @ q
    \<and> map ob_bytes q = ?bss \<and> fs_retained_chunks (fy_shared y') = fs_retained_chunks (fy_shared sample_start) + length ?bss
    \<and> fs_replay_chunk_limit (fy_shared y') = fs_replay_chunk_limit (fy_shared sample_start)"
    by (rule writes_reach)
      (simp_all add: sample_shared flow_state_new_def usize_max_def replay_chunk_limit_def sum_list_replicate)
  then obtain y q where y: "flow_step\<^sup>*\<^sup>* sample_start y" "tw_task (fy_world y) = tw_task (fy_world sample_start)"
    "tw_conn (fy_world y) = tw_conn (fy_world sample_start)" "fs_outbound (fy_shared y) = q" "map ob_bytes q = ?bss"
    "fs_retained_chunks (fy_shared y) = 4096" "fs_replay_chunk_limit (fy_shared y) = 4096"
    by (auto simp: sample_shared flow_state_new_def replay_chunk_limit_def)
  have "q \<noteq> []" "length (ob_bytes (hd q)) = 1300" using y(5) by (cases q; simp)+
  then have "chunks_stuck y"
    using y by (simp add: chunks_stuck_def replay_empty_def sample_shared rp_new_def recovery_start_def)
  then show ?thesis using y(1) by blast
qed

lemma chunks_stuck_reachable:
  "flow_step\<^sup>*\<^sup>* y y' \<Longrightarrow> chunks_stuck y
    \<Longrightarrow> chunks_stuck y' \<and> fs_outbound (fy_shared y') = fs_outbound (fy_shared y) \<and> fy_accepted y' = fy_accepted y"
proof (induction rule: rtranclp_induct)
  case (step y' y'')
  then show ?case using chunks_stuck_step [OF step(2)] by simp
qed simp

subsection \<open>Properties\<close>

text \<open>C36: a flush can be lost.  Once the octets written so far were sent as datagrams while no flush was requested, and acknowledged,
  a flush of the flow stays pending whatever the handle, the task and the connection do, until the application writes again: only sending
  or framing an octet advances the flushed offset, an acknowledgement does not.\<close>

theorem lost_flush_never_completes:
  assumes "flush_lost y" and "flow_step\<^sup>*\<^sup>* y y'" and "fy_accepted y' = fy_accepted y"
  shows "fst (request_flush (fy_shared y') wk) = Inr False"
  using flush_lost_reachable [OF assms(2,1,3)] by (simp add: flush_lost_def request_flush_def Let_def)

theorem lost_flush_never_completes_witness:
  "\<exists>y0 y. flow_start 4 0 (recovery_start recovery_config_default 1200) (budget_new 0 1000000) = Some y0 \<and> flow_step\<^sup>*\<^sup>* y0 y
    \<and> fy_accepted y = [7, 8] \<and> fy_acked y = {..<2} \<and> fst (request_flush (fy_shared y) 5) = Inr False"
proof -
  obtain y where y: "flow_step\<^sup>*\<^sup>* sample_start y" "flush_lost y" "fy_accepted y = [7, 8]" "fy_acked y = {..<2}"
    using flush_lost_reached by blast
  have "fst (request_flush (fy_shared y) 5) = Inr False" by (rule lost_flush_never_completes [OF y(2)]) simp_all
  then show ?thesis using sample_start y by blast
qed

text \<open>C37: a send queue can stop for good.  When every chunk a flow may hold is queued, none of them awaits an acknowledgement, and the
  first is longer than a symbol, then it is never sent and nothing more is accepted, whatever the handle, the task and the connection
  do: sending it needs a chunk for its remainder, and no acknowledgement can release one.\<close>

theorem full_queue_never_moves:
  assumes "chunks_stuck y" and "flow_step\<^sup>*\<^sup>* y y'"
  shows "fs_outbound (fy_shared y') = fs_outbound (fy_shared y) \<and> fy_accepted y' = fy_accepted y"
  using chunks_stuck_reachable [OF assms(2,1)] by simp

theorem full_queue_never_moves_witness:
  "\<exists>y0 y y'. flow_start 4 0 (recovery_start recovery_config_default 1200) (budget_new 0 1000000) = Some y0 \<and> flow_step\<^sup>*\<^sup>* y0 y
    \<and> flow_step y y' \<and> fs_outbound (fy_shared y') = fs_outbound (fy_shared y) \<and> fs_outbound (fy_shared y) \<noteq> []"
proof -
  obtain y where y: "flow_step\<^sup>*\<^sup>* sample_start y" "chunks_stuck y" using chunks_stuck_reached by blast
  let ?y = "with_world (queue_pending_feedback (fy_world y) sample_view) y"
  have s: "flow_step y ?y" by (rule flow_step.feedback)
  have "fs_outbound (fy_shared ?y) = fs_outbound (fy_shared y)"
    using full_queue_never_moves [OF y(2), of ?y] s by (simp add: r_into_rtranclp)
  moreover have "fs_outbound (fy_shared y) \<noteq> []" using y(2) by (simp add: chunks_stuck_def)
  ultimately show ?thesis using sample_start y(1) s by blast
qed

end
