(* ===== verification/Spec2Isabelle.thy ===== *)
theory Spec2Isabelle
  imports Wire_Datagrams Fec_Soundness Reassembler Replay_Admission Packet_Ring Fake_Tcp_Carrier Connection_Delivery Flow_Stalls
begin

text \<open>
  A verification library for QUICP, a proxy transport over QUIC (Rust crate under src/src/).

  \<^bold>\<open>The program.\<close>  A connection carries flows.  A flow is a QUIC stream whose octets travel, as long as the path allows it, in
  unreliable DATAGRAM frames: a SOURCE datagram holds records of flows and is a numbered symbol, and a REPAIR datagram is a linear combination of
  consecutive symbols over GF(256), from which the receiver solves for lost symbols.  What is not acknowledged in time is replayed, in the end on the
  stream itself.  The receiver reassembles the records of every flow into its stream and acknowledges ranges of offsets.  All memory
  that waits for something is charged to a budget the connections share.  Beside that, a server admits early data at most once, a ring
  of packet buffers connects the host's threads, and the FakeTCP carrier disguises packets as TCP segments.

  \<^bold>\<open>Conventions.\<close>  Machine integers are words of their width; \<open>usize\<close> and offsets of the recovery layer are natural numbers with the checked,
  saturating and wrapping operations of the source written out (\<open>usize_max\<close> is that of a 64-bit target).  \<open>Result\<close> is a sum with
  \<open>rbind\<close> for the question mark; a panic or failed \<open>expect\<close> is \<open>None\<close>, so that a theorem about \<open>Some\<close> shows its absence.  Ordered maps are sorted
  association lists.  The memory budget is passed through every operation and \<open>Drop\<close> is written where a value dies.  HMAC, CRC32c, randomness, the clock and
  the answers of the QUIC backend are arguments.  Wakers are numbers and waking is a log.  Where threads or tasks
  interleave, the critical sections are steps of an inductive relation and the theorems quantify over its reachable states.

  \<^bold>\<open>Theories.\<close>
  \<^item> \<open>Quicp_Prelude\<close>: types, results, checked arithmetic, big-endian conversions, the lemma collections.
  \<^item> \<open>Wire_Codec\<close>, \<open>Wire_Frames\<close>, \<open>Wire_Datagrams\<close> (wire.rs): variable integers and the bounded cursor; control frames; SOURCE and REPAIR.  A frame
    within the limits decodes back to itself, and whatever a decoder accepts is the encoding of what it returns.
  \<^item> \<open>GF256\<close>, \<open>Fec_Matrix\<close>, \<open>Fec_Elimination\<close> (fec.rs): the field, shown to be one; rows and the Gauss-Jordan loop under a work
    budget; within it the loop returns exactly the symbols the equations determine.
  \<^item> \<open>Memory_Budget\<close> (recovery.rs): the atomic budget as an interleaving of compare-exchange loops, and owned charges.
  \<^item> \<open>Fec_Decoder\<close>, \<open>Fec_Accounting\<close>, \<open>Fec_Soundness\<close> (fec.rs): the bounded decoder; it never panics and leaks no memory; with the symbols of
    one sender it outputs only symbols that were sent, and recovers a single loss.
  \<^item> \<open>Ack_Ranges\<close>, \<open>Chunk_Map\<close>, \<open>Replay_Buffer\<close>, \<open>Reassembler\<close> (recovery.rs): range sets, maps of chunks by offset, what is kept for
    replay, and reassembly.  Each is related to the set of offsets or the partial stream it stands for.
  \<^item> \<open>Replay_Admission\<close> (session.rs): tokens, the cache of attempts, admission of a session.
  \<^item> \<open>Packet_Ring\<close> (packet_ring.rs): the pool of buffers and the queue, sequentially and interleaved.
  \<^item> \<open>Fake_Tcp_Codec\<close>, \<open>Fake_Tcp_Carrier\<close> (faketcp.rs): checksums, segments, the two halves of a path, SYN cookies.
  \<^item> \<open>Flow_State\<close>, \<open>Flow_Task\<close> (flow.rs): the state shared by the handle of a flow and its task, and every step of the task.
    \<open>Flow_Sending\<close> shows that no accepted octet is lost before it is acknowledged or the flow ends, \<open>Flow_Stalls\<close> two reachable states from which a flow never moves on.
  \<^item> \<open>Connection_Recovery\<close> (recovery.rs, the recovery section of config.rs): the state of a connection, negotiation, the repair budget and
    sending.  \<open>Connection_Sender\<close> shows that whatever it sends is honest.
  \<^item> \<open>Connection_Receiver\<close> (recovery.rs): registration of flows, early records, reservations, dispatch, reception of a datagram.
    \<open>Connection_Accounting\<close> states in a locale what these rely on and shows that each keeps the accounts; \<open>Connection_Delivery\<close> interprets it twice, for
    whatever arrives (no panic, no leak) and for the datagrams of an honest sender (an application reads a prefix of what its peer wrote).

  \<^bold>\<open>Bounds.\<close>  No loop needs fuel to end: the loops are structural or carry a termination proof.  \<open>dispatch_symbols\<close> counts the symbols of the
  batch down and \<open>flow_turns\<close> is bounded by the turn budget of the source.  The theorems on honest sending and on delivery stop at \<open>2 ^ 32\<close> symbols,
  where their numbers wrap around.

  \<^bold>\<open>Not modelled.\<close>  Opening, accepting and rejecting flows, the endpoint, the multipath manager and the host runtime (flow.rs beside the task, transport.rs,
  multipath.rs, host_carrier.rs, host_runtime.rs) are asynchronous orchestration of the vendored backend, whose behaviour is not part of this crate; the codecs
  and the admission they call are modelled.  The congestion and header-protection adapters (congestion.rs, header_protection.rs) forward calls.  The
  no-TLS handshake (no_security.rs) implements traits of the backend.  The configuration schema outside the recovery section (config.rs) is
  declarative.  platform.rs, smolstack.rs, the raw sockets under faketcp/, ffi.rs and the mobile bindings are operating-system or
  foreign interfaces.  An allocator that returns more capacity than it was asked for is not modelled.
\<close>

end
